(* ===== verification/Oonf_Prelude.thy ===== *)
theory Oonf_Prelude
  imports Main "HOL-Library.Word"
begin

unbundle bit_operations_syntax

section \<open>Shared types, faults and word lemmas\<close>

text \<open>
  The part of the library every component imports.

  \<^item> \<open>u8\<close> \dots \<open>u64\<close>: the unsigned integer types of the C code, at their width.
  \<^item> \<open>fault\<close>: what makes the behaviour of the C code undefined (a read or write outside an
    object, a division by zero, the use of a null pointer), \<open>Assert_Failed\<close>, an assertion that stops the
    program, and \<open>Hang\<close>, a loop that does not
    end. A function of the code that can do so returns
    \<open>fault + 'a\<close>; \<open>Inl\<close> is the undefined behaviour, so a theorem that a call is
    \<open>Inr\<close> is a memory safety theorem.
  \<^item> \<open>rd\<close>: the checked read of an array; \<open>memcpy_in\<close>: the checked bounded copy.
  \<^item> the collections \<open>word_facts\<close> and \<open>fault_simps\<close>, and the generic lemmas on words
    and lists the component proofs share.
\<close>

type_synonym u8 = "8 word"
type_synonym u16 = "16 word"
type_synonym u32 = "32 word"
type_synonym u64 = "64 word"

named_theorems word_facts \<open>reading shifts and increments of machine words as nat arithmetic\<close>
named_theorems fault_simps \<open>evaluation of checked memory accesses\<close>

subsection \<open>Undefined behaviour as a value\<close>

datatype fault = OOB_Read | OOB_Write | Div_By_Zero | Null_Deref | Hang | Assert_Failed

definition rd :: "'a list \<Rightarrow> nat \<Rightarrow> fault + 'a" where
  "rd buf i = (if i < length buf then Inr (buf ! i) else Inl OOB_Read)"

definition bind_f :: "fault + 'a \<Rightarrow> ('a \<Rightarrow> fault + 'b) \<Rightarrow> fault + 'b" where
  "bind_f m f = (case m of Inl e \<Rightarrow> Inl e | Inr a \<Rightarrow> f a)"

text \<open>\<open>memcpy_in dst at src\<close> writes the bytes \<open>src\<close> into \<open>dst\<close> from index \<open>at\<close> on.\<close>

definition memcpy_in :: "'a list \<Rightarrow> nat \<Rightarrow> 'a list \<Rightarrow> fault + 'a list" where
  "memcpy_in dst at src =
     (if at + length src \<le> length dst
      then Inr (take at dst @ src @ drop (at + length src) dst)
      else Inl OOB_Write)"

text \<open>\<open>slice buf i n\<close> reads \<open>n\<close> elements from index \<open>i\<close> on.\<close>

definition slice :: "'a list \<Rightarrow> nat \<Rightarrow> nat \<Rightarrow> fault + 'a list" where
  "slice buf i n = (if i + n \<le> length buf then Inr (take n (drop i buf)) else Inl OOB_Read)"

text \<open>Integer division of C rounds towards zero.\<close>

definition c_div :: "int \<Rightarrow> int \<Rightarrow> int" where
  "c_div a b = sgn a * sgn b * (\<bar>a\<bar> div \<bar>b\<bar>)"

lemma c_div_nonneg: "0 \<le> a \<Longrightarrow> 0 < b \<Longrightarrow> c_div a b = a div b"
  by (cases "a = 0") (auto simp: c_div_def)

lemma bind_f_Inr [simp, fault_simps]: "bind_f (Inr a) f = f a"
  by (simp add: bind_f_def)

lemma bind_f_Inl [simp, fault_simps]: "bind_f (Inl e) f = Inl e"
  by (simp add: bind_f_def)

lemma rd_Inr [simp, fault_simps]: "i < length buf \<Longrightarrow> rd buf i = Inr (buf ! i)"
  by (simp add: rd_def)

lemma rd_oob [simp, fault_simps]: "length buf \<le> i \<Longrightarrow> rd buf i = Inl OOB_Read"
  by (simp add: rd_def)

lemma slice_Inr [simp, fault_simps]:
  "i + n \<le> length buf \<Longrightarrow> slice buf i n = Inr (take n (drop i buf))"
  by (simp add: slice_def)

lemma memcpy_in_Inr [simp, fault_simps]:
  "at + length src \<le> length dst \<Longrightarrow>
     memcpy_in dst at src = Inr (take at dst @ src @ drop (at + length src) dst)"
  by (simp add: memcpy_in_def)

lemma memcpy_in_length: "memcpy_in dst at src = Inr r \<Longrightarrow> length r = length dst"
  by (auto simp: memcpy_in_def split: if_splits)

lemma bind_f_eq_Inr: "bind_f m f = Inr b \<longleftrightarrow> (\<exists>a. m = Inr a \<and> f a = Inr b)"
  by (cases m) auto

text \<open>
  Weakest preconditions: \<open>wp m F Q\<close> says that every value of \<open>m\<close> satisfies \<open>Q\<close> and that \<open>m\<close>
  fails with a fault of \<open>F\<close> only. Proofs about chains of checked accesses unfold
  the \<open>bind_f\<close>s with the rules of the collection \<open>wp_simps\<close>.
\<close>

named_theorems wp_simps \<open>weakest preconditions of checked accesses\<close>

definition wp :: "fault + 'a \<Rightarrow> (fault \<Rightarrow> bool) \<Rightarrow> ('a \<Rightarrow> bool) \<Rightarrow> bool" where
  "wp m F Q = (case m of Inl e \<Rightarrow> F e | Inr a \<Rightarrow> Q a)"

lemma wp_Inr [simp, wp_simps]: "wp (Inr a) F Q = Q a"
  by (simp add: wp_def)

lemma wp_Inl [simp, wp_simps]: "wp (Inl e) F Q = F e"
  by (simp add: wp_def)

lemma wp_bind [simp, wp_simps]: "wp (bind_f m f) F Q = wp m F (\<lambda>a. wp (f a) F Q)"
  by (cases m) simp_all

lemma wp_if [wp_simps]: "wp (if c then m else n) F Q = (if c then wp m F Q else wp n F Q)"
  by simp

lemma wp_mono: "wp m F Q \<Longrightarrow> (\<And>e. F e \<Longrightarrow> F' e) \<Longrightarrow> (\<And>a. Q a \<Longrightarrow> Q' a) \<Longrightarrow> wp m F' Q'"
  by (cases m) simp_all

lemma wp_InrD: "wp m F Q \<Longrightarrow> m = Inr a \<Longrightarrow> Q a"
  by simp

lemma wp_False_ex: "wp m (\<lambda>_. False) Q \<Longrightarrow> \<exists>a. m = Inr a \<and> Q a"
  by (cases m) simp_all

subsection \<open>Words as natural numbers\<close>

lemma unat_inc [word_facts]:
  fixes w :: "'a::len word"
  assumes "unat w + 1 < 2 ^ LENGTH('a)"
  shows "unat (w + 1) = unat w + 1"
  using assms by (simp add: unat_word_ariths unat_of_nat)

lemma unat_half [word_facts]: "unat (drop_bit n w) = unat w div 2 ^ n"
proof -
  have "unat (drop_bit n w) = drop_bit n (unat w)"
    by (rule unat_drop_bit_eq)
  also have "\<dots> = unat w div 2 ^ n"
    by (rule drop_bit_eq_div)
  finally show ?thesis .
qed

lemma unat_push_bit [word_facts]:
  fixes w :: "'a::len word"
  assumes "unat w * 2 ^ n < 2 ^ LENGTH('a)"
  shows "unat (push_bit n w) = unat w * 2 ^ n"
proof -
  have "unat (push_bit n w) = take_bit LENGTH('a) (push_bit n (unat w))"
    by (rule unsigned_push_bit_eq)
  also have "\<dots> = unat w * 2 ^ n mod 2 ^ LENGTH('a)"
    by (simp only: take_bit_eq_mod push_bit_eq_mult)
  finally show ?thesis
    using assms by simp
qed

lemma unat_inc_le: "unat (w + 1) \<le> unat w + 1"
proof -
  have "unat (w + 1) = (unat w + unat (1 :: 'a word)) mod 2 ^ LENGTH('a)"
    by (rule unat_word_ariths)
  also have "\<dots> \<le> unat w + unat (1 :: 'a word)"
    by (rule mod_less_eq_dividend)
  finally show ?thesis by simp
qed

text \<open>A loop that halves a word, rounding up, makes progress on every word above one.\<close>

lemma half_up_less: "1 < unat w \<Longrightarrow> unat (drop_bit (Suc 0) (w + 1)) < unat w"
  using unat_inc_le [of w] by (auto simp: unat_half)

lemma unat_ucast_up [word_facts]:
  fixes w :: "'a::len word"
  assumes "LENGTH('a) \<le> LENGTH('b)"
  shows "unat (ucast w :: 'b::len word) = unat w"
proof -
  have "unat w < 2 ^ LENGTH('a)" by (rule unsigned_less)
  also have "(2 :: nat) ^ LENGTH('a) \<le> 2 ^ LENGTH('b)" using assms by simp
  finally show ?thesis by (simp add: unsigned_ucast_eq take_bit_nat_eq_self_iff)
qed

lemma ucast_of_unat: "ucast w = (of_nat (unat w) :: 'b::len word)"
  by (rule of_nat_unat [symmetric])

lemma unat_and_mask: "unat (c AND mask n :: 'a::len word) = unat c mod 2 ^ n"
proof -
  have "unat (take_bit n c) = take_bit n (unat c)"
    by (rule unsigned_take_bit_eq)
  then show ?thesis
    by (simp only: take_bit_eq_mask take_bit_nat_def [symmetric] take_bit_eq_mod)
qed

lemma unat_and_7: "unat (c AND 7 :: u8) = unat c mod 8"
  using unat_and_mask [of c 3] by (simp add: mask_eq_exp_minus_1)

lemma unat_and_15: "unat (c AND 15 :: u8) = unat c mod 16"
  using unat_and_mask [of c 4] by (simp add: mask_eq_exp_minus_1)

lemma u8_bound: "unat (c :: u8) < 256"
  using unsigned_less [of c] by simp

lemma unat_of_nat_small:
  assumes "n < 2 ^ LENGTH('a)"
  shows "unat (of_nat n :: 'a::len word) = n"
  using assms by (simp add: unat_of_nat)

end
