(* ===== verification/Rfc5444_Conv.thy ===== *)
theory Rfc5444_Conv
  imports Oonf_Prelude
begin

section \<open>Time and metric encodings, sequence numbers (librfc5444/rfc5444)\<close>

text \<open>
  The conversions of \<^verbatim>\<open>src/src/librfc5444/rfc5444.c\<close> and of the inline functions of
  \<^verbatim>\<open>include/oonf/librfc5444/rfc5444.h\<close>: the RFC 5497 time TLV code (a one byte floating
  point number), the RFC 7181 link metric code (twelve bits), and RFC 5444 sequence number
  arithmetic. The loops keep the machine words of the code; the two that shift upwards would not
  end on zero, so they are partial functions and the theorems show that they return.
\<close>

subsection \<open>Constants\<close>

definition RFC5497_TIMETLV_MAX :: u64 where "RFC5497_TIMETLV_MAX = 0xdac00000"
definition RFC5497_TIMETLV_MIN :: u64 where "RFC5497_TIMETLV_MIN = 1"
definition RFC7181_METRIC_MAX :: u32 where "RFC7181_METRIC_MAX = 0xffff00"
definition RFC7181_METRIC_MIN :: u32 where "RFC7181_METRIC_MIN = 1"
definition RFC7181_METRIC_INFINITE :: u32 where "RFC7181_METRIC_INFINITE = 0xffffff"

lemmas conv_consts = RFC5497_TIMETLV_MAX_def RFC5497_TIMETLV_MIN_def
  RFC7181_METRIC_MAX_def RFC7181_METRIC_MIN_def RFC7181_METRIC_INFINITE_def

record rfc7181_metric_field =
  mf_b0 :: u8
  mf_b1 :: u8

subsection \<open>Time TLVs\<close>

text \<open>The \<open>for\<close> loop of the vector lookup, then the read after it.\<close>

function get_from_vector_loop :: "u8 list \<Rightarrow> nat \<Rightarrow> u8 \<Rightarrow> nat \<Rightarrow> fault + u8" where
  "get_from_vector_loop vector vector_length hopcount i =
     (if i < vector_length
      then bind_f (rd vector i) (\<lambda>h.
             if hopcount \<le> h then rd vector (i - 1)
             else get_from_vector_loop vector vector_length hopcount (i + 2))
      else rd vector (i - 1))"
  by pat_completeness auto
termination
  by (relation "measure (\<lambda>(v, n, h, i). n - i)") auto

declare get_from_vector_loop.simps [simp del]

definition rfc5497_timetlv_get_from_vector :: "u8 list \<Rightarrow> nat \<Rightarrow> u8 \<Rightarrow> fault + u8" where
  "rfc5497_timetlv_get_from_vector vector vector_length hopcount =
     (if even vector_length then Inr 255
      else get_from_vector_loop vector vector_length hopcount 1)"

function timetlv_encode_up :: "u64 \<Rightarrow> u32 \<Rightarrow> u64 \<times> u32" where
  "timetlv_encode_up decoded b =
     (if decoded > 1875 then timetlv_encode_up (drop_bit 1 (decoded + 1)) (b + 1)
      else (decoded, b))"
  by pat_completeness auto
termination
  by (relation "measure (\<lambda>(d, b). unat d)")
    (auto simp: word_less_nat_alt intro!: half_up_less)

declare timetlv_encode_up.simps [simp del]

partial_function (option) timetlv_encode_down :: "u64 \<Rightarrow> u32 \<Rightarrow> (u64 \<times> u32) option" where
  "timetlv_encode_down decoded b =
     (if decoded < 1000 then timetlv_encode_down (push_bit 1 decoded) (b - 1)
      else Some (decoded, b))"

definition timetlv_pack :: "u64 \<times> u32 \<Rightarrow> u8" where
  "timetlv_pack p = (case p of (decoded, b) \<Rightarrow>
     let a = (ucast ((decoded - 1000 + 124) div 125) :: u32)
     in ucast (a + push_bit 3 b))"

definition rfc5497_timetlv_encode :: "u64 \<Rightarrow> u8 option" where
  "rfc5497_timetlv_encode decoded =
     (if decoded < RFC5497_TIMETLV_MIN then Some 0
      else if decoded > RFC5497_TIMETLV_MAX then Some 255
      else if decoded \<ge> 1000 then Some (timetlv_pack (timetlv_encode_up decoded 10))
      else map_option timetlv_pack (timetlv_encode_down decoded 10))"

definition rfc5497_timetlv_decode :: "u8 \<Rightarrow> u64" where
  "rfc5497_timetlv_decode encoded =
     (if encoded = 0 then 0
      else if encoded = 255 then 0xffffffffffffffff
      else let a = encoded AND 0x07; b = drop_bit 3 encoded
           in if b \<le> 10 then drop_bit (10 - unat b) (1000 + 125 * ucast a)
              else push_bit (unat b - 10) (1000 + 125 * ucast a))"

subsection \<open>Link metrics\<close>

function metric_encode_loop :: "u32 \<Rightarrow> u8 \<Rightarrow> u32 \<times> u8" where
  "metric_encode_loop decoded a =
     (if decoded > 512 then metric_encode_loop (drop_bit 1 (decoded + 1)) (a + 1)
      else (decoded, a))"
  by pat_completeness auto
termination
  by (relation "measure (\<lambda>(d, b). unat d)")
    (auto simp: word_less_nat_alt intro!: half_up_less)

declare metric_encode_loop.simps [simp del]

definition rfc7181_metric_encode :: "u32 \<Rightarrow> rfc7181_metric_field option" where
  "rfc7181_metric_encode decoded =
     (if decoded < RFC7181_METRIC_MIN \<or> decoded \<ge> RFC7181_METRIC_INFINITE then None
      else if decoded > RFC7181_METRIC_MAX then Some \<lparr>mf_b0 = 0x0f, mf_b1 = 0xff\<rparr>
      else (case metric_encode_loop (decoded + 256) 0 of
              (d, a) \<Rightarrow> Some \<lparr>mf_b0 = a, mf_b1 = ucast (d - 257)\<rparr>))"

definition rfc7181_metric_decode :: "rfc7181_metric_field \<Rightarrow> u32" where
  "rfc7181_metric_decode encoded =
     (let exponent = mf_b0 encoded AND 15
      in push_bit (unat exponent) (257 + ucast (mf_b1 encoded)) - 256)"

definition rfc7181_metric_has_flag :: "rfc7181_metric_field \<Rightarrow> u8 \<Rightarrow> bool" where
  "rfc7181_metric_has_flag metric flag = (mf_b0 metric AND flag \<noteq> 0)"

definition rfc7181_metric_set_flag :: "rfc7181_metric_field \<Rightarrow> u8 \<Rightarrow> rfc7181_metric_field" where
  "rfc7181_metric_set_flag metric flag = metric\<lparr>mf_b0 := mf_b0 metric OR flag\<rparr>"

definition rfc7181_metric_reset_flag :: "rfc7181_metric_field \<Rightarrow> u8 \<Rightarrow> rfc7181_metric_field" where
  "rfc7181_metric_reset_flag metric flag = metric\<lparr>mf_b0 := mf_b0 metric AND NOT flag\<rparr>"

subsection \<open>Sequence numbers\<close>

definition rfc5444_seqno_difference :: "u16 \<Rightarrow> u16 \<Rightarrow> int" where
  "rfc5444_seqno_difference seqno1 seqno2 =
     (let diff = uint seqno1 - uint seqno2
      in if diff > 2 ^ 15 then diff - 2 ^ 16
         else if diff < - (2 ^ 15) then diff + 2 ^ 16
         else diff)"

definition rfc5444_seqno_is_larger :: "u16 \<Rightarrow> u16 \<Rightarrow> bool" where
  "rfc5444_seqno_is_larger s1 s2 =
     (s1 > s2 \<and> uint s1 - uint s2 < 2 ^ 15 \<or> s2 > s1 \<and> uint s2 - uint s1 > 2 ^ 15)"

definition rfc5444_seqno_is_smaller :: "u16 \<Rightarrow> u16 \<Rightarrow> bool" where
  "rfc5444_seqno_is_smaller s1 s2 = (s1 \<noteq> s2 \<and> \<not> rfc5444_seqno_is_larger s1 s2)"


section \<open>Properties\<close>

subsection \<open>Sequence number comparison\<close>

text \<open>A pair of sequence numbers as two opaque naturals below \<open>2 ^ 16\<close>.\<close>

lemma u16_pair:
  fixes s1 s2 :: u16
  obtains a b where "unat s1 = a" "unat s2 = b" "uint s1 = int a" "uint s2 = int b"
    "a < 65536" "b < 65536" "s1 < s2 \<longleftrightarrow> a < b" "s2 < s1 \<longleftrightarrow> b < a" "s1 = s2 \<longleftrightarrow> a = b"
    "unat (s1 - s2) = (if b \<le> a then a - b else a + 65536 - b)"
    "unat (s2 - s1) = (if a \<le> b then b - a else b + 65536 - a)"
proof (rule that [of "unat s1" "unat s2"])
  show "unat s1 < 65536" "unat s2 < 65536"
    using unsigned_less [of s1] unsigned_less [of s2] by simp_all
qed (simp_all add: word_less_nat_alt unat_sub_if_size word_size word_le_nat_alt word_unat_eq_iff)

text \<open>
  C24: RFC 5444 sequence numbers compare in a window of half the number space. The difference
  computed by the code is the wrap-around difference of the 16 bit words read as a signed number; of two numbers exactly
  half the space apart the difference is plus or minus \<open>2 ^ 15\<close>, positive for the one with the greater value. A number is larger than
  another when it is less than half the space ahead of it, so neither of two numbers half the space apart is larger, and
  \<open>is_smaller\<close>, the negation of \<open>is_larger\<close> for different numbers, makes each of them smaller than the other.
\<close>

theorem seqno_order:
  "rfc5444_seqno_difference s1 s2 =
     (if unat (s1 - s2) < 2 ^ 15 then int (unat (s1 - s2))
      else if unat (s1 - s2) > 2 ^ 15 then int (unat (s1 - s2)) - 2 ^ 16
      else if s1 > s2 then 2 ^ 15 else - (2 ^ 15)) \<and>
   (rfc5444_seqno_is_larger s1 s2 \<longleftrightarrow> 0 < unat (s1 - s2) \<and> unat (s1 - s2) < 2 ^ 15) \<and>
   (rfc5444_seqno_is_smaller s1 s2 \<longleftrightarrow> rfc5444_seqno_is_larger s2 s1 \<or> unat (s1 - s2) = 2 ^ 15)"
proof -
  obtain a b where ab: "unat s1 = a" "unat s2 = b" "uint s1 = int a" "uint s2 = int b"
    "a < 65536" "b < 65536" "s1 < s2 \<longleftrightarrow> a < b" "s2 < s1 \<longleftrightarrow> b < a" "s1 = s2 \<longleftrightarrow> a = b"
    "unat (s1 - s2) = (if b \<le> a then a - b else a + 65536 - b)"
    "unat (s2 - s1) = (if a \<le> b then b - a else b + 65536 - a)"
    by (rule u16_pair)
  show ?thesis
    unfolding rfc5444_seqno_difference_def rfc5444_seqno_is_larger_def
      rfc5444_seqno_is_smaller_def Let_def ab
    using ab(5,6) by (auto simp: of_nat_diff split: if_splits)
qed

subsection \<open>Time codes\<close>

definition timetlv_scaled :: "nat \<Rightarrow> nat" where
  "timetlv_scaled c = (1000 + 125 * (c mod 8)) * 2 ^ (c div 8)"

lemma timetlv_mantissa: "unat (1000 + 125 * ucast (c AND 7 :: u8) :: u64) = 1000 + 125 * (unat c mod 8)"
proof -
  have m: "unat (ucast (c AND 7) :: u64) = unat c mod 8"
    by (simp add: unat_ucast_up unat_and_7)
  have "unat c mod 8 < 8" by simp
  then have "unat (125 * ucast (c AND 7) :: u64) = 125 * (unat c mod 8)"
    by (simp add: unat_word_ariths m)
  with \<open>unat c mod 8 < 8\<close> show ?thesis
    by (simp add: unat_word_ariths)
qed

lemma decode_scaled:
  assumes "c \<noteq> 255"
  shows "unat (rfc5497_timetlv_decode c) = timetlv_scaled (unat c) div 1024"
proof -
  define x where "x = 1000 + 125 * (unat c mod 8)"
  define b where "b = unat c div 8"
  have x: "x \<le> 1875" by (simp add: x_def)
  have b: "b < 32" using u8_bound [of c] by (simp add: b_def)
  have ub: "unat (drop_bit 3 c) = b" by (simp add: unat_half b_def)
  have le: "drop_bit 3 c \<le> 10 \<longleftrightarrow> b \<le> 10" by (simp add: word_le_nat_alt ub)
  show ?thesis
  proof (cases "b \<le> 10")
    case True
    have "x * 2 ^ b div 2 ^ 10 = x * 2 ^ b div (2 ^ b * 2 ^ (10 - b))"
      using True by (simp add: power_add [symmetric])
    also have "\<dots> = x div 2 ^ (10 - b)" by simp
    finally have "x * 2 ^ b div 1024 = x div 2 ^ (10 - b)" by simp
    with True assms show ?thesis
      by (auto simp: rfc5497_timetlv_decode_def Let_def le ub unat_half timetlv_mantissa
          timetlv_scaled_def x_def b_def)
  next
    case False
    have "x * 2 ^ (b - 10) \<le> 1875 * 2 ^ 21"
      using x b by (intro mult_mono power_increasing) auto
    then have "unat (push_bit (b - 10) (1000 + 125 * ucast (c AND 7) :: u64)) = x * 2 ^ (b - 10)"
      by (subst unat_push_bit) (simp_all only: timetlv_mantissa x_def [symmetric], simp)
    moreover have "x * 2 ^ b div 1024 = x * 2 ^ (b - 10)"
    proof -
      have "x * 2 ^ b = x * 2 ^ (b - 10) * 1024"
        using False power_add [of "2::nat" "b - 10" 10] by simp
      then show ?thesis by (simp only: nonzero_mult_div_cancel_right)
    qed
    moreover have "c \<noteq> 0" using False by (auto simp: b_def)
    ultimately show ?thesis
      using False assms
      by (auto simp: rfc5497_timetlv_decode_def Let_def le ub timetlv_scaled_def x_def b_def)
  qed
qed

lemma timetlv_scaled_Suc: "timetlv_scaled c \<le> timetlv_scaled (Suc c)"
proof (cases "c mod 8 = 7")
  case True
  then have "Suc c mod 8 = 0" "Suc c div 8 = Suc (c div 8)" by presburger+
  with True show ?thesis by (simp add: timetlv_scaled_def)
next
  case False
  then have "Suc c mod 8 = Suc (c mod 8)" "Suc c div 8 = c div 8" by presburger+
  then show ?thesis by (simp add: timetlv_scaled_def)
qed

lemma timetlv_scaled_mono: "c \<le> c' \<Longrightarrow> timetlv_scaled c \<le> timetlv_scaled c'"
  by (rule lift_Suc_mono_le [of timetlv_scaled]) (rule timetlv_scaled_Suc)

text \<open>
  Both encoders scale their input by halving it, rounding up, until it is at most a limit. The
  loop over naturals: the scaled value is the least one whose shift back reaches the input.
\<close>

function halve_up :: "nat \<Rightarrow> nat \<Rightarrow> nat \<times> nat" where
  "halve_up lim d = (if d > max 1 lim
     then (case halve_up lim ((d + 1) div 2) of (d', j) \<Rightarrow> (d', Suc j)) else (d, 0))"
  by pat_completeness auto
termination
  by (relation "measure snd") auto

declare halve_up.simps [simp del]

lemma halve_up_correct:
  assumes "halve_up lim d = (d', j)" "t \<le> d * 2 ^ k" "(d - 1) * 2 ^ k < t" "1 \<le> lim"
  shows "d' \<le> lim \<and> t \<le> d' * 2 ^ (k + j) \<and> (d' - 1) * 2 ^ (k + j) < t \<and>
    (j = 0 \<or> lim * 2 ^ (k + j - 1) < t)"
  using assms
proof (induction lim d arbitrary: d' j k rule: halve_up.induct)
  case (1 lim d)
  show ?case
  proof (cases "d > max 1 lim")
    case True
    with 1 obtain j' where r: "halve_up lim ((d + 1) div 2) = (d', j')" "j = Suc j'"
      by (auto simp: halve_up.simps [of lim d] split: prod.splits)
    let ?h = "(d + 1) div 2"
    have h1: "d \<le> 2 * ?h" and h2: "2 * (?h - 1) \<le> d - 1" by auto
    have "d * 2 ^ k \<le> 2 * ?h * 2 ^ k" by (rule mult_le_mono1 [OF h1])
    then have "d * 2 ^ k \<le> ?h * 2 ^ Suc k" by (simp only: power_Suc mult_ac)
    with 1 have t1: "t \<le> ?h * 2 ^ Suc k" by linarith
    have "2 * (?h - 1) * 2 ^ k \<le> (d - 1) * 2 ^ k" by (rule mult_le_mono1 [OF h2])
    then have "(?h - 1) * 2 ^ Suc k \<le> (d - 1) * 2 ^ k" by (simp only: power_Suc mult_ac)
    with 1 have t2: "(?h - 1) * 2 ^ Suc k < t" by linarith
    have "lim * 2 ^ k \<le> (d - 1) * 2 ^ k"
      using True by (intro mult_le_mono1) auto
    with 1 have lim: "lim * 2 ^ k < t" by linarith
    show ?thesis
      using 1(1) [OF True r(1) t1 t2 1(5)] lim unfolding r(2) by (cases "j' = 0") simp_all
  next
    case False
    with 1 show ?thesis by (auto simp: halve_up.simps [of lim d] split: if_splits)
  qed
qed

lemma timetlv_encode_up_halve:
  assumes "unat d < 2 ^ 63"
  shows "timetlv_encode_up d b =
    (of_nat (fst (halve_up 1875 (unat d))), b + of_nat (snd (halve_up 1875 (unat d))))"
  using assms
proof (induction d b rule: timetlv_encode_up.induct)
  case (1 d b)
  show ?case
  proof (cases "1875 < d")
    case True
    have inc: "unat (d + 1) = unat d + 1"
      using 1(2) by (intro unat_inc) simp
    have h: "unat (drop_bit 1 (d + 1)) = (unat d + 1) div 2"
      by (simp only: unat_half inc power_one_right)
    from True have "unat d > max 1 1875" by (simp add: word_less_nat_alt)
    with 1 True h show ?thesis
      by (simp add: timetlv_encode_up.simps [of d b] halve_up.simps [of _ "unat d"]
          split: prod.splits)
  next
    case False
    then show ?thesis
      by (simp add: timetlv_encode_up.simps [of d b] halve_up.simps [of _ "unat d"] word_less_nat_alt)
  qed
qed

lemma metric_encode_loop_halve:
  assumes "unat d < 2 ^ 31"
  shows "metric_encode_loop d a =
    (of_nat (fst (halve_up 512 (unat d))), a + of_nat (snd (halve_up 512 (unat d))))"
  using assms
proof (induction d a rule: metric_encode_loop.induct)
  case (1 d b)
  show ?case
  proof (cases "512 < d")
    case True
    have inc: "unat (d + 1) = unat d + 1"
      using 1(2) by (intro unat_inc) simp
    have h: "unat (drop_bit 1 (d + 1)) = (unat d + 1) div 2"
      by (simp only: unat_half inc power_one_right)
    from True have "unat d > max 1 512" by (simp add: word_less_nat_alt)
    with 1 True h show ?thesis
      by (simp add: metric_encode_loop.simps [of d b] halve_up.simps [of _ "unat d"]
          split: prod.splits)
  next
    case False
    then show ?thesis
      by (simp add: metric_encode_loop.simps [of d b] halve_up.simps [of _ "unat d"] word_less_nat_alt)
  qed
qed


lemma timetlv_pack_nat:
  assumes "876 \<le> n" "n < 2000" "m < 32" "8 * m + (n - 876) div 125 < 256"
  shows "unat (timetlv_pack (of_nat n, of_nat m)) = 8 * m + (n - 876) div 125"
proof -
  let ?a = "(n - 876) div 125"
  have "(of_nat n - 1000 + 124 :: u64) = of_nat (n - 876)"
    using assms(1) by simp
  then have "unat ((of_nat n - 1000 + 124 :: u64) div 125) = ?a"
    using assms(2) by (simp add: unat_div_distrib unat_of_nat_small del: of_nat_diff)
  then have a: "ucast ((of_nat n - 1000 + 124 :: u64) div 125) = (of_nat ?a :: u32)"
    by (simp only: ucast_of_unat)
  have "?a < 256" using assms(4) by simp
  have "of_nat ?a + push_bit 3 (of_nat m) = (of_nat (8 * m + ?a) :: u32)"
    by (simp add: push_bit_eq_mult)
  with a have "timetlv_pack (of_nat n, of_nat m) = ucast (of_nat (8 * m + ?a) :: u32)"
    by (simp only: timetlv_pack_def Let_def prod.case)
  moreover have "unat (of_nat (8 * m + ?a) :: u32) = 8 * m + ?a"
    using assms(4) by (intro unat_of_nat_small) simp
  ultimately show ?thesis
    using assms(4) by (simp only: ucast_of_unat) (simp add: unat_of_nat_small del: of_nat_add of_nat_mult)
qed

lemma timetlv_scaled_code:
  assumes "a \<le> 8"
  shows "timetlv_scaled (8 * m + a) = (1000 + 125 * a) * 2 ^ m"
  using assms by (cases "a = 8") (simp_all add: timetlv_scaled_def)

text \<open>
  A mantissa \<open>n\<close> that brackets the scaled time gives the code that brackets it.
\<close>

lemma timetlv_bracket:
  assumes "876 \<le> n" "n < 2000" and a: "a = (n - 876) div 125"
    and "T \<le> n * 2 ^ m" "(n - 1) * 2 ^ m < T"
    and "a = 0 \<Longrightarrow> 1 \<le> m \<and> 1875 * 2 ^ (m - 1) < T"
  shows "T \<le> timetlv_scaled (8 * m + a)" "0 < 8 * m + a"
    "timetlv_scaled (8 * m + a - 1) < T"
proof -
  have a8: "a \<le> 8" and n1: "n \<le> 1000 + 125 * a" and n2: "a \<noteq> 0 \<Longrightarrow> 1000 + 125 * (a - 1) \<le> n - 1"
    using assms(1-3) by linarith+
  have "n * 2 ^ m \<le> (1000 + 125 * a) * 2 ^ m" by (rule mult_le_mono1 [OF n1])
  with assms(4) show "T \<le> timetlv_scaled (8 * m + a)"
    unfolding timetlv_scaled_code [OF a8] by (rule order_trans)
  show "0 < 8 * m + a" using assms(6) by (cases "a = 0") auto
  show "timetlv_scaled (8 * m + a - 1) < T"
  proof (cases "a = 0")
    case True
    with assms(6) have "8 * m + a - 1 = 8 * (m - 1) + 7" by auto
    with True assms(6) show ?thesis by (simp only: timetlv_scaled_code) simp
  next
    case False
    then have "8 * m + a - 1 = 8 * m + (a - 1)" by auto
    then have "timetlv_scaled (8 * m + a - 1) = (1000 + 125 * (a - 1)) * 2 ^ m"
      using a8 by (simp only: timetlv_scaled_code)
    also have "\<dots> \<le> (n - 1) * 2 ^ m" by (rule mult_le_mono1 [OF n2 [OF False]])
    finally show ?thesis using assms(5) by simp
  qed
qed

lemma encode_up_bracket:
  assumes "1000 \<le> t" "t \<le> 3670016000"
  obtains c where "rfc5497_timetlv_encode (of_nat t) = Some c" "0 < unat c" "unat c < 255"
    "t * 1024 \<le> timetlv_scaled (unat c)" "timetlv_scaled (unat c - 1) < t * 1024"
proof -
  obtain n j where nj: "halve_up 1875 t = (n, j)" by fastforce
  have h: "n \<le> 1875" "t \<le> n * 2 ^ j" "(n - 1) * 2 ^ j < t" "j = 0 \<or> 1875 * 2 ^ (j - 1) < t"
    using halve_up_correct [OF nj, of t 0] assms by auto
  define a where "a = (n - 876) div 125"
  have j21: "j \<le> 21"
  proof (rule ccontr)
    assume "\<not> j \<le> 21"
    then have "(1875 :: nat) * 2 ^ 21 \<le> 1875 * 2 ^ (j - 1)"
      by (intro mult_le_mono power_increasing) auto
    with h(4) assms(2) \<open>\<not> j \<le> 21\<close> show False by auto
  qed
  have n876: "876 \<le> n"
  proof (cases "j = 0")
    case True
    with h(2) assms(1) show ?thesis by simp
  next
    case False
    then have "n * 2 ^ j = 2 * n * 2 ^ (j - 1)" by (cases j) auto
    with False h(2,4) have "1875 * 2 ^ (j - 1) < 2 * n * 2 ^ (j - 1)" by linarith
    then have "1875 < 2 * n" by (rule mult_less_cancel2 [THEN iffD1, THEN conjunct2])
    then show ?thesis by simp
  qed
  have p: "(2::nat) ^ (10 + j) = 2 ^ j * 1024" by (simp add: power_add)
  have T1: "t * 1024 \<le> n * 2 ^ (10 + j)" and T2: "(n - 1) * 2 ^ (10 + j) < t * 1024"
    using h(2,3) unfolding p by (simp_all add: mult.assoc [symmetric])
  have T3: "a = 0 \<Longrightarrow> 1 \<le> 10 + j \<and> 1875 * 2 ^ (10 + j - 1) < t * 1024"
  proof (cases "j = 0")
    case True
    with h assms(1) show ?thesis by auto
  next
    case False
    then have "(2::nat) ^ (10 + j - 1) = 2 ^ (j - 1) * 1024"
      by (cases j) (simp_all add: power_add)
    with False h(4) show ?thesis by simp
  qed
  note br = timetlv_bracket [OF n876 _ a_def T1 T2 T3]
  have a7: "a \<le> 7" using h(1) by (simp add: a_def)
  have "8 * (10 + j) + a < 255"
  proof (cases "j = 21")
    case True
    with h(3) assms(2) have "n - 1 < 1750" by simp
    then have "a \<le> 6" by (simp add: a_def)
    with True show ?thesis by simp
  qed (use j21 a7 in auto)
  moreover define c where "c = timetlv_pack (of_nat n, of_nat (10 + j))"
  have "rfc5497_timetlv_encode (of_nat t) = Some c"
    using assms nj
    by (simp add: rfc5497_timetlv_encode_def conv_consts word_less_nat_alt word_le_nat_alt
        unat_of_nat_small timetlv_encode_up_halve c_def)
  moreover have "unat c = 8 * (10 + j) + a"
    unfolding c_def a_def using n876 h(1) j21 calculation(1)
    by (intro timetlv_pack_nat) (auto simp: a_def)
  ultimately show thesis
    using br h(1) by (intro that [of c]) auto
qed

lemma timetlv_encode_down_shift:
  assumes "0 < d" "d * 2 ^ j < 2000" "1000 \<le> d * 2 ^ j" "j = 0 \<or> d * 2 ^ (j - 1) < 1000"
  shows "timetlv_encode_down (of_nat d) b = Some (of_nat (d * 2 ^ j), b - of_nat j)"
  using assms
proof (induction j arbitrary: d b)
  case 0
  then show ?case 
    by (subst timetlv_encode_down.simps) (simp add: word_less_nat_alt unat_of_nat_small)
next
  case (Suc j)
  have "d * 1 \<le> d * 2 ^ j" by (intro mult_le_mono) simp_all
  also have "\<dots> < 1000" using Suc.prems(4) by simp
  finally have d: "d < 1000" by simp
  have "timetlv_encode_down (of_nat d) b = timetlv_encode_down (of_nat (d * 2)) (b - 1)"
    using d by (subst timetlv_encode_down.simps)
      (simp add: word_less_nat_alt unat_of_nat_small push_bit_eq_mult)
  also have "\<dots> = Some (of_nat (d * 2 * 2 ^ j), b - 1 - of_nat j)"
    using Suc.prems by (intro Suc.IH) (cases j; auto simp: mult_ac)+
  finally show ?case by (simp add: mult.assoc algebra_simps)
qed


lemma shift_count_exists:
  fixes t :: nat
  assumes "0 < t" "t < 1000"
  obtains j where "1 \<le> j" "j \<le> 10" "1000 \<le> t * 2 ^ j" "t * 2 ^ (j - 1) < 1000" "t * 2 ^ j < 2000"
proof -
  define j where "j = (LEAST j. 1000 \<le> t * 2 ^ j)"
  have ex: "1000 \<le> t * 2 ^ 10" using assms(1) by simp
  have j: "1000 \<le> t * 2 ^ j" unfolding j_def by (rule LeastI) (rule ex)
  have le: "j \<le> 10" unfolding j_def by (rule Least_le) (rule ex)
  have j1: "1 \<le> j" using j assms(2) by (cases j) auto
  then have "j - 1 < (LEAST j. 1000 \<le> t * 2 ^ j)" by (simp add: j_def [symmetric])
  then have prev: "t * 2 ^ (j - 1) < 1000" by (metis not_less_Least linorder_not_less)
  moreover have "t * 2 ^ j = 2 * (t * 2 ^ (j - 1))" using j1 by (cases j) auto
  ultimately show thesis using j le j1 by (intro that [of j]) auto
qed

lemma encode_down_bracket:
  assumes "0 < t" "t < 1000"
  obtains c where "rfc5497_timetlv_encode (of_nat t) = Some c" "0 < unat c" "unat c < 255"
    "t * 1024 \<le> timetlv_scaled (unat c)" "timetlv_scaled (unat c - 1) < t * 1024"
proof -
  obtain j where j: "1 \<le> j" "j \<le> 10" "1000 \<le> t * 2 ^ j" "t * 2 ^ (j - 1) < 1000" "t * 2 ^ j < 2000"
    using shift_count_exists [OF assms] .
  define n where "n = t * 2 ^ j"
  define m where "m = 10 - j"
  define a where "a = (n - 876) div 125"
  have nb: "876 \<le> n" "n < 2000" using j by (simp_all add: n_def)
  have T: "t * 1024 = n * 2 ^ m"
    using j(2) by (simp add: n_def m_def mult.assoc power_add [symmetric])
  have "0 < n" using nb by simp
  then have T2: "(n - 1) * 2 ^ m < t * 1024" unfolding T by simp
  have T3: "1 \<le> m \<and> 1875 * 2 ^ (m - 1) < t * 1024" if "a = 0"
  proof -
    have n1000: "n = 1000" using that j(3) by (simp add: a_def n_def)
    have "m \<noteq> 0"
    proof
      assume "m = 0"
      with T n1000 have "t * 1024 = 1000" by simp
      then show False by (cases t) simp_all
    qed
    then show ?thesis unfolding T n1000 by (cases m) auto
  qed
  note br = timetlv_bracket [OF nb a_def eq_refl [OF T] T2 T3]
  have c255: "8 * m + a < 255" using j(1,2) nb by (auto simp: m_def a_def)
  define c where "c = timetlv_pack (of_nat n, of_nat m)"
  have "(10 - of_nat j :: u32) = of_nat m" using j(2) by (simp add: m_def)
  then have "rfc5497_timetlv_encode (of_nat t) = Some c"
    using assms timetlv_encode_down_shift [of t j 10] j
    by (simp add: rfc5497_timetlv_encode_def conv_consts word_less_nat_alt word_le_nat_alt
        unat_of_nat_small c_def n_def)
  moreover have "unat c = 8 * m + a"
    unfolding c_def a_def using nb j c255 by (intro timetlv_pack_nat) (auto simp: a_def m_def)
  ultimately show thesis
    using br c255 by (intro that [of c]) auto
qed

lemma decode_ge_iff:
  assumes "t \<le> 3670016000"
  shows "t \<le> unat (rfc5497_timetlv_decode c) \<longleftrightarrow> c = 255 \<or> t * 1024 \<le> timetlv_scaled (unat c)"
proof (cases "c = 255")
  case True
  then show ?thesis using assms by (simp add: rfc5497_timetlv_decode_def)
next
  case False
  then show ?thesis by (simp add: decode_scaled less_eq_div_iff_mult_less_eq)
qed

text \<open>
  C20: for every time in the range of the code the RFC 5497 encoder returns (its scaling loops end),
  and the code it returns is exactly the least one that does not decode to a shorter time:
  encoding and decoding form a Galois connection.
\<close>

theorem timetlv_encode_least:
  assumes "RFC5497_TIMETLV_MIN \<le> t" and "t \<le> RFC5497_TIMETLV_MAX"
  shows "\<exists>c. rfc5497_timetlv_encode t = Some c \<and>
    (\<forall>c'. t \<le> rfc5497_timetlv_decode c' \<longleftrightarrow> c \<le> c')"
proof -
  have t: "0 < unat t" "unat t \<le> 3670016000" "of_nat (unat t) = t"
    using assms by (simp_all add: conv_consts word_le_nat_alt)
  obtain c where c: "rfc5497_timetlv_encode t = Some c" "0 < unat c" "unat c < 255"
    "unat t * 1024 \<le> timetlv_scaled (unat c)" "timetlv_scaled (unat c - 1) < unat t * 1024"
    using encode_up_bracket [of "unat t"] encode_down_bracket [of "unat t"] t by force
  have "t \<le> rfc5497_timetlv_decode c' \<longleftrightarrow> c \<le> c'" for c'
  proof -
    have "unat t * 1024 \<le> timetlv_scaled (unat c') \<longleftrightarrow> unat c \<le> unat c'"
      using c(4,5) timetlv_scaled_mono [of "unat c" "unat c'"]
        timetlv_scaled_mono [of "unat c'" "unat c - 1"] by linarith
    moreover have "c' = 255 \<Longrightarrow> unat c \<le> unat c'" using c(3) by simp
    ultimately show ?thesis
      using decode_ge_iff [OF t(2), of c'] by (auto simp: word_le_nat_alt)
  qed
  with c(1) show ?thesis by blast
qed

theorem timetlv_encode_least_witness:
  "\<exists>c. rfc5497_timetlv_encode 6000 = Some c \<and>
    (\<forall>c'. 6000 \<le> rfc5497_timetlv_decode c' \<longleftrightarrow> c \<le> c')"
  by (rule timetlv_encode_least) (simp_all add: conv_consts)


subsection \<open>Metric codes\<close>

lemma metric_decode_nat:
  "unat (rfc7181_metric_decode m) = (257 + unat (mf_b1 m)) * 2 ^ (unat (mf_b0 m) mod 16) - 256"
proof -
  let ?x = "257 + unat (mf_b1 m)" and ?e = "unat (mf_b0 m) mod 16"
  have x: "unat (257 + ucast (mf_b1 m) :: u32) = ?x"
    using u8_bound [of "mf_b1 m"]
    by (simp add: unat_word_ariths unat_ucast_up)
  have "?x * 2 ^ ?e \<le> 512 * 2 ^ 15"
    using u8_bound [of "mf_b1 m"] by (intro mult_le_mono power_increasing) auto
  then have sh: "unat (push_bit ?e (257 + ucast (mf_b1 m) :: u32)) = ?x * 2 ^ ?e"
    by (subst unat_push_bit) (simp_all only: x, simp)
  have "256 * 1 \<le> ?x * 2 ^ ?e" by (intro mult_le_mono) simp_all
  then have "(256 :: u32) \<le> push_bit ?e (257 + ucast (mf_b1 m))"
    by (simp add: word_le_nat_alt sh)
  then show ?thesis
    by (simp add: rfc7181_metric_decode_def Let_def unat_and_15 unat_sub_if_size word_le_nat_alt sh)
qed

lemma metric_encode_nat:
  assumes "0 < v" "v \<le> 0xffff00"
  obtains n j where "rfc7181_metric_encode (of_nat v) = Some \<lparr>mf_b0 = of_nat j, mf_b1 = of_nat (n - 257)\<rparr>"
    "257 \<le> n" "n \<le> 512" "j \<le> 15" "v + 256 \<le> n * 2 ^ j" "(n - 1) * 2 ^ j < v + 256"
proof -
  obtain n j where nj: "halve_up 512 (v + 256) = (n, j)" by fastforce
  have h: "n \<le> 512" "v + 256 \<le> n * 2 ^ j" "(n - 1) * 2 ^ j < v + 256"
    "j = 0 \<or> 512 * 2 ^ (j - 1) < v + 256"
    using halve_up_correct [OF nj, of "v + 256" 0] by auto
  have j15: "j \<le> 15"
  proof (rule ccontr)
    assume "\<not> j \<le> 15"
    then have "(512 :: nat) * 2 ^ 15 \<le> 512 * 2 ^ (j - 1)"
      by (intro mult_le_mono power_increasing) auto
    with h(4) assms(2) \<open>\<not> j \<le> 15\<close> show False by auto
  qed
  have n257: "257 \<le> n"
  proof (cases "j = 0")
    case True
    with h(2) assms(1) show ?thesis by simp
  next
    case False
    then have "n * 2 ^ j = 2 * n * 2 ^ (j - 1)" by (cases j) auto
    with False h(2,4) have "512 * 2 ^ (j - 1) < 2 * n * 2 ^ (j - 1)" by linarith
    then have "512 < 2 * n" by (rule mult_less_cancel2 [THEN iffD1, THEN conjunct2])
    then show ?thesis by simp
  qed
  have u: "unat (of_nat v + 256 :: u32) = v + 256"
    using unat_of_nat_small [of "v + 256", where 'a = 32] assms(2) by simp
  have "ucast (of_nat n - 257 :: u32) = (of_nat (n - 257) :: u8)"
  proof -
    have "(of_nat n - 257 :: u32) = of_nat (n - 257)" using n257 by simp
    then have "unat (of_nat n - 257 :: u32) = n - 257"
      using h(1) unat_of_nat_small [of "n - 257", where 'a = 32] by simp
    then show ?thesis by (simp only: ucast_of_unat)
  qed
  then have "rfc7181_metric_encode (of_nat v) = Some \<lparr>mf_b0 = of_nat j, mf_b1 = of_nat (n - 257)\<rparr>"
    using assms metric_encode_loop_halve [of "of_nat v + 256" 0] nj
    by (simp add: rfc7181_metric_encode_def conv_consts word_less_nat_alt word_le_nat_alt
        unat_of_nat_small u del: of_nat_diff)
  then show thesis using that n257 h j15 by blast
qed

lemma metric_decode_le_max: "rfc7181_metric_decode m \<le> RFC7181_METRIC_MAX"
proof -
  have "(257 + unat (mf_b1 m)) * 2 ^ (unat (mf_b0 m) mod 16) \<le> 512 * 2 ^ 15"
    using u8_bound [of "mf_b1 m"] by (intro mult_le_mono power_increasing) auto
  then show ?thesis by (simp add: word_le_nat_alt conv_consts metric_decode_nat)
qed


text \<open>
  Two codes with normalised mantissas: comparing their values bounds the exponents.
\<close>

lemma normalised_exponent:
  fixes x n e j :: nat
  assumes "257 \<le> n" "x \<le> 512" "(n - 1) * 2 ^ j < x * 2 ^ e"
  shows "j \<le> e"
proof (rule ccontr)
  assume "\<not> j \<le> e"
  then have p: "(2 :: nat) ^ j = 2 * 2 ^ e * 2 ^ (j - Suc e)"
    by (simp add: power_add [symmetric] power_Suc [symmetric] del: power_Suc)
  have "x * 2 ^ e \<le> 512 * 2 ^ e * 1" using assms(2) by simp
  also have "\<dots> \<le> 512 * 2 ^ e * 2 ^ (j - Suc e)" by (intro mult_le_mono) simp_all
  also have "\<dots> = 256 * 2 ^ j" unfolding p by simp
  also have "\<dots> \<le> (n - 1) * 2 ^ j" using assms(1) by (intro mult_le_mono1) simp
  finally show False using assms(3) by simp
qed

lemma normalised_least:
  fixes x n e j :: nat
  assumes "257 \<le> n" "x \<le> 512" "(n - 1) * 2 ^ j < x * 2 ^ e"
  shows "n * 2 ^ j \<le> x * 2 ^ e"
proof -
  have je: "j \<le> e" by (rule normalised_exponent [OF assms])
  then have p: "x * 2 ^ e = (x * 2 ^ (e - j)) * 2 ^ j"
    by (simp add: mult.assoc power_add [symmetric])
  with assms(3) have "n - 1 < x * 2 ^ (e - j)" by simp
  then have "n \<le> x * 2 ^ (e - j)" by simp
  then show ?thesis unfolding p by (rule mult_le_mono1)
qed

text \<open>
  C21: the RFC 7181 metric encoder succeeds on every metric from 1 to the maximum, returns a
  twelve bit code, and rounds up to the nearest metric that has a code at all.
\<close>

theorem metric_encode_least:
  assumes "RFC7181_METRIC_MIN \<le> v" and "v \<le> RFC7181_METRIC_MAX"
  shows "\<exists>m. rfc7181_metric_encode v = Some m \<and> mf_b0 m < 16 \<and> v \<le> rfc7181_metric_decode m \<and>
    (\<forall>m'. v \<le> rfc7181_metric_decode m' \<longrightarrow> rfc7181_metric_decode m \<le> rfc7181_metric_decode m')"
proof -
  have v: "0 < unat v" "unat v \<le> 0xffff00" "of_nat (unat v) = v"
    using assms by (simp_all add: conv_consts word_le_nat_alt)
  obtain n j where e: "rfc7181_metric_encode v = Some \<lparr>mf_b0 = of_nat j, mf_b1 = of_nat (n - 257)\<rparr>"
    and n: "257 \<le> n" "n \<le> 512" "j \<le> 15"
    and b: "unat v + 256 \<le> n * 2 ^ j" "(n - 1) * 2 ^ j < unat v + 256"
    using metric_encode_nat [OF v(1,2)] v(3) by metis
  let ?m = "\<lparr>mf_b0 = of_nat j, mf_b1 = of_nat (n - 257)\<rparr>"
  have j: "unat (of_nat j :: u8) = j" using n by (intro unat_of_nat_small) simp
  have "unat (of_nat (n - 257) :: u8) = n - 257" using n by (intro unat_of_nat_small) simp
  with j n have dm: "unat (rfc7181_metric_decode ?m) = n * 2 ^ j - 256"
    by (simp add: metric_decode_nat del: of_nat_diff)
  have "v \<le> rfc7181_metric_decode ?m"
    using b(1) by (simp add: word_le_nat_alt dm)
  moreover have "rfc7181_metric_decode ?m \<le> rfc7181_metric_decode m'"
    if "v \<le> rfc7181_metric_decode m'" for m'
  proof -
    let ?x = "257 + unat (mf_b1 m')" and ?e = "unat (mf_b0 m') mod 16"
    have "unat v + 256 \<le> ?x * 2 ^ ?e"
      using that v(1) by (simp only: word_le_nat_alt metric_decode_nat)
    then have "n * 2 ^ j \<le> ?x * 2 ^ ?e"
      using b(2) u8_bound [of "mf_b1 m'"] by (intro normalised_least [OF n(1)]) auto
    then show ?thesis
      by (simp only: word_le_nat_alt dm) (simp only: metric_decode_nat diff_le_mono)
  qed
  moreover have "(of_nat j :: u8) < 16" using n j by (simp add: word_less_nat_alt)
  ultimately show ?thesis using e by auto
qed

theorem metric_encode_least_witness:
  "\<exists>m. rfc7181_metric_encode 1000 = Some m \<and> mf_b0 m < 16 \<and> 1000 \<le> rfc7181_metric_decode m \<and>
    (\<forall>m'. 1000 \<le> rfc7181_metric_decode m' \<longrightarrow> rfc7181_metric_decode m \<le> rfc7181_metric_decode m')"
  by (rule metric_encode_least) (simp_all add: conv_consts)

text \<open>
  Every metric code whose flag bits are clear survives decoding and encoding again
  unchanged.
\<close>

theorem metric_roundtrip:
  assumes "mf_b0 m < 16"
  shows "rfc7181_metric_encode (rfc7181_metric_decode m) = Some m"
proof -
  let ?x = "257 + unat (mf_b1 m)" and ?e = "unat (mf_b0 m)" and ?v = "unat (rfc7181_metric_decode m)"
  have e16: "?e mod 16 = ?e" using assms by (simp add: word_less_nat_alt)
  have "257 * 1 \<le> ?x * 2 ^ ?e" by (intro mult_le_mono) simp_all
  then have v: "?v + 256 = ?x * 2 ^ ?e" "0 < ?v" by (simp_all add: metric_decode_nat e16)
  have "?v \<le> 0xffff00" using metric_decode_le_max [of m] by (simp add: word_le_nat_alt conv_consts)
  then obtain n j where en: "rfc7181_metric_encode (of_nat ?v) = Some \<lparr>mf_b0 = of_nat j, mf_b1 = of_nat (n - 257)\<rparr>"
    and n: "257 \<le> n" "n \<le> 512" "?x * 2 ^ ?e \<le> n * 2 ^ j" "(n - 1) * 2 ^ j < ?x * 2 ^ ?e"
    using metric_encode_nat [OF v(2)] unfolding v(1) by metis
  have "j \<le> ?e" using n u8_bound [of "mf_b1 m"] by (intro normalised_exponent [OF n(1) _ n(4)]) simp
  moreover have "?e \<le> j"
  proof (rule normalised_exponent [of ?x n])
    have "(?x - 1) * 2 ^ ?e < ?x * 2 ^ ?e" by simp
    with n(3) show "(?x - 1) * 2 ^ ?e < n * 2 ^ j" by linarith
  qed (use n in auto)
  ultimately have j: "j = ?e" by simp
  with n(3,4) have "n = ?x" by simp
  with en j show ?thesis by simp
qed

theorem metric_roundtrip_witness:
  "rfc7181_metric_encode (rfc7181_metric_decode \<lparr>mf_b0 = 3, mf_b1 = 77\<rparr>) = Some \<lparr>mf_b0 = 3, mf_b1 = 77\<rparr>"
  by (rule metric_roundtrip) simp


subsection \<open>Time vectors\<close>

text \<open>
  RFC 5497, Section 5: a vector \<open>t0 d1 t1 d2 t2 \<dots>\<close> assigns \<open>t0\<close> up to distance \<open>d1\<close>,
  \<open>t1\<close> up to \<open>d2\<close> and so on; the last time is for every larger distance.
\<close>

fun vector_lookup :: "u8 list \<Rightarrow> u8 \<Rightarrow> u8" where
  "vector_lookup (t # d # ts) hopcount = (if hopcount \<le> d then t else vector_lookup ts hopcount)"
| "vector_lookup [t] hopcount = t"
| "vector_lookup [] hopcount = 255"

lemma get_from_vector_loop_lookup:
  assumes "odd (length ts)" "vector = pre @ ts" "even (length pre)"
  shows "get_from_vector_loop vector (length vector) hopcount (length pre + 1) =
    Inr (vector_lookup ts hopcount)"
  using assms
proof (induction ts hopcount arbitrary: pre rule: vector_lookup.induct)
  case (1 t d ts hopcount)
  have "get_from_vector_loop vector (length vector) hopcount (length (pre @ [t, d]) + 1) =
    Inr (vector_lookup ts hopcount)" if "\<not> hopcount \<le> d"
    using 1(2-4) that by (intro 1(1)) auto
  then show ?case
    using 1(3) by (subst get_from_vector_loop.simps) (simp add: nth_append)
next
  case (2 t hopcount)
  then show ?case by (subst get_from_vector_loop.simps) (simp add: nth_append)
qed simp

text \<open>
  C25: the lookup in a time vector never reads outside the vector and returns the time RFC 5497
  assigns to the hop count; a vector of even length gives the infinite time 255.
\<close>

theorem timetlv_vector_lookup:
  "rfc5497_timetlv_get_from_vector vector (length vector) hopcount =
     Inr (if even (length vector) then 255 else vector_lookup vector hopcount)"
  using get_from_vector_loop_lookup [of vector vector "[]" hopcount]
  by (simp add: rfc5497_timetlv_get_from_vector_def)

end
