(* ===== verification/Netaddr.thy ===== *)
theory Netaddr
  imports Oonf_Prelude
begin

section \<open>Network addresses (libcommon/netaddr)\<close>

text \<open>
  The binary part of \<^verbatim>\<open>src/src/libcommon/netaddr.c\<close> and the inline functions of
  \<^verbatim>\<open>include/oonf/libcommon/netaddr.h\<close>: an address is sixteen bytes, a type and a prefix length.
  A function that writes through a pointer returns the new value; one that copies memory returns
  \<open>fault + _\<close>. The text representation is in the theory \<^verbatim>\<open>Netaddr_String\<close>.
\<close>

text \<open>Address families; the values of \<open>AF_INET\<close>, \<open>AF_INET6\<close> and \<open>AF_MAX\<close> are those of Linux.\<close>

definition AF_UNSPEC :: u8 where "AF_UNSPEC = 0"
definition AF_INET :: u8 where "AF_INET = 2"
definition AF_INET6 :: u8 where "AF_INET6 = 10"
definition AF_MAX :: u8 where "AF_MAX = 46"
definition AF_MAC48 :: u8 where "AF_MAC48 = AF_MAX + 1"
definition AF_EUI64 :: u8 where "AF_EUI64 = AF_MAX + 2"
definition AF_UUID :: u8 where "AF_UUID = AF_MAX + 3"

lemmas af_defs = AF_UNSPEC_def AF_INET_def AF_INET6_def AF_MAX_def AF_MAC48_def AF_EUI64_def
  AF_UUID_def

record netaddr =
  na_addr :: "u8 list"
  na_type :: u8
  na_prefix_len :: u8

text \<open>The array \<open>_addr\<close> has sixteen elements: the type invariant of the struct.\<close>

definition netaddr_wf :: "netaddr \<Rightarrow> bool" where
  "netaddr_wf a \<longleftrightarrow> length (na_addr a) = 16"

definition netaddr_invalidate :: netaddr where
  "netaddr_invalidate = \<lparr>na_addr = replicate 16 0, na_type = 0, na_prefix_len = 0\<rparr>"

definition netaddr_is_unspec :: "netaddr option \<Rightarrow> bool" where
  "netaddr_is_unspec addr = (case addr of None \<Rightarrow> True | Some a \<Rightarrow> na_type a = AF_UNSPEC)"

definition netaddr_get_af_maxprefix :: "u32 \<Rightarrow> u8" where
  "netaddr_get_af_maxprefix af_type =
     (if af_type = ucast AF_INET then 32
      else if af_type = ucast AF_INET6 then 128
      else if af_type = ucast AF_MAC48 then 48
      else if af_type = ucast AF_EUI64 then 64
      else 0)"

definition netaddr_get_maxprefix :: "netaddr \<Rightarrow> u8" where
  "netaddr_get_maxprefix addr = netaddr_get_af_maxprefix (ucast (na_type addr))"

definition netaddr_is_host :: "netaddr \<Rightarrow> bool" where
  "netaddr_is_host addr = (netaddr_get_maxprefix addr = na_prefix_len addr)"

definition netaddr_get_binlength :: "netaddr \<Rightarrow> nat" where
  "netaddr_get_binlength n = unat (drop_bit 3 (netaddr_get_maxprefix n))"

subsection \<open>Binary addresses\<close>

definition netaddr_type_of_len :: "nat \<Rightarrow> u8" where
  "netaddr_type_of_len len =
     (if len = 4 then AF_INET else if len = 6 then AF_MAC48 else if len = 8 then AF_EUI64
      else if len = 16 then AF_INET6 else AF_UNSPEC)"

text \<open>Returns the address and the return code of the function.\<close>

definition netaddr_from_binary_prefix ::
    "u8 list \<Rightarrow> nat \<Rightarrow> u8 \<Rightarrow> u8 \<Rightarrow> fault + netaddr \<times> int" where
  "netaddr_from_binary_prefix binary len addr_type prefix_len =
     (let zero = replicate 16 (0::u8);
          type = (if addr_type \<noteq> 0 then addr_type else netaddr_type_of_len len);
          len = (if addr_type = 0 \<and> type = AF_UNSPEC \<and> len > 16 then 16 else len);
          prefix_len = (if prefix_len = 255 then of_nat (len * 8) else prefix_len)
      in bind_f (slice binary 0 len) (\<lambda>src.
         bind_f (memcpy_in zero 0 src) (\<lambda>addr.
         Inr (\<lparr>na_addr = addr, na_type = type, na_prefix_len = prefix_len\<rparr>,
              if type = AF_UNSPEC then -1 else 0))))"

definition netaddr_from_binary :: "u8 list \<Rightarrow> nat \<Rightarrow> u8 \<Rightarrow> fault + netaddr \<times> int" where
  "netaddr_from_binary binary len addr_type = netaddr_from_binary_prefix binary len addr_type 255"

text \<open>\<open>dst\<close> is the caller's buffer; \<open>None\<close> is the return code -1.\<close>

definition netaddr_to_binary :: "u8 list \<Rightarrow> netaddr \<Rightarrow> nat \<Rightarrow> fault + u8 list option" where
  "netaddr_to_binary dst src len =
     (let addr_len = netaddr_get_binlength src
      in if addr_len = 0 \<or> len < addr_len then Inr None
         else bind_f (slice (na_addr src) 0 addr_len) (\<lambda>bytes.
              bind_f (memcpy_in dst 0 bytes) (\<lambda>dst'. Inr (Some dst'))))"

subsection \<open>Prefixes\<close>

definition netaddr_create_host_bin ::
    "netaddr \<Rightarrow> u8 list \<Rightarrow> nat \<Rightarrow> fault + netaddr \<times> int" where
  "netaddr_create_host_bin netmask number num_length =
     (let host = netmask\<lparr>na_prefix_len := netaddr_get_maxprefix netmask\<rparr>;
          hp = unat (na_prefix_len host); np = unat (na_prefix_len netmask)
      in if na_prefix_len host = 0 then Inr (host, -1)
         else if na_prefix_len host = na_prefix_len netmask \<or> num_length = 0 then Inr (host, 0)
         else
           let host_part_length =
                 unat (of_int (c_div (int hp - int np + 7) 8) :: u8)
           in if host_part_length > num_length
              then if hp div 8 < num_length then Inl OOB_Write
                   else bind_f (slice number 0 num_length) (\<lambda>bytes.
                   bind_f (memcpy_in (na_addr host) (hp div 8 - num_length) bytes) (\<lambda>addr.
                   Inr (host\<lparr>na_addr := addr\<rparr>, 0)))
              else
                let host_index = np div 8; number_index = num_length - host_part_length
                in if np mod 8 \<noteq> 0
                   then let mask = (drop_bit (np mod 8) 255 :: u8)
                        in bind_f (rd (na_addr host) host_index) (\<lambda>h.
                           bind_f (rd number number_index) (\<lambda>n.
                           bind_f (slice number (number_index + 1) (num_length - (number_index + 1))) (\<lambda>bytes.
                           bind_f (memcpy_in
                                     ((na_addr host)[host_index := (h AND NOT mask) OR (n AND mask)])
                                     (host_index + 1) bytes) (\<lambda>addr.
                           Inr (host\<lparr>na_addr := addr\<rparr>, 0)))))
                   else bind_f (slice number number_index (num_length - number_index)) (\<lambda>bytes.
                        bind_f (memcpy_in (na_addr host) host_index bytes) (\<lambda>addr.
                        Inr (host\<lparr>na_addr := addr\<rparr>, 0))))"

definition netaddr_create_host :: "netaddr \<Rightarrow> netaddr \<Rightarrow> fault + netaddr \<times> int" where
  "netaddr_create_host netmask host_number =
     netaddr_create_host_bin netmask (na_addr host_number)
       (unat (netaddr_get_maxprefix host_number) div 8)"

text \<open>
  The loop of \<open>netaddr_create_prefix\<close>: the \<open>case 255\<close> of its switch increments \<open>len\<close>
  and so does the loop header.
\<close>

function create_prefix_loop ::
    "netaddr \<Rightarrow> netaddr \<Rightarrow> bool \<Rightarrow> nat \<Rightarrow> netaddr \<Rightarrow> nat \<Rightarrow> netaddr \<times> int" where
  "create_prefix_loop host netmask trunc maxlen prefix len =
     (if len < maxlen
      then let m = na_addr netmask ! len;
               prefix = (if trunc
                         then prefix\<lparr>na_addr := (na_addr prefix)[len := na_addr host ! len AND m]\<rparr>
                         else prefix);
               plen = na_prefix_len prefix
           in if m = 255
              then create_prefix_loop host netmask trunc maxlen
                     (prefix\<lparr>na_prefix_len := plen + 8\<rparr>) (len + 2)
              else if m = 254 then (prefix\<lparr>na_prefix_len := plen + 7\<rparr>, 0)
              else if m = 252 then (prefix\<lparr>na_prefix_len := plen + 6\<rparr>, 0)
              else if m = 248 then (prefix\<lparr>na_prefix_len := plen + 5\<rparr>, 0)
              else if m = 240 then (prefix\<lparr>na_prefix_len := plen + 4\<rparr>, 0)
              else if m = 224 then (prefix\<lparr>na_prefix_len := plen + 3\<rparr>, 0)
              else if m = 192 then (prefix\<lparr>na_prefix_len := plen + 2\<rparr>, 0)
              else if m = 128 then (prefix\<lparr>na_prefix_len := plen + 1\<rparr>, 0)
              else if m = 0 then (prefix, 0)
              else (prefix, -1)
      else (prefix, 0))"
  by pat_completeness auto
termination
  by (relation "measure (\<lambda>(h, n, t, maxlen, p, len). maxlen - len)") auto

declare create_prefix_loop.simps [simp del]

text \<open>\<open>prefix\<close> is the previous content of the target; the family decides how many bytes are read.\<close>

definition netaddr_create_prefix ::
    "netaddr \<Rightarrow> netaddr \<Rightarrow> netaddr \<Rightarrow> bool \<Rightarrow> netaddr \<times> int" where
  "netaddr_create_prefix prefix host netmask trunc =
     (if na_type host \<noteq> na_type netmask \<or> na_type host = AF_UNSPEC then (prefix, -1)
      else let maxlen = unat (netaddr_get_af_maxprefix (ucast (na_type host))) div 8;
               prefix = prefix\<lparr>na_prefix_len := 0, na_type := na_type host\<rparr>;
               prefix = (if trunc then prefix else prefix\<lparr>na_addr := na_addr host\<rparr>)
           in create_prefix_loop host netmask trunc maxlen prefix 0)"

definition truncate_MASK :: "u8 list" where
  "truncate_MASK = [0, 0x80, 0xc0, 0xe0, 0xf0, 0xf8, 0xfc, 0xfe]"

text \<open>
  \<open>dst\<close> is the previous content of the target, \<open>same\<close> says that \<open>src\<close> and \<open>dst\<close>
  are the same object (then \<open>dst\<close> has the value of \<open>src\<close>).
\<close>

definition netaddr_truncate :: "bool \<Rightarrow> netaddr \<Rightarrow> netaddr \<Rightarrow> fault + netaddr" where
  "netaddr_truncate same dst src =
     (let byte_prefix = unat (na_prefix_len src) div 8; bit_prefix = unat (na_prefix_len src AND 7)
      in bind_f (if same then Inr src
                 else bind_f (slice (na_addr src) 0 byte_prefix) (\<lambda>bytes.
                      bind_f (memcpy_in (na_addr dst) 0 bytes) (\<lambda>addr.
                      Inr \<lparr>na_addr = addr, na_type = na_type src, na_prefix_len = na_prefix_len src\<rparr>)))
           (\<lambda>dst.
         bind_f (if bit_prefix \<noteq> 0
                 then bind_f (rd (na_addr src) byte_prefix) (\<lambda>b.
                      bind_f (memcpy_in (na_addr dst) byte_prefix [b AND truncate_MASK ! bit_prefix]) (\<lambda>addr.
                      Inr (addr, byte_prefix + 1)))
                 else Inr (na_addr dst, byte_prefix))
           (\<lambda>(addr, byte_prefix).
         if byte_prefix < 16
         then bind_f (memcpy_in addr byte_prefix (replicate (16 - byte_prefix) 0)) (\<lambda>addr.
              Inr (dst\<lparr>na_addr := addr\<rparr>))
         else Inr (dst\<lparr>na_addr := addr\<rparr>))))"

subsection \<open>Comparison\<close>

text \<open>The sign of \<open>memcmp\<close> on two blocks of the same length.\<close>

fun memcmp :: "u8 list \<Rightarrow> u8 list \<Rightarrow> int" where
  "memcmp (x # xs) (y # ys) = (if x < y then -1 else if y < x then 1 else memcmp xs ys)"
| "memcmp _ _ = 0"

text \<open>The bytes of the struct in memory order.\<close>

definition netaddr_bytes :: "netaddr \<Rightarrow> u8 list" where
  "netaddr_bytes a = na_addr a @ [na_type a, na_prefix_len a]"

definition netaddr_cmp :: "netaddr \<Rightarrow> netaddr \<Rightarrow> int" where
  "netaddr_cmp a1 a2 = memcmp (netaddr_bytes a1) (netaddr_bytes a2)"

definition netaddr_isequal_binary :: "netaddr \<Rightarrow> u8 list \<Rightarrow> nat \<Rightarrow> u16 \<Rightarrow> u8 \<Rightarrow> fault + bool" where
  "netaddr_isequal_binary addr bin len af prefix_len =
     (if ucast (na_type addr) \<noteq> af \<or> na_prefix_len addr \<noteq> prefix_len then Inr False
      else let addr_len = netaddr_get_binlength addr
           in if addr_len \<noteq> len then Inr False
              else bind_f (slice (na_addr addr) 0 addr_len) (\<lambda>x.
                   bind_f (slice bin 0 addr_len) (\<lambda>y. Inr (memcmp x y = 0))))"

definition binary_is_in_subnet :: "netaddr \<Rightarrow> u8 list \<Rightarrow> fault + bool" where
  "binary_is_in_subnet subnet bin =
     (let byte_length = unat (na_prefix_len subnet) div 8;
          bit_length = unat (na_prefix_len subnet) mod 8
      in bind_f (slice (na_addr subnet) 0 byte_length) (\<lambda>x.
         bind_f (slice bin 0 byte_length) (\<lambda>y.
         if memcmp x y \<noteq> 0 then Inr False
         else if bit_length \<noteq> 0
         then bind_f (rd (na_addr subnet) byte_length) (\<lambda>s.
              bind_f (rd bin byte_length) (\<lambda>b.
              Inr (drop_bit (8 - bit_length) s = drop_bit (8 - bit_length) b)))
         else Inr True)))"

definition netaddr_binary_is_in_subnet :: "netaddr \<Rightarrow> u8 list \<Rightarrow> nat \<Rightarrow> u8 \<Rightarrow> fault + bool" where
  "netaddr_binary_is_in_subnet subnet bin len af_family =
     (if na_type subnet \<noteq> af_family \<or> unat (netaddr_get_maxprefix subnet) \<noteq> len * 8 then Inr False
      else binary_is_in_subnet subnet bin)"

definition netaddr_is_in_subnet :: "netaddr \<Rightarrow> netaddr \<Rightarrow> fault + bool" where
  "netaddr_is_in_subnet subnet addr =
     (if na_type subnet \<noteq> na_type addr then Inr False
      else binary_is_in_subnet subnet (na_addr addr))"

subsection \<open>Embedded addresses\<close>

definition netaddr_embed_ipv4_compatible :: "netaddr \<Rightarrow> netaddr" where
  "netaddr_embed_ipv4_compatible src =
     \<lparr>na_addr = replicate 12 0 @ take 4 (na_addr src), na_type = AF_INET6,
      na_prefix_len = na_prefix_len src + 96\<rparr>"

definition netaddr_extract_ipv4_compatible :: "netaddr \<Rightarrow> netaddr" where
  "netaddr_extract_ipv4_compatible src =
     \<lparr>na_addr = take 4 (drop 12 (na_addr src)) @ replicate 12 0, na_type = AF_INET,
      na_prefix_len = na_prefix_len src - 96\<rparr>"

definition netaddr_is_mac48_multicast :: "netaddr \<Rightarrow> bool" where
  "netaddr_is_mac48_multicast addr = (na_type addr = AF_MAC48 \<and> na_addr addr ! 0 AND 1 = 1)"

definition netaddr_get_stateless_ipv6 :: "netaddr \<Rightarrow> netaddr \<Rightarrow> netaddr" where
  "netaddr_get_stateless_ipv6 template mac =
     (let m = na_addr mac
      in \<lparr>na_addr = take 8 (na_addr template) @
            [m ! 0 XOR 2, m ! 1, m ! 2, 0xff, 0xfe, m ! 3, m ! 4, m ! 5],
          na_type = AF_INET6, na_prefix_len = 128\<rparr>)"

section \<open>Properties\<close>

subsection \<open>Addresses as bit strings\<close>

text \<open>Bit \<open>i\<close> of a binary address, counted from the most significant bit of its first byte.\<close>

definition addr_bit :: "u8 list \<Rightarrow> nat \<Rightarrow> bool" where
  "addr_bit bs i = bit (bs ! (i div 8)) (7 - i mod 8)"

lemma addr_bit_byte [simp]: "j < 8 \<Longrightarrow> addr_bit bs (8 * k + j) = bit (bs ! k) (7 - j)"
  by (simp add: addr_bit_def)

lemma u8_bit_ge: "8 \<le> n \<Longrightarrow> \<not> bit (w :: u8) n"
  by (auto dest: bit_imp_le_length)

lemma drop_bit_eq_iff_bits:
  fixes s b :: u8
  assumes "r \<le> 8"
  shows "drop_bit (8 - r) s = drop_bit (8 - r) b \<longleftrightarrow> (\<forall>j<r. bit s (7 - j) = bit b (7 - j))"
proof
  assume eq: "drop_bit (8 - r) s = drop_bit (8 - r) b"
  show "\<forall>j<r. bit s (7 - j) = bit b (7 - j)"
  proof (intro allI impI)
    fix j assume "j < r"
    with assms have "7 - j = 8 - r + (r - 1 - j)" by simp
    then show "bit s (7 - j) = bit b (7 - j)"
      using arg_cong [OF eq, of "\<lambda>w. bit w (r - 1 - j)"] by (simp add: bit_drop_bit_eq)
  qed
next
  assume bits: "\<forall>j<r. bit s (7 - j) = bit b (7 - j)"
  show "drop_bit (8 - r) s = drop_bit (8 - r) b"
  proof (rule bit_word_eqI)
    fix n
    show "bit (drop_bit (8 - r) s) n = bit (drop_bit (8 - r) b) n"
    proof (cases "n < r")
      case True
      with assms have "8 - r + n = 7 - (r - 1 - n)" by simp
      moreover have "bit s (7 - (r - 1 - n)) = bit b (7 - (r - 1 - n))"
        using bits [rule_format, of "r - 1 - n"] True by simp
      ultimately show ?thesis by (simp only: bit_drop_bit_eq o_def)
    next
      case False
      with assms have "8 \<le> 8 - r + n" by simp
      then show ?thesis by (simp only: bit_drop_bit_eq o_def u8_bit_ge simp_thms)
    qed
  qed
qed

lemma byte_eq_iff_bits: "(s :: u8) = b \<longleftrightarrow> (\<forall>j<8. bit s (7 - j) = bit b (7 - j))"
  using drop_bit_eq_iff_bits [of 8 s b] by simp

lemma all_bits_split:
  fixes n r :: nat
  assumes "r < 8"
  shows "(\<forall>i<8 * n + r. P i) \<longleftrightarrow> (\<forall>k<n. \<forall>j<8. P (8 * k + j)) \<and> (\<forall>j<r. P (8 * n + j))"
proof (intro iffI conjI allI impI)
  fix i assume h: "(\<forall>k<n. \<forall>j<8. P (8 * k + j)) \<and> (\<forall>j<r. P (8 * n + j))" and i: "i < 8 * n + r"
  have dm: "i = 8 * (i div 8) + i mod 8" by simp
  show "P i"
  proof (cases "i div 8 < n")
    case True
    moreover have "i mod 8 < 8" by simp
    ultimately have "P (8 * (i div 8) + i mod 8)" using h by blast
    with dm show ?thesis by metis
  next
    case False
    with i assms have n: "i div 8 = n" by linarith
    with dm i have "i mod 8 < r" by linarith
    with h have "P (8 * n + i mod 8)" by blast
    with dm n show ?thesis by metis
  qed
qed auto

lemma memcmp_zero_iff: "length xs = length ys \<Longrightarrow> memcmp xs ys = 0 \<longleftrightarrow> xs = ys"
  by (induction xs ys rule: memcmp.induct) (auto simp: neq_iff)

lemma take_eq_iff_nth:
  "n \<le> length xs \<Longrightarrow> n \<le> length ys \<Longrightarrow> take n xs = take n ys \<longleftrightarrow> (\<forall>k<n. xs ! k = ys ! k)"
  by (auto simp: list_eq_iff_nth_eq)

text \<open>
  C22: the subnet test of an address is memory safe for prefix lengths up to 128 and holds
  exactly when the address agrees with the subnet on every bit of the prefix.
\<close>

theorem binary_is_in_subnet_bits:
  assumes "length (na_addr subnet) = 16" "length bin = 16" "na_prefix_len subnet \<le> 128"
  shows "binary_is_in_subnet subnet bin =
    Inr (\<forall>i<unat (na_prefix_len subnet). addr_bit (na_addr subnet) i = addr_bit bin i)"
proof -
  define n where "n = unat (na_prefix_len subnet) div 8"
  define r where "r = unat (na_prefix_len subnet) mod 8"
  have p: "unat (na_prefix_len subnet) = 8 * n + r" "r < 8" by (simp_all add: n_def r_def)
  have n16: "n \<le> 16" "r \<noteq> 0 \<Longrightarrow> n < 16"
    using assms(3) p by (auto simp: word_le_nat_alt)
  have bytes: "take n (na_addr subnet) = take n bin \<longleftrightarrow>
      (\<forall>k<n. \<forall>j<8. bit (na_addr subnet ! k) (7 - j) = bit (bin ! k) (7 - j))"
    using n16 assms(1,2) by (subst take_eq_iff_nth) (auto simp: byte_eq_iff_bits)
  show ?thesis
    using n16 assms(1,2) p(2)
    unfolding p(1) all_bits_split [OF p(2)]
    by (simp add: binary_is_in_subnet_def n_def [symmetric] r_def [symmetric] memcmp_zero_iff
        bytes drop_bit_eq_iff_bits)
qed

theorem binary_is_in_subnet_bits_witness:
  "binary_is_in_subnet \<lparr>na_addr = 10 # replicate 15 0, na_type = AF_INET, na_prefix_len = 9\<rparr>
     (replicate 16 10) =
   Inr (\<forall>i<unat (9 :: u8). addr_bit (10 # replicate 15 0) i = addr_bit (replicate 16 10) i)"
  using binary_is_in_subnet_bits
    [of "\<lparr>na_addr = 10 # replicate 15 0, na_type = AF_INET, na_prefix_len = 9\<rparr>" "replicate 16 10"]
  by simp

lemma truncate_MASK_bit:
  assumes "r < 8" "j < 8"
  shows "bit (truncate_MASK ! r) (7 - j) \<longleftrightarrow> j < r"
proof -
  have "\<forall>r\<in>set [0..<8]. \<forall>j\<in>set [0..<8]. bit (truncate_MASK ! r) (7 - j) \<longleftrightarrow> j < r"
    by (simp add: truncate_MASK_def upt_rec numeral_nat bit_simps)
  with assms show ?thesis by simp
qed

definition truncated_addr :: "u8 list \<Rightarrow> nat \<Rightarrow> u8 list" where
  "truncated_addr a p = take (p div 8) a @
     (if p mod 8 = 0 then replicate (16 - p div 8) 0
      else (a ! (p div 8) AND truncate_MASK ! (p mod 8)) # replicate (15 - p div 8) 0)"

lemma partial_byte_bound: "p \<le> 128 \<Longrightarrow> p mod 8 \<noteq> 0 \<Longrightarrow> p div 8 < (16 :: nat)"
  by (rule ccontr) (use div_mult_mod_eq [of p 8] in linarith)

lemma truncated_addr_length: "length a = 16 \<Longrightarrow> p \<le> 128 \<Longrightarrow> length (truncated_addr a p) = 16"
  using partial_byte_bound [of p] by (auto simp: truncated_addr_def)

lemma truncated_addr_bit:
  assumes "length a = 16" "p \<le> 128" "i < 128"
  shows "addr_bit (truncated_addr a p) i \<longleftrightarrow> i < p \<and> addr_bit a i"
proof -
  define k j n r where "k = i div 8" "j = i mod 8" "n = p div 8" "r = p mod 8"
  note kj = this
  have ij: "i = 8 * k + j" "j < 8" "k < 16" using assms(3) by (auto simp: kj)
  have pn: "p = 8 * n + r" "r < 8" "n \<le> 16" "r \<noteq> 0 \<Longrightarrow> n < 16" using assms(2) partial_byte_bound [of p] by (auto simp: kj)
  have lt: "i < p \<longleftrightarrow> k < n \<or> k = n \<and> j < r" unfolding ij(1) pn(1) using ij(2) pn(2) by auto
  have "truncated_addr a p ! k =
      (if k < n then a ! k else if k = n \<and> r \<noteq> 0 then a ! k AND truncate_MASK ! r else 0)"
    using assms(1) pn ij(3)
    by (auto simp: truncated_addr_def kj(3,4) [symmetric] nth_append nth_Cons split: nat.splits)
  then show ?thesis
    unfolding lt using ij(2) pn(2)
    by (auto simp: addr_bit_def kj(1,2) [symmetric] bit_and_iff truncate_MASK_bit)
qed

text \<open>Truncating an address, in place or into another object, is memory safe for prefix lengths
  up to 128, keeps type and prefix length, keeps every bit of the prefix and clears all others.
\<close>

theorem netaddr_truncate_correct:
  assumes "netaddr_wf src" "netaddr_wf dst" "na_prefix_len src \<le> 128"
  shows "\<exists>t. netaddr_truncate same dst src = Inr t \<and> netaddr_wf t \<and>
     na_type t = na_type src \<and> na_prefix_len t = na_prefix_len src \<and>
     (\<forall>i<128. addr_bit (na_addr t) i \<longleftrightarrow> i < unat (na_prefix_len src) \<and> addr_bit (na_addr src) i)"
proof -
  define p where "p = unat (na_prefix_len src)"
  have p: "p \<le> 128" using assms(3) by (simp add: p_def word_le_nat_alt)
  have n16: "p div 8 \<le> 16" "p mod 8 \<noteq> 0 \<Longrightarrow> p div 8 < 16"
    using p partial_byte_bound by auto
  have "netaddr_truncate same dst src =
      Inr \<lparr>na_addr = truncated_addr (na_addr src) p, na_type = na_type src,
        na_prefix_len = na_prefix_len src\<rparr>"
    using assms(1,2) n16
    by (cases "p mod 8 = 0") (auto simp: netaddr_truncate_def netaddr_wf_def truncated_addr_def Let_def
        p_def [symmetric] unat_and_7 memcpy_in_def not_less)
  with p show ?thesis
    using assms(1)
    by (simp add: netaddr_wf_def truncated_addr_length truncated_addr_bit p_def [symmetric])
qed

theorem netaddr_truncate_correct_witness:
  "\<exists>t. netaddr_truncate False netaddr_invalidate
        \<lparr>na_addr = replicate 16 255, na_type = AF_INET6, na_prefix_len = 61\<rparr> = Inr t \<and> netaddr_wf t \<and>
     na_type t = AF_INET6 \<and> na_prefix_len t = 61 \<and>
     (\<forall>i<128. addr_bit (na_addr t) i \<longleftrightarrow> i < unat (61 :: u8) \<and> addr_bit (replicate 16 255) i)"
  using netaddr_truncate_correct
    [of "\<lparr>na_addr = replicate 16 255, na_type = AF_INET6, na_prefix_len = 61\<rparr>" netaddr_invalidate False]
  by (simp add: netaddr_wf_def netaddr_invalidate_def)

text \<open>
  The bit of a host address built from a prefix and the last \<open>num_length\<close> bytes of a number.
\<close>

definition host_bit :: "u8 list \<Rightarrow> nat \<Rightarrow> nat \<Rightarrow> u8 list \<Rightarrow> nat \<Rightarrow> nat \<Rightarrow> bool" where
  "host_bit prefix np hp number num_length i =
     (if np \<le> i \<and> hp \<le> i + 8 * num_length
      then addr_bit number (8 * num_length + i - hp) else addr_bit prefix i)"

lemma maxprefix_values: "netaddr_get_maxprefix a \<in> {0, 32, 48, 64, 128}"
  by (simp add: netaddr_get_maxprefix_def netaddr_get_af_maxprefix_def)

lemma maxprefix_bytes:
  obtains m where "netaddr_get_maxprefix a = of_nat (8 * m)" "m \<le> 16"
proof -
  have "netaddr_get_maxprefix a = of_nat (8 * m)" if "netaddr_get_maxprefix a = numeral n" "numeral n = 8 * m"
    for n m using that by (metis of_nat_numeral)
  with maxprefix_values [of a] show thesis
    by (auto intro: that [of 0] that [of 4] that [of 6] that [of 8] that [of 16])
qed

lemma host_part_length_nat:
  assumes "np < 8 * m" "m \<le> 16"
  shows "unat (of_int (c_div (int (8 * m) - int np + 7) 8) :: u8) = m - np div 8"
proof -
  have "c_div (int (8 * m) - int np + 7) 8 = (int (8 * m) - int np + 7) div 8"
    using assms by (intro c_div_nonneg) auto
  also have "\<dots> = int (m - np div 8)"
    using assms by linarith
  finally have "(of_int (c_div (int (8 * m) - int np + 7) 8) :: u8) = of_nat (m - np div 8)"
    by (simp only: of_int_of_nat_eq)
  then show ?thesis using assms(2) by (simp only: unat_of_nat_small) (simp add: unat_of_nat_small del: of_nat_diff)
qed

lemma mask_bit:
  assumes "r < 8" "j < 8"
  shows "bit (drop_bit r 255 :: u8) (7 - j) \<longleftrightarrow> r \<le> j"
proof -
  have "\<forall>r\<in>set [0..<8]. \<forall>j\<in>set [0..<8]. bit (drop_bit r 255 :: u8) (7 - j) \<longleftrightarrow> r \<le> j"
    by (simp add: upt_rec numeral_nat bit_simps)
  with assms show ?thesis by simp
qed

text \<open>The bytes of the host address, the byte the prefix ends in mixed bit by bit.\<close>

definition host_byte :: "u8 list \<Rightarrow> nat \<Rightarrow> nat \<Rightarrow> u8 list \<Rightarrow> nat \<Rightarrow> nat \<Rightarrow> u8" where
  "host_byte prefix np m number num_length k =
     (let n = number ! (num_length + k - m); msk = drop_bit (np mod 8) 255
      in if m \<le> k + num_length \<and> np div 8 \<le> k
         then if np div 8 = k then (prefix ! k AND NOT msk) OR (n AND msk) else n
         else prefix ! k)"

lemma host_byte_bit:
  assumes "j < 8" "k < m"
  shows "bit (host_byte prefix np m number num_length k) (7 - j) =
    host_bit prefix np (8 * m) number num_length (8 * k + j)"
proof -
  define q r where "q = np div 8" "r = np mod 8"
  note qr = this
  have np: "np = 8 * q + r" "r < 8" by (simp_all add: qr)
  have le: "np \<le> 8 * k + j \<longleftrightarrow> q < k \<or> q = k \<and> r \<le> j"
    unfolding np(1) using np(2) assms(1) by auto
  have c: "8 * m \<le> 8 * k + j + 8 * num_length \<longleftrightarrow> m \<le> k + num_length"
    using assms(1) by auto
  have d: "8 * num_length + (8 * k + j) - 8 * m = 8 * (num_length + k - m) + j"
    if "m \<le> k + num_length" using that by auto
  show ?thesis
    using assms(1) np(2)
    by (auto simp: host_byte_def host_bit_def qr [symmetric] le c d Let_def bit_and_iff bit_or_iff bit_not_iff mask_bit)
qed

lemma u8_full: "(x :: u8) AND - 256 OR y AND 255 = y"
proof -
  have "(- 256 :: u8) = 0" "(255 :: u8) = - 1" by simp_all
  then show ?thesis by (simp only: and.right_neutral and_zero_eq or.left_neutral)
qed

lemma create_host_bytes:
  assumes "length A = 16" "m \<le> 16" "np < 8 * m" "num_length \<le> length number"
    and "netaddr_get_maxprefix netmask = of_nat (8 * m)" "0 < num_length"
    and "na_addr netmask = A" "na_prefix_len netmask = of_nat np"
  shows "\<exists>addr. netaddr_create_host_bin netmask number num_length =
      Inr (netmask\<lparr>na_prefix_len := of_nat (8 * m), na_addr := addr\<rparr>, 0) \<and> length addr = 16 \<and>
      (\<forall>k<m. addr ! k = host_byte A np m number num_length k)"
proof -
  have u: "unat (of_nat (8 * m) :: u8) = 8 * m" "unat (of_nat np :: u8) = np"
    using assms(2,3) by (simp_all add: unat_of_nat_small del: of_nat_mult)
  have ne: "(of_nat (8 * m) :: u8) \<noteq> 0" "(of_nat (8 * m) :: u8) \<noteq> of_nat np"
    using u assms(3) by (metis less_nat_zero_code unat_0, metis nat_neq_iff)
  have q: "np div 8 < m" using assms(3) by auto
  note hl = host_part_length_nat [OF assms(3,2)]
  note ev = netaddr_create_host_bin_def Let_def u hl assms(5,7,8)
  let ?q = "np div 8" and ?h = "m - np div 8" and ?msk = "drop_bit (np mod 8) 255 :: u8"
  consider (short) "?h > num_length" | (full) "?h \<le> num_length" "np mod 8 = 0"
    | (mixed) "?h \<le> num_length" "np mod 8 \<noteq> 0" by linarith
  then show ?thesis
  proof cases
    case short
    let ?addr = "take (m - num_length) A @ take num_length number @ drop m A"
    have "netaddr_create_host_bin netmask number num_length =
        Inr (netmask\<lparr>na_prefix_len := of_nat (8 * m), na_addr := ?addr\<rparr>, 0)"
      using short assms ne by (auto simp: ev simp del: of_nat_mult)
    moreover have "\<forall>k<m. ?addr ! k = host_byte A np m number num_length k"
      using short assms by (auto simp: host_byte_def Let_def nth_append add.commute)
    ultimately show ?thesis using short assms by (intro exI [of _ ?addr]) auto
  next
    case full
    let ?addr = "take ?q A @ drop (num_length - ?h) (take num_length number) @ drop m A"
    have "netaddr_create_host_bin netmask number num_length =
        Inr (netmask\<lparr>na_prefix_len := of_nat (8 * m), na_addr := ?addr\<rparr>, 0)"
      using full assms q ne by (auto simp: ev take_drop simp del: of_nat_mult)
    moreover have "\<forall>k<m. ?addr ! k = host_byte A np m number num_length k"
      using full assms q by (auto simp: host_byte_def Let_def nth_append add.commute u8_full)
    ultimately show ?thesis using full assms q by (intro exI [of _ ?addr]) auto
  next
    case mixed
    let ?b = "(A ! ?q AND NOT ?msk) OR (number ! (num_length - ?h) AND ?msk)"
    let ?addr = "take ?q A @ ?b # drop (num_length - ?h + 1) (take num_length number) @ drop m A"
    have "netaddr_create_host_bin netmask number num_length =
        Inr (netmask\<lparr>na_prefix_len := of_nat (8 * m), na_addr := ?addr\<rparr>, 0)"
      using mixed assms q ne
      by (auto simp: ev take_drop upd_conv_take_nth_drop drop_Cons' simp del: of_nat_mult)
    moreover have "?addr ! k = host_byte A np m number num_length k" if "k < m" for k
    proof (cases "?q < k")
      case True
      then obtain d where d: "k = Suc (?q + d)" using less_imp_Suc_add by blast
      with that have dm: "d < m - Suc ?q" by simp
      have l: "length (take ?q A) = ?q" "length (drop (num_length - ?h + 1) (take num_length number)) = m - Suc ?q"
        using mixed(1) assms(1,2,4) q by simp_all
      have "?addr ! k = (?b # drop (num_length - ?h + 1) (take num_length number) @ drop m A) ! Suc d"
        using nth_append_length_plus [of "take ?q A" _ "Suc d"] unfolding d l(1) add_Suc_right .
      also have "\<dots> = drop (num_length - ?h + 1) (take num_length number) ! d"
        unfolding nth_Cons_Suc using dm l(2) by (intro nth_append_left) simp
      also have "\<dots> = number ! (num_length - ?h + 1 + d)"
        using mixed assms q that d by (subst nth_drop) auto
      also have "num_length - ?h + 1 + d = num_length + k - m"
        using mixed that d q by simp
      finally have "?addr ! k = number ! (num_length + k - m)" .
      moreover have "m \<le> k + num_length" using mixed d by linarith
      ultimately show ?thesis using d by (simp add: host_byte_def Let_def)
    next
      case False
      with mixed assms q that show ?thesis
        by (cases "k = ?q") (auto simp: host_byte_def Let_def nth_append)
    qed
    ultimately show ?thesis using mixed assms q by (intro exI [of _ ?addr]) auto
  qed
qed


text \<open>
  Building a host address from a prefix and the bytes of a number is memory safe for a
  prefix length of at most the family's maximum, and every bit of the result is the one of the
  prefix inside the prefix and where the number is too short, and the one of the number, aligned
  at the end of the address, elsewhere.
\<close>

theorem netaddr_create_host_bin_correct:
  assumes "netaddr_wf netmask" "netaddr_get_maxprefix netmask \<noteq> 0"
    and "na_prefix_len netmask \<le> netaddr_get_maxprefix netmask" "num_length \<le> length number"
  shows "\<exists>h. netaddr_create_host_bin netmask number num_length = Inr (h, 0) \<and> netaddr_wf h \<and>
    na_type h = na_type netmask \<and> netaddr_is_host h \<and>
    (\<forall>i<unat (netaddr_get_maxprefix netmask). addr_bit (na_addr h) i =
       host_bit (na_addr netmask) (unat (na_prefix_len netmask)) (unat (netaddr_get_maxprefix netmask))
         number num_length i)"
proof -
  obtain m where m: "netaddr_get_maxprefix netmask = of_nat (8 * m)" "m \<le> 16"
    by (rule maxprefix_bytes)
  have um: "unat (netaddr_get_maxprefix netmask) = 8 * m"
    using m by (simp add: unat_of_nat_small del: of_nat_mult)
  let ?np = "unat (na_prefix_len netmask)"
  have np: "?np \<le> 8 * m" using assms(3) um by (simp add: word_le_nat_alt)
  show ?thesis
  proof (cases "?np = 8 * m \<or> num_length = 0")
    case True
    then have "netaddr_create_host_bin netmask number num_length =
        Inr (netmask\<lparr>na_prefix_len := netaddr_get_maxprefix netmask\<rparr>, 0)"
      using assms(2) um by (auto simp: netaddr_create_host_bin_def Let_def word_unat_eq_iff)
    with True assms(1) um show ?thesis
      by (auto simp: netaddr_wf_def netaddr_is_host_def netaddr_get_maxprefix_def host_bit_def)
  next
    case False
    with np have "?np < 8 * m" by simp
    then obtain addr where r: "netaddr_create_host_bin netmask number num_length =
        Inr (netmask\<lparr>na_prefix_len := of_nat (8 * m), na_addr := addr\<rparr>, 0)" "length addr = 16"
      and b: "\<forall>k<m. addr ! k = host_byte (na_addr netmask) ?np m number num_length k"
      using create_host_bytes [of "na_addr netmask" m ?np num_length number netmask] assms m False
      by (auto simp: netaddr_wf_def)
    have "addr_bit addr i = host_bit (na_addr netmask) ?np (8 * m) number num_length i"
      if "i < 8 * m" for i
    proof -
      have "i div 8 < m" "i mod 8 < 8" "i = 8 * (i div 8) + i mod 8" using that by auto
      with b host_byte_bit [of "i mod 8" "i div 8" m] show ?thesis
        unfolding addr_bit_def by metis
    qed
    with r m(1) um show ?thesis
      by (auto simp: netaddr_wf_def netaddr_is_host_def netaddr_get_maxprefix_def)
  qed
qed

theorem netaddr_create_host_bin_correct_witness:
  "\<exists>h. netaddr_create_host_bin
      \<lparr>na_addr = 10 # replicate 15 0, na_type = AF_INET, na_prefix_len = 12\<rparr> [1, 2, 3] 3 = Inr (h, 0) \<and>
    netaddr_wf h \<and> na_type h = AF_INET \<and> netaddr_is_host h \<and>
    (\<forall>i<unat (32 :: u8). addr_bit (na_addr h) i =
       host_bit (10 # replicate 15 0) (unat (12 :: u8)) (unat (32 :: u8)) [1, 2, 3] 3 i)"
  using netaddr_create_host_bin_correct
    [of "\<lparr>na_addr = 10 # replicate 15 0, na_type = AF_INET, na_prefix_len = 12\<rparr>" 3 "[1, 2, 3]"]
  by (simp add: netaddr_wf_def netaddr_get_maxprefix_def netaddr_get_af_maxprefix_def word_le_nat_alt)

subsection \<open>Binary round trip and the order\<close>

lemma binlength_values:
  "netaddr_get_binlength a =
     (if na_type a = AF_INET then 4 else if na_type a = AF_INET6 then 16
      else if na_type a = AF_MAC48 then 6 else if na_type a = AF_EUI64 then 8 else 0)"
  by (auto simp: netaddr_get_binlength_def netaddr_get_maxprefix_def netaddr_get_af_maxprefix_def
      word_unat_eq_iff unat_ucast_up)

text \<open>
  C23: a binary address of a known length is read into a well formed host address of the family
  of that length, compares equal to its source, and is written back unchanged.
\<close>

theorem netaddr_binary_roundtrip:
  assumes "length bytes \<in> {4, 6, 8, 16}" "length bytes \<le> length dst"
  shows "\<exists>a. netaddr_from_binary bytes (length bytes) 0 = Inr (a, 0) \<and> netaddr_wf a \<and> netaddr_is_host a \<and>
    netaddr_to_binary dst a (length dst) = Inr (Some (bytes @ drop (length bytes) dst)) \<and>
    netaddr_isequal_binary a bytes (length bytes) (ucast (na_type a)) (netaddr_get_maxprefix a) = Inr True"
proof -
  have l: "length bytes \<le> 16" using assms(1) by auto
  let ?a = "\<lparr>na_addr = bytes @ replicate (16 - length bytes) 0, na_type = netaddr_type_of_len (length bytes),
    na_prefix_len = of_nat (length bytes * 8)\<rparr>"
  have bl: "netaddr_get_binlength ?a = length bytes"
    using assms(1) by (auto simp: binlength_values netaddr_type_of_len_def af_defs)
  have "netaddr_from_binary bytes (length bytes) 0 = Inr (?a, 0)"
    using l assms(1)
    by (auto simp: netaddr_from_binary_def netaddr_from_binary_prefix_def Let_def
        netaddr_type_of_len_def af_defs)
  moreover have "netaddr_get_maxprefix ?a = na_prefix_len ?a"
    using assms(1)
    by (auto simp: netaddr_get_maxprefix_def netaddr_get_af_maxprefix_def netaddr_type_of_len_def af_defs)
  moreover have "netaddr_to_binary dst ?a (length dst) = Inr (Some (bytes @ drop (length bytes) dst))"
    using l assms bl by (auto simp: netaddr_to_binary_def Let_def)
  ultimately show ?thesis
    using l bl by (auto simp: netaddr_wf_def netaddr_is_host_def netaddr_isequal_binary_def memcmp_zero_iff)
qed

theorem netaddr_binary_roundtrip_witness:
  "\<exists>a. netaddr_from_binary [192, 168, 0, 1] 4 0 = Inr (a, 0) \<and> netaddr_wf a \<and> netaddr_is_host a \<and>
    netaddr_to_binary [0, 0, 0, 0, 9] a 5 = Inr (Some ([192, 168, 0, 1] @ [9])) \<and>
    netaddr_isequal_binary a [192, 168, 0, 1] 4 (ucast (na_type a)) (netaddr_get_maxprefix a) = Inr True"
  using netaddr_binary_roundtrip [of "[192, 168, 0, 1]" "[0, 0, 0, 0, 9]"]
  by (simp add: eval_nat_numeral)

lemma memcmp_antisym: "length xs = length ys \<Longrightarrow> memcmp ys xs = - memcmp xs ys"
  by (induction xs ys rule: memcmp.induct) auto

lemma memcmp_trans:
  "length xs = length ys \<Longrightarrow> length ys = length zs \<Longrightarrow> memcmp xs ys \<le> 0 \<Longrightarrow> memcmp ys zs \<le> 0 \<Longrightarrow>
   memcmp xs zs \<le> 0"
proof (induction xs ys arbitrary: zs rule: memcmp.induct)
  case (1 x xs y ys)
  then obtain z zs' where z: "zs = z # zs'" by (cases zs) auto
  with 1 show ?case
    by (auto split: if_splits dest: less_trans)
qed simp_all


subsection \<open>Prefixes from netmasks\<close>

text \<open>
  C26: \<open>netaddr_create_prefix\<close> looks at every second byte of a netmask only: an IPv4 netmask
  whose first and third byte are 255 gives a prefix of length 16 and success, whatever its second
  and fourth byte are. For 255.255.255.0 the length should be 24, and 255.7.255.9 is no netmask.
\<close>

theorem create_prefix_skips_bytes:
  assumes "na_type host = AF_INET" "na_type netmask = AF_INET"
    and "na_addr netmask = 255 # b1 # 255 # b3 # rest"
  shows "\<exists>q. netaddr_create_prefix prefix host netmask trunc = (q, 0) \<and> na_prefix_len q = 16"
proof -
  have "netaddr_get_af_maxprefix (ucast AF_INET) = 32" by (simp add: netaddr_get_af_maxprefix_def)
  with assms show ?thesis
    by (cases trunc) (simp_all add: netaddr_create_prefix_def Let_def create_prefix_loop.simps af_defs)
qed

theorem create_prefix_skips_bytes_witness:
  "\<exists>q. netaddr_create_prefix netaddr_invalidate
     \<lparr>na_addr = [10, 1, 2, 3, 0, 0, 0, 0, 0, 0, 0, 0, 0, 0, 0, 0], na_type = AF_INET, na_prefix_len = 32\<rparr>
     \<lparr>na_addr = [255, 255, 255, 0, 0, 0, 0, 0, 0, 0, 0, 0, 0, 0, 0, 0], na_type = AF_INET, na_prefix_len = 32\<rparr>
     True = (q, 0) \<and> na_prefix_len q = 16"
  by (rule create_prefix_skips_bytes) simp_all

end
