(* ===== verification/Avl_Spec.thy ===== *)
theory Avl_Spec
  imports Netaddr
begin

section \<open>Comparators and the contract of the AVL trees (libcommon/avl_comp, avl.h)\<close>

text \<open>
  The trees of the code are ordered by a comparator (\<^verbatim>\<open>src/src/libcommon/avl_comp.c\<close>) and hold
  their elements in a list in key order as well (\<open>list_head\<close> of \<^verbatim>\<open>struct avl_tree\<close>). Clients
  see that list: it is the abstract state of a tree here, with the operations of a tree without
  duplicates. The locale \<open>avl_comparator\<close> is what a tree asks of its comparator;
  \<open>avl_key\<close> adds that only equal keys compare as equal. The lemmas every client of a tree
  needs are proved in the locales, and each comparator of the code interprets them.
\<close>

subsection \<open>Comparators of the code\<close>

definition avl_comp_uint32 :: "u32 \<Rightarrow> u32 \<Rightarrow> int" where
  "avl_comp_uint32 u1 u2 = (if u1 > u2 then 1 else if u2 > u1 then -1 else 0)"

definition avl_comp_int32 :: "int \<Rightarrow> int \<Rightarrow> int" where
  "avl_comp_int32 i1 i2 = (if i1 > i2 then 1 else if i2 > i1 then -1 else 0)"

definition avl_comp_uint16 :: "u16 \<Rightarrow> u16 \<Rightarrow> int" where
  "avl_comp_uint16 u1 u2 = (if u1 > u2 then 1 else if u2 > u1 then -1 else 0)"

definition avl_comp_uint8 :: "u8 \<Rightarrow> u8 \<Rightarrow> int" where
  "avl_comp_uint8 u1 u2 = (if u1 > u2 then 1 else if u2 > u1 then -1 else 0)"

definition avl_comp_netaddr :: "netaddr \<Rightarrow> netaddr \<Rightarrow> int" where
  "avl_comp_netaddr n1 n2 = memcmp (netaddr_bytes n1) (netaddr_bytes n2)"

subsection \<open>Ordered trees as lists\<close>

fun tree_find :: "('k \<Rightarrow> 'k \<Rightarrow> int) \<Rightarrow> ('k \<times> 'v) list \<Rightarrow> 'k \<Rightarrow> 'v option" where
  "tree_find cmp [] key = None"
| "tree_find cmp ((k, v) # t) key = (if cmp key k = 0 then Some v else tree_find cmp t key)"

fun tree_insert :: "('k \<Rightarrow> 'k \<Rightarrow> int) \<Rightarrow> ('k \<times> 'v) list \<Rightarrow> 'k \<Rightarrow> 'v \<Rightarrow> ('k \<times> 'v) list" where
  "tree_insert cmp [] key val = [(key, val)]"
| "tree_insert cmp ((k, v) # t) key val =
     (if cmp key k = 0 then (k, v) # t
      else if cmp key k < 0 then (key, val) # (k, v) # t
      else (k, v) # tree_insert cmp t key val)"

fun tree_remove :: "('k \<Rightarrow> 'k \<Rightarrow> int) \<Rightarrow> ('k \<times> 'v) list \<Rightarrow> 'k \<Rightarrow> ('k \<times> 'v) list" where
  "tree_remove cmp [] key = []"
| "tree_remove cmp ((k, v) # t) key = (if cmp key k = 0 then t else (k, v) # tree_remove cmp t key)"

text \<open>Changing an element of a tree in place, through the pointer a lookup returned.\<close>

fun tree_change :: "('k \<Rightarrow> 'k \<Rightarrow> int) \<Rightarrow> ('k \<times> 'v) list \<Rightarrow> 'k \<Rightarrow> 'v \<Rightarrow> ('k \<times> 'v) list" where
  "tree_change cmp [] key val = []"
| "tree_change cmp ((k, v) # t) key val =
     (if cmp key k = 0 then (k, val) # t else (k, v) # tree_change cmp t key val)"

text \<open>
  Inserting into a tree that allows duplicates: an element with a key of the tree goes right behind
  the first element with that key, before the duplicates inserted earlier.
\<close>

fun tree_insert_dup :: "('a \<Rightarrow> 'a \<Rightarrow> int) \<Rightarrow> 'a list \<Rightarrow> 'a \<Rightarrow> 'a list" where
  "tree_insert_dup cmp [] x = [x]"
| "tree_insert_dup cmp (y # ys) x =
     (if cmp x y = 0 then y # x # ys
      else if cmp x y < 0 then x # y # ys
      else y # tree_insert_dup cmp ys x)"

definition tree_sorted :: "('a \<Rightarrow> 'a \<Rightarrow> int) \<Rightarrow> 'a list \<Rightarrow> bool" where
  "tree_sorted cmp xs \<longleftrightarrow> sorted_wrt (\<lambda>a b. cmp a b \<le> 0) xs"

definition tree_ordered :: "('k \<Rightarrow> bool) \<Rightarrow> ('k \<Rightarrow> 'k \<Rightarrow> int) \<Rightarrow> ('k \<times> 'v) list \<Rightarrow> bool" where
  "tree_ordered valid cmp t \<longleftrightarrow>
     (\<forall>k\<in>set (map fst t). valid k) \<and> sorted_wrt (\<lambda>a b. cmp a b < 0) (map fst t)"

lemma insert_dup_set [simp]: "set (tree_insert_dup cmp xs x) = insert x (set xs)"
  by (induction xs) auto

lemma insert_dup_length [simp]: "length (tree_insert_dup cmp xs x) = Suc (length xs)"
  by (induction xs) auto

locale avl_comparator =
  fixes valid :: "'k \<Rightarrow> bool" and cmp :: "'k \<Rightarrow> 'k \<Rightarrow> int"
  assumes comp_swap: "valid a \<Longrightarrow> valid b \<Longrightarrow> cmp b a < 0 \<longleftrightarrow> 0 < cmp a b"
    and comp_trans: "valid a \<Longrightarrow> valid b \<Longrightarrow> valid c \<Longrightarrow> cmp a b \<le> 0 \<Longrightarrow> cmp b c \<le> 0 \<Longrightarrow> cmp a c \<le> 0"
begin

lemma comp_refl: "valid a \<Longrightarrow> cmp a a = 0"
  using comp_swap [of a a] by linarith

lemma comp_zero_swap: "valid a \<Longrightarrow> valid b \<Longrightarrow> cmp a b = 0 \<longleftrightarrow> cmp b a = 0"
  using comp_swap [of a b] comp_swap [of b a] by linarith

lemma comp_less_le_trans:
  "valid a \<Longrightarrow> valid b \<Longrightarrow> valid c \<Longrightarrow> cmp a b < 0 \<Longrightarrow> cmp b c \<le> 0 \<Longrightarrow> cmp a c < 0"
  using comp_trans [of b c a] comp_trans [of a b c] comp_swap [of a c] comp_swap [of c a]
    comp_swap [of a b] comp_swap [of b a] by force

lemma insert_dup_sorted:
  assumes "tree_sorted cmp xs" "valid x" "\<forall>y\<in>set xs. valid y"
  shows "tree_sorted cmp (tree_insert_dup cmp xs x)"
  using assms
proof (induction xs)
  case (Cons y ys)
  have y: "valid y" "\<forall>z\<in>set ys. valid z \<and> cmp y z \<le> 0" "tree_sorted cmp ys"
    using Cons.prems by (auto simp: tree_sorted_def)
  have le: "cmp x z \<le> 0" if "cmp x y \<le> 0" "z \<in> set ys" for z
    using comp_trans [of x y z] y that Cons.prems(2) by blast
  consider "cmp x y = 0" | "cmp x y < 0" | "cmp x y > 0" by linarith
  then show ?case
  proof cases
    case 3
    then have "cmp y x \<le> 0" using comp_swap [of x y] y(1) Cons.prems(2) by simp
    with 3 Cons y show ?thesis by (auto simp: tree_sorted_def)
  qed (use le y comp_zero_swap [of x y] Cons.prems in \<open>auto simp: tree_sorted_def\<close>)
qed (simp add: tree_sorted_def)

end

locale avl_key = avl_comparator +
  assumes comp_eq: "valid a \<Longrightarrow> valid b \<Longrightarrow> cmp a b = 0 \<longleftrightarrow> a = b"
begin

lemma find_map_of:
  "tree_ordered valid cmp t \<Longrightarrow> valid key \<Longrightarrow> tree_find cmp t key = map_of t key"
  by (induction t) (auto simp: tree_ordered_def comp_eq)

lemma map_of_insert:
  assumes "tree_ordered valid cmp t" "valid key" "map_of t key = None"
  shows "map_of (tree_insert cmp t key val) = (map_of t)(key \<mapsto> val)"
  using assms
proof (induction t)
  case (Cons kv t)
  obtain k v where kv: "kv = (k, v)" by (cases kv)
  from Cons kv have "cmp key k \<noteq> 0" by (auto simp: tree_ordered_def comp_eq)
  with Cons kv show ?case by (auto simp: tree_ordered_def fun_eq_iff)
qed auto

lemma keys_insert: "set (map fst (tree_insert cmp t key val)) \<subseteq> insert key (set (map fst t))"
proof (induction t)
  case (Cons kv t)
  then show ?case by (cases kv) (simp, blast)
qed simp

lemma ordered_insert:
  assumes "tree_ordered valid cmp t" "valid key"
  shows "tree_ordered valid cmp (tree_insert cmp t key val)"
  using assms
proof (induction t)
  case (Cons kv t)
  obtain k v where kv: "kv = (k, v)" by (cases kv)
  have o: "valid k" "tree_ordered valid cmp t" "\<And>k'. k' \<in> set (map fst t) \<Longrightarrow> cmp k k' < 0 \<and> valid k'"
    using Cons.prems kv by (auto simp: tree_ordered_def)
  consider "cmp key k = 0" | "cmp key k < 0" | "cmp key k > 0" by linarith
  then show ?case
  proof cases
    case 2
    then have "cmp key k' < 0" if "k' \<in> set (map fst t)" for k'
      using o(3) [OF that] o(1) Cons.prems(2) by (intro comp_less_le_trans [of key k k']) auto
    with 2 Cons.prems kv show ?thesis by (auto simp: tree_ordered_def)
  next
    case 3
    then have "cmp k key < 0" using comp_swap [of key k] Cons.prems(2) o(1) by blast
    then have "\<forall>k'\<in>set (map fst (tree_insert cmp t key val)). cmp k k' < 0"
      using keys_insert [of t key val] o(3) by blast
    moreover have "tree_ordered valid cmp (tree_insert cmp t key val)"
      using Cons.IH [OF o(2) Cons.prems(2)] .
    ultimately show ?thesis using 3 kv o(1) by (simp add: tree_ordered_def)
  qed (use Cons.prems kv in simp)
qed (simp add: tree_ordered_def)

lemma ordered_distinct: "tree_ordered valid cmp t \<Longrightarrow> distinct (map fst t)"
  by (induction t) (auto simp: tree_ordered_def comp_refl dest!: bspec)

lemma map_of_remove:
  assumes "tree_ordered valid cmp t" "valid key"
  shows "map_of (tree_remove cmp t key) = (map_of t)(key := None)"
  using assms
proof (induction t)
  case (Cons kv t)
  obtain k v where kv: "kv = (k, v)" by (cases kv)
  have "map_of t k = None"
    using ordered_distinct [OF Cons.prems(1)] kv by (auto simp: map_of_eq_None_iff)
  with Cons kv show ?case by (auto simp: tree_ordered_def comp_eq fun_eq_iff)
qed auto

lemma keys_remove: "set (tree_remove cmp t key) \<subseteq> set t"
  by (induction t) (auto split: if_splits)

lemma ordered_remove: "tree_ordered valid cmp t \<Longrightarrow> tree_ordered valid cmp (tree_remove cmp t key)"
proof (induction t)
  case (Cons kv t)
  with keys_remove [of t key] show ?case by (cases kv) (auto simp: tree_ordered_def) 
qed simp

lemma keys_change: "map fst (tree_change cmp t key val) = map fst t"
  by (induction t) auto

lemma ordered_change:
  "tree_ordered valid cmp t \<Longrightarrow> tree_ordered valid cmp (tree_change cmp t key val)"
  unfolding tree_ordered_def keys_change .

lemma map_of_change:
  "tree_ordered valid cmp t \<Longrightarrow> valid key \<Longrightarrow> map_of t key = Some v \<Longrightarrow>
   map_of (tree_change cmp t key val) = (map_of t)(key \<mapsto> val)"
  by (induction t) (auto simp: tree_ordered_def comp_eq fun_eq_iff)

end

subsection \<open>The comparators satisfy the contract\<close>

interpretation cmp_u32: avl_key "\<lambda>_. True" avl_comp_uint32
  by unfold_locales (auto simp: avl_comp_uint32_def split: if_splits)

interpretation cmp_i32: avl_key "\<lambda>_. True" avl_comp_int32
  by unfold_locales (auto simp: avl_comp_int32_def split: if_splits)

interpretation cmp_u16: avl_key "\<lambda>_. True" avl_comp_uint16
  by unfold_locales (auto simp: avl_comp_uint16_def split: if_splits)

interpretation cmp_u8: avl_key "\<lambda>_. True" avl_comp_uint8
  by unfold_locales (auto simp: avl_comp_uint8_def split: if_splits)

lemma netaddr_bytes_inj: "netaddr_bytes a = netaddr_bytes b \<longleftrightarrow> a = b"
  by (cases a; cases b) (auto simp: netaddr_bytes_def)

lemma netaddr_bytes_length: "netaddr_wf a \<Longrightarrow> length (netaddr_bytes a) = 18"
  by (simp add: netaddr_bytes_def netaddr_wf_def)

interpretation cmp_netaddr: avl_key netaddr_wf avl_comp_netaddr
proof
  fix a b c assume v: "netaddr_wf a" "netaddr_wf b"
  then have l: "length (netaddr_bytes a) = length (netaddr_bytes b)"
    by (simp add: netaddr_bytes_length)
  show "avl_comp_netaddr b a < 0 \<longleftrightarrow> 0 < avl_comp_netaddr a b"
    unfolding avl_comp_netaddr_def memcmp_antisym [OF l] by simp
  show "avl_comp_netaddr a b = 0 \<longleftrightarrow> a = b"
    by (simp add: avl_comp_netaddr_def memcmp_zero_iff [OF l] netaddr_bytes_inj)
  assume "netaddr_wf c" "avl_comp_netaddr a b \<le> 0" "avl_comp_netaddr b c \<le> 0"
  with v show "avl_comp_netaddr a c \<le> 0"
    unfolding avl_comp_netaddr_def
    using \<open>netaddr_wf c\<close>
    by (auto intro: memcmp_trans [of "netaddr_bytes a" "netaddr_bytes b"] simp: netaddr_bytes_length)
qed

end
