(* ===== verification/Duplicate_Set.thy ===== *)
theory Duplicate_Set
  imports Avl_Spec
begin

section \<open>Duplicate detection (base/oonf_duplicate_set)\<close>

text \<open>
  \<^verbatim>\<open>src/src/base/oonf_duplicate_set.c\<close>: a set remembers, per originator and message type, the
  newest sequence number and a bit history of the 31 numbers before it. A set is created for
  sequence numbers of 8, 16, 32 or 64 bits. The tree of entries is the ordered list of
  \<^verbatim>\<open>Avl_Spec\<close>; of the validity timer of an entry the model keeps the time it was last set to.
\<close>

datatype oonf_duplicate_result =
  OONF_DUPSET_TOO_OLD | OONF_DUPSET_DUPLICATE | OONF_DUPSET_NEW | OONF_DUPSET_CURRENT
| OONF_DUPSET_NEWEST | OONF_DUPSET_FIRST

datatype oonf_dupset_type = OONF_DUPSET_8BIT | OONF_DUPSET_16BIT | OONF_DUPSET_32BIT | OONF_DUPSET_64BIT

definition OONF_DUPSET_MAXIMUM_TOO_OLD :: u16 where "OONF_DUPSET_MAXIMUM_TOO_OLD = 8"

record oonf_duplicate_entry_key =
  dk_addr :: netaddr
  dk_msg_type :: u8

record oonf_duplicate_entry =
  de_history :: u64
  de_current :: u64
  de_too_old_count :: u16
  de_vtime :: u64

record oonf_duplicate_set =
  ds_tree :: "(oonf_duplicate_entry_key \<times> oonf_duplicate_entry) list"
  ds_mask :: int
  ds_limit :: int
  ds_offset :: int

definition avl_cmp_dupkey :: "oonf_duplicate_entry_key \<Rightarrow> oonf_duplicate_entry_key \<Rightarrow> int" where
  "avl_cmp_dupkey k1 k2 =
     (if dk_msg_type k1 \<noteq> dk_msg_type k2 then uint (dk_msg_type k1) - uint (dk_msg_type k2)
      else avl_comp_netaddr (dk_addr k1) (dk_addr k2))"

definition mask_values :: "oonf_dupset_type \<Rightarrow> int" where
  "mask_values type = (case type of OONF_DUPSET_8BIT \<Rightarrow> 255 | OONF_DUPSET_16BIT \<Rightarrow> 65535
     | OONF_DUPSET_32BIT \<Rightarrow> 4294967295 | OONF_DUPSET_64BIT \<Rightarrow> 0)"

definition oonf_duplicate_set_add :: "oonf_dupset_type \<Rightarrow> oonf_duplicate_set" where
  "oonf_duplicate_set_add type =
     (if type \<noteq> OONF_DUPSET_64BIT
      then \<lparr>ds_tree = [], ds_mask = mask_values type, ds_limit = mask_values type div 2,
            ds_offset = mask_values type + 1\<rparr>
      else \<lparr>ds_tree = [], ds_mask = 0, ds_limit = 0, ds_offset = 0\<rparr>)"

definition seqno_difference :: "oonf_duplicate_set \<Rightarrow> u64 \<Rightarrow> u64 \<Rightarrow> int" where
  "seqno_difference dset seqno1 seqno2 =
     (let diff = seqno1 - seqno2; reldiff = sint diff
      in if ds_mask dset \<noteq> 0
         then let reldiff = reldiff AND ds_mask dset
              in if reldiff > ds_limit dset then reldiff - ds_offset dset else reldiff
         else reldiff)"

text \<open>The function \<open>_test\<close>: the result and the entry after it; \<open>store\<close> is its flag argument \<open>set\<close>.\<close>

definition dup_test ::
    "oonf_duplicate_set \<Rightarrow> oonf_duplicate_entry \<Rightarrow> u64 \<Rightarrow> bool \<Rightarrow>
     oonf_duplicate_result \<times> oonf_duplicate_entry" where
  "dup_test dupset entry seqno store =
     (if seqno = de_current entry then (OONF_DUPSET_CURRENT, entry)
      else let diff = seqno_difference dupset seqno (de_current entry)
      in if diff < -31
         then let entry = entry\<lparr>de_too_old_count := de_too_old_count entry + 1\<rparr>
              in if de_too_old_count entry > OONF_DUPSET_MAXIMUM_TOO_OLD
                 then (OONF_DUPSET_NEWEST,
                       entry\<lparr>de_history := 1, de_too_old_count := 0, de_current := seqno\<rparr>)
                 else (OONF_DUPSET_TOO_OLD, entry)
         else let entry = entry\<lparr>de_too_old_count := 0\<rparr>
              in if diff \<le> 0
                 then let bitmask = (ucast (push_bit (nat (- diff)) (1 :: u32)) :: u64)
                      in if de_history entry AND bitmask \<noteq> 0 then (OONF_DUPSET_DUPLICATE, entry)
                         else (OONF_DUPSET_NEW,
                               if store then entry\<lparr>de_history := de_history entry OR bitmask\<rparr> else entry)
                 else (OONF_DUPSET_NEWEST,
                       if store
                       then if diff \<ge> 32 then entry\<lparr>de_current := seqno, de_history := 1\<rparr>
                            else entry\<lparr>de_current := seqno,
                                       de_history := push_bit (nat diff) (de_history entry) OR 1\<rparr>
                       else entry))"

definition oonf_duplicate_is_new :: "oonf_duplicate_result \<Rightarrow> bool" where
  "oonf_duplicate_is_new result \<longleftrightarrow>
     result = OONF_DUPSET_NEW \<or> result = OONF_DUPSET_NEWEST \<or> result = OONF_DUPSET_FIRST"

text \<open>\<open>alloc\<close> says whether the allocation of a new entry succeeds.\<close>

definition oonf_duplicate_entry_add ::
    "bool \<Rightarrow> oonf_duplicate_set \<Rightarrow> u8 \<Rightarrow> netaddr \<Rightarrow> u64 \<Rightarrow> u64 \<Rightarrow>
     oonf_duplicate_result \<times> oonf_duplicate_set" where
  "oonf_duplicate_entry_add alloc dset msg_type originator seqno vtime =
     (let key = \<lparr>dk_addr = originator, dk_msg_type = msg_type\<rparr>
      in case tree_find avl_cmp_dupkey (ds_tree dset) key of
           None \<Rightarrow>
             if \<not> alloc then (OONF_DUPSET_TOO_OLD, dset)
             else let entry = \<lparr>de_history = 1, de_current = seqno, de_too_old_count = 0, de_vtime = vtime\<rparr>
                  in (OONF_DUPSET_FIRST,
                      dset\<lparr>ds_tree := tree_insert avl_cmp_dupkey (ds_tree dset) key entry\<rparr>)
         | Some entry \<Rightarrow>
             (case dup_test dset entry seqno True of (result, entry) \<Rightarrow>
                let entry = (if oonf_duplicate_is_new result then entry\<lparr>de_vtime := vtime\<rparr> else entry)
                in (result, dset\<lparr>ds_tree := tree_change avl_cmp_dupkey (ds_tree dset) key entry\<rparr>)))"

definition oonf_duplicate_test ::
    "oonf_duplicate_set \<Rightarrow> u8 \<Rightarrow> netaddr \<Rightarrow> u64 \<Rightarrow> oonf_duplicate_result \<times> oonf_duplicate_set" where
  "oonf_duplicate_test dset msg_type originator seqno =
     (let key = \<lparr>dk_addr = originator, dk_msg_type = msg_type\<rparr>
      in case tree_find avl_cmp_dupkey (ds_tree dset) key of
           None \<Rightarrow> (OONF_DUPSET_FIRST, dset)
         | Some entry \<Rightarrow>
             (case dup_test dset entry seqno False of (result, entry) \<Rightarrow>
                (result, dset\<lparr>ds_tree := tree_change avl_cmp_dupkey (ds_tree dset) key entry\<rparr>)))"

text \<open>The validity timer of an entry fires: the entry is removed.\<close>

definition cb_vtime :: "oonf_duplicate_set \<Rightarrow> oonf_duplicate_entry_key \<Rightarrow> oonf_duplicate_set" where
  "cb_vtime dset key = dset\<lparr>ds_tree := tree_remove avl_cmp_dupkey (ds_tree dset) key\<rparr>"

fun remove_entries ::
    "(oonf_duplicate_entry_key \<times> oonf_duplicate_entry) list \<Rightarrow> oonf_duplicate_set \<Rightarrow> oonf_duplicate_set" where
  "remove_entries [] dset = dset"
| "remove_entries ((k, e) # es) dset = remove_entries es (cb_vtime dset k)"

definition oonf_duplicate_set_remove :: "oonf_duplicate_set \<Rightarrow> oonf_duplicate_set" where
  "oonf_duplicate_set_remove dset = remove_entries (ds_tree dset) dset"

definition oonf_duplicate_get_result_str :: "oonf_duplicate_result \<Rightarrow> string" where
  "oonf_duplicate_get_result_str result = (case result of
     OONF_DUPSET_TOO_OLD \<Rightarrow> ''too old'' | OONF_DUPSET_DUPLICATE \<Rightarrow> ''duplicate''
   | OONF_DUPSET_CURRENT \<Rightarrow> ''current'' | OONF_DUPSET_NEW \<Rightarrow> ''new''
   | OONF_DUPSET_NEWEST \<Rightarrow> ''newest'' | OONF_DUPSET_FIRST \<Rightarrow> ''first'')"

section \<open>Properties\<close>

subsection \<open>Keys\<close>

definition dupkey_wf :: "oonf_duplicate_entry_key \<Rightarrow> bool" where
  "dupkey_wf k \<longleftrightarrow> netaddr_wf (dk_addr k)"

interpretation cmp_dupkey: avl_key dupkey_wf avl_cmp_dupkey
proof
  fix a b c assume v: "dupkey_wf a" "dupkey_wf b"
  then have w: "netaddr_wf (dk_addr a)" "netaddr_wf (dk_addr b)" by (simp_all add: dupkey_wf_def)
  have ne: "uint (dk_msg_type x) = uint (dk_msg_type y) \<longleftrightarrow> dk_msg_type x = dk_msg_type y" for x y
    by (simp add: word_uint_eq_iff)
  show "avl_cmp_dupkey b a < 0 \<longleftrightarrow> 0 < avl_cmp_dupkey a b"
    using cmp_netaddr.comp_swap [OF w] by (auto simp: avl_cmp_dupkey_def)
  show "avl_cmp_dupkey a b = 0 \<longleftrightarrow> a = b"
    using cmp_netaddr.comp_eq [OF w] ne [of a b] by (cases a; cases b) (auto simp: avl_cmp_dupkey_def)
  assume "dupkey_wf c" "avl_cmp_dupkey a b \<le> 0" "avl_cmp_dupkey b c \<le> 0"
  with w show "avl_cmp_dupkey a c \<le> 0"
    using cmp_netaddr.comp_trans [OF w, of "dk_addr c"] ne [of a b] ne [of b c] ne [of a c]
    by (auto simp: avl_cmp_dupkey_def dupkey_wf_def split: if_splits)
qed

subsection \<open>The difference of sequence numbers\<close>

text \<open>\<open>dupset_width dset w\<close>: the set was created for sequence numbers of \<open>w\<close> bits.\<close>

definition dupset_width :: "oonf_duplicate_set \<Rightarrow> nat \<Rightarrow> bool" where
  "dupset_width dset w \<longleftrightarrow>
     w \<in> {8, 16, 32} \<and> ds_mask dset = 2 ^ w - 1 \<and> ds_limit dset = 2 ^ (w - 1) - 1 \<and> ds_offset dset = 2 ^ w
     \<or> w = 64 \<and> ds_mask dset = 0"

lemma sint_mod: "sint (a - b :: u64) mod 2 ^ 64 = (uint a - uint b) mod 2 ^ 64"
proof -
  have "sint (a - b) mod 2 ^ 64 = uint (a - b)"
    using uint_sint [of "a - b"] by (simp add: take_bit_eq_mod)
  then show ?thesis by (simp add: uint_word_ariths)
qed

lemma and_mask_int: "(x :: int) AND (2 ^ w - 1) = x mod 2 ^ w"
  by (simp add: take_bit_eq_mask [symmetric] mask_eq_exp_minus_1 [symmetric] take_bit_eq_mod)

lemma seqno_difference_narrow:
  assumes "w \<in> {8, 16, 32}" "ds_mask dset = 2 ^ w - 1" "ds_limit dset = 2 ^ (w - 1) - 1"
    "ds_offset dset = 2 ^ w"
  shows "seqno_difference dset a b =
     (let m = (uint a - uint b) mod 2 ^ w in if m \<ge> 2 ^ (w - 1) then m - 2 ^ w else m)"
proof -
  have "sint (a - b) mod 2 ^ w = sint (a - b) mod 2 ^ 64 mod 2 ^ w"
    using assms(1) by (intro mod_mod_cancel [symmetric] le_imp_power_dvd) auto
  also have "\<dots> = (uint a - uint b) mod 2 ^ w"
    unfolding sint_mod using assms(1) by (intro mod_mod_cancel le_imp_power_dvd) auto
  finally have m: "sint (a - b) mod 2 ^ w = (uint a - uint b) mod 2 ^ w" .
  show ?thesis
    using assms by (auto simp: seqno_difference_def Let_def and_mask_int m)
qed

lemma seqno_difference_char:
  assumes "dupset_width dset w"
  shows "2 ^ w dvd seqno_difference dset a b - (uint a - uint b)"
    and "- (2 ^ (w - 1)) \<le> seqno_difference dset a b" and "seqno_difference dset a b < 2 ^ (w - 1)"
proof -
  have "(2 ^ w dvd seqno_difference dset a b - (uint a - uint b)) \<and>
    - (2 ^ (w - 1)) \<le> seqno_difference dset a b \<and> seqno_difference dset a b < 2 ^ (w - 1)"
  proof (cases "w = 64")
    case True
    then have d: "seqno_difference dset a b = sint (a - b)"
      using assms by (auto simp: dupset_width_def seqno_difference_def)
    have "2 ^ 64 dvd sint (a - b) - (uint a - uint b)"
      using sint_mod [of a b] by (simp add: mod_eq_dvd_iff)
    then show ?thesis
      using True d sint_ge [of "a - b"] sint_lt [of "a - b"] by simp
  next
    case False
    then have w: "w \<in> {8, 16, 32}" and s: "ds_mask dset = 2 ^ w - 1" "ds_limit dset = 2 ^ (w - 1) - 1"
      "ds_offset dset = 2 ^ w"
      using assms by (auto simp: dupset_width_def)
    define m where "m = (uint a - uint b) mod 2 ^ w"
    have p: "(2 :: int) ^ w = 2 * 2 ^ (w - 1)" using w by auto
    have r: "0 \<le> m" "m < 2 ^ w" by (simp_all add: m_def)
    have dv: "2 ^ w dvd m - (uint a - uint b)" by (simp add: m_def mod_eq_dvd_iff [symmetric])
    then have dv': "2 ^ w dvd m - 2 ^ w - (uint a - uint b)"
      by (metis diff_diff_eq2 diff_right_commute dvd_diff dvd_refl)
    show ?thesis
      unfolding seqno_difference_narrow [OF w s] m_def [symmetric] Let_def
      using r dv dv' p by auto
  qed
  then show "2 ^ w dvd seqno_difference dset a b - (uint a - uint b)"
    "- (2 ^ (w - 1)) \<le> seqno_difference dset a b" "seqno_difference dset a b < 2 ^ (w - 1)" by auto
qed

lemma dvd_small: "(n :: int) dvd x \<Longrightarrow> \<bar>x\<bar> < n \<Longrightarrow> x = 0"
  by (rule ccontr) (use dvd_imp_le_int [of x n] in auto)

text \<open>Differences add up as long as the sum stays in the window of the width.\<close>

lemma seqno_difference_add:
  assumes w: "dupset_width dset w"
    and r: "- (2 ^ (w - 1)) \<le> seqno_difference dset a b + seqno_difference dset b c"
      "seqno_difference dset a b + seqno_difference dset b c < 2 ^ (w - 1)"
  shows "seqno_difference dset a c = seqno_difference dset a b + seqno_difference dset b c"
proof -
  let ?d = "seqno_difference dset"
  have e: "?d a c - ?d a b - ?d b c =
      (?d a c - (uint a - uint c)) - (?d a b - (uint a - uint b)) - (?d b c - (uint b - uint c))" by simp
  have "2 ^ w dvd ?d a c - ?d a b - ?d b c"
    unfolding e by (intro dvd_diff seqno_difference_char(1) w)
  moreover have "(2 :: int) ^ w = 2 * 2 ^ (w - 1)" using w by (auto simp: dupset_width_def)
  then have "\<bar>?d a c - ?d a b - ?d b c\<bar> < 2 ^ w"
    using r seqno_difference_char(2,3) [OF w, of a c] by auto
  ultimately have "?d a c - ?d a b - ?d b c = 0" by (rule dvd_small)
  then show ?thesis by simp
qed

lemma dupset_width_add:
  "dupset_width (oonf_duplicate_set_add OONF_DUPSET_8BIT) 8"
  "dupset_width (oonf_duplicate_set_add OONF_DUPSET_16BIT) 16"
  "dupset_width (oonf_duplicate_set_add OONF_DUPSET_32BIT) 32"
  "dupset_width (oonf_duplicate_set_add OONF_DUPSET_64BIT) 64"
  by (simp_all add: dupset_width_def oonf_duplicate_set_add_def mask_values_def)

lemma dupset_width_ge: "dupset_width dset w \<Longrightarrow> (128 :: int) \<le> 2 ^ (w - 1)"
  by (auto simp: dupset_width_def)

lemma seqno_difference_self: "dupset_width dset w \<Longrightarrow> seqno_difference dset a a = 0"
  by (auto simp: dupset_width_def seqno_difference_def)

lemma seqno_difference_neg:
  assumes w: "dupset_width dset w" and "- (2 ^ (w - 1)) < seqno_difference dset a b"
  shows "seqno_difference dset b a = - seqno_difference dset a b"
proof -
  let ?d = "seqno_difference dset"
  have e: "?d b a + ?d a b = (?d b a - (uint b - uint a)) + (?d a b - (uint a - uint b))" by simp
  have "2 ^ w dvd ?d b a + ?d a b"
    unfolding e by (intro dvd_add seqno_difference_char(1) w)
  moreover have "(2 :: int) ^ w = 2 * 2 ^ (w - 1)" using w by (auto simp: dupset_width_def)
  then have "\<bar>?d b a + ?d a b\<bar> < 2 ^ w"
    using assms(2) seqno_difference_char(2,3) [OF w, of a b] seqno_difference_char(2,3) [OF w, of b a]
    by auto
  ultimately have "?d b a + ?d a b = 0" by (rule dvd_small)
  then show ?thesis by simp
qed

subsection \<open>The window of an entry\<close>

text \<open>\<open>dup_known dset e s\<close>: the history of the entry says that \<open>s\<close> has been seen.\<close>

definition dup_known :: "oonf_duplicate_set \<Rightarrow> oonf_duplicate_entry \<Rightarrow> u64 \<Rightarrow> bool" where
  "dup_known dset e s \<longleftrightarrow>
     (let d = seqno_difference dset s (de_current e)
      in -31 \<le> d \<and> d \<le> 0 \<and> bit (de_history e) (nat (- d)))"

lemma bitmask_bit:
  assumes "n < 32"
  shows "bit (ucast (push_bit n (1 :: u32)) :: u64) m \<longleftrightarrow> m = n"
  using assms by (auto simp: bit_ucast_iff bit_exp_iff)

lemma bitmask_test:
  assumes "n < 32"
  shows "(h AND ucast (push_bit n (1 :: u32)) = (0 :: u64)) = (\<not> bit h n)"
proof
  assume "h AND ucast (push_bit n (1 :: u32)) = (0 :: u64)"
  then have "\<not> bit (h AND ucast (push_bit n (1 :: u32))) n" by (simp only: bit_0_eq) simp
  then show "\<not> bit h n" using bitmask_bit [OF assms, of n] by (simp only: bit_and_iff) simp
next
  assume h: "\<not> bit h n"
  show "h AND ucast (push_bit n (1 :: u32)) = (0 :: u64)"
  proof (rule bit_word_eqI)
    fix m assume "m < LENGTH(64)"
    show "bit (h AND ucast (push_bit n (1 :: u32))) m = bit (0 :: u64) m"
      using h by (auto simp only: bit_and_iff bitmask_bit [OF assms] bit_0_eq)
  qed
qed

lemma dup_verdict:
  assumes "dupset_width dset w" "bit (de_history e) 0"
  shows "fst (dup_test dset e s store) =
    (let d = seqno_difference dset s (de_current e)
     in if d < -31
        then if de_too_old_count e + 1 > OONF_DUPSET_MAXIMUM_TOO_OLD
             then OONF_DUPSET_NEWEST else OONF_DUPSET_TOO_OLD
        else if d > 0 then OONF_DUPSET_NEWEST
        else if dup_known dset e s
             then if s = de_current e then OONF_DUPSET_CURRENT else OONF_DUPSET_DUPLICATE
             else OONF_DUPSET_NEW)"
proof (cases "s = de_current e")
  case True
  then show ?thesis
    using assms by (simp add: dup_test_def dup_known_def seqno_difference_self Let_def)
next
  case False
  define d where "d = seqno_difference dset s (de_current e)"
  have "nat (- d) < 32" if "\<not> d < -31" using that by auto
  with False show ?thesis
    using bitmask_test [of "nat (- d)" "de_history e"]
    by (simp add: dup_test_def dup_known_def d_def [symmetric] Let_def del: push_bit_of_1)
qed

text \<open>
  The verdict on a sequence number. Inside the window of 32 numbers up to the newest it is
  current or a duplicate exactly when the history knows it, and new otherwise; a number ahead of
  the newest is the newest; a number behind the window is too old, except after more than eight
  of them in a row, when it restarts the window. Whether the entry is to be changed
  makes no difference.
\<close>

theorem dup_test_verdict:
  assumes "dupset_width dset w" "bit (de_history e) 0"
  shows "fst (dup_test dset e s store) =
    (let d = seqno_difference dset s (de_current e)
     in if d < -31
        then if de_too_old_count e + 1 > OONF_DUPSET_MAXIMUM_TOO_OLD
             then OONF_DUPSET_NEWEST else OONF_DUPSET_TOO_OLD
        else if d > 0 then OONF_DUPSET_NEWEST
        else if dup_known dset e s
             then if s = de_current e then OONF_DUPSET_CURRENT else OONF_DUPSET_DUPLICATE
             else OONF_DUPSET_NEW)"
  using assms by (rule dup_verdict)



lemma known_ahead:
  assumes w: "dupset_width dset w" and d: "0 < seqno_difference dset s (de_current e)"
    and x: "- 31 \<le> seqno_difference dset x s" "seqno_difference dset x s \<le> 0"
  shows "seqno_difference dset x (de_current e) =
    seqno_difference dset x s + seqno_difference dset s (de_current e)"
  using d x dupset_width_ge [OF w] seqno_difference_char(3) [OF w, of s "de_current e"]
  by (intro seqno_difference_add [OF w]) auto

lemma same_seqno:
  assumes w: "dupset_width dset w" and d: "- 31 \<le> seqno_difference dset s c" "seqno_difference dset s c \<le> 0"
  shows "seqno_difference dset x s = 0 \<longleftrightarrow> seqno_difference dset x c = seqno_difference dset s c"
proof
  assume "seqno_difference dset x s = 0"
  then show "seqno_difference dset x c = seqno_difference dset s c"
    using seqno_difference_add [OF w, of x s c] d dupset_width_ge [OF w] by simp
next
  assume e: "seqno_difference dset x c = seqno_difference dset s c"
  have "seqno_difference dset c s = - seqno_difference dset s c"
    using d dupset_width_ge [OF w] by (intro seqno_difference_neg [OF w]) auto
  then show "seqno_difference dset x s = 0"
    using seqno_difference_add [OF w, of x c s] e dupset_width_ge [OF w] by simp
qed

definition dup_in_window :: "oonf_duplicate_set \<Rightarrow> oonf_duplicate_entry \<Rightarrow> u64 \<Rightarrow> bool" where
  "dup_in_window dset e s \<longleftrightarrow>
     -31 \<le> seqno_difference dset s (de_current e) \<and> seqno_difference dset s (de_current e) \<le> 0"

lemma dup_test_ahead:
  assumes w: "dupset_width dset w" and d: "0 < seqno_difference dset s (de_current e)"
    and t: "dup_test dset e s True = (r, e')"
  shows "de_current e' = s" "bit (de_history e') 0"
    and "dup_known dset e' x \<longleftrightarrow> dup_in_window dset e' x \<and> (seqno_difference dset x s = 0 \<or> dup_known dset e x)"
proof -
  let ?d = "seqno_difference dset s (de_current e)"
  have ne: "s \<noteq> de_current e" using d seqno_difference_self [OF w] by auto
  have e': "e' = (if ?d \<ge> 32 then e\<lparr>de_too_old_count := 0, de_current := s, de_history := 1\<rparr>
      else e\<lparr>de_too_old_count := 0, de_current := s, de_history := push_bit (nat ?d) (de_history e) OR 1\<rparr>)"
    using t d ne by (auto simp: dup_test_def Let_def)
  show "de_current e' = s" "bit (de_history e') 0" by (auto simp: e' bit_or_iff bit_1_iff)
  show "dup_known dset e' x \<longleftrightarrow> dup_in_window dset e' x \<and> (seqno_difference dset x s = 0 \<or> dup_known dset e x)"
  proof (cases "dup_in_window dset e' x")
    case True
    then have x: "- 31 \<le> seqno_difference dset x s" "seqno_difference dset x s \<le> 0"
      by (auto simp: dup_in_window_def e' split: if_splits)
    let ?x = "seqno_difference dset x s"
    have h: "bit (de_history e') (nat (- ?x)) \<longleftrightarrow>
        ?x = 0 \<or> ?d < 32 \<and> ?x + ?d \<le> 0 \<and> bit (de_history e) (nat (- (?x + ?d)))"
    proof -
      have "nat (- ?x) - nat ?d = nat (- (?x + ?d))" using x d by auto
      then show ?thesis using x d
        by (auto simp: e' bit_or_iff bit_1_iff bit_push_bit_iff nat_le_eq_zle)
    qed
    show ?thesis
      using True x d h unfolding dup_known_def Let_def known_ahead [OF w d x]
      by (auto simp: e')
  qed (auto simp: dup_known_def dup_in_window_def Let_def)
qed

lemma dup_test_inside:
  assumes w: "dupset_width dset w" and b: "bit (de_history e) 0"
    and d: "- 31 \<le> seqno_difference dset s (de_current e)" "seqno_difference dset s (de_current e) \<le> 0"
    and t: "dup_test dset e s True = (r, e')"
  shows "de_current e' = de_current e" "bit (de_history e') 0"
    and "dup_known dset e' x \<longleftrightarrow> dup_in_window dset e' x \<and> (seqno_difference dset x s = 0 \<or> dup_known dset e x)"
proof -
  let ?d = "seqno_difference dset s (de_current e)"
  let ?n = "nat (- ?d)"
  have n: "?n < 32" using d by simp
  have e': "de_current e' = de_current e \<and> (\<forall>m. bit (de_history e') m \<longleftrightarrow> bit (de_history e) m \<or> m = ?n)"
  proof (cases "s = de_current e")
    case True
    then show ?thesis using t b seqno_difference_self [OF w] by (auto simp: dup_test_def)
  next
    case False
    show ?thesis
    proof (cases "bit (de_history e) ?n")
      case True
      then have "e' = e\<lparr>de_too_old_count := 0\<rparr>"
        using t d False bitmask_test [OF n, of "de_history e"]
        by (simp add: dup_test_def Let_def del: push_bit_of_1)
      with True show ?thesis by auto
    next
      case new: False
      then have "e' = e\<lparr>de_too_old_count := 0,
          de_history := de_history e OR ucast (push_bit ?n (1 :: u32))\<rparr>"
        using t d False bitmask_test [OF n, of "de_history e"]
        by (simp add: dup_test_def Let_def del: push_bit_of_1)
      then show ?thesis by (simp add: bit_or_iff bitmask_bit [OF n] del: push_bit_of_1)
    qed
  qed
  then show "de_current e' = de_current e" "bit (de_history e') 0" using b by auto
  show "dup_known dset e' x \<longleftrightarrow> dup_in_window dset e' x \<and> (seqno_difference dset x s = 0 \<or> dup_known dset e x)"
  proof (cases "dup_in_window dset e' x")
    case True
    let ?x = "seqno_difference dset x (de_current e)"
    have x: "- 31 \<le> ?x" "?x \<le> 0" using True e' by (simp_all add: dup_in_window_def)
    have "nat (- ?x) = ?n \<longleftrightarrow> ?x = ?d" using x d by linarith
    then have "bit (de_history e') (nat (- ?x)) \<longleftrightarrow> bit (de_history e) (nat (- ?x)) \<or> ?x = ?d"
      using e' by blast
    with True x e' show ?thesis
      unfolding dup_known_def Let_def same_seqno [OF w d, of x] by simp blast
  qed (auto simp: dup_known_def dup_in_window_def Let_def)
qed

lemma dup_window_step:
  assumes "dupset_width dset w" "bit (de_history e) 0"
    and "- 31 \<le> seqno_difference dset s (de_current e)"
    and "dup_test dset e s True = (r, e')"
  shows "bit (de_history e') 0 \<and>
    de_current e' = (if 0 < seqno_difference dset s (de_current e) then s else de_current e) \<and>
    (dup_known dset e' x \<longleftrightarrow>
       dup_in_window dset e' x \<and> (seqno_difference dset x s = 0 \<or> dup_known dset e x))"
proof (cases "0 < seqno_difference dset s (de_current e)")
  case True
  then show ?thesis using dup_test_ahead [OF assms(1) True assms(4)] by simp
next
  case False
  then show ?thesis using dup_test_inside [OF assms(1-3) _ assms(4)] by simp
qed

text \<open>
  C19: storing a sequence number that is not behind the window. The window afterwards ends at the
  newest number, and the history knows exactly the number just stored and those known before that
  are still in the window, so nothing is forgotten early and nothing is invented, also
  across the wrap-around of the sequence numbers.
\<close>

theorem dup_test_history:
  assumes "dupset_width dset w" "bit (de_history e) 0"
    and "- 31 \<le> seqno_difference dset s (de_current e)"
    and "dup_test dset e s True = (r, e')"
  shows "bit (de_history e') 0 \<and>
    de_current e' = (if 0 < seqno_difference dset s (de_current e) then s else de_current e) \<and>
    (dup_known dset e' x \<longleftrightarrow>
       dup_in_window dset e' x \<and> (seqno_difference dset x s = 0 \<or> dup_known dset e x))"
  using assms by (rule dup_window_step)

subsection \<open>The set\<close>

definition dupset_inv :: "oonf_duplicate_set \<Rightarrow> nat \<Rightarrow> bool" where
  "dupset_inv dset w \<longleftrightarrow> dupset_width dset w \<and> tree_ordered dupkey_wf avl_cmp_dupkey (ds_tree dset) \<and>
     (\<forall>(k, e) \<in> set (ds_tree dset). bit (de_history e) 0)"

lemma dup_test_bit0:
  assumes "bit (de_history e) 0" "dupset_width dset w"
  shows "bit (de_history (snd (dup_test dset e s store))) 0"
  using assms by (auto simp: dup_test_def Let_def bit_or_iff bit_1_iff simp del: push_bit_of_1)

lemma tree_change_set: "set (tree_change cmp t key v) \<subseteq> set t \<union> {(k, v) | k. True}"
  by (induction t) (auto split: if_splits)

lemma tree_insert_set: "set (tree_insert cmp t key v) \<subseteq> insert (key, v) (set t)"
  by (induction t) (auto split: if_splits)

lemma width_tree [simp]: "dupset_width (dset\<lparr>ds_tree := t\<rparr>) w = dupset_width dset w"
  by (simp add: dupset_width_def)

lemma seqno_difference_tree [simp]:
  "seqno_difference (dset\<lparr>ds_tree := t\<rparr>) a b = seqno_difference dset a b"
  by (simp add: seqno_difference_def Let_def)

lemma dup_known_tree: "dup_known (dset\<lparr>ds_tree := t\<rparr>) e s = dup_known dset e s"
  by (simp add: dup_known_def)

lemma dup_test_tree [simp]: "dup_test (dset\<lparr>ds_tree := t\<rparr>) e s store = dup_test dset e s store"
  by (simp add: dup_test_def)

lemma inv_change:
  assumes "dupset_inv dset w" "bit (de_history e) 0"
  shows "dupset_inv (dset\<lparr>ds_tree := tree_change avl_cmp_dupkey (ds_tree dset) k e\<rparr>) w"
  using assms tree_change_set [of avl_cmp_dupkey "ds_tree dset" k e]
  by (auto simp: dupset_inv_def cmp_dupkey.ordered_change)

lemma inv_insert:
  assumes "dupset_inv dset w" "bit (de_history e) 0" "dupkey_wf k"
  shows "dupset_inv (dset\<lparr>ds_tree := tree_insert avl_cmp_dupkey (ds_tree dset) k e\<rparr>) w"
  using assms tree_insert_set [of avl_cmp_dupkey "ds_tree dset" k e]
  by (auto simp: dupset_inv_def cmp_dupkey.ordered_insert)

lemma find_bit0:
  assumes "dupset_inv dset w" "dupkey_wf k" "tree_find avl_cmp_dupkey (ds_tree dset) k = Some e"
  shows "bit (de_history e) 0"
proof -
  have "map_of (ds_tree dset) k = Some e"
    using assms cmp_dupkey.find_map_of [of "ds_tree dset" k] by (simp add: dupset_inv_def)
  from map_of_SomeD [OF this] show ?thesis using assms(1) by (auto simp: dupset_inv_def)
qed

lemma find_change:
  assumes "dupset_inv dset w" "dupkey_wf k" "dupkey_wf k'"
    "tree_find avl_cmp_dupkey (ds_tree dset) k = Some e0"
  shows "tree_find avl_cmp_dupkey (tree_change avl_cmp_dupkey (ds_tree dset) k e) k' =
    (if k' = k then Some e else tree_find avl_cmp_dupkey (ds_tree dset) k')"
  using assms cmp_dupkey.map_of_change [of "ds_tree dset" k e0 e]
  by (simp add: dupset_inv_def cmp_dupkey.find_map_of cmp_dupkey.ordered_change)

lemma find_insert:
  assumes "dupset_inv dset w" "dupkey_wf k" "dupkey_wf k'"
    "tree_find avl_cmp_dupkey (ds_tree dset) k = None"
  shows "tree_find avl_cmp_dupkey (tree_insert avl_cmp_dupkey (ds_tree dset) k e) k' =
    (if k' = k then Some e else tree_find avl_cmp_dupkey (ds_tree dset) k')"
  using assms cmp_dupkey.map_of_insert [of "ds_tree dset" k e]
  by (simp add: dupset_inv_def cmp_dupkey.find_map_of cmp_dupkey.ordered_insert)

text \<open>The number just stored is known, unless it was too old.\<close>

lemma dup_test_stored:
  assumes "dupset_width dset w" "bit (de_history e) 0" "dup_test dset e s True = (r, e')"
    "r \<noteq> OONF_DUPSET_TOO_OLD"
  shows "dup_known dset e' s"
proof (cases "- 31 \<le> seqno_difference dset s (de_current e)")
  case True
  note h = dup_window_step [OF assms(1,2) True assms(3), of s]
  have "dup_in_window dset e' s"
    using h True seqno_difference_self [OF assms(1)] by (auto simp: dup_in_window_def)
  then show ?thesis using h seqno_difference_self [OF assms(1)] by simp
next
  case False
  then have "s \<noteq> de_current e" using seqno_difference_self [OF assms(1)] by auto
  then have "de_current e' = s \<and> de_history e' = 1"
    using False assms(3,4) by (auto simp: dup_test_def Let_def split: if_splits)
  then show ?thesis using seqno_difference_self [OF assms(1)] by (simp add: dup_known_def)
qed

lemma entry_add_find:
  assumes "dupset_inv dset w" "netaddr_wf orig" "dupkey_wf k"
    and "oonf_duplicate_entry_add alloc dset type orig s v = (r, dset')"
  shows "dupset_inv dset' w"
    and "k \<noteq> \<lparr>dk_addr = orig, dk_msg_type = type\<rparr> \<Longrightarrow>
       tree_find avl_cmp_dupkey (ds_tree dset') k = tree_find avl_cmp_dupkey (ds_tree dset) k"
    and "r \<noteq> OONF_DUPSET_TOO_OLD \<Longrightarrow>
       \<exists>e. tree_find avl_cmp_dupkey (ds_tree dset') \<lparr>dk_addr = orig, dk_msg_type = type\<rparr> = Some e
         \<and> dup_known dset' e s"
proof -
  let ?k = "\<lparr>dk_addr = orig, dk_msg_type = type\<rparr>"
  have k: "dupkey_wf ?k" using assms(2) by (simp add: dupkey_wf_def)
  have w: "dupset_width dset w" using assms(1) by (simp add: dupset_inv_def)
  have "dupset_inv dset' w \<and>
    (k \<noteq> ?k \<longrightarrow> tree_find avl_cmp_dupkey (ds_tree dset') k = tree_find avl_cmp_dupkey (ds_tree dset) k) \<and>
    (r \<noteq> OONF_DUPSET_TOO_OLD \<longrightarrow>
       (\<exists>e. tree_find avl_cmp_dupkey (ds_tree dset') ?k = Some e \<and> dup_known dset' e s))"
  proof (cases "tree_find avl_cmp_dupkey (ds_tree dset) ?k")
    case None
    define e where "e = \<lparr>de_history = 1, de_current = s, de_too_old_count = 0, de_vtime = v\<rparr>"
    have e: "bit (de_history e) 0" "dup_known dset e s"
      using seqno_difference_self [OF w] by (simp_all add: e_def dup_known_def)
    show ?thesis
    proof (cases alloc)
      case True
      then have "dset' = dset\<lparr>ds_tree := tree_insert avl_cmp_dupkey (ds_tree dset) ?k e\<rparr>"
        using assms(4) None by (simp add: oonf_duplicate_entry_add_def e_def)
      then show ?thesis
        using inv_insert [OF assms(1) e(1) k] find_insert [OF assms(1) k _ None] assms(3) k e(2)
        by (simp add: dup_known_tree)
    next
      case False
      then show ?thesis using assms(1,4) None by (simp add: oonf_duplicate_entry_add_def)
    qed
  next
    case (Some e0)
    obtain e1 where e1: "dup_test dset e0 s True = (r, e1)"
      using assms(4) Some by (cases "dup_test dset e0 s True") (simp add: oonf_duplicate_entry_add_def Let_def)
    define e where "e = (if oonf_duplicate_is_new r then e1\<lparr>de_vtime := v\<rparr> else e1)"
    have d: "dset' = dset\<lparr>ds_tree := tree_change avl_cmp_dupkey (ds_tree dset) ?k e\<rparr>"
      using assms(4) Some e1 by (simp add: oonf_duplicate_entry_add_def e_def Let_def)
    have b: "bit (de_history e) 0"
      using dup_test_bit0 [OF find_bit0 [OF assms(1) k Some] w, of s True] e1 by (simp add: e_def)
    have "dup_known dset e s" if "r \<noteq> OONF_DUPSET_TOO_OLD"
      using dup_test_stored [OF w find_bit0 [OF assms(1) k Some] e1 that] by (simp add: e_def dup_known_def)
    then show ?thesis
      using inv_change [OF assms(1) b] find_change [OF assms(1) k _ Some] assms(3) k
      by (simp add: dup_known_tree d)
  qed
  then show "dupset_inv dset' w"
    "k \<noteq> ?k \<Longrightarrow> tree_find avl_cmp_dupkey (ds_tree dset') k = tree_find avl_cmp_dupkey (ds_tree dset) k"
    "r \<noteq> OONF_DUPSET_TOO_OLD \<Longrightarrow>
       \<exists>e. tree_find avl_cmp_dupkey (ds_tree dset') ?k = Some e \<and> dup_known dset' e s" by auto
qed

lemma known_not_new:
  assumes "dupset_width dset w" "bit (de_history e) 0" "dup_known dset e s"
  shows "fst (dup_test dset e s store) \<in> {OONF_DUPSET_CURRENT, OONF_DUPSET_DUPLICATE}"
  using assms(3) unfolding dup_verdict [OF assms(1,2)] by (simp add: dup_known_def Let_def)

text \<open>
  C18: accepting a message. An \<open>oonf_duplicate_entry_add\<close> keeps the invariant of the set and the
  entries of all other originators and message types; a sequence number it has
  reported as anything but too old is not reported as new when it arrives a second time.
\<close>

theorem entry_add_suppresses_duplicates:
  assumes "dupset_inv dset w" "netaddr_wf orig"
    and "oonf_duplicate_entry_add alloc dset type orig s v = (r, dset')"
  shows "dupset_inv dset' w \<and>
    (dupkey_wf k \<and> k \<noteq> \<lparr>dk_addr = orig, dk_msg_type = type\<rparr> \<longrightarrow>
       tree_find avl_cmp_dupkey (ds_tree dset') k = tree_find avl_cmp_dupkey (ds_tree dset) k) \<and>
    (r \<noteq> OONF_DUPSET_TOO_OLD \<longrightarrow>
       fst (oonf_duplicate_entry_add alloc' dset' type orig s v')
         \<in> {OONF_DUPSET_CURRENT, OONF_DUPSET_DUPLICATE})"
proof -
  let ?k = "\<lparr>dk_addr = orig, dk_msg_type = type\<rparr>"
  have k: "dupkey_wf ?k" using assms(2) by (simp add: dupkey_wf_def)
  have i: "dupset_inv dset' w" by (rule entry_add_find(1) [OF assms(1,2) k assms(3)])
  then have w: "dupset_width dset' w" by (simp add: dupset_inv_def)
  have "fst (oonf_duplicate_entry_add alloc' dset' type orig s v')
      \<in> {OONF_DUPSET_CURRENT, OONF_DUPSET_DUPLICATE}" if r: "r \<noteq> OONF_DUPSET_TOO_OLD"
  proof -
    obtain e where e: "tree_find avl_cmp_dupkey (ds_tree dset') ?k = Some e" "dup_known dset' e s"
      using entry_add_find(3) [OF assms(1,2) k assms(3) r] by blast
    show ?thesis
      using known_not_new [OF w find_bit0 [OF i k e(1)] e(2), of True] e(1)
      by (cases "dup_test dset' e s True") (simp add: oonf_duplicate_entry_add_def Let_def)
  qed
  with i entry_add_find(2) [OF assms(1,2) _ assms(3)] show ?thesis by blast
qed

text \<open>
  C27: the test without storing changes the entry all the same: the ninth number in a row behind
  the window makes \<open>oonf_duplicate_test\<close> restart the window at that number, as \<open>_test\<close> resets the
  entry whatever its flag \<open>set\<close> says.
\<close>

theorem duplicate_test_restarts_window:
  assumes "dupset_inv dset w" "netaddr_wf orig"
    and "tree_find avl_cmp_dupkey (ds_tree dset) \<lparr>dk_addr = orig, dk_msg_type = type\<rparr> = Some e"
    and "seqno_difference dset s (de_current e) < -31"
    and "de_too_old_count e = OONF_DUPSET_MAXIMUM_TOO_OLD"
  shows "\<exists>dset'. oonf_duplicate_test dset type orig s = (OONF_DUPSET_NEWEST, dset') \<and>
    tree_find avl_cmp_dupkey (ds_tree dset') \<lparr>dk_addr = orig, dk_msg_type = type\<rparr> =
      Some (e\<lparr>de_history := 1, de_too_old_count := 0, de_current := s\<rparr>)"
proof -
  let ?k = "\<lparr>dk_addr = orig, dk_msg_type = type\<rparr>"
  let ?e = "e\<lparr>de_history := 1, de_too_old_count := 0, de_current := s\<rparr>"
  have k: "dupkey_wf ?k" using assms(2) by (simp add: dupkey_wf_def)
  have "s \<noteq> de_current e"
    using assms(1,4) seqno_difference_self [of dset w s] by (auto simp: dupset_inv_def)
  then have "dup_test dset e s False = (OONF_DUPSET_NEWEST, ?e)"
    using assms(4,5) by (simp add: dup_test_def Let_def OONF_DUPSET_MAXIMUM_TOO_OLD_def)
  then show ?thesis
    using find_change [OF assms(1) k k assms(3), of ?e] assms(3)
    by (simp add: oonf_duplicate_test_def)
qed

subsection \<open>Witnesses\<close>

definition dup_ex_key :: oonf_duplicate_entry_key where
  "dup_ex_key = \<lparr>dk_addr = \<lparr>na_addr = replicate 16 1, na_type = 2, na_prefix_len = 32\<rparr>, dk_msg_type = 3\<rparr>"

definition dup_ex_set :: "u16 \<Rightarrow> oonf_duplicate_set" where
  "dup_ex_set n = (oonf_duplicate_set_add OONF_DUPSET_16BIT)
     \<lparr>ds_tree := [(dup_ex_key, \<lparr>de_history = 5, de_current = 1, de_too_old_count = n, de_vtime = 9\<rparr>)]\<rparr>"

lemma dup_ex_inv: "dupset_inv (dup_ex_set n) 16"
  using dupset_width_add(2)
  by (simp add: dupset_inv_def dup_ex_set_def tree_ordered_def dup_ex_key_def dupkey_wf_def netaddr_wf_def bit_0)

lemma dup_ex_fields:
  "ds_mask (dup_ex_set n) = 65535" "ds_limit (dup_ex_set n) = 32767" "ds_offset (dup_ex_set n) = 65536"
  by (simp_all add: dup_ex_set_def oonf_duplicate_set_add_def mask_values_def)

lemma dup_ex_find: "tree_find avl_cmp_dupkey (ds_tree (dup_ex_set n)) dup_ex_key =
    Some \<lparr>de_history = 5, de_current = 1, de_too_old_count = n, de_vtime = 9\<rparr>"
  using cmp_dupkey.comp_refl [of dup_ex_key]
  by (simp add: dup_ex_set_def dup_ex_key_def dupkey_wf_def netaddr_wf_def)

lemma dup_ex_diff: "seqno_difference (dup_ex_set n) 65500 1 = -37" "seqno_difference (dup_ex_set n) 65535 1 = -2"
  by (simp_all add: seqno_difference_def dup_ex_fields)

theorem duplicate_test_restarts_window_witness:
  "\<exists>dset'. oonf_duplicate_test (dup_ex_set 8) 3 (dk_addr dup_ex_key) 65500 = (OONF_DUPSET_NEWEST, dset') \<and>
    tree_find avl_cmp_dupkey (ds_tree dset') dup_ex_key =
      Some \<lparr>de_history = 1, de_current = 65500, de_too_old_count = 0, de_vtime = 9\<rparr>"
proof -
  have k: "\<lparr>dk_addr = dk_addr dup_ex_key, dk_msg_type = 3\<rparr> = dup_ex_key"
    by (simp add: dup_ex_key_def)
  have wf: "netaddr_wf (dk_addr dup_ex_key)" by (simp add: dup_ex_key_def netaddr_wf_def)
  show ?thesis
    using duplicate_test_restarts_window [OF dup_ex_inv wf, of 8 3, unfolded k, OF dup_ex_find, of 65500]
    by (simp add: dup_ex_diff OONF_DUPSET_MAXIMUM_TOO_OLD_def)
qed

theorem dup_test_verdict_witness:
  "fst (dup_test (dup_ex_set 0) \<lparr>de_history = 5, de_current = 1, de_too_old_count = 0, de_vtime = 9\<rparr> 65535 True)
     = OONF_DUPSET_DUPLICATE"
  using dup_test_verdict [of "dup_ex_set 0" 16
      "\<lparr>de_history = 5, de_current = 1, de_too_old_count = 0, de_vtime = 9\<rparr>" 65535 True] dup_ex_inv [of 0]
  by (simp add: dupset_inv_def dup_known_def dup_ex_diff bit_0 bit_numeral_rec)

theorem dup_test_history_witness:
  "dup_known (dup_ex_set 0)
     (snd (dup_test (dup_ex_set 0) \<lparr>de_history = 1, de_current = 1, de_too_old_count = 0, de_vtime = 9\<rparr> 65535 True))
     65535"
proof -
  let ?e = "\<lparr>de_history = 1, de_current = 1, de_too_old_count = 0, de_vtime = 9\<rparr>"
  obtain r e' where t: "dup_test (dup_ex_set 0) ?e 65535 True = (r, e')" by fastforce
  have w: "dupset_width (dup_ex_set 0) 16" using dup_ex_inv [of 0] by (simp add: dupset_inv_def)
  show ?thesis
    using dup_test_history [OF w _ _ t, of 65535] t seqno_difference_self [OF w]
    by (simp add: dup_ex_diff dup_in_window_def)
qed

theorem entry_add_suppresses_duplicates_witness:
  "\<exists>dset'. oonf_duplicate_entry_add True (dup_ex_set 0) 3 (dk_addr dup_ex_key) 7 50 = (OONF_DUPSET_NEWEST, dset') \<and>
     fst (oonf_duplicate_entry_add True dset' 3 (dk_addr dup_ex_key) 7 60)
       \<in> {OONF_DUPSET_CURRENT, OONF_DUPSET_DUPLICATE}"
proof -
  have k: "\<lparr>dk_addr = dk_addr dup_ex_key, dk_msg_type = 3\<rparr> = dup_ex_key"
    by (simp add: dup_ex_key_def)
  have wf: "netaddr_wf (dk_addr dup_ex_key)" by (simp add: dup_ex_key_def netaddr_wf_def)
  obtain dset' where a: "oonf_duplicate_entry_add True (dup_ex_set 0) 3 (dk_addr dup_ex_key) 7 50
      = (OONF_DUPSET_NEWEST, dset')"
    by (simp add: oonf_duplicate_entry_add_def k dup_ex_find dup_test_def seqno_difference_def dup_ex_fields)
  show ?thesis
    using entry_add_suppresses_duplicates [OF dup_ex_inv wf a] a by simp
qed

end
