(* ===== verification/Bitmap256.thy ===== *)
theory Bitmap256
  imports Oonf_Prelude
begin

section \<open>Bit arrays of 256 bits (libcommon/bitmap256)\<close>

text \<open>
  \<^verbatim>\<open>src/include/oonf/libcommon/bitmap256.h\<close> and \<^verbatim>\<open>src/src/libcommon/bitmap256.c\<close>: four 64 bit words,
  indexed by a byte. The reader marks dropped TLVs and addresses in them. The abstraction of
  a bitmap is the set of its indices; the operations are insertion, removal, membership and
  the subset test on it.
\<close>

record bitmap256 = bm_b :: "u64 list"

definition bitmap256_wf :: "bitmap256 \<Rightarrow> bool" where
  "bitmap256_wf m \<longleftrightarrow> length (bm_b m) = 4"

definition bitmap256_zero :: bitmap256 where
  "bitmap256_zero = \<lparr>bm_b = replicate 4 0\<rparr>"

definition bitmap256_get :: "bitmap256 \<Rightarrow> u8 \<Rightarrow> bool" where
  "bitmap256_get m b \<longleftrightarrow>
     (bm_b m ! unat (drop_bit 6 b)) AND push_bit (unat (b AND 63)) 1 \<noteq> 0"

definition bitmap256_set :: "bitmap256 \<Rightarrow> u8 \<Rightarrow> bitmap256" where
  "bitmap256_set m b =
     (let i = unat (drop_bit 6 b)
      in \<lparr>bm_b = (bm_b m)[i := (bm_b m ! i) OR push_bit (unat (b AND 63)) 1]\<rparr>)"

definition bitmap256_reset :: "bitmap256 \<Rightarrow> u8 \<Rightarrow> bitmap256" where
  "bitmap256_reset m b =
     (let i = unat (drop_bit 6 b)
      in \<lparr>bm_b = (bm_b m)[i := (bm_b m ! i) AND NOT (push_bit (unat (b AND 63)) 1)]\<rparr>)"

fun is_subset_loop :: "u64 list \<Rightarrow> u64 list \<Rightarrow> bool" where
  "is_subset_loop (s # ss) (t # ts) = (if s \<noteq> (s OR t) then False else is_subset_loop ss ts)"
| "is_subset_loop _ _ = True"

definition bitmap256_is_subset :: "bitmap256 \<Rightarrow> bitmap256 \<Rightarrow> bool" where
  "bitmap256_is_subset m sub = is_subset_loop (bm_b m) (bm_b sub)"

section \<open>Properties\<close>

definition bitmap256_abs :: "bitmap256 \<Rightarrow> u8 set" where
  "bitmap256_abs m = {b. bitmap256_get m b}"

lemma index_word: "unat (drop_bit 6 (b :: u8)) = unat b div 64"
  using unat_half [of 6 b] by simp

lemma index_bit: "unat (b AND 63 :: u8) = unat b mod 64"
  using unat_and_mask [of b 6] by (simp add: mask_eq_exp_minus_1)

lemma index_word_less: "unat b div 64 < 4" for b :: u8
  using u8_bound [of b] by auto

lemma and_single_bit: "n < 64 \<Longrightarrow> (w AND push_bit n 1 \<noteq> 0) = bit (w :: u64) n"
  by (metis and_exp_eq_0_iff_not_bit push_bit_of_1)

lemma get_iff: "bitmap256_get m b \<longleftrightarrow> bit (bm_b m ! (unat b div 64)) (unat b mod 64)"
  unfolding bitmap256_get_def index_word index_bit by (rule and_single_bit) simp

lemma index_inj: "unat b div 64 = unat c div 64 \<Longrightarrow> unat b mod 64 = unat c mod 64 \<Longrightarrow> b = (c :: u8)"
  by (metis div_mult_mod_eq word_unat_eq_iff)

lemma same_bit: "unat b div 64 = unat c div 64 \<Longrightarrow> unat c mod 64 = unat b mod 64 \<longleftrightarrow> c = (b :: u8)"
  using index_inj [of b c] by auto

lemma single_bit: "n < 64 \<Longrightarrow> bit (push_bit m 1 :: u64) n \<longleftrightarrow> n = m"
  by (auto simp: bit_exp_iff)

lemma get_set:
  assumes "bitmap256_wf m"
  shows "bitmap256_get (bitmap256_set m b) c \<longleftrightarrow> c = b \<or> bitmap256_get m c"
proof (cases "unat b div 64 = unat c div 64")
  case True
  then show ?thesis
    using assms index_word_less [of c] same_bit [OF True]
    by (simp add: get_iff bitmap256_set_def Let_def index_word index_bit bitmap256_wf_def bit_or_iff single_bit
        del: push_bit_of_1) blast
next
  case False
  then show ?thesis
    by (auto simp: get_iff bitmap256_set_def Let_def index_word)
qed

lemma get_reset:
  assumes "bitmap256_wf m"
  shows "bitmap256_get (bitmap256_reset m b) c \<longleftrightarrow> c \<noteq> b \<and> bitmap256_get m c"
proof (cases "unat b div 64 = unat c div 64")
  case True
  then show ?thesis
    using assms index_word_less [of c] same_bit [OF True]
    by (simp add: get_iff bitmap256_reset_def Let_def index_word index_bit bitmap256_wf_def bit_and_iff bit_not_iff single_bit
        del: push_bit_of_1) blast
next
  case False
  then show ?thesis
    by (auto simp: get_iff bitmap256_reset_def Let_def index_word)
qed

lemma set_wf [simp]: "bitmap256_wf (bitmap256_set m b) = bitmap256_wf m"
  by (simp add: bitmap256_wf_def bitmap256_set_def Let_def)

lemma reset_wf [simp]: "bitmap256_wf (bitmap256_reset m b) = bitmap256_wf m"
  by (simp add: bitmap256_wf_def bitmap256_reset_def Let_def)

lemma zero_wf [simp]: "bitmap256_wf bitmap256_zero"
  by (simp add: bitmap256_wf_def bitmap256_zero_def)

lemma or_absorb: "s = (s OR t) \<longleftrightarrow> (\<forall>n<64. bit t n \<longrightarrow> bit (s :: u64) n)"
  by (auto simp: bit_eq_iff bit_or_iff)

lemma subset_loop_iff:
  "length ss = length ts \<Longrightarrow>
   is_subset_loop ss ts \<longleftrightarrow> (\<forall>i<length ts. \<forall>n<64. bit (ts ! i) n \<longrightarrow> bit (ss ! i) n)"
proof (induction ss ts rule: is_subset_loop.induct)
  case (1 s ss t ts)
  then show ?case by (auto simp: or_absorb less_Suc_eq_0_disj)
qed auto

lemma index_surj: "i < 4 \<Longrightarrow> n < 64 \<Longrightarrow> \<exists>b :: u8. unat b div 64 = i \<and> unat b mod 64 = n"
proof -
  assume a: "i < 4" "n < 64"
  then have "unat (of_nat (64 * i + n) :: u8) = 64 * i + n"
    by (intro unat_of_nat_small) simp
  with a show ?thesis by (intro exI [of _ "of_nat (64 * i + n)"]) (simp only:, simp)
qed

lemma is_subset_iff:
  assumes "bitmap256_wf m" "bitmap256_wf sub"
  shows "bitmap256_is_subset m sub \<longleftrightarrow> (\<forall>b. bitmap256_get sub b \<longrightarrow> bitmap256_get m b)"
proof -
  have l: "length (bm_b m) = length (bm_b sub)" "length (bm_b sub) = 4"
    using assms by (simp_all add: bitmap256_wf_def)
  have "(\<forall>i<4. \<forall>n<64. bit (bm_b sub ! i) n \<longrightarrow> bit (bm_b m ! i) n) \<longleftrightarrow>
      (\<forall>b :: u8. bit (bm_b sub ! (unat b div 64)) (unat b mod 64) \<longrightarrow>
         bit (bm_b m ! (unat b div 64)) (unat b mod 64))" (is "?L = ?R")
  proof
    assume ?L then show ?R using index_word_less by simp
  next
    assume ?R then show ?L using index_surj by metis
  qed
  then show ?thesis
    unfolding bitmap256_is_subset_def subset_loop_iff [OF l(1)] l(2) get_iff .
qed

text \<open>
  C11: the bitmap implements a set of bytes: setting and resetting a bit insert and remove exactly
  that index, a cleared bitmap is the empty set, and the word-wise subset test decides
  inclusion of the sets.
\<close>

theorem bitmap256_refines_set:
  assumes "bitmap256_wf m" "bitmap256_wf sub"
  shows "bitmap256_abs bitmap256_zero = {}
    \<and> bitmap256_abs (bitmap256_set m b) = insert b (bitmap256_abs m)
    \<and> bitmap256_abs (bitmap256_reset m b) = bitmap256_abs m - {b}
    \<and> (bitmap256_is_subset m sub \<longleftrightarrow> bitmap256_abs sub \<subseteq> bitmap256_abs m)"
proof -
  have "\<not> bitmap256_get bitmap256_zero c" for c
    using index_word_less [of c] by (simp add: get_iff bitmap256_zero_def)
  then show ?thesis
    using get_set [OF assms(1)] get_reset [OF assms(1)] is_subset_iff [OF assms]
    by (auto simp: bitmap256_abs_def)
qed

theorem bitmap256_refines_set_witness:
  "bitmap256_abs (bitmap256_set bitmap256_zero 200) = insert 200 (bitmap256_abs bitmap256_zero)
    \<and> bitmap256_abs bitmap256_zero = {}"
  using bitmap256_refines_set [of bitmap256_zero bitmap256_zero 200] by simp

end
