(* ===== verification/Rfc5444_Parse.thy ===== *)
theory Rfc5444_Parse
  imports Avl_Spec Bitmap256
begin

section \<open>Parsing TLVs, TLV blocks and address blocks (librfc5444/rfc5444_reader)\<close>

text \<open>
  The byte-level half of \<^verbatim>\<open>src/src/librfc5444/rfc5444_reader.c\<close>. The received packet is a list of
  bytes; a pointer into it is an index, \<open>None\<close> a null pointer. Every function returns its C result
  code together with the pointer it has advanced and the structures it has filled. The two
  operands of the \<open>|\<close> in \<open>_rfc5444_get_u16\<close> are evaluated from left to right (C leaves the order
  open). The build options are those of the repository: consumers may drop contexts and
  \<open>DEBUG_CLEANUP\<close> is off.
\<close>

subsection \<open>Result codes and flags (rfc5444_context.h)\<close>

definition RFC5444_DROP_PACKET :: int where "RFC5444_DROP_PACKET = 5"
definition RFC5444_DROP_MESSAGE :: int where "RFC5444_DROP_MESSAGE = 4"
definition RFC5444_DROP_MSG_BUT_FORWARD :: int where "RFC5444_DROP_MSG_BUT_FORWARD = 3"
definition RFC5444_DROP_ADDRESS :: int where "RFC5444_DROP_ADDRESS = 2"
definition RFC5444_DROP_TLV :: int where "RFC5444_DROP_TLV = 1"
definition RFC5444_OKAY :: int where "RFC5444_OKAY = 0"
definition RFC5444_UNSUPPORTED_VERSION :: int where "RFC5444_UNSUPPORTED_VERSION = -1"
definition RFC5444_END_OF_BUFFER :: int where "RFC5444_END_OF_BUFFER = -2"
definition RFC5444_BAD_TLV_IDXFLAGS :: int where "RFC5444_BAD_TLV_IDXFLAGS = -3"
definition RFC5444_BAD_TLV_VALUEFLAGS :: int where "RFC5444_BAD_TLV_VALUEFLAGS = -4"
definition RFC5444_BAD_TLV_LENGTH :: int where "RFC5444_BAD_TLV_LENGTH = -5"
definition RFC5444_OUT_OF_MEMORY :: int where "RFC5444_OUT_OF_MEMORY = -6"
definition RFC5444_EMPTY_ADDRBLOCK :: int where "RFC5444_EMPTY_ADDRBLOCK = -7"
definition RFC5444_BAD_MSG_TAILFLAGS :: int where "RFC5444_BAD_MSG_TAILFLAGS = -8"
definition RFC5444_BAD_MSG_PREFIXFLAGS :: int where "RFC5444_BAD_MSG_PREFIXFLAGS = -9"
definition RFC5444_TOO_LARGE :: int where "RFC5444_TOO_LARGE = -16"
definition RFC5444_BAD_ADDR_HEAD_LENGTH :: int where "RFC5444_BAD_ADDR_HEAD_LENGTH = -18"
definition RFC5444_BAD_ADDR_TAIL_LENGTH :: int where "RFC5444_BAD_ADDR_TAIL_LENGTH = -19"
definition RFC5444_BAD_TLV_INDEX :: int where "RFC5444_BAD_TLV_INDEX = -20"

lemmas rfc5444_results = RFC5444_DROP_PACKET_def RFC5444_DROP_MESSAGE_def
  RFC5444_DROP_MSG_BUT_FORWARD_def RFC5444_DROP_ADDRESS_def RFC5444_DROP_TLV_def RFC5444_OKAY_def
  RFC5444_UNSUPPORTED_VERSION_def RFC5444_END_OF_BUFFER_def RFC5444_BAD_TLV_IDXFLAGS_def
  RFC5444_BAD_TLV_VALUEFLAGS_def RFC5444_BAD_TLV_LENGTH_def RFC5444_OUT_OF_MEMORY_def
  RFC5444_EMPTY_ADDRBLOCK_def RFC5444_BAD_MSG_TAILFLAGS_def RFC5444_BAD_MSG_PREFIXFLAGS_def
  RFC5444_TOO_LARGE_def RFC5444_BAD_ADDR_HEAD_LENGTH_def RFC5444_BAD_ADDR_TAIL_LENGTH_def
  RFC5444_BAD_TLV_INDEX_def

definition RFC5444_MAX_ADDRLEN :: nat where "RFC5444_MAX_ADDRLEN = 16"

definition RFC5444_PKT_FLAGMASK :: u8 where "RFC5444_PKT_FLAGMASK = 0x0f"
definition RFC5444_PKT_FLAG_SEQNO :: u8 where "RFC5444_PKT_FLAG_SEQNO = 0x08"
definition RFC5444_PKT_FLAG_TLV :: u8 where "RFC5444_PKT_FLAG_TLV = 0x04"
definition RFC5444_MSG_FLAG_ORIGINATOR :: u8 where "RFC5444_MSG_FLAG_ORIGINATOR = 0x80"
definition RFC5444_MSG_FLAG_HOPLIMIT :: u8 where "RFC5444_MSG_FLAG_HOPLIMIT = 0x40"
definition RFC5444_MSG_FLAG_HOPCOUNT :: u8 where "RFC5444_MSG_FLAG_HOPCOUNT = 0x20"
definition RFC5444_MSG_FLAG_SEQNO :: u8 where "RFC5444_MSG_FLAG_SEQNO = 0x10"
definition RFC5444_MSG_FLAG_ADDRLENMASK :: u8 where "RFC5444_MSG_FLAG_ADDRLENMASK = 0x0f"
definition RFC5444_ADDR_FLAG_HEAD :: u8 where "RFC5444_ADDR_FLAG_HEAD = 0x80"
definition RFC5444_ADDR_FLAG_FULLTAIL :: u8 where "RFC5444_ADDR_FLAG_FULLTAIL = 0x40"
definition RFC5444_ADDR_FLAG_ZEROTAIL :: u8 where "RFC5444_ADDR_FLAG_ZEROTAIL = 0x20"
definition RFC5444_ADDR_FLAG_SINGLEPLEN :: u8 where "RFC5444_ADDR_FLAG_SINGLEPLEN = 0x10"
definition RFC5444_ADDR_FLAG_MULTIPLEN :: u8 where "RFC5444_ADDR_FLAG_MULTIPLEN = 0x08"
definition RFC5444_TLV_FLAG_TYPEEXT :: u8 where "RFC5444_TLV_FLAG_TYPEEXT = 0x80"
definition RFC5444_TLV_FLAG_SINGLE_IDX :: u8 where "RFC5444_TLV_FLAG_SINGLE_IDX = 0x40"
definition RFC5444_TLV_FLAG_MULTI_IDX :: u8 where "RFC5444_TLV_FLAG_MULTI_IDX = 0x20"
definition RFC5444_TLV_FLAG_VALUE :: u8 where "RFC5444_TLV_FLAG_VALUE = 0x10"
definition RFC5444_TLV_FLAG_EXTVALUE :: u8 where "RFC5444_TLV_FLAG_EXTVALUE = 0x08"
definition RFC5444_TLV_FLAG_MULTIVALUE :: u8 where "RFC5444_TLV_FLAG_MULTIVALUE = 0x04"

lemmas rfc5444_flags = RFC5444_PKT_FLAGMASK_def RFC5444_PKT_FLAG_SEQNO_def RFC5444_PKT_FLAG_TLV_def
  RFC5444_MSG_FLAG_ORIGINATOR_def RFC5444_MSG_FLAG_HOPLIMIT_def RFC5444_MSG_FLAG_HOPCOUNT_def
  RFC5444_MSG_FLAG_SEQNO_def RFC5444_MSG_FLAG_ADDRLENMASK_def RFC5444_ADDR_FLAG_HEAD_def
  RFC5444_ADDR_FLAG_FULLTAIL_def RFC5444_ADDR_FLAG_ZEROTAIL_def RFC5444_ADDR_FLAG_SINGLEPLEN_def
  RFC5444_ADDR_FLAG_MULTIPLEN_def RFC5444_TLV_FLAG_TYPEEXT_def RFC5444_TLV_FLAG_SINGLE_IDX_def
  RFC5444_TLV_FLAG_MULTI_IDX_def RFC5444_TLV_FLAG_VALUE_def RFC5444_TLV_FLAG_EXTVALUE_def
  RFC5444_TLV_FLAG_MULTIVALUE_def

subsection \<open>Structures (rfc5444_reader.h)\<close>

record rfc5444_reader_tlvblock_entry =
  te_type :: u8
  te_flags :: u8
  te_type_ext :: u8
  te_length :: u16
  te_single_value :: "nat option"
  te_index1 :: u8
  te_index2 :: u8
  te_next_entry :: "nat option"
  te_order :: u16
  te_value :: "nat option"
  te_multivalue_tlv :: bool
  te_int_drop_tlv :: bitmap256

definition tlvblock_entry_zero :: rfc5444_reader_tlvblock_entry where
  "tlvblock_entry_zero = \<lparr>te_type = 0, te_flags = 0, te_type_ext = 0, te_length = 0, te_single_value = None,
     te_index1 = 0, te_index2 = 0, te_next_entry = None, te_order = 0, te_value = None,
     te_multivalue_tlv = False, te_int_drop_tlv = bitmap256_zero\<rparr>"

record rfc5444_reader_addrblock_entry =
  ab_tlvblock :: "rfc5444_reader_tlvblock_entry list"
  ab_num_addr :: u8
  ab_mid_start :: u8
  ab_mid_len :: u8
  ab_prefixes :: "nat option"
  ab_mid_src :: nat
  ab_addr :: "u8 list"
  ab_prefixlen :: u8
  ab_addr_block_ptr :: nat
  ab_addr_block_size :: nat
  ab_addr_tlv_size :: nat
  ab_dropAddr :: bitmap256

definition addrblock_entry_zero :: rfc5444_reader_addrblock_entry where
  "addrblock_entry_zero = \<lparr>ab_tlvblock = [], ab_num_addr = 0, ab_mid_start = 0, ab_mid_len = 0,
     ab_prefixes = None, ab_mid_src = 0, ab_addr = replicate 16 0, ab_prefixlen = 0, ab_addr_block_ptr = 0,
     ab_addr_block_size = 0, ab_addr_tlv_size = 0, ab_dropAddr = bitmap256_zero\<rparr>"

subsection \<open>Reading bytes and words\<close>

definition rfc5444_get_u8 :: "u8 list \<Rightarrow> nat \<Rightarrow> nat \<Rightarrow> int \<Rightarrow> fault + u8 \<times> nat \<times> int" where
  "rfc5444_get_u8 buf ptr eob error =
     (if error \<noteq> RFC5444_OKAY then Inr (0, ptr, error)
      else if ptr \<ge> eob then Inr (0, ptr, RFC5444_END_OF_BUFFER)
      else bind_f (rd buf ptr) (\<lambda>b. Inr (b, ptr + 1, error)))"

definition rfc5444_get_u16 :: "u8 list \<Rightarrow> nat \<Rightarrow> nat \<Rightarrow> int \<Rightarrow> fault + u16 \<times> nat \<times> int" where
  "rfc5444_get_u16 buf ptr eob error =
     bind_f (rfc5444_get_u8 buf ptr eob error) (\<lambda>(hi, ptr, error).
     bind_f (rfc5444_get_u8 buf ptr eob error) (\<lambda>(lo, ptr, error).
     Inr (push_bit 8 (ucast hi) OR ucast lo, ptr, error)))"

definition calc_tlvblock_intorder :: "rfc5444_reader_tlvblock_entry \<Rightarrow> u16" where
  "calc_tlvblock_intorder entry = push_bit 8 (ucast (te_type entry)) OR ucast (te_type_ext entry)"

subsection \<open>A TLV\<close>

text \<open>The index fields; \<open>None\<close> are the flags that are refused.\<close>

definition parse_tlv_index ::
    "u8 list \<Rightarrow> nat \<Rightarrow> nat \<Rightarrow> int \<Rightarrow> u8 \<Rightarrow> u8 \<Rightarrow> fault + (u8 \<times> u8 \<times> nat \<times> int) option" where
  "parse_tlv_index buf ptr eob result flags addr_count =
     (let masked = flags AND (RFC5444_TLV_FLAG_SINGLE_IDX OR RFC5444_TLV_FLAG_MULTI_IDX)
      in if masked = 0 then Inr (Some (0, addr_count - 1, ptr, result))
         else if masked = RFC5444_TLV_FLAG_SINGLE_IDX
         then bind_f (rfc5444_get_u8 buf ptr eob result) (\<lambda>(i, ptr, result). Inr (Some (i, i, ptr, result)))
         else if masked = RFC5444_TLV_FLAG_MULTI_IDX
         then bind_f (rfc5444_get_u8 buf ptr eob result) (\<lambda>(i1, ptr, result).
              bind_f (rfc5444_get_u8 buf ptr eob result) (\<lambda>(i2, ptr, result).
              Inr (Some (i1, i2, ptr, result))))
         else Inr None)"

definition parse_tlv_length ::
    "u8 list \<Rightarrow> nat \<Rightarrow> nat \<Rightarrow> int \<Rightarrow> u8 \<Rightarrow> fault + (u16 \<times> nat \<times> int) option" where
  "parse_tlv_length buf ptr eob result flags =
     (let masked = flags AND (RFC5444_TLV_FLAG_VALUE OR RFC5444_TLV_FLAG_EXTVALUE)
      in if masked = 0 then Inr (Some (0, ptr, result))
         else if masked = RFC5444_TLV_FLAG_VALUE
         then bind_f (rfc5444_get_u8 buf ptr eob result) (\<lambda>(l, ptr, result). Inr (Some (ucast l, ptr, result)))
         else if masked = RFC5444_TLV_FLAG_EXTVALUE OR RFC5444_TLV_FLAG_VALUE
         then bind_f (rfc5444_get_u16 buf ptr eob result) (\<lambda>(l, ptr, result). Inr (Some (l, ptr, result)))
         else Inr None)"

text \<open>The number of addresses a multivalue TLV covers, in eight bits.\<close>

definition tlv_count :: "rfc5444_reader_tlvblock_entry \<Rightarrow> u8" where
  "tlv_count entry = te_index2 entry - te_index1 entry + 1"

text \<open>From the check of the value length on.\<close>

definition parse_tlv_value ::
    "rfc5444_reader_tlvblock_entry \<Rightarrow> nat \<Rightarrow> nat \<Rightarrow> int \<Rightarrow>
     fault + int \<times> rfc5444_reader_tlvblock_entry \<times> nat" where
  "parse_tlv_value entry ptr eob result =
     (if ptr + unat (te_length entry) > eob then Inr (RFC5444_END_OF_BUFFER, entry, eob)
      else if result \<noteq> RFC5444_OKAY then Inr (result, entry, eob)
      else if te_length entry = 0 then Inr (RFC5444_OKAY, entry\<lparr>te_value := None\<rparr>, ptr)
      else let entry = entry\<lparr>te_value := Some ptr\<rparr>;
               ptr = ptr + unat (te_length entry);
               count = tlv_count entry;
               entry = (if count = 1 then entry\<lparr>te_multivalue_tlv := False\<rparr> else entry)
           in if \<not> te_multivalue_tlv entry
              then Inr (RFC5444_OKAY, entry\<lparr>te_single_value := te_value entry\<rparr>, ptr)
              else if count = 0 then Inl Div_By_Zero
              else if te_length entry mod ucast count \<noteq> 0 then Inr (RFC5444_BAD_TLV_LENGTH, entry, ptr)
              else Inr (RFC5444_OKAY, entry\<lparr>te_length := te_length entry div ucast count\<rparr>, ptr))"

text \<open>Returns the result code, the entry and the pointer.\<close>

definition parse_tlv ::
    "u8 list \<Rightarrow> rfc5444_reader_tlvblock_entry \<Rightarrow> nat \<Rightarrow> nat \<Rightarrow> u8 \<Rightarrow>
     fault + int \<times> rfc5444_reader_tlvblock_entry \<times> nat" where
  "parse_tlv buf entry ptr eob addr_count =
     bind_f (rfc5444_get_u8 buf ptr eob RFC5444_OKAY) (\<lambda>(type, ptr, result).
     bind_f (rfc5444_get_u8 buf ptr eob result) (\<lambda>(flags, ptr, result).
     bind_f (if flags AND RFC5444_TLV_FLAG_TYPEEXT \<noteq> 0 then rfc5444_get_u8 buf ptr eob result
             else Inr (0, ptr, result)) (\<lambda>(type_ext, ptr, result).
     let entry = entry\<lparr>te_type := type, te_flags := flags, te_type_ext := type_ext\<rparr>;
         entry = entry\<lparr>te_order := calc_tlvblock_intorder entry\<rparr>
     in bind_f (parse_tlv_index buf ptr eob result flags addr_count) (\<lambda>idx.
        case idx of
          None \<Rightarrow> Inr (RFC5444_BAD_TLV_IDXFLAGS, entry, eob)
        | Some (index1, index2, ptr, result) \<Rightarrow>
            let entry = entry\<lparr>te_index1 := index1, te_index2 := index2\<rparr>
            in if addr_count > 0 \<and> (index1 \<ge> addr_count \<or> index2 \<ge> addr_count)
               then Inr (RFC5444_BAD_TLV_INDEX, entry, eob)
               else bind_f (parse_tlv_length buf ptr eob result flags) (\<lambda>len.
                    case len of
                      None \<Rightarrow> Inr (RFC5444_BAD_TLV_VALUEFLAGS, entry, eob)
                    | Some (l, ptr, result) \<Rightarrow>
                        parse_tlv_value
                          (entry\<lparr>te_length := l,
                                 te_multivalue_tlv := flags AND RFC5444_TLV_FLAG_MULTIVALUE \<noteq> 0\<rparr>)
                          ptr eob result)))))"

subsection \<open>The parser of a TLV stays inside the buffer\<close>

text \<open>The result variable only ever changes to the end-of-buffer error in the readers.\<close>

definition err_step :: "int \<Rightarrow> int \<Rightarrow> bool" where
  "err_step e e' \<longleftrightarrow> e' = e \<or> e' = RFC5444_END_OF_BUFFER"

lemma err_step_trans: "err_step a b \<Longrightarrow> err_step b c \<Longrightarrow> err_step a c"
  by (auto simp: err_step_def)

lemma err_step_refl [simp]: "err_step a a"
  by (simp add: err_step_def)

lemma get_u8_wpI:
  assumes "\<And>b p e'. ptr \<le> p \<Longrightarrow> p \<le> max ptr eob \<Longrightarrow>
      (e' = RFC5444_OKAY \<longrightarrow> e = RFC5444_OKAY \<and> p = ptr + 1 \<and> p \<le> eob) \<Longrightarrow>
      err_step e e' \<Longrightarrow> Q (b, p, e')"
    and "length buf < eob \<Longrightarrow> F OOB_Read"
  shows "wp (rfc5444_get_u8 buf ptr eob e) F Q"
  using assms by (auto simp: rfc5444_get_u8_def rd_def wp_simps rfc5444_results err_step_def)

lemma no_drop:
  "err_step e e' \<Longrightarrow> e \<le> RFC5444_OKAY \<Longrightarrow> e' \<le> RFC5444_OKAY"
  by (auto simp: rfc5444_results err_step_def)

lemma get_u16_wpI:
  assumes "\<And>w p e'. ptr \<le> p \<Longrightarrow> p \<le> max ptr eob \<Longrightarrow>
      (e' = RFC5444_OKAY \<longrightarrow> e = RFC5444_OKAY \<and> p = ptr + 2 \<and> p \<le> eob) \<Longrightarrow>
      err_step e e' \<Longrightarrow> Q (w, p, e')"
    and "length buf < eob \<Longrightarrow> F OOB_Read"
  shows "wp (rfc5444_get_u16 buf ptr eob e) F Q"
  unfolding rfc5444_get_u16_def wp_bind
  by (rule get_u8_wpI, clarsimp, rule get_u8_wpI) (auto intro!: assms intro: err_step_trans)

lemma parse_tlv_index_wpI:
  assumes "\<And>i1 i2 p e'. ptr \<le> p \<Longrightarrow> p \<le> max ptr eob \<Longrightarrow> (e' = RFC5444_OKAY \<longrightarrow> e = RFC5444_OKAY) \<Longrightarrow>
      (flags AND (RFC5444_TLV_FLAG_SINGLE_IDX OR RFC5444_TLV_FLAG_MULTI_IDX) = 0 \<longrightarrow> i1 = 0 \<and> i2 = ac - 1) \<Longrightarrow>
      err_step e e' \<Longrightarrow> Q (Some (i1, i2, p, e'))"
    and "Q None"
    and "length buf < eob \<Longrightarrow> F OOB_Read"
  shows "wp (parse_tlv_index buf ptr eob e flags ac) F Q"
proof -
  let ?m = "flags AND (RFC5444_TLV_FLAG_SINGLE_IDX OR RFC5444_TLV_FLAG_MULTI_IDX)"
  have two: "wp (bind_f (rfc5444_get_u8 buf ptr eob e) (\<lambda>(i1, ptr, result).
              bind_f (rfc5444_get_u8 buf ptr eob result) (\<lambda>(i2, ptr, result).
              Inr (Some (i1, i2, ptr, result))))) F Q" if "?m \<noteq> 0"
    using that unfolding wp_bind
    by (intro get_u8_wpI) (clarsimp, intro get_u8_wpI, auto intro!: assms intro: err_step_trans)
  have one: "wp (bind_f (rfc5444_get_u8 buf ptr eob e) (\<lambda>(i, ptr, result). Inr (Some (i, i, ptr, result)))) F Q"
    if "?m \<noteq> 0"
    using that unfolding wp_bind by (intro get_u8_wpI) (auto intro!: assms intro: err_step_trans)
  show ?thesis
    unfolding parse_tlv_index_def Let_def using one two assms(1) [of ptr e 0 "ac - 1"] assms(2)
    by (simp add: wp_if)
qed

lemma parse_tlv_length_wpI:
  assumes "\<And>l p e'. ptr \<le> p \<Longrightarrow> p \<le> max ptr eob \<Longrightarrow> (e' = RFC5444_OKAY \<longrightarrow> e = RFC5444_OKAY) \<Longrightarrow>
      err_step e e' \<Longrightarrow> Q (Some (l, p, e'))"
    and "Q None"
    and "length buf < eob \<Longrightarrow> F OOB_Read"
  shows "wp (parse_tlv_length buf ptr eob e flags) F Q"
proof -
  have one: "wp (bind_f (rfc5444_get_u8 buf ptr eob e) (\<lambda>(l, ptr, result). Inr (Some (ucast l, ptr, result)))) F Q"
    unfolding wp_bind by (intro get_u8_wpI) (auto intro!: assms intro: err_step_trans)
  have two: "wp (bind_f (rfc5444_get_u16 buf ptr eob e) (\<lambda>(l, ptr, result). Inr (Some (l, ptr, result)))) F Q"
    unfolding wp_bind by (intro get_u16_wpI) (auto intro!: assms intro: err_step_trans)
  show ?thesis
    unfolding parse_tlv_length_def Let_def using one two assms(1) [of ptr e] assms(2)
    by (simp add: wp_if)
qed

text \<open>\<open>tlv_value_ok eob e\<close>: the value of every index the TLV covers ends before \<open>eob\<close>.\<close>

definition tlv_value_ok :: "nat \<Rightarrow> rfc5444_reader_tlvblock_entry \<Rightarrow> bool" where
  "tlv_value_ok eob e \<longleftrightarrow> (te_length e \<noteq> 0 \<longrightarrow>
     (case te_value e of None \<Rightarrow> False
      | Some v \<Rightarrow> if te_multivalue_tlv e
          then \<forall>i. te_index1 e \<le> i \<and> i \<le> te_index2 e \<longrightarrow>
                 v + unat (i - te_index1 e) * unat (te_length e) + unat (te_length e) \<le> eob
          else te_single_value e = Some v \<and> v + unat (te_length e) \<le> eob))"

lemma multi_index_bound:
  fixes i i1 i2 :: u8 and l :: u16
  assumes "i1 \<le> i" "i \<le> i2" "i2 - i1 + 1 \<noteq> 0"
  shows "unat (i - i1) * unat (l div ucast (i2 - i1 + 1)) + unat (l div ucast (i2 - i1 + 1)) \<le> unat l"
proof -
  have u: "unat (i - i1) = unat i - unat i1" "unat (i2 - i1) = unat i2 - unat i1"
    using assms by (auto intro!: unat_sub)
  have s: "unat (i2 - i1) < 255"
  proof (rule ccontr)
    assume "\<not> ?thesis"
    then have "unat (i2 - i1) = 255" using u8_bound [of "i2 - i1"] by simp
    then have "i2 - i1 = 255" unfolding word_unat_eq_iff by simp
    then show False using assms(3) by simp
  qed
  then have c: "unat (i2 - i1 + 1) = unat (i2 - i1) + 1" by (intro unat_inc) simp
  have d: "unat (l div ucast (i2 - i1 + 1)) = unat l div unat (i2 - i1 + 1)"
    by (simp add: unat_div unat_ucast_up)
  have "unat (i - i1) + 1 \<le> unat (i2 - i1 + 1)"
    using c u assms by (auto simp: word_le_nat_alt)
  then have "(unat (i - i1) + 1) * (unat l div unat (i2 - i1 + 1)) \<le>
      unat (i2 - i1 + 1) * (unat l div unat (i2 - i1 + 1))" by (rule mult_le_mono1)
  also have "\<dots> \<le> unat l" by simp
  finally show ?thesis unfolding d by simp
qed

lemma tlv_count_update [simp]:
  "tlv_count (e\<lparr>te_value := v\<rparr>) = tlv_count e"
  "tlv_count (e\<lparr>te_multivalue_tlv := m\<rparr>) = tlv_count e"
  by (simp_all add: tlv_count_def)

lemma parse_tlv_value_wpI:
  assumes z: "tlv_count entry = 0 \<Longrightarrow> F Div_By_Zero"
    and Q: "\<And>r e p. p \<le> eob \<Longrightarrow> (r = RFC5444_OKAY \<longrightarrow> ptr \<le> p \<and> result = RFC5444_OKAY \<and> tlv_value_ok eob e) \<Longrightarrow>
      te_index1 e = te_index1 entry \<Longrightarrow> te_index2 e = te_index2 entry \<Longrightarrow> te_type e = te_type entry \<Longrightarrow>
      te_type_ext e = te_type_ext entry \<Longrightarrow> te_order e = te_order entry \<Longrightarrow>
      te_int_drop_tlv e = te_int_drop_tlv entry \<Longrightarrow> te_next_entry e = te_next_entry entry \<Longrightarrow>
      (result \<le> RFC5444_OKAY \<longrightarrow> r \<le> RFC5444_OKAY) \<Longrightarrow> Q (r, e, p)"
  shows "wp (parse_tlv_value entry ptr eob result) F Q"
proof -
  let ?c = "tlv_count entry" and ?l = "te_length entry"
  have err: "wp (Inr (r, e, p)) F Q" if "r \<noteq> RFC5444_OKAY" "r \<le> RFC5444_OKAY \<or> r = result" "p \<le> eob" "te_index1 e = te_index1 entry"
    "te_index2 e = te_index2 entry" "te_type e = te_type entry" "te_type_ext e = te_type_ext entry"
    "te_order e = te_order entry" "te_int_drop_tlv e = te_int_drop_tlv entry"
    "te_next_entry e = te_next_entry entry" for r e p
    unfolding wp_Inr using that by (intro Q) auto
  consider (long) "ptr + unat ?l > eob" | (bad) "ptr + unat ?l \<le> eob" "result \<noteq> RFC5444_OKAY"
    | (empty) "ptr + unat ?l \<le> eob" "result = RFC5444_OKAY" "?l = 0"
    | (single) "result = RFC5444_OKAY" "?l \<noteq> 0" "ptr + unat ?l \<le> eob" "?c = 1 \<or> \<not> te_multivalue_tlv entry"
    | (zero) "result = RFC5444_OKAY" "?l \<noteq> 0" "ptr + unat ?l \<le> eob" "?c \<noteq> 1" "te_multivalue_tlv entry" "?c = 0"
    | (rest) "result = RFC5444_OKAY" "?l \<noteq> 0" "ptr + unat ?l \<le> eob" "?c \<noteq> 1" "te_multivalue_tlv entry" "?c \<noteq> 0"
        "?l mod ucast ?c \<noteq> 0"
    | (multi) "result = RFC5444_OKAY" "?l \<noteq> 0" "ptr + unat ?l \<le> eob" "?c \<noteq> 1" "te_multivalue_tlv entry" "?c \<noteq> 0"
        "?l mod ucast ?c = 0"
    by linarith
  then show ?thesis
  proof cases
    case multi
    have "ptr + unat (i - te_index1 entry) * unat (?l div ucast ?c) + unat (?l div ucast ?c) \<le> eob"
      if "te_index1 entry \<le> i" "i \<le> te_index2 entry" for i
      using multi_index_bound [OF that multi(6) [unfolded tlv_count_def], of ?l] multi(3)
      by (simp only: tlv_count_def)
    then have "tlv_value_ok eob (entry\<lparr>te_value := Some ptr, te_length := ?l div ucast ?c\<rparr>)"
      using multi(5) by (simp add: tlv_value_ok_def)
    with multi show ?thesis by (simp add: parse_tlv_value_def Let_def Q)
  next
    case long
    then show ?thesis
      unfolding parse_tlv_value_def by (simp only: if_True) (rule err; simp add: rfc5444_results)
  next
    case bad
    then have "\<not> ptr + unat ?l > eob" by simp
    with bad show ?thesis
      unfolding parse_tlv_value_def by (simp only: if_True if_False not_False_eq_True) (rule err; simp)
  next
    case empty
    then show ?thesis by (simp add: parse_tlv_value_def tlv_value_ok_def Q)
  next
    case single
    then have "(if ?c = 1 then entry\<lparr>te_value := Some ptr, te_multivalue_tlv := False\<rparr> else
      entry\<lparr>te_value := Some ptr\<rparr>) = entry\<lparr>te_value := Some ptr, te_multivalue_tlv := False\<rparr>"
      by (cases entry) auto
    with single show ?thesis by (auto simp: parse_tlv_value_def Let_def tlv_value_ok_def intro!: Q)
  next
    case zero
    then show ?thesis using z by (simp add: parse_tlv_value_def Let_def)
  next
    case rest
    then have "wp (Inr (RFC5444_BAD_TLV_LENGTH, entry\<lparr>te_value := Some ptr\<rparr>, ptr + unat ?l)) F Q"
      by (intro err) (simp_all add: rfc5444_results)
    with rest show ?thesis by (simp add: parse_tlv_value_def Let_def)
  qed
qed

text \<open>What a successful \<open>parse_tlv\<close> establishes.\<close>

definition tlv_ok :: "nat \<Rightarrow> u8 \<Rightarrow> rfc5444_reader_tlvblock_entry \<Rightarrow> bool" where
  "tlv_ok eob addr_count e \<longleftrightarrow> tlv_value_ok eob e \<and> te_order e = calc_tlvblock_intorder e \<and>
     (addr_count > 0 \<longrightarrow> te_index1 e < addr_count \<and> te_index2 e < addr_count)"

lemma parse_tlv_wpI:
  assumes rd: "length buf < eob \<Longrightarrow> F OOB_Read" and z: "F Div_By_Zero"
    and Q: "\<And>r e p. p \<le> eob \<Longrightarrow> (r = RFC5444_OKAY \<longrightarrow> ptr + 2 \<le> p \<and> tlv_ok eob ac e) \<Longrightarrow>
      te_int_drop_tlv e = te_int_drop_tlv entry \<Longrightarrow> te_next_entry e = te_next_entry entry \<Longrightarrow> r \<le> RFC5444_OKAY \<Longrightarrow> Q (r, e, p)"
  shows "wp (parse_tlv buf entry ptr eob ac) F Q"
proof -
  have opt: "wp (if c then rfc5444_get_u8 buf p eob e else Inr (0, p, e)) F R"
    if "\<And>b p' e'. p \<le> p' \<Longrightarrow> p' \<le> max p eob \<Longrightarrow> (e' = RFC5444_OKAY \<longrightarrow> e = RFC5444_OKAY) \<Longrightarrow>
      err_step e e' \<Longrightarrow> R (b, p', e')"
    for c p e R
    unfolding wp_if using that by (auto intro!: get_u8_wpI rd)
  have err: "Q (r, e, eob)" if "r < RFC5444_OKAY" "te_int_drop_tlv e = te_int_drop_tlv entry"
    "te_next_entry e = te_next_entry entry" for r e
    using that by (intro Q) auto
  have bad: "RFC5444_BAD_TLV_IDXFLAGS < RFC5444_OKAY" "RFC5444_BAD_TLV_INDEX < RFC5444_OKAY"
    "RFC5444_BAD_TLV_VALUEFLAGS < RFC5444_OKAY" "RFC5444_END_OF_BUFFER < RFC5444_OKAY"
    by (simp_all add: rfc5444_results)
  show ?thesis
    unfolding parse_tlv_def wp_bind
    apply (rule get_u8_wpI [rotated], erule rd)
    apply (clarsimp simp only: prod.case wp_bind)
    apply (rule get_u8_wpI [rotated], erule rd)
    apply (clarsimp simp only: prod.case wp_bind)
    apply (rule opt)
    apply (clarsimp simp only: prod.case wp_bind Let_def)
    apply (rule parse_tlv_index_wpI [rotated 2], erule rd)
     apply (clarsimp simp only: prod.case option.case wp_bind Let_def wp_if split: if_split)
     apply (intro conjI impI)
      apply (simp only: wp_Inr)
      apply (rule err; simp add: bad)
     apply (rule parse_tlv_length_wpI [rotated 2], erule rd)
      apply (clarsimp simp only: prod.case option.case)
      apply (rule parse_tlv_value_wpI)
       subgoal by (rule z)
      subgoal for t p1 e1 fl p2 e2 x p3 e3 i1 i2 p4 e4 l p5 e5 r e p
        apply (rule Q)
            apply assumption
           apply (auto simp: tlv_ok_def calc_tlvblock_intorder_def word_less_nat_alt word_le_nat_alt)[1]
          apply simp
         apply simp
        apply (erule mp)
        apply (erule no_drop)+
        apply (rule order_refl)
        done
     apply (simp only: option.case wp_Inr)
     apply (rule err; simp add: bad)
    apply (simp only: option.case wp_Inr)
    apply (rule err; simp add: bad)
    done
qed

lemma parse_tlv_progress:
  assumes "parse_tlv buf entry ptr eob ac = Inr (RFC5444_OKAY, e, p)"
  shows "ptr + 2 \<le> p" "p \<le> eob"
  using wp_InrD [OF parse_tlv_wpI [of buf eob "\<lambda>_. True" ptr ac entry
      "\<lambda>(r, e, p). p \<le> eob \<and> (r = RFC5444_OKAY \<longrightarrow> ptr + 2 \<le> p)"] assms] by auto

lemma tlv_loop_less:
  assumes "ptr < fin" "parse_tlv buf entry ptr eob ac = Inr (RFC5444_OKAY, e, p)"
  shows "fin - p < fin - ptr"
  using parse_tlv_progress(1) [OF assms(2)] assms(1) by simp

subsection \<open>A TLV block\<close>

text \<open>
  The allocation callbacks of the reader act on the state of the caller; they say whether they
  return memory.
\<close>

definition tlv_comp :: "rfc5444_reader_tlvblock_entry \<Rightarrow> rfc5444_reader_tlvblock_entry \<Rightarrow> int" where
  "tlv_comp a b = avl_comp_uint16 (te_order a) (te_order b)"

fun free_tlvblock :: "('st \<Rightarrow> 'st) \<Rightarrow> rfc5444_reader_tlvblock_entry list \<Rightarrow> 'st \<Rightarrow> 'st" where
  "free_tlvblock free [] st = st"
| "free_tlvblock free (tlv # tlvs) st = free_tlvblock free tlvs (free st)"

function tlvblock_loop ::
    "('st \<Rightarrow> bool \<times> 'st) \<Rightarrow> u8 list \<Rightarrow> nat \<Rightarrow> nat \<Rightarrow> u8 \<Rightarrow> rfc5444_reader_tlvblock_entry \<Rightarrow>
     rfc5444_reader_tlvblock_entry list \<Rightarrow> nat \<Rightarrow> 'st \<Rightarrow>
     fault + int \<times> rfc5444_reader_tlvblock_entry list \<times> nat \<times> 'st" where
  "tlvblock_loop malloc buf fin eob addr_count entry tlvblock ptr st =
     (if ptr < fin
      then (case parse_tlv buf entry ptr eob addr_count of
              Inl e \<Rightarrow> Inl e
            | Inr (result, entry, p) \<Rightarrow>
                if result \<noteq> RFC5444_OKAY then Inr (result, tlvblock, p, st)
                else (case malloc st of
                        (False, st) \<Rightarrow> Inr (RFC5444_OUT_OF_MEMORY, tlvblock, p, st)
                      | (True, st) \<Rightarrow>
                          tlvblock_loop malloc buf fin eob addr_count entry
                            (tree_insert_dup tlv_comp tlvblock entry) p st))
      else Inr (RFC5444_OKAY, tlvblock, ptr, st))"
  by pat_completeness auto

termination
  by (relation "measure (\<lambda>(malloc, buf, fin, eob, ac, entry, tlvblock, ptr, st). fin - ptr)")
    (auto intro: tlv_loop_less)

declare tlvblock_loop.simps [simp del]

text \<open>\<open>tlvblock\<close> is the empty tree the caller passes.\<close>

definition parse_tlvblock ::
    "('st \<Rightarrow> bool \<times> 'st) \<Rightarrow> ('st \<Rightarrow> 'st) \<Rightarrow> u8 list \<Rightarrow> rfc5444_reader_tlvblock_entry list \<Rightarrow> nat \<Rightarrow> nat \<Rightarrow> u8 \<Rightarrow>
     'st \<Rightarrow> fault + int \<times> rfc5444_reader_tlvblock_entry list \<times> nat \<times> 'st" where
  "parse_tlvblock malloc free buf tlvblock ptr eob addr_count st =
     bind_f (rfc5444_get_u16 buf ptr eob RFC5444_OKAY) (\<lambda>(len, p, result).
     let fin = ptr + 2 + unat len
     in bind_f (if fin > eob then Inr (RFC5444_END_OF_BUFFER, tlvblock, p, st)
                else tlvblock_loop malloc buf fin eob addr_count tlvblock_entry_zero tlvblock p st)
          (\<lambda>(result, tlvblock, p, st).
        if result \<noteq> RFC5444_OKAY then Inr (result, [], eob, free_tlvblock free tlvblock st)
        else Inr (result, tlvblock, p, st)))"

subsection \<open>An address block\<close>

definition set_head ::
    "u8 list \<Rightarrow> u8 \<Rightarrow> rfc5444_reader_addrblock_entry \<Rightarrow> nat \<Rightarrow> nat \<Rightarrow> int \<Rightarrow>
     fault + int option \<times> rfc5444_reader_addrblock_entry \<times> nat \<times> int" where
  "set_head buf addr_len a ptr eob result =
     bind_f (rfc5444_get_u8 buf ptr eob result) (\<lambda>(head_len, ptr, result).
     let a = a\<lparr>ab_mid_start := head_len\<rparr>
     in if head_len < 1 \<or> unat head_len \<ge> RFC5444_MAX_ADDRLEN \<or> head_len \<ge> addr_len
        then Inr (Some RFC5444_BAD_ADDR_HEAD_LENGTH, a, ptr, result)
        else if ptr + unat head_len > eob then Inr (Some RFC5444_END_OF_BUFFER, a, ptr, result)
        else bind_f (slice buf ptr (unat head_len)) (\<lambda>bytes.
             bind_f (memcpy_in (ab_addr a) 0 bytes) (\<lambda>addr.
             Inr (None, a\<lparr>ab_addr := addr, ab_mid_len := ab_mid_len a - head_len\<rparr>,
                  ptr + unat head_len, result))))"

definition set_tail ::
    "u8 list \<Rightarrow> u8 \<Rightarrow> rfc5444_reader_addrblock_entry \<Rightarrow> nat \<Rightarrow> nat \<Rightarrow> int \<Rightarrow>
     fault + int option \<times> rfc5444_reader_addrblock_entry \<times> nat \<times> int" where
  "set_tail buf addr_len a ptr eob result =
     bind_f (rfc5444_get_u8 buf ptr eob result) (\<lambda>(tail_len, ptr, result).
     if tail_len < 1 \<or> unat tail_len \<ge> RFC5444_MAX_ADDRLEN \<or> tail_len \<ge> addr_len
     then Inr (Some RFC5444_BAD_ADDR_TAIL_LENGTH, a, ptr, result)
     else if ptr + unat tail_len > eob then Inr (Some RFC5444_END_OF_BUFFER, a, ptr, result)
     else bind_f (slice buf ptr (unat tail_len)) (\<lambda>bytes.
          bind_f (memcpy_in (ab_addr a) (unat addr_len - unat tail_len) bytes) (\<lambda>addr.
          Inr (None, a\<lparr>ab_addr := addr, ab_mid_len := ab_mid_len a - tail_len\<rparr>,
               ptr + unat tail_len, result))))"

text \<open>The prefix lengths; the pointer is checked after the read.\<close>

definition set_prefix ::
    "u8 list \<Rightarrow> u8 \<Rightarrow> u8 \<Rightarrow> rfc5444_reader_addrblock_entry \<Rightarrow> nat \<Rightarrow> nat \<Rightarrow> int \<Rightarrow>
     fault + int \<times> rfc5444_reader_addrblock_entry \<times> nat" where
  "set_prefix buf addr_len flags a ptr eob result =
     (let masked = flags AND (RFC5444_ADDR_FLAG_SINGLEPLEN OR RFC5444_ADDR_FLAG_MULTIPLEN)
      in bind_f
           (if masked = 0 then Inr (Some (a\<lparr>ab_prefixlen := addr_len * 8\<rparr>, ptr))
            else if masked = RFC5444_ADDR_FLAG_SINGLEPLEN
            then bind_f (rd buf ptr) (\<lambda>b. Inr (Some (a\<lparr>ab_prefixlen := b\<rparr>, ptr + 1)))
            else if masked = RFC5444_ADDR_FLAG_MULTIPLEN
            then Inr (Some (a\<lparr>ab_prefixes := Some ptr\<rparr>, ptr + unat (ab_num_addr a)))
            else Inr None)
           (\<lambda>r. case r of
                  None \<Rightarrow> Inr (RFC5444_BAD_MSG_PREFIXFLAGS, a, ptr)
                | Some (a, ptr) \<Rightarrow>
                    if ptr > eob then Inr (RFC5444_END_OF_BUFFER, a, ptr)
                    else Inr (result, a\<lparr>ab_addr_block_size := ptr - ab_addr_block_ptr a\<rparr>, ptr)))"

definition parse_addrblock ::
    "u8 list \<Rightarrow> u8 \<Rightarrow> rfc5444_reader_addrblock_entry \<Rightarrow> nat \<Rightarrow> nat \<Rightarrow>
     fault + int \<times> rfc5444_reader_addrblock_entry \<times> nat" where
  "parse_addrblock buf addr_len addr_entry ptr eob =
     bind_f (rfc5444_get_u8 buf ptr eob RFC5444_OKAY) (\<lambda>(num_addr, p, result).
     let a = addr_entry\<lparr>ab_addr_block_ptr := ptr, ab_num_addr := num_addr\<rparr>
     in if num_addr = 0 then Inr (RFC5444_EMPTY_ADDRBLOCK, a, p)
        else bind_f (rfc5444_get_u8 buf p eob result) (\<lambda>(flags, p, result).
        let a = a\<lparr>ab_addr := replicate RFC5444_MAX_ADDRLEN 0, ab_mid_len := addr_len\<rparr>
        in bind_f (if flags AND RFC5444_ADDR_FLAG_HEAD \<noteq> 0 then set_head buf addr_len a p eob result
                   else Inr (None, a, p, result)) (\<lambda>(ret, a, p, result).
        case ret of Some r \<Rightarrow> Inr (r, a, p) | None \<Rightarrow>
        let masked = flags AND (RFC5444_ADDR_FLAG_FULLTAIL OR RFC5444_ADDR_FLAG_ZEROTAIL)
        in bind_f
             (if masked = RFC5444_ADDR_FLAG_ZEROTAIL
              then bind_f (rfc5444_get_u8 buf p eob result) (\<lambda>(tail_len, p, result).
                   Inr (None, a\<lparr>ab_mid_len := ab_mid_len a - tail_len\<rparr>, p, result))
              else if masked = RFC5444_ADDR_FLAG_FULLTAIL then set_tail buf addr_len a p eob result
              else if masked \<noteq> 0 then Inr (Some RFC5444_BAD_MSG_TAILFLAGS, a, p, result)
              else Inr (None, a, p, result)) (\<lambda>(ret, a, p, result).
        case ret of Some r \<Rightarrow> Inr (r, a, p) | None \<Rightarrow>
        let a = a\<lparr>ab_mid_src := p\<rparr>;
            p = p + unat (ab_mid_len a) * unat num_addr
        in if p > eob then Inr (RFC5444_END_OF_BUFFER, a, p)
           else set_prefix buf addr_len flags a p eob result))))"

subsection \<open>The parser of a TLV block\<close>

interpretation tlv_order: avl_comparator "\<lambda>_. True" tlv_comp
  by unfold_locales (auto simp: tlv_comp_def avl_comp_uint16_def split: if_splits)

definition tlvblock_ok :: "nat \<Rightarrow> u8 \<Rightarrow> rfc5444_reader_tlvblock_entry list \<Rightarrow> bool" where
  "tlvblock_ok eob ac tb \<longleftrightarrow> tree_sorted tlv_comp tb \<and>
     (\<forall>e\<in>set tb. tlv_ok eob ac e \<and> te_int_drop_tlv e = bitmap256_zero \<and> te_next_entry e = None)"

lemma tlvblock_ok_insert:
  "tlvblock_ok eob ac tb \<Longrightarrow> tlv_ok eob ac e \<Longrightarrow> te_int_drop_tlv e = bitmap256_zero \<Longrightarrow>
   te_next_entry e = None \<Longrightarrow> tlvblock_ok eob ac (tree_insert_dup tlv_comp tb e)"
  by (auto simp: tlvblock_ok_def intro: tlv_order.insert_dup_sorted)

lemma tlvblock_loop_wp:
  assumes rd: "length buf < eob \<Longrightarrow> F OOB_Read" and z: "F Div_By_Zero"
    and "tlvblock_ok eob ac tb" "fin \<le> eob" "ptr \<le> eob"
    "te_int_drop_tlv entry = bitmap256_zero" "te_next_entry entry = None"
  shows "wp (tlvblock_loop malloc buf fin eob ac entry tb ptr st) F
    (\<lambda>(r, tb, p, st). r \<le> RFC5444_OKAY \<and> (r = RFC5444_OKAY \<longrightarrow> tlvblock_ok eob ac tb \<and> ptr \<le> p \<and> fin \<le> p \<and> p \<le> eob))"
  using assms(3-)
proof (induction "fin - ptr" arbitrary: entry tb ptr st rule: less_induct)
  case less
  show ?case
  proof (cases "ptr < fin")
    case True
    have "wp (parse_tlv buf entry ptr eob ac) F
      (\<lambda>(r, e, p). r \<le> RFC5444_OKAY \<and> p \<le> eob \<and> (r = RFC5444_OKAY \<longrightarrow> ptr + 2 \<le> p \<and> tlv_ok eob ac e) \<and>
         te_int_drop_tlv e = bitmap256_zero \<and> te_next_entry e = None)"
      using rd z less.prems by (intro parse_tlv_wpI) auto
    then show ?thesis
    proof (cases "parse_tlv buf entry ptr eob ac")
      case (Inr a)
      obtain r e p where a: "a = (r, e, p)" by (cases a)
      obtain b st' where m: "malloc st = (b, st')" by (cases "malloc st")
      show ?thesis
      proof (cases "r = RFC5444_OKAY \<and> b")
        case ok: True
        have e: "p \<le> eob" "ptr + 2 \<le> p" "tlv_ok eob ac e" "te_int_drop_tlv e = bitmap256_zero"
          "te_next_entry e = None"
          using \<open>wp _ _ _\<close> Inr a ok by auto
        have "wp (tlvblock_loop malloc buf fin eob ac e (tree_insert_dup tlv_comp tb e) p st') F
            (\<lambda>(r, tb, p', st). r \<le> RFC5444_OKAY \<and> (r = RFC5444_OKAY \<longrightarrow> tlvblock_ok eob ac tb \<and> p \<le> p' \<and> fin \<le> p' \<and> p' \<le> eob))"
          using True e less.prems by (intro less.hyps) (auto intro: tlvblock_ok_insert)
        then have "wp (tlvblock_loop malloc buf fin eob ac e (tree_insert_dup tlv_comp tb e) p st') F
            (\<lambda>(r, tb, p', st). r \<le> RFC5444_OKAY \<and> (r = RFC5444_OKAY \<longrightarrow> tlvblock_ok eob ac tb \<and> ptr \<le> p' \<and> fin \<le> p' \<and> p' \<le> eob))"
          by (rule wp_mono) (use e in auto)
        with True Inr a m ok show ?thesis by (subst tlvblock_loop.simps) simp
      next
        case False
        then show ?thesis
          using True Inr a m \<open>wp _ _ _\<close>
          by (subst tlvblock_loop.simps) (auto simp: rfc5444_results split: bool.splits)
      qed
    qed (use True in \<open>subst tlvblock_loop.simps, simp\<close>)
  next
    case False
    then show ?thesis using less.prems by (subst tlvblock_loop.simps) simp
  qed
qed

lemma parse_tlvblock_wpI:
  assumes rd: "length buf < eob \<Longrightarrow> F OOB_Read" and z: "F Div_By_Zero"
    and Q: "\<And>r tb p st. (r = RFC5444_OKAY \<Longrightarrow> tlvblock_ok eob ac tb \<and> ptr + 2 \<le> p) \<Longrightarrow>
      (r \<noteq> RFC5444_OKAY \<Longrightarrow> tb = []) \<Longrightarrow> p \<le> eob \<Longrightarrow> r \<le> RFC5444_OKAY \<Longrightarrow> Q (r, tb, p, st)"
  shows "wp (parse_tlvblock malloc free buf [] ptr eob ac st) F Q"
proof -
  have ok0: "tlvblock_ok eob ac []" by (simp add: tlvblock_ok_def tree_sorted_def)
  show ?thesis
    unfolding parse_tlvblock_def wp_bind
  proof (rule get_u16_wpI [rotated], erule rd, unfold prod.case wp_bind Let_def, unfold wp_if, rule conjI [THEN if_bool_eq_conj [THEN iffD2]], goal_cases)
    case (1 w p e')
    then show ?case by (auto simp: rfc5444_results intro!: Q)
  next
    case (2 w p e')
    show ?case
    proof
      assume f: "\<not> eob < ptr + 2 + unat w"
      have "wp (tlvblock_loop malloc buf (ptr + 2 + unat w) eob ac tlvblock_entry_zero [] p st) F
        (\<lambda>(r, tb, p', st). r \<le> RFC5444_OKAY \<and>
           (r = RFC5444_OKAY \<longrightarrow> tlvblock_ok eob ac tb \<and> p \<le> p' \<and> ptr + 2 + unat w \<le> p' \<and> p' \<le> eob))"
        using 2 f by (intro tlvblock_loop_wp rd z ok0) (auto simp: tlvblock_entry_zero_def)
      then show "wp (tlvblock_loop malloc buf (ptr + 2 + unat w) eob ac tlvblock_entry_zero [] p st) F
        (\<lambda>a. wp (case a of (result, tlvblock, p, st) \<Rightarrow>
           if result \<noteq> RFC5444_OKAY then Inr (result, [], eob, free_tlvblock free tlvblock st)
           else Inr (result, tlvblock, p, st)) F Q)"
        by (rule wp_mono) (auto intro!: Q)
    qed
  qed
qed

subsection \<open>The parser of an address block\<close>

text \<open>\<open>addrblock_ok\<close>: the parts of the addresses and the prefix lengths are inside the message.\<close>

definition addrblock_ok :: "nat \<Rightarrow> rfc5444_reader_addrblock_entry \<Rightarrow> bool" where
  "addrblock_ok eob a \<longleftrightarrow> length (ab_addr a) = 16 \<and> 0 < ab_num_addr a \<and>
     ab_mid_src a + unat (ab_mid_len a) * unat (ab_num_addr a) \<le> eob \<and>
     (case ab_prefixes a of None \<Rightarrow> True | Some q \<Rightarrow> q + unat (ab_num_addr a) \<le> eob)"

lemma memcpy_in_wpI:
  assumes "length dst < at + length src \<Longrightarrow> F OOB_Write"
    and "\<And>r. length r = length dst \<Longrightarrow> Q r"
  shows "wp (memcpy_in dst at src) F Q"
  using assms by (simp add: memcpy_in_def wp_if)

lemma slice_wpI:
  assumes "\<And>r. length r = n \<Longrightarrow> Q r" "length buf < i + n \<Longrightarrow> F OOB_Read"
  shows "wp (slice buf i n) F Q"
  using assms by (simp add: slice_def wp_if)

lemma set_head_wpI:
  assumes rd: "length buf < eob \<Longrightarrow> F OOB_Read" and l: "length (ab_addr a) = 16"
    and Q: "\<And>ret a' p e'. (ret = None \<Longrightarrow> ptr \<le> p \<and> (e' = RFC5444_OKAY \<longrightarrow> e = RFC5444_OKAY) \<and> length (ab_addr a') = 16) \<Longrightarrow>
      ab_num_addr a' = ab_num_addr a \<Longrightarrow> ab_prefixes a' = ab_prefixes a \<Longrightarrow> ab_tlvblock a' = ab_tlvblock a \<Longrightarrow>
      ab_addr_block_ptr a' = ab_addr_block_ptr a \<Longrightarrow> ab_dropAddr a' = ab_dropAddr a \<Longrightarrow>
      (case ret of None \<Rightarrow> err_step e e' | Some r \<Rightarrow> r < RFC5444_OKAY) \<Longrightarrow>
      (ret = None \<Longrightarrow> ab_mid_start a' < al \<and> ab_mid_len a' = ab_mid_len a - ab_mid_start a') \<Longrightarrow> Q (ret, a', p, e')"
  shows "wp (set_head buf al a ptr eob e) F Q"
  unfolding set_head_def wp_bind
  apply (rule get_u8_wpI [rotated], erule rd)
  apply (unfold prod.case Let_def wp_if wp_bind wp_Inr)
  apply (intro conjI [THEN if_bool_eq_conj [THEN iffD2]] impI)
    apply (rule Q; simp add: rfc5444_results)
   apply (rule Q; simp add: rfc5444_results)
  apply (rule slice_wpI)
   apply (rule memcpy_in_wpI)
    apply (simp add: l RFC5444_MAX_ADDRLEN_def)
   apply (rule Q; simp add: l not_le)
  apply (rule rd, simp)
  done

lemma set_tail_wpI:
  assumes rd: "length buf < eob \<Longrightarrow> F OOB_Read" and l: "length (ab_addr a) = 16" and al: "16 < unat al \<Longrightarrow> F OOB_Write"
    and Q: "\<And>ret a' p e'. (ret = None \<Longrightarrow> ptr \<le> p \<and> (e' = RFC5444_OKAY \<longrightarrow> e = RFC5444_OKAY) \<and> length (ab_addr a') = 16) \<Longrightarrow>
      ab_num_addr a' = ab_num_addr a \<Longrightarrow> ab_prefixes a' = ab_prefixes a \<Longrightarrow> ab_tlvblock a' = ab_tlvblock a \<Longrightarrow>
      ab_addr_block_ptr a' = ab_addr_block_ptr a \<Longrightarrow> ab_dropAddr a' = ab_dropAddr a \<Longrightarrow>
      ab_mid_start a' = ab_mid_start a \<Longrightarrow>
      (case ret of None \<Rightarrow> err_step e e' | Some r \<Rightarrow> r < RFC5444_OKAY) \<Longrightarrow>
      (ret = None \<Longrightarrow> \<exists>t. t < al \<and> ab_mid_len a' = ab_mid_len a - t) \<Longrightarrow> Q (ret, a', p, e')"
  shows "wp (set_tail buf al a ptr eob e) F Q"
  unfolding set_tail_def wp_bind
  apply (rule get_u8_wpI [rotated], erule rd)
  apply (unfold prod.case Let_def wp_if wp_bind wp_Inr)
  apply (intro conjI [THEN if_bool_eq_conj [THEN iffD2]] impI)
    apply (rule Q; simp add: rfc5444_results)
   apply (rule Q; simp add: rfc5444_results)
  apply (rule slice_wpI)
   apply (rule memcpy_in_wpI)
    subgoal for t by (rule al) (simp add: l RFC5444_MAX_ADDRLEN_def word_le_nat_alt)
   apply (rule Q; simp add: l not_le; blast?)
  apply (rule rd, simp)
  done

lemma set_prefix_wpI:
  assumes rd: "length buf \<le> eob \<Longrightarrow> F OOB_Read" and p: "ptr \<le> eob"
    and Q: "\<And>r a' p'. ptr \<le> p' \<Longrightarrow> ab_num_addr a' = ab_num_addr a \<Longrightarrow> ab_tlvblock a' = ab_tlvblock a \<Longrightarrow>
      ab_addr a' = ab_addr a \<Longrightarrow> ab_mid_src a' = ab_mid_src a \<Longrightarrow> ab_mid_len a' = ab_mid_len a \<Longrightarrow>
      ab_mid_start a' = ab_mid_start a \<Longrightarrow> ab_dropAddr a' = ab_dropAddr a \<Longrightarrow>
      r < RFC5444_OKAY \<or> r = e \<Longrightarrow> (r = RFC5444_OKAY \<Longrightarrow> e = RFC5444_OKAY \<and> p' \<le> eob \<and>
         (ab_prefixes a' = ab_prefixes a \<or> (\<exists>q. ab_prefixes a' = Some q \<and> q + unat (ab_num_addr a) \<le> eob))) \<Longrightarrow>
      Q (r, a', p')"
  shows "wp (set_prefix buf al flags a ptr eob e) F Q"
proof -
  have err: "Q (RFC5444_BAD_MSG_PREFIXFLAGS, a, ptr)" by (rule Q) (simp_all add: rfc5444_results)
  have fin: "wp (if p > eob then Inr (RFC5444_END_OF_BUFFER, a', p)
      else Inr (e, a'\<lparr>ab_addr_block_size := p - ab_addr_block_ptr a'\<rparr>, p)) F Q"
    if "a' = a\<lparr>ab_prefixlen := x\<rparr> \<or> a' = a\<lparr>ab_prefixes := Some ptr\<rparr> \<and> p = ptr + unat (ab_num_addr a)" "ptr \<le> p"
    for a' p x
    using that unfolding wp_if by (auto simp: rfc5444_results intro!: Q)
  let ?m = "flags AND (RFC5444_ADDR_FLAG_SINGLEPLEN OR RFC5444_ADDR_FLAG_MULTIPLEN)"
  consider "?m = 0" | "?m \<noteq> 0" "?m = RFC5444_ADDR_FLAG_SINGLEPLEN"
    | "?m \<noteq> 0" "?m \<noteq> RFC5444_ADDR_FLAG_SINGLEPLEN" "?m = RFC5444_ADDR_FLAG_MULTIPLEN"
    | "?m \<noteq> 0" "?m \<noteq> RFC5444_ADDR_FLAG_SINGLEPLEN" "?m \<noteq> RFC5444_ADDR_FLAG_MULTIPLEN"
    by blast
  then show ?thesis
  proof cases
    case 1
    with fin [of "a\<lparr>ab_prefixlen := al * 8\<rparr>" "al * 8" ptr] show ?thesis by (simp add: set_prefix_def split: if_splits)
  next
    case 2
    show ?thesis
    proof (cases "ptr < length buf")
      case True
      with 2 fin [of "a\<lparr>ab_prefixlen := buf ! ptr\<rparr>" "buf ! ptr" "ptr + 1"]
      show ?thesis by (simp add: set_prefix_def split: if_splits)
    next
      case False
      with 2 show ?thesis using rd p by (simp add: set_prefix_def)
    qed
  next
    case 3
    with fin [of "a\<lparr>ab_prefixes := Some ptr\<rparr>" 0 "ptr + unat (ab_num_addr a)"]
    show ?thesis by (simp add: set_prefix_def split: if_splits)
  next
    case 4
    then show ?thesis using err by (simp add: set_prefix_def)
  qed
qed

lemma parse_addrblock_wpI:
  assumes rd: "length buf \<le> eob \<Longrightarrow> F OOB_Read" and al: "16 < unat al \<Longrightarrow> F OOB_Write"
    and a0: "ab_prefixes a0 = None"
    and Q: "\<And>r a p. (r = RFC5444_OKAY \<Longrightarrow> ptr + 2 \<le> p \<and> p \<le> eob \<and> addrblock_ok eob a) \<Longrightarrow>
      ab_tlvblock a = ab_tlvblock a0 \<Longrightarrow> ab_dropAddr a = ab_dropAddr a0 \<Longrightarrow> r \<le> RFC5444_OKAY \<Longrightarrow> Q (r, a, p)"
  shows "wp (parse_addrblock buf al a0 ptr eob) F Q"
proof -
  have rd': "F OOB_Read" if "length buf < eob" using rd that by simp
  define post where "post a p e \<longleftrightarrow> e \<le> RFC5444_OKAY \<and> (e = RFC5444_OKAY \<longrightarrow> ptr + 2 \<le> p) \<and> length (ab_addr a) = 16 \<and>
    0 < ab_num_addr a \<and> ab_prefixes a = None \<and> ab_tlvblock a = ab_tlvblock a0 \<and> ab_dropAddr a = ab_dropAddr a0"
    for a :: rfc5444_reader_addrblock_entry and p e
  have post_src: "post (a\<lparr>ab_mid_src := x\<rparr>) p e = post a p e" for a x p e
    by (simp add: post_def)
  have fin: "wp (if eob < p + unat (ab_mid_len a) * unat na then
          Inr (RFC5444_END_OF_BUFFER, a, p + unat (ab_mid_len a) * unat na)
        else set_prefix buf al fl a (p + unat (ab_mid_len a) * unat na) eob e) F Q"
    if "post a p e" "na = ab_num_addr a" "ab_mid_src a = p" for a p e fl na
    unfolding wp_if
  proof (intro if_bool_eq_conj [THEN iffD2] conjI impI)
    assume "eob < p + unat (ab_mid_len a) * unat na"
    show "wp (Inr (RFC5444_END_OF_BUFFER, a, p + unat (ab_mid_len a) * unat na)) F Q"
      unfolding wp_Inr using that by (intro Q) (auto simp: post_def rfc5444_results)
  next
    assume "\<not> eob < p + unat (ab_mid_len a) * unat na"
    then show "wp (set_prefix buf al fl a (p + unat (ab_mid_len a) * unat na) eob e) F Q"
      using that by (intro set_prefix_wpI rd) (auto simp: post_def addrblock_ok_def intro!: Q)
  qed
  have tail: "wp (if m = RFC5444_ADDR_FLAG_ZEROTAIL
         then bind_f (rfc5444_get_u8 buf p eob e) (\<lambda>(tail_len, p, result).
              Inr (None, a\<lparr>ab_mid_len := ab_mid_len a - tail_len\<rparr>, p, result))
         else if m = RFC5444_ADDR_FLAG_FULLTAIL then set_tail buf al a p eob e
         else if m \<noteq> 0 then Inr (Some RFC5444_BAD_MSG_TAILFLAGS, a, p, e)
         else Inr (None, a, p, e)) F R"
    if "post a p e" "\<And>ret a' p e. (\<And>r. ret = Some r \<Longrightarrow> r < RFC5444_OKAY) \<Longrightarrow> ab_num_addr a' = ab_num_addr a \<Longrightarrow>
          (ret = None \<Longrightarrow> post a' p e) \<Longrightarrow> ab_tlvblock a' = ab_tlvblock a0 \<Longrightarrow>
          ab_dropAddr a' = ab_dropAddr a0 \<Longrightarrow> R (ret, a', p, e)" for R m a p e
    unfolding wp_if
    apply (intro if_bool_eq_conj [THEN iffD2] conjI impI)
       apply (unfold wp_bind)
       apply (rule get_u8_wpI [rotated], erule rd')
       apply (simp only: prod.case wp_Inr)
       subgoal by (rule that(2)) (use that(1) in \<open>auto simp: post_def intro: no_drop\<close>)
      apply (rule set_tail_wpI)
         subgoal by (rule rd')
        subgoal using that(1) by (simp add: post_def)
       subgoal by (erule al)
      subgoal by (rule that(2)) (use that(1) in \<open>auto simp: post_def intro: no_drop\<close>)
     subgoal unfolding wp_Inr by (rule that(2)) (use that(1) in \<open>auto simp: post_def rfc5444_results\<close>)
    subgoal unfolding wp_Inr by (rule that(2)) (use that(1) in \<open>auto simp: post_def intro: no_drop\<close>)
    done
  have head: "wp (if c then set_head buf al a p eob e else Inr (None, a, p, e)) F R"
    if "post a p e" "\<And>ret a' p e. (\<And>r. ret = Some r \<Longrightarrow> r < RFC5444_OKAY) \<Longrightarrow> ab_num_addr a' = ab_num_addr a \<Longrightarrow>
          (ret = None \<Longrightarrow> post a' p e) \<Longrightarrow> ab_tlvblock a' = ab_tlvblock a0 \<Longrightarrow>
          ab_dropAddr a' = ab_dropAddr a0 \<Longrightarrow> R (ret, a', p, e)" for R c a p e
    unfolding wp_if
    apply (intro if_bool_eq_conj [THEN iffD2] conjI impI)
     apply (rule set_head_wpI)
       subgoal by (rule rd')
      subgoal using that(1) by (simp add: post_def)
     subgoal by (rule that(2)) (use that(1) in \<open>auto simp: post_def intro: no_drop\<close>)
    subgoal unfolding wp_Inr by (rule that(2)) (use that(1) in \<open>auto simp: post_def intro: no_drop\<close>)
    done
  show ?thesis
    unfolding parse_addrblock_def wp_bind
    apply (rule get_u8_wpI [rotated], erule rd')
    apply (unfold prod.case Let_def wp_if)
    apply (intro if_bool_eq_conj [THEN iffD2] conjI impI)
     apply (unfold wp_Inr, rule Q; simp add: rfc5444_results)
    apply (unfold wp_bind)
    apply (rule get_u8_wpI [rotated], erule rd')
    apply (unfold prod.case wp_bind)
    apply (rule head)
      subgoal using a0 by (auto simp: post_def RFC5444_MAX_ADDRLEN_def word_neq_0_conv elim!: no_drop)
    apply (clarsimp simp only: prod.case wp_bind split: option.split)
    apply (intro conjI impI allI)
     prefer 2
     apply (simp only: wp_Inr, rule Q; simp)
    subgoal for na p1 e1 fl p2 e2 r1 a1 p3 e3
      apply (rule tail [of a1 p3 e3 _ "fl AND (RFC5444_ADDR_FLAG_FULLTAIL OR RFC5444_ADDR_FLAG_ZEROTAIL)"])
       apply simp
      apply (clarsimp simp only: prod.case wp_bind split: option.split)
      apply (intro conjI impI allI)
       prefer 2
       apply (simp only: wp_Inr, rule Q; simp)
      apply (rule fin; simp add: post_src)
      done
    done
qed

end
