(* ===== verification/Rfc5444_Reader.thy ===== *)
theory Rfc5444_Reader
  imports Rfc5444_Parse
begin

section \<open>Consumers, messages and packets (librfc5444/rfc5444_reader)\<close>

text \<open>
  The second half of \<^verbatim>\<open>src/src/librfc5444/rfc5444_reader.c\<close>: the consumers registered with a
  reader, the scheduling of their callbacks over the parsed TLVs and addresses, and the handling of
  messages and packets. The callbacks are code of the users of the reader, so they are functions of
  the model: each gets what the C callback can read and acts on a client state \<open>'st\<close>. Of the
  structures it can reach through its pointers a callback changes only what the interface
  documents: \<open>_do_not_forward\<close> of the context (the second component of its result) and the \<open>drop\<close>
  flags of its own entries (a list of entry numbers).
\<close>

subsection \<open>Structures (rfc5444_reader.h)\<close>

datatype rfc5444_reader_tlvblock_context_type =
  RFC5444_CONTEXT_PACKET | RFC5444_CONTEXT_MESSAGE | RFC5444_CONTEXT_ADDRESS

record rfc5444_reader_tlvblock_context =
  tc_consumer :: "nat option"
  tc_type :: rfc5444_reader_tlvblock_context_type
  tc_pkt_version :: u8
  tc_pkt_flags :: u8
  tc_has_pktseqno :: bool
  tc_pkt_seqno :: u16
  tc_pkt_buffer :: "nat option"
  tc_pkt_size :: nat
  tc_msg_type :: u8
  tc_msg_flags :: u8
  tc_addr_len :: u8
  tc_has_hopcount :: bool
  tc_hopcount :: u8
  tc_has_hoplimit :: bool
  tc_hoplimit :: u8
  tc_has_origaddr :: bool
  tc_orig_addr :: netaddr
  tc_has_seqno :: bool
  tc_seqno :: u16
  tc_msg_buffer :: "nat option"
  tc_msg_size :: nat
  tc_do_not_forward :: bool
  tc_addr :: netaddr
  tc_addr_block_buffer :: "nat option"
  tc_addr_block_size :: nat
  tc_addr_tlv_size :: nat
  tc_addr_index :: u8

definition tlvblock_context_zero :: rfc5444_reader_tlvblock_context where
  "tlvblock_context_zero = \<lparr>tc_consumer = None, tc_type = RFC5444_CONTEXT_PACKET, tc_pkt_version = 0,
     tc_pkt_flags = 0, tc_has_pktseqno = False, tc_pkt_seqno = 0, tc_pkt_buffer = None, tc_pkt_size = 0,
     tc_msg_type = 0, tc_msg_flags = 0, tc_addr_len = 0, tc_has_hopcount = False, tc_hopcount = 0,
     tc_has_hoplimit = False, tc_hoplimit = 0, tc_has_origaddr = False, tc_orig_addr = netaddr_invalidate,
     tc_has_seqno = False, tc_seqno = 0, tc_msg_buffer = None, tc_msg_size = 0, tc_do_not_forward = False,
     tc_addr = netaddr_invalidate, tc_addr_block_buffer = None, tc_addr_block_size = 0,
     tc_addr_tlv_size = 0, tc_addr_index = 0\<rparr>"

text \<open>The field \<open>ce_tlv\<close> points into the list of TLVs the scheduler walks through.\<close>

record rfc5444_reader_tlvblock_consumer_entry =
  ce_mandatory :: bool
  ce_type :: u8
  ce_type_ext :: u8
  ce_match_type_ext :: bool
  ce_min_length :: u16
  ce_max_length :: u16
  ce_match_length :: bool
  ce_copy_value :: "u8 list option"
  ce_tlv :: "nat option"
  ce_drop :: bool

type_synonym tlvs = "rfc5444_reader_tlvblock_entry list"
type_synonym centries = "rfc5444_reader_tlvblock_consumer_entry list"
type_synonym rctx = rfc5444_reader_tlvblock_context

record 'st rfc5444_reader_tlvblock_consumer =
  co_id :: nat
  co_order :: int
  co_default_msg_consumer :: bool
  co_msg_id :: u8
  co_addrblock_consumer :: bool
  co_consumer_list :: centries
  co_start_callback :: "(rctx \<Rightarrow> 'st \<Rightarrow> int \<times> bool \<times> 'st) option"
  co_end_callback :: "(rctx \<Rightarrow> bool \<Rightarrow> 'st \<Rightarrow> int \<times> bool \<times> 'st) option"
  co_tlv_callback :: "(rfc5444_reader_tlvblock_entry \<Rightarrow> rctx \<Rightarrow> 'st \<Rightarrow> int \<times> bool \<times> 'st) option"
  co_block_callback :: "(rctx \<Rightarrow> centries \<Rightarrow> tlvs \<Rightarrow> 'st \<Rightarrow> int \<times> bool \<times> nat list \<times> 'st) option"
  co_block_callback_failed_constraints ::
    "(rctx \<Rightarrow> centries \<Rightarrow> tlvs \<Rightarrow> 'st \<Rightarrow> int \<times> bool \<times> nat list \<times> 'st) option"

record 'st rfc5444_reader =
  rr_packet_consumer :: "'st rfc5444_reader_tlvblock_consumer list"
  rr_message_consumer :: "'st rfc5444_reader_tlvblock_consumer list"
  rr_forward_message :: "(rctx \<Rightarrow> nat \<Rightarrow> nat \<Rightarrow> 'st \<Rightarrow> 'st) option"
  rr_malloc_tlvblock_entry :: "'st \<Rightarrow> bool \<times> 'st"
  rr_malloc_addrblock_entry :: "'st \<Rightarrow> bool \<times> 'st"
  rr_free_tlvblock_entry :: "'st \<Rightarrow> 'st"
  rr_free_addrblock_entry :: "'st \<Rightarrow> 'st"

subsection \<open>Registration of consumers\<close>

definition consumer_avl_comp ::
    "'st rfc5444_reader_tlvblock_consumer \<Rightarrow> 'st rfc5444_reader_tlvblock_consumer \<Rightarrow> int" where
  "consumer_avl_comp c1 c2 =
     (if co_order c1 > co_order c2 then 1
      else if co_order c1 < co_order c2 then -1
      else if co_addrblock_consumer c1 \<and> \<not> co_addrblock_consumer c2 then 1
      else if \<not> co_addrblock_consumer c1 \<and> co_addrblock_consumer c2 then -1
      else 0)"

definition calc_tlvconsumer_intorder :: "rfc5444_reader_tlvblock_consumer_entry \<Rightarrow> u16" where
  "calc_tlvconsumer_intorder entry = push_bit 8 (ucast (ce_type entry)) OR ucast (ce_type_ext entry)"

text \<open>
  The initialisation sets the allocation functions that are still null to the
  default ones, passed as the last four arguments.
\<close>

definition rfc5444_reader_init where
  "rfc5444_reader_init forward malloc_addr malloc_tlv free_addr free_tlv
      dmalloc_addr dmalloc_tlv dfree_addr dfree_tlv =
     \<lparr>rr_packet_consumer = [], rr_message_consumer = [], rr_forward_message = forward,
      rr_malloc_tlvblock_entry = (case malloc_tlv of None \<Rightarrow> dmalloc_tlv | Some f \<Rightarrow> f),
      rr_malloc_addrblock_entry = (case malloc_addr of None \<Rightarrow> dmalloc_addr | Some f \<Rightarrow> f),
      rr_free_tlvblock_entry = (case free_tlv of None \<Rightarrow> dfree_tlv | Some f \<Rightarrow> f),
      rr_free_addrblock_entry = (case free_addr of None \<Rightarrow> dfree_addr | Some f \<Rightarrow> f)\<rparr>"

definition rfc5444_reader_cleanup :: "'st rfc5444_reader \<Rightarrow> 'st rfc5444_reader" where
  "rfc5444_reader_cleanup r = r\<lparr>rr_packet_consumer := [], rr_message_consumer := []\<rparr>"

text \<open>
  A new entry goes behind the last entry with a smaller or equal type: the loop searches the list
  from its end.
\<close>

definition insert_entry :: "centries \<Rightarrow> rfc5444_reader_tlvblock_consumer_entry \<Rightarrow> centries" where
  "insert_entry es e =
     (let o' = calc_tlvconsumer_intorder e;
          tl = takeWhile (\<lambda>x. \<not> calc_tlvconsumer_intorder x \<le> o') (rev es)
      in take (length es - length tl) es @ [e] @ rev tl)"

definition fix_length :: "rfc5444_reader_tlvblock_consumer_entry \<Rightarrow> rfc5444_reader_tlvblock_consumer_entry" where
  "fix_length e = (if ce_min_length e > ce_max_length e then e\<lparr>ce_max_length := ce_min_length e\<rparr> else e)"

definition add_consumer ::
    "'st rfc5444_reader_tlvblock_consumer \<Rightarrow> 'st rfc5444_reader_tlvblock_consumer list \<Rightarrow> centries \<Rightarrow>
     'st rfc5444_reader_tlvblock_consumer list" where
  "add_consumer consumer consumer_tree entries =
     tree_insert_dup consumer_avl_comp consumer_tree
       (consumer\<lparr>co_consumer_list := foldl (\<lambda>es e. insert_entry es (fix_length e)) [] entries\<rparr>)"

definition free_consumer ::
    "'st rfc5444_reader_tlvblock_consumer list \<Rightarrow> nat \<Rightarrow> 'st rfc5444_reader_tlvblock_consumer list" where
  "free_consumer consumer_tree i = filter (\<lambda>c. co_id c \<noteq> i) consumer_tree"

definition rfc5444_reader_add_packet_consumer where
  "rfc5444_reader_add_packet_consumer parser consumer entries =
     parser\<lparr>rr_packet_consumer := add_consumer consumer (rr_packet_consumer parser) entries\<rparr>"

definition rfc5444_reader_add_message_consumer where
  "rfc5444_reader_add_message_consumer parser consumer entries =
     parser\<lparr>rr_message_consumer := add_consumer consumer (rr_message_consumer parser) entries\<rparr>"

definition rfc5444_reader_remove_packet_consumer where
  "rfc5444_reader_remove_packet_consumer parser i =
     parser\<lparr>rr_packet_consumer := free_consumer (rr_packet_consumer parser) i\<rparr>"

definition rfc5444_reader_remove_message_consumer where
  "rfc5444_reader_remove_message_consumer parser i =
     parser\<lparr>rr_message_consumer := free_consumer (rr_message_consumer parser) i\<rparr>"

subsection \<open>Scheduling a TLV block\<close>

definition nth_opt :: "'a list \<Rightarrow> nat \<Rightarrow> 'a option" where
  "nth_opt xs i = (if i < length xs then Some (xs ! i) else None)"

definition compare_tlvtypes ::
    "rfc5444_reader_tlvblock_entry option \<Rightarrow> rfc5444_reader_tlvblock_consumer_entry option \<Rightarrow> int" where
  "compare_tlvtypes tlv entry = (case entry of
     None \<Rightarrow> (case tlv of None \<Rightarrow> 0 | Some _ \<Rightarrow> -1)
   | Some e \<Rightarrow> (case tlv of
        None \<Rightarrow> 1
      | Some t \<Rightarrow> if ce_match_type_ext e then uint (te_order t) - uint (calc_tlvconsumer_intorder e)
                  else uint (te_type t) - uint (ce_type e)))"

text \<open>The state of the loop: \<open>ss_tlv\<close> and \<open>ss_ce\<close> are the two pointers, null at the end of their list.\<close>

record 'st sched =
  ss_tlvs :: tlvs
  ss_tlv :: nat
  ss_ces :: centries
  ss_ce :: nat
  ss_ctx :: rctx
  ss_st :: 'st
  ss_failed :: bool

definition index_match :: "rfc5444_reader_tlvblock_entry \<Rightarrow> u8 \<Rightarrow> bool" where
  "index_match tlv idx \<longleftrightarrow>
     \<not> bitmap256_get (te_int_drop_tlv tlv) idx \<and> idx \<ge> te_index1 tlv \<and> idx \<le> te_index2 tlv"

definition multivalue_ptr :: "rfc5444_reader_tlvblock_entry \<Rightarrow> u8 \<Rightarrow> rfc5444_reader_tlvblock_entry" where
  "multivalue_ptr tlv idx =
     (if te_multivalue_tlv tlv
      then tlv\<lparr>te_single_value :=
             map_option (\<lambda>v. v + unat (idx - te_index1 tlv) * unat (te_length tlv)) (te_value tlv)\<rparr>
      else tlv)"

definition set_forward :: "rctx \<Rightarrow> bool \<Rightarrow> rctx" where
  "set_forward ctx dnf = ctx\<lparr>tc_do_not_forward := tc_do_not_forward ctx \<or> dnf\<rparr>"

text \<open>The first part of an iteration: returns the result code, the flag \<open>match\<close> and the state.\<close>

definition sched_tlv_callback ::
    "'st rfc5444_reader_tlvblock_consumer \<Rightarrow> u8 \<Rightarrow> 'st sched \<Rightarrow> int \<times> bool \<times> 'st sched" where
  "sched_tlv_callback consumer idx s =
     (case nth_opt (ss_tlvs s) (ss_tlv s) of
        None \<Rightarrow> (RFC5444_OKAY, False, s)
      | Some tlv \<Rightarrow>
          if \<not> index_match tlv idx then (RFC5444_OKAY, False, s)
          else let ce = nth_opt (ss_ces s) (ss_ce s);
                   matches = (ce \<noteq> None \<and> compare_tlvtypes (Some tlv) ce = 0);
                   tlv = multivalue_ptr tlv idx;
                   s = s\<lparr>ss_tlvs := (ss_tlvs s)[ss_tlv s := tlv]\<rparr>
               in case co_tlv_callback consumer of
                    None \<Rightarrow> (RFC5444_OKAY, matches, s)
                  | Some cb \<Rightarrow>
                      let ctx = (ss_ctx s)\<lparr>tc_consumer := Some (co_id consumer)\<rparr>
                      in case cb tlv ctx (ss_st s) of (result, dnf, st) \<Rightarrow>
                         let s = s\<lparr>ss_ctx := set_forward ctx dnf, ss_st := st\<rparr>
                         in if result = RFC5444_DROP_TLV
                            then (RFC5444_OKAY, False,
                                  s\<lparr>ss_tlvs := (ss_tlvs s)[ss_tlv s :=
                                      tlv\<lparr>te_int_drop_tlv := bitmap256_set (te_int_drop_tlv tlv) idx\<rparr>]\<rparr>)
                            else (result, matches, s))"

definition sched_copy ::
    "u8 list \<Rightarrow> rfc5444_reader_tlvblock_entry \<Rightarrow> rfc5444_reader_tlvblock_consumer_entry \<Rightarrow>
     fault + rfc5444_reader_tlvblock_consumer_entry" where
  "sched_copy buf tlv ce =
     (case ce_copy_value ce of
        None \<Rightarrow> Inr ce
      | Some dst \<Rightarrow>
          if te_length tlv > 0
          then let len = (if te_length tlv < ce_max_length ce then te_length tlv else ce_max_length ce)
               in case te_single_value tlv of
                    None \<Rightarrow> Inl Null_Deref
                  | Some v \<Rightarrow> bind_f (slice buf v (unat len)) (\<lambda>bytes.
                              bind_f (memcpy_in dst 0 bytes) (\<lambda>dst.
                              Inr (ce\<lparr>ce_copy_value := Some dst\<rparr>)))
          else Inr ce)"

text \<open>The last TLV of a chain; a chain longer than the list of TLVs never ends.\<close>

fun chain_last :: "nat \<Rightarrow> tlvs \<Rightarrow> nat \<Rightarrow> fault + nat" where
  "chain_last 0 tlvs i = Inl Hang"
| "chain_last (Suc n) tlvs i =
     (if i < length tlvs
      then (case te_next_entry (tlvs ! i) of None \<Rightarrow> Inr i | Some j \<Rightarrow> chain_last n tlvs j)
      else Inl OOB_Read)"

definition sched_match :: "u8 list \<Rightarrow> nat \<Rightarrow> nat \<Rightarrow> 'st sched \<Rightarrow> fault + 'st sched" where
  "sched_match buf ti ci s =
     (let tlv = ss_tlvs s ! ti; ce = ss_ces s ! ci;
          failed = (ce_match_length ce \<and>
                    (te_length tlv < ce_min_length ce \<or> te_length tlv > ce_max_length ce));
          s = s\<lparr>ss_failed := ss_failed s \<or> failed,
                 ss_tlvs := (ss_tlvs s)[ti := tlv\<lparr>te_next_entry := None\<rparr>]\<rparr>
      in case ce_tlv ce of
           None \<Rightarrow> bind_f (sched_copy buf tlv (ce\<lparr>ce_tlv := Some ti\<rparr>)) (\<lambda>ce.
                   Inr (s\<lparr>ss_ces := (ss_ces s)[ci := ce]\<rparr>))
         | Some first \<Rightarrow>
             bind_f (chain_last (Suc (length (ss_tlvs s))) (ss_tlvs s) first) (\<lambda>l.
             Inr (s\<lparr>ss_tlvs := (ss_tlvs s)[l := (ss_tlvs s ! l)\<lparr>te_next_entry := Some ti\<rparr>]\<rparr>)))"

definition reset_entry :: "centries \<Rightarrow> nat \<Rightarrow> centries" where
  "reset_entry ces i = (if i < length ces then ces[i := (ces ! i)\<lparr>ce_tlv := None\<rparr>] else ces)"

text \<open>The second part of an iteration: the constraints, and the two pointers advance.\<close>

definition sched_advance :: "u8 list \<Rightarrow> bool \<Rightarrow> 'st sched \<Rightarrow> fault + 'st sched" where
  "sched_advance buf matches s =
     (let ti = ss_tlv s; ci = ss_ce s; ce = nth_opt (ss_ces s) ci;
          cmp = compare_tlvtypes (nth_opt (ss_tlvs s) ti) ce
      in bind_f
          (if cmp \<ge> 0
           then (case ce of
                   None \<Rightarrow> Inl Null_Deref
                 | Some c \<Rightarrow>
                     let s = s\<lparr>ss_failed := ss_failed s \<or> (ce_mandatory c \<and> \<not> matches)\<rparr>
                     in if matches then sched_match buf ti ci s else Inr s)
           else Inr s)
          (\<lambda>s. let s = (if nth_opt (ss_tlvs s) ti \<noteq> None \<and> cmp \<le> 0 then s\<lparr>ss_tlv := ti + 1\<rparr> else s);
                   cmp = compare_tlvtypes (nth_opt (ss_tlvs s) (ss_tlv s)) (nth_opt (ss_ces s) ci)
               in if cmp > 0
                  then (case nth_opt (ss_ces s) ci of
                          None \<Rightarrow> Inl Null_Deref
                        | Some c \<Rightarrow>
                            Inr (s\<lparr>ss_failed := ss_failed s \<or> (ce_mandatory c \<and> \<not> matches),
                                   ss_ce := ci + 1, ss_ces := reset_entry (ss_ces s) (ci + 1)\<rparr>))
                  else Inr s))"

definition sched_iter ::
    "u8 list \<Rightarrow> 'st rfc5444_reader_tlvblock_consumer \<Rightarrow> u8 \<Rightarrow> 'st sched \<Rightarrow> fault + int \<times> 'st sched" where
  "sched_iter buf consumer idx s =
     (case sched_tlv_callback consumer idx s of (result, matches, s) \<Rightarrow>
        if result \<noteq> RFC5444_OKAY then Inr (result, s)
        else bind_f (sched_advance buf matches s) (\<lambda>s. Inr (RFC5444_OKAY, s)))"

definition sched_more :: "'st sched \<Rightarrow> bool" where
  "sched_more s \<longleftrightarrow> ss_ce s < length (ss_ces s) \<or> ss_tlv s < length (ss_tlvs s)"

definition sched_measure :: "'st sched \<Rightarrow> nat" where
  "sched_measure s = (length (ss_tlvs s) - ss_tlv s) + (length (ss_ces s) - ss_ce s)"

lemma sched_tlv_callback_frame:
  assumes "sched_tlv_callback consumer idx s = (r, m, s')"
  shows "length (ss_tlvs s') = length (ss_tlvs s)" "ss_tlv s' = ss_tlv s" "ss_ces s' = ss_ces s"
    "ss_ce s' = ss_ce s"
  using assms by (auto simp: sched_tlv_callback_def Let_def split: option.splits if_splits prod.splits)

lemma wp_trivial [simp]: "wp m (\<lambda>_. True) (\<lambda>_. True)"
  by (cases m) simp_all

lemma map_update_same: "f y = f (xs ! i) \<Longrightarrow> map f (xs[i := y]) = map f xs"
  by (metis list_update_id map_update)

text \<open>What decides how a TLV and an entry compare.\<close>

definition tlv_keys :: "tlvs \<Rightarrow> (u16 \<times> u8) list" where
  "tlv_keys tlvs = map (\<lambda>t. (te_order t, te_type t)) tlvs"

definition ce_keys :: "centries \<Rightarrow> (bool \<times> u8 \<times> u8) list" where
  "ce_keys ces = map (\<lambda>c. (ce_match_type_ext c, ce_type c, ce_type_ext c)) ces"

lemma compare_keys:
  assumes "tlv_keys tlvs' = tlv_keys tlvs" "ce_keys ces' = ce_keys ces"
  shows "compare_tlvtypes (nth_opt tlvs' i) (nth_opt ces' j) = compare_tlvtypes (nth_opt tlvs i) (nth_opt ces j)"
proof -
  have l: "length tlvs' = length tlvs" "length ces' = length ces"
    using arg_cong [OF assms(1), of length] arg_cong [OF assms(2), of length]
    by (simp_all add: tlv_keys_def ce_keys_def)
  have t: "te_order (tlvs' ! i) = te_order (tlvs ! i) \<and> te_type (tlvs' ! i) = te_type (tlvs ! i)"
    if "i < length tlvs"
    using arg_cong [OF assms(1), of "\<lambda>x. x ! i"] that l by (simp add: tlv_keys_def)
  have c: "ce_match_type_ext (ces' ! j) = ce_match_type_ext (ces ! j) \<and> ce_type (ces' ! j) = ce_type (ces ! j)
      \<and> ce_type_ext (ces' ! j) = ce_type_ext (ces ! j)" if "j < length ces"
    using arg_cong [OF assms(2), of "\<lambda>x. x ! j"] that l by (simp add: ce_keys_def)
  show ?thesis
    using t c l by (auto simp: nth_opt_def compare_tlvtypes_def calc_tlvconsumer_intorder_def)
qed

lemma sched_copy_keys:
  "wp (sched_copy buf tlv ce) (\<lambda>_. True) (\<lambda>ce'. ce_match_type_ext ce' = ce_match_type_ext ce \<and>
     ce_type ce' = ce_type ce \<and> ce_type_ext ce' = ce_type_ext ce \<and> ce_tlv ce' = ce_tlv ce)"
proof -
  have bind2: "wp (bind_f a (\<lambda>x. bind_f (f x) (\<lambda>d. Inr (ce\<lparr>ce_copy_value := Some d\<rparr>)))) (\<lambda>_. True)
    (\<lambda>ce'. ce_match_type_ext ce' = ce_match_type_ext ce \<and>
     ce_type ce' = ce_type ce \<and> ce_type_ext ce' = ce_type_ext ce \<and> ce_tlv ce' = ce_tlv ce)"
    for a :: "fault + 'a" and f :: "'a \<Rightarrow> fault + u8 list"
    by simp
  show ?thesis
    unfolding sched_copy_def Let_def using bind2 by (simp split: option.split)
qed

lemma sched_match_frame:
  "wp (sched_match buf ti ci s) (\<lambda>_. True) (\<lambda>s'. tlv_keys (ss_tlvs s') = tlv_keys (ss_tlvs s) \<and>
     ss_tlv s' = ss_tlv s \<and> ce_keys (ss_ces s') = ce_keys (ss_ces s) \<and> ss_ce s' = ss_ce s)"
proof -
  let ?tlvs = "(ss_tlvs s)[ti := (ss_tlvs s ! ti)\<lparr>te_next_entry := None\<rparr>]"
  have t0: "tlv_keys ?tlvs = tlv_keys (ss_tlvs s)"
    by (simp add: tlv_keys_def map_update_same)
  have t1: "tlv_keys (?tlvs[l := (?tlvs ! l)\<lparr>te_next_entry := n\<rparr>]) = tlv_keys ?tlvs" for l n
    by (simp add: tlv_keys_def map_update_same)
  show ?thesis
  proof (cases "ce_tlv (ss_ces s ! ci)")
    case None
    have "wp (sched_copy buf (ss_tlvs s ! ti) ((ss_ces s ! ci)\<lparr>ce_tlv := Some ti\<rparr>)) (\<lambda>_. True)
      (\<lambda>ce. ce_keys ((ss_ces s)[ci := ce]) = ce_keys (ss_ces s))"
      by (rule wp_mono [OF sched_copy_keys]) (auto simp: ce_keys_def map_update_same)
    then show ?thesis
      using None t0 by (auto simp: sched_match_def Let_def elim!: wp_mono)
  next
    case (Some first)
    with t0 t1 show ?thesis by (simp add: sched_match_def Let_def del: chain_last.simps)
  qed
qed

lemma reset_entry_length [simp]: "length (reset_entry ces i) = length ces"
  by (simp add: reset_entry_def)

lemma compare_some_none: "compare_tlvtypes t None \<le> 0"
  by (simp add: compare_tlvtypes_def split: option.split)

lemma nth_opt_None [simp]: "nth_opt xs i = None \<longleftrightarrow> length xs \<le> i"
  by (auto simp: nth_opt_def)

lemma nth_opt_Some: "nth_opt xs i = Some x \<longleftrightarrow> i < length xs \<and> xs ! i = x"
  by (auto simp: nth_opt_def)

text \<open>Every iteration moves at least one of the two pointers.\<close>

lemma sched_advance_progress:
  fixes s :: "'st sched"
  assumes "sched_more s"
  shows "wp (sched_advance buf m s) (\<lambda>_. True) (\<lambda>s'. sched_measure s' < sched_measure s \<and>
    length (ss_tlvs s') = length (ss_tlvs s) \<and> length (ss_ces s') = length (ss_ces s))"
proof -
  let ?t = "nth_opt (ss_tlvs s) (ss_tlv s)" and ?c = "nth_opt (ss_ces s) (ss_ce s)"
  let ?cmp = "compare_tlvtypes ?t ?c"
  have body: "wp (let s'' = (if nth_opt (ss_tlvs s') (ss_tlv s) \<noteq> None \<and> ?cmp \<le> 0
                then s'\<lparr>ss_tlv := ss_tlv s + 1\<rparr> else s');
              cmp = compare_tlvtypes (nth_opt (ss_tlvs s'') (ss_tlv s'')) (nth_opt (ss_ces s'') (ss_ce s))
         in if cmp > 0
            then (case nth_opt (ss_ces s'') (ss_ce s) of
                    None \<Rightarrow> Inl Null_Deref
                  | Some c \<Rightarrow>
                      Inr (s''\<lparr>ss_failed := ss_failed s'' \<or> (ce_mandatory c \<and> \<not> m),
                             ss_ce := ss_ce s + 1, ss_ces := reset_entry (ss_ces s'') (ss_ce s + 1)\<rparr>))
            else Inr s'') (\<lambda>_. True) (\<lambda>s'. sched_measure s' < sched_measure s \<and>
      length (ss_tlvs s') = length (ss_tlvs s) \<and> length (ss_ces s') = length (ss_ces s))"
    if fr: "length (ss_tlvs s') = length (ss_tlvs s)" "ss_tlv s' = ss_tlv s"
      "length (ss_ces s') = length (ss_ces s)" "ss_ce s' = ss_ce s"
      and same: "?cmp > 0 \<Longrightarrow> compare_tlvtypes (nth_opt (ss_tlvs s') (ss_tlv s)) (nth_opt (ss_ces s') (ss_ce s)) > 0"
    for s'
  proof (cases "?t \<noteq> None \<and> ?cmp \<le> 0")
    case True
    then show ?thesis
      using fr by (auto simp: Let_def sched_measure_def nth_opt_Some split: option.split)
  next
    case False
    have "?cmp > 0"
    proof (rule ccontr)
      assume "\<not> ?cmp > 0"
      with False have "?t = None" by auto
      with \<open>\<not> ?cmp > 0\<close> have "?c = None" by (cases ?c) (auto simp: compare_tlvtypes_def)
      with \<open>?t = None\<close> assms show False by (auto simp: sched_more_def)
    qed
    with False same show ?thesis
      using fr by (auto simp: Let_def sched_measure_def nth_opt_Some split: option.split)
  qed
  have keys: "length (ss_tlvs s') = length (ss_tlvs s)" "length (ss_ces s') = length (ss_ces s)"
    if "tlv_keys (ss_tlvs s') = tlv_keys (ss_tlvs s)" "ce_keys (ss_ces s') = ce_keys (ss_ces s)" for s'
    using arg_cong [OF that(1), of length] arg_cong [OF that(2), of length]
    by (simp_all add: tlv_keys_def ce_keys_def)
  have first: "wp (if ?cmp \<ge> 0
           then (case ?c of
                   None \<Rightarrow> Inl Null_Deref
                 | Some c \<Rightarrow>
                     let s' = s\<lparr>ss_failed := ss_failed s \<or> (ce_mandatory c \<and> \<not> m)\<rparr>
                     in if m then sched_match buf (ss_tlv s) (ss_ce s) s' else Inr s')
           else Inr s) (\<lambda>_. True) (\<lambda>s'. tlv_keys (ss_tlvs s') = tlv_keys (ss_tlvs s) \<and>
     ss_tlv s' = ss_tlv s \<and> ce_keys (ss_ces s') = ce_keys (ss_ces s) \<and> ss_ce s' = ss_ce s)"
    using sched_match_frame [of buf "ss_tlv s" "ss_ce s" "s\<lparr>ss_failed := f\<rparr>" for f]
      sched_match_frame [of buf "ss_tlv s" "ss_ce s" s]
    by (auto simp: Let_def split: option.split)
  show ?thesis
    unfolding sched_advance_def Let_def [of "ss_tlv s"] Let_def [of "ss_ce s"] Let_def [of ?c]
      Let_def [of ?cmp] wp_bind
  proof (rule wp_mono, rule first)
    fix s' :: "'st sched" assume a: "tlv_keys (ss_tlvs s') = tlv_keys (ss_tlvs s) \<and>
     ss_tlv s' = ss_tlv s \<and> ce_keys (ss_ces s') = ce_keys (ss_ces s) \<and> ss_ce s' = ss_ce s"
    then have "compare_tlvtypes (nth_opt (ss_tlvs s') (ss_tlv s)) (nth_opt (ss_ces s') (ss_ce s)) = ?cmp"
      by (intro compare_keys) auto
    with a show "wp (let s'' = (if nth_opt (ss_tlvs s') (ss_tlv s) \<noteq> None \<and> ?cmp \<le> 0
                then s'\<lparr>ss_tlv := ss_tlv s + 1\<rparr> else s');
              cmp = compare_tlvtypes (nth_opt (ss_tlvs s'') (ss_tlv s'')) (nth_opt (ss_ces s'') (ss_ce s))
         in if cmp > 0
            then (case nth_opt (ss_ces s'') (ss_ce s) of
                    None \<Rightarrow> Inl Null_Deref
                  | Some c \<Rightarrow>
                      Inr (s''\<lparr>ss_failed := ss_failed s'' \<or> (ce_mandatory c \<and> \<not> m),
                             ss_ce := ss_ce s + 1, ss_ces := reset_entry (ss_ces s'') (ss_ce s + 1)\<rparr>))
            else Inr s'') (\<lambda>_. True) (\<lambda>s'. sched_measure s' < sched_measure s \<and>
      length (ss_tlvs s') = length (ss_tlvs s) \<and> length (ss_ces s') = length (ss_ces s))"
      using keys [of s'] by (intro body) auto
  qed simp
qed

lemma sched_iter_progress:
  assumes "sched_more s" "sched_iter buf consumer idx s = Inr (RFC5444_OKAY, s')"
  shows "sched_measure s' < sched_measure s"
proof -
  obtain r m s1 where c: "sched_tlv_callback consumer idx s = (r, m, s1)" by (cases "sched_tlv_callback consumer idx s")
  note f = sched_tlv_callback_frame [OF c]
  with assms(1) have m: "sched_more s1" by (simp add: sched_more_def)
  from assms(2) c obtain "sched_advance buf m s1 = Inr s'"
    by (auto simp: sched_iter_def bind_f_eq_Inr split: if_splits)
  with wp_InrD [OF sched_advance_progress [OF m]] f show ?thesis
    by (fastforce simp: sched_measure_def)
qed

function sched_loop ::
    "u8 list \<Rightarrow> 'st rfc5444_reader_tlvblock_consumer \<Rightarrow> u8 \<Rightarrow> 'st sched \<Rightarrow> fault + int \<times> 'st sched" where
  "sched_loop buf consumer idx s =
     (if sched_more s
      then (case sched_iter buf consumer idx s of
              Inl e \<Rightarrow> Inl e
            | Inr (result, s) \<Rightarrow>
                if result \<noteq> RFC5444_OKAY then Inr (result, s) else sched_loop buf consumer idx s)
      else Inr (RFC5444_OKAY, s))"
  by pat_completeness auto

termination
  by (relation "measure (\<lambda>(buf, consumer, idx, s). sched_measure s)")
    (auto intro: sched_iter_progress)

declare sched_loop.simps [simp del]

text \<open>A block callback asked to drop TLVs: those of its entries with the flag \<open>drop\<close>.\<close>

definition mark_drops :: "nat list \<Rightarrow> centries \<Rightarrow> centries" where
  "mark_drops drops ces = map (\<lambda>i. if i \<in> set drops then (ces ! i)\<lparr>ce_drop := True\<rparr> else ces ! i) [0..<length ces]"

fun drop_tlvs :: "u8 \<Rightarrow> centries \<Rightarrow> tlvs \<Rightarrow> centries \<times> tlvs" where
  "drop_tlvs idx [] tlvs = ([], tlvs)"
| "drop_tlvs idx (ce # ces) tlvs =
     (case ce_tlv ce of
        Some i \<Rightarrow>
          if ce_drop ce
          then (case drop_tlvs idx ces
                  (tlvs[i := (tlvs ! i)\<lparr>te_int_drop_tlv := bitmap256_set (te_int_drop_tlv (tlvs ! i)) idx\<rparr>])
                of (ces, tlvs) \<Rightarrow> (ce\<lparr>ce_drop := False\<rparr> # ces, tlvs))
          else (case drop_tlvs idx ces tlvs of (ces, tlvs) \<Rightarrow> (ce # ces, tlvs))
      | None \<Rightarrow> (case drop_tlvs idx ces tlvs of (ces, tlvs) \<Rightarrow> (ce # ces, tlvs)))"

text \<open>From the block callbacks on.\<close>

definition sched_finish ::
    "'st rfc5444_reader_tlvblock_consumer \<Rightarrow> u8 \<Rightarrow> 'st sched \<Rightarrow> int \<times> 'st sched" where
  "sched_finish consumer idx s =
     (let cb = (if co_block_callback consumer \<noteq> None \<and> \<not> ss_failed s then co_block_callback consumer
                else if co_block_callback_failed_constraints consumer \<noteq> None \<and> ss_failed s
                then co_block_callback_failed_constraints consumer else None)
      in case cb of
           None \<Rightarrow> (RFC5444_OKAY, s)
         | Some f \<Rightarrow>
             let ctx = (ss_ctx s)\<lparr>tc_consumer := Some (co_id consumer)\<rparr>
             in case f ctx (ss_ces s) (ss_tlvs s) (ss_st s) of (result, dnf, drops, st) \<Rightarrow>
                let s = s\<lparr>ss_ctx := set_forward ctx dnf, ss_st := st, ss_ces := mark_drops drops (ss_ces s)\<rparr>
                in if result = RFC5444_DROP_TLV
                   then (case drop_tlvs idx (ss_ces s) (ss_tlvs s) of (ces, tlvs) \<Rightarrow>
                           (RFC5444_OKAY, s\<lparr>ss_ces := ces, ss_tlvs := tlvs\<rparr>))
                   else (result, s))"

text \<open>
  Returns the result code and the state: the TLVs, the entries of the consumer, the
  context and the client state after the callbacks.
\<close>

definition schedule_tlvblock ::
    "u8 list \<Rightarrow> 'st rfc5444_reader_tlvblock_consumer \<Rightarrow> rctx \<Rightarrow> tlvs \<Rightarrow> u8 \<Rightarrow> 'st \<Rightarrow>
     fault + int \<times> 'st rfc5444_reader_tlvblock_consumer \<times> rctx \<times> tlvs \<times> 'st" where
  "schedule_tlvblock buf consumer ctx entries idx st =
     bind_f (sched_loop buf consumer idx
               \<lparr>ss_tlvs = entries, ss_tlv = 0, ss_ces = reset_entry (co_consumer_list consumer) 0, ss_ce = 0,
                ss_ctx = ctx, ss_st = st, ss_failed = False\<rparr>)
       (\<lambda>(result, s).
          case (if result \<noteq> RFC5444_OKAY then (result, s) else sched_finish consumer idx s) of
            (result, s) \<Rightarrow>
              Inr (result, consumer\<lparr>co_consumer_list := ss_ces s\<rparr>, ss_ctx s, ss_tlvs s, ss_st s))"

subsection \<open>Scheduling the consumers of a message\<close>

definition call_start ::
    "'st rfc5444_reader_tlvblock_consumer \<Rightarrow> rctx \<Rightarrow> 'st \<Rightarrow> int \<times> rctx \<times> 'st" where
  "call_start consumer ctx st =
     (case co_start_callback consumer of
        None \<Rightarrow> (RFC5444_OKAY, ctx, st)
      | Some cb \<Rightarrow>
          let ctx = ctx\<lparr>tc_consumer := Some (co_id consumer)\<rparr>
          in case cb ctx st of (result, dnf, st) \<Rightarrow> (result, set_forward ctx dnf, st))"

definition call_end ::
    "'st rfc5444_reader_tlvblock_consumer \<Rightarrow> rctx \<Rightarrow> int \<Rightarrow> 'st \<Rightarrow> int \<times> rctx \<times> 'st" where
  "call_end consumer ctx result st =
     (case co_end_callback consumer of
        None \<Rightarrow> (result, ctx, st)
      | Some cb \<Rightarrow>
          let ctx = ctx\<lparr>tc_consumer := Some (co_id consumer)\<rparr>
          in case cb ctx (result \<noteq> RFC5444_OKAY) st of (r, dnf, st) \<Rightarrow>
             (if r > result then r else result, set_forward ctx dnf, st))"

definition schedule_msgtlv_consumer ::
    "u8 list \<Rightarrow> 'st rfc5444_reader_tlvblock_consumer \<Rightarrow> rctx \<Rightarrow> tlvs \<Rightarrow> 'st \<Rightarrow>
     fault + int \<times> 'st rfc5444_reader_tlvblock_consumer \<times> rctx \<times> tlvs \<times> 'st" where
  "schedule_msgtlv_consumer buf consumer ctx entries st =
     (case call_start consumer (ctx\<lparr>tc_type := RFC5444_CONTEXT_MESSAGE\<rparr>) st of (result, ctx, st) \<Rightarrow>
        if result = RFC5444_OKAY then schedule_tlvblock buf consumer ctx entries 0 st
        else Inr (result, consumer, ctx, entries, st))"

text \<open>One address of an address block: assemble it and call the callbacks.\<close>

definition msgaddr_address ::
    "u8 list \<Rightarrow> 'st rfc5444_reader_tlvblock_consumer \<Rightarrow> rctx \<Rightarrow> rfc5444_reader_addrblock_entry \<Rightarrow> u8 \<Rightarrow> 'st \<Rightarrow>
     fault + int \<times> 'st rfc5444_reader_tlvblock_consumer \<times> rctx \<times> rfc5444_reader_addrblock_entry \<times> 'st" where
  "msgaddr_address buf consumer ctx addr i st =
     (if bitmap256_get (ab_dropAddr addr) i then Inr (RFC5444_OKAY, consumer, ctx, addr, st)
      else bind_f (slice buf (ab_mid_src addr + unat (ab_mid_len addr) * unat i) (unat (ab_mid_len addr))) (\<lambda>mid.
           bind_f (memcpy_in (ab_addr addr) (unat (ab_mid_start addr)) mid) (\<lambda>bytes.
           let addr = addr\<lparr>ab_addr := bytes\<rparr>
           in bind_f (case ab_prefixes addr of None \<Rightarrow> Inr (ab_prefixlen addr) | Some p \<Rightarrow> rd buf (p + unat i))
                (\<lambda>plen.
              bind_f (netaddr_from_binary_prefix (ab_addr addr) (unat (tc_addr_len ctx)) 0 plen) (\<lambda>(na, _).
              case call_start consumer (ctx\<lparr>tc_addr := na, tc_addr_index := i\<rparr>) st of (result, ctx, st) \<Rightarrow>
              bind_f (if result = RFC5444_OKAY
                      then schedule_tlvblock buf consumer ctx (ab_tlvblock addr) i st
                      else Inr (result, consumer, ctx, ab_tlvblock addr, st))
                (\<lambda>(result, consumer, ctx, tlvs, st).
                 let addr = addr\<lparr>ab_tlvblock := tlvs\<rparr>
                 in case call_end consumer ctx result st of (result, ctx, st) \<Rightarrow>
                    if result = RFC5444_DROP_ADDRESS
                    then Inr (RFC5444_OKAY, consumer, ctx,
                              addr\<lparr>ab_dropAddr := bitmap256_set (ab_dropAddr addr) i\<rparr>, st)
                    else Inr (result, consumer, ctx, addr, st)))))))"

fun msgaddr_addresses where
  "msgaddr_addresses buf consumer ctx addr [] st = Inr (RFC5444_OKAY, consumer, ctx, addr, st)"
| "msgaddr_addresses buf consumer ctx addr (i # is) st =
     bind_f (msgaddr_address buf consumer ctx addr (of_nat i) st) (\<lambda>(result, consumer, ctx, addr, st).
       if result \<noteq> RFC5444_OKAY then Inr (result, consumer, ctx, addr, st)
       else msgaddr_addresses buf consumer ctx addr is st)"

fun msgaddr_blocks ::
    "u8 list \<Rightarrow> 'st rfc5444_reader_tlvblock_consumer \<Rightarrow> rctx \<Rightarrow> rfc5444_reader_addrblock_entry list \<Rightarrow> 'st \<Rightarrow>
     fault + int \<times> 'st rfc5444_reader_tlvblock_consumer \<times> rctx \<times> rfc5444_reader_addrblock_entry list \<times> 'st" where
  "msgaddr_blocks buf consumer ctx [] st =
     Inr (RFC5444_OKAY, consumer, ctx\<lparr>tc_addr_block_buffer := None\<rparr>, [], st)"
| "msgaddr_blocks buf consumer ctx (addr # addrs) st =
     (let ctx = ctx\<lparr>tc_addr_block_buffer := Some (ab_addr_block_ptr addr),
                    tc_addr_block_size := ab_addr_block_size addr, tc_addr_tlv_size := ab_addr_tlv_size addr\<rparr>
      in bind_f (msgaddr_addresses buf consumer ctx addr [0..<unat (ab_num_addr addr)] st)
           (\<lambda>(result, consumer, ctx, addr, st).
            if result \<noteq> RFC5444_OKAY then Inr (result, consumer, ctx, addr # addrs, st)
            else bind_f (msgaddr_blocks buf consumer ctx addrs st)
                   (\<lambda>(result, consumer, ctx, addrs, st). Inr (result, consumer, ctx, addr # addrs, st))))"

definition schedule_msgaddr_consumer where
  "schedule_msgaddr_consumer buf consumer ctx addrs st =
     msgaddr_blocks buf consumer (ctx\<lparr>tc_type := RFC5444_CONTEXT_ADDRESS\<rparr>) addrs st"

text \<open>The consumers of the range, last one first.\<close>

fun end_message_loop ::
    "'st rfc5444_reader_tlvblock_consumer list \<Rightarrow> rctx \<Rightarrow> int \<Rightarrow> 'st \<Rightarrow> int \<times> rctx \<times> 'st" where
  "end_message_loop [] ctx result st = (result, ctx, st)"
| "end_message_loop (c # cs) ctx result st =
     (if \<not> co_addrblock_consumer c \<and> (co_default_msg_consumer c \<or> co_msg_id c = tc_msg_type ctx)
      then (case call_end c ctx result st of (result, ctx, st) \<Rightarrow> end_message_loop cs ctx result st)
      else end_message_loop cs ctx result st)"

definition schedule_end_message_cbs ::
    "'st rfc5444_reader_tlvblock_consumer list \<Rightarrow> nat \<Rightarrow> nat \<Rightarrow> rctx \<Rightarrow> int \<Rightarrow> 'st \<Rightarrow> int \<times> rctx \<times> 'st" where
  "schedule_end_message_cbs consumers frst lst ctx result st =
     end_message_loop (rev (take (lst + 1 - frst) (drop frst consumers)))
       (ctx\<lparr>tc_type := RFC5444_CONTEXT_MESSAGE\<rparr>) result st"

subsection \<open>Messages\<close>

text \<open>
  The header: returns the result code, the context, the pointer and the size; the flag says that the
  originator address does not fit, which leaves the function before the end of the message is known.
\<close>

definition opt_u8 where
  "opt_u8 c buf ptr eob result old =
     (if c then rfc5444_get_u8 buf ptr eob result else Inr (old, ptr, result))"

definition message_originator :: "bool \<Rightarrow> u8 list \<Rightarrow> nat \<Rightarrow> u8 \<Rightarrow> rctx \<Rightarrow> fault + rctx \<times> nat" where
  "message_originator has_orig buf ptr addr_len ctx =
     (if has_orig
      then bind_f (netaddr_from_binary (drop ptr buf) (unat addr_len) 0) (\<lambda>(na, _).
           Inr (ctx\<lparr>tc_orig_addr := na\<rparr>, ptr + unat addr_len))
      else Inr (ctx, ptr))"

definition message_header ::
    "u8 list \<Rightarrow> nat \<Rightarrow> nat \<Rightarrow> rctx \<Rightarrow> fault + bool \<times> int \<times> rctx \<times> nat \<times> u16" where
  "message_header buf ptr eob ctx =
     bind_f (rfc5444_get_u8 buf ptr eob RFC5444_OKAY) (\<lambda>(msg_type, ptr, result).
     bind_f (rfc5444_get_u8 buf ptr eob result) (\<lambda>(flags, ptr, result).
     bind_f (rfc5444_get_u16 buf ptr eob result) (\<lambda>(size, ptr, result).
     let addr_len = (flags AND RFC5444_MSG_FLAG_ADDRLENMASK) + 1;
         has_orig = flags AND RFC5444_MSG_FLAG_ORIGINATOR \<noteq> 0;
         ctx = ctx\<lparr>tc_msg_type := msg_type, tc_addr_len := addr_len,
                    tc_msg_flags := flags AND NOT RFC5444_MSG_FLAG_ADDRLENMASK, tc_has_origaddr := has_orig\<rparr>
     in if has_orig \<and> ptr + unat addr_len > eob
        then Inr (True, RFC5444_END_OF_BUFFER, ctx, ptr, size)
        else bind_f (message_originator has_orig buf ptr addr_len ctx) (\<lambda>(ctx, ptr).
             let has_hoplimit = flags AND RFC5444_MSG_FLAG_HOPLIMIT \<noteq> 0;
                 has_hopcount = flags AND RFC5444_MSG_FLAG_HOPCOUNT \<noteq> 0;
                 has_seqno = flags AND RFC5444_MSG_FLAG_SEQNO \<noteq> 0
             in bind_f (opt_u8 has_hoplimit buf ptr eob result (tc_hoplimit ctx)) (\<lambda>(hoplimit, ptr, result).
                bind_f (opt_u8 has_hopcount buf ptr eob result (tc_hopcount ctx)) (\<lambda>(hopcount, ptr, result).
                bind_f (if has_seqno then rfc5444_get_u16 buf ptr eob result
                        else Inr (tc_seqno ctx, ptr, result)) (\<lambda>(seqno, ptr, result).
                Inr (False, result,
                     ctx\<lparr>tc_has_hoplimit := has_hoplimit, tc_hoplimit := hoplimit,
                          tc_has_hopcount := has_hopcount, tc_hopcount := hopcount,
                          tc_has_seqno := has_seqno, tc_seqno := seqno\<rparr>, ptr, size))))))))"

text \<open>The address blocks of a message.\<close>

lemma parse_addrblock_progress:
  assumes "parse_addrblock buf al addrblock_entry_zero ptr eob = Inr (RFC5444_OKAY, a, p)"
  shows "ptr + 2 \<le> p"
  using wp_InrD [OF parse_addrblock_wpI [of buf eob "\<lambda>_. True" al addrblock_entry_zero ptr
      "\<lambda>(r, a, p). r = RFC5444_OKAY \<longrightarrow> ptr + 2 \<le> p"] assms] by (auto simp: addrblock_entry_zero_def)

lemma parse_tlvblock_progress:
  assumes "parse_tlvblock malloc free buf [] ptr eob ac st = Inr (RFC5444_OKAY, tb, p, st')"
  shows "ptr + 2 \<le> p" "p \<le> eob"
  using wp_InrD [OF parse_tlvblock_wpI [of buf eob "\<lambda>_. True" ac ptr
      "\<lambda>(r, tb, p, st). p \<le> eob \<and> (r = RFC5444_OKAY \<longrightarrow> ptr + 2 \<le> p)"] assms] by auto

text \<open>One block: the result code, the block, the pointer and the client state.\<close>

definition message_block ::
    "'st rfc5444_reader \<Rightarrow> u8 list \<Rightarrow> u8 \<Rightarrow> nat \<Rightarrow> nat \<Rightarrow> 'st \<Rightarrow>
     fault + int \<times> rfc5444_reader_addrblock_entry \<times> nat \<times> 'st" where
  "message_block parser buf addr_len ptr fin st =
     (case rr_malloc_addrblock_entry parser st of
        (False, st) \<Rightarrow> Inr (RFC5444_OUT_OF_MEMORY, addrblock_entry_zero, ptr, st)
      | (True, st) \<Rightarrow>
          bind_f (parse_addrblock buf addr_len addrblock_entry_zero ptr fin) (\<lambda>(result, addr, ptr).
          if result \<noteq> RFC5444_OKAY then Inr (result, addr, ptr, rr_free_addrblock_entry parser st)
          else bind_f (parse_tlvblock (rr_malloc_tlvblock_entry parser) (rr_free_tlvblock_entry parser) buf []
                         ptr fin (ab_num_addr addr) st) (\<lambda>(result, tlvblock, ptr, st).
               if result \<noteq> RFC5444_OKAY then Inr (result, addr, ptr, rr_free_addrblock_entry parser st)
               else Inr (result, addr\<lparr>ab_tlvblock := tlvblock,
                      ab_addr_tlv_size := ptr - ab_addr_block_size addr - ab_addr_block_ptr addr\<rparr>, ptr, st))))"

lemma message_block_progress:
  assumes "message_block parser buf al ptr fin st = Inr (RFC5444_OKAY, a, p, st')"
  shows "ptr + 4 \<le> p" "p \<le> fin"
proof -
  obtain b st1 where m: "rr_malloc_addrblock_entry parser st = (b, st1)" by fastforce
  have b: b using assms m by (cases b) (auto simp: message_block_def rfc5444_results)
  obtain a1 p1 where p1: "parse_addrblock buf al addrblock_entry_zero ptr fin = Inr (RFC5444_OKAY, a1, p1)"
    using assms m b by (auto simp: message_block_def bind_f_eq_Inr split: if_splits)
  obtain tb p2 st2 where p2: "parse_tlvblock (rr_malloc_tlvblock_entry parser) (rr_free_tlvblock_entry parser) buf []
      p1 fin (ab_num_addr a1) st1 = Inr (RFC5444_OKAY, tb, p2, st2)" "p = p2"
    using assms m b p1 by (auto simp: message_block_def bind_f_eq_Inr split: if_splits)
  show "ptr + 4 \<le> p" "p \<le> fin"
    using parse_addrblock_progress [OF p1] parse_tlvblock_progress [OF p2(1)] p2(2) by simp_all
qed

lemma message_block_less:
  assumes "ptr < fin" "message_block parser buf al ptr fin st = Inr (RFC5444_OKAY, a, p, st')"
  shows "fin - p < fin - ptr"
  using message_block_progress [OF assms(2)] assms(1) by simp

function message_blocks ::
    "'st rfc5444_reader \<Rightarrow> u8 list \<Rightarrow> u8 \<Rightarrow> nat \<Rightarrow> nat \<Rightarrow> rfc5444_reader_addrblock_entry list \<Rightarrow> 'st \<Rightarrow>
     fault + int \<times> rfc5444_reader_addrblock_entry list \<times> nat \<times> 'st" where
  "message_blocks parser buf addr_len ptr fin addrs st =
     (if ptr < fin
      then (case message_block parser buf addr_len ptr fin st of
              Inl e \<Rightarrow> Inl e
            | Inr (result, addr, p, st) \<Rightarrow>
                if result \<noteq> RFC5444_OKAY then Inr (result, addrs, p, st)
                else message_blocks parser buf addr_len p fin (addrs @ [addr]) st)
      else Inr (RFC5444_OKAY, addrs, ptr, st))"
  by pat_completeness auto

termination
  by (relation "measure (\<lambda>(parser, buf, al, ptr, fin, addrs, st). fin - ptr)")
    (auto intro: message_block_less)

declare message_blocks.simps [simp del]

text \<open>
  The state of the loop over the consumers; \<open>ms_first\<close> and \<open>ms_last\<close> are \<open>same_order[0]\<close>
  and \<open>same_order[1]\<close>, positions in the list of consumers.
\<close>

record 'st msg =
  ms_consumers :: "'st rfc5444_reader_tlvblock_consumer list"
  ms_ctx :: rctx
  ms_addrs :: "rfc5444_reader_addrblock_entry list"
  ms_tlvs :: tlvs
  ms_st :: 'st
  ms_first :: "nat option"
  ms_last :: nat

definition message_end_cbs :: "int \<Rightarrow> 'st msg \<Rightarrow> int \<times> 'st msg" where
  "message_end_cbs result m = (case ms_first m of
     None \<Rightarrow> (result, m)
   | Some f \<Rightarrow> (case schedule_end_message_cbs (ms_consumers m) f (ms_last m) (ms_ctx m) result (ms_st m) of
        (result, ctx, st) \<Rightarrow> (result, m\<lparr>ms_ctx := ctx, ms_st := st\<rparr>)))"

text \<open>The call of one consumer.\<close>

definition message_consumer ::
    "u8 list \<Rightarrow> nat \<Rightarrow> 'st msg \<Rightarrow> fault + int \<times> 'st msg" where
  "message_consumer buf k m =
     (let consumer = ms_consumers m ! k
      in if co_addrblock_consumer consumer
         then bind_f (schedule_msgaddr_consumer buf consumer (ms_ctx m) (ms_addrs m) (ms_st m))
                (\<lambda>(result, c, ctx, addrs, st).
                 Inr (result, m\<lparr>ms_consumers := (ms_consumers m)[k := c], ms_ctx := ctx,
                                 ms_addrs := addrs, ms_st := st\<rparr>))
         else bind_f (schedule_msgtlv_consumer buf consumer (ms_ctx m) (ms_tlvs m) (ms_st m))
                (\<lambda>(result, c, ctx, tlvs, st).
                 Inr (result, m\<lparr>ms_consumers := (ms_consumers m)[k := c], ms_ctx := ctx,
                                 ms_tlvs := tlvs, ms_st := st,
                                 ms_first := Some (case ms_first m of None \<Rightarrow> k | Some f \<Rightarrow> f),
                                 ms_last := k\<rparr>)))"

text \<open>The loop; the flag says that it is left by \<open>goto cleanup_parse_message\<close>.\<close>

fun message_consumers :: "u8 list \<Rightarrow> nat list \<Rightarrow> 'st msg \<Rightarrow> fault + bool \<times> int \<times> 'st msg" where
  "message_consumers buf [] m = Inr (False, RFC5444_OKAY, m)"
| "message_consumers buf (k # ks) m =
     (let consumer = ms_consumers m ! k
      in if \<not> co_default_msg_consumer consumer \<and> co_msg_id consumer \<noteq> tc_msg_type (ms_ctx m)
         then message_consumers buf ks m
         else let next_order = (ms_first m \<noteq> None \<and>
                     co_order consumer > co_order (ms_consumers m ! ms_last m));
                  (result, m) = (if next_order then message_end_cbs RFC5444_OKAY m else (RFC5444_OKAY, m))
              in if result \<noteq> RFC5444_OKAY then Inr (True, result, m)
                 else let m = (if next_order then m\<lparr>ms_first := None\<rparr> else m)
                      in bind_f (message_consumer buf k m) (\<lambda>(result, m).
                         if result \<noteq> RFC5444_OKAY then Inr (False, result, m)
                         else message_consumers buf ks m))"

fun free_addrblocks :: "'st rfc5444_reader \<Rightarrow> rfc5444_reader_addrblock_entry list \<Rightarrow> 'st \<Rightarrow> 'st" where
  "free_addrblocks parser [] st = st"
| "free_addrblocks parser (a # as) st =
     free_addrblocks parser as
       (rr_free_addrblock_entry parser (free_tlvblock (rr_free_tlvblock_entry parser) (ab_tlvblock a) st))"

text \<open>From \<open>cleanup_parse_message\<close> on; \<open>fin\<close> is the pointer \<open>end\<close>.\<close>

definition message_cleanup ::
    "'st rfc5444_reader \<Rightarrow> nat \<Rightarrow> nat option \<Rightarrow> int \<Rightarrow> 'st msg \<Rightarrow>
     int \<times> nat option \<times> rctx \<times> 'st rfc5444_reader \<times> 'st" where
  "message_cleanup parser start fin result m =
     (let ctx = (ms_ctx m)\<lparr>tc_msg_buffer := None\<rparr>;
          fwd = ((result = RFC5444_OKAY \<or> result = RFC5444_DROP_MSG_BUT_FORWARD) \<and>
                 \<not> tc_do_not_forward ctx \<and> rr_forward_message parser \<noteq> None \<and> tc_has_hoplimit ctx \<and>
                 tc_hoplimit ctx > 1);
          ctx = (if fwd then ctx\<lparr>tc_type := RFC5444_CONTEXT_MESSAGE\<rparr> else ctx);
          st = (if fwd then (case rr_forward_message parser of
                    None \<Rightarrow> ms_st m
                  | Some f \<Rightarrow> f ctx start (case fin of None \<Rightarrow> 0 | Some e \<Rightarrow> e - start) (ms_st m))
                else ms_st m);
          st = free_tlvblock (rr_free_tlvblock_entry parser) (ms_tlvs m) (free_addrblocks parser (ms_addrs m) st)
      in (if result > RFC5444_OKAY \<and> result \<noteq> RFC5444_DROP_PACKET then RFC5444_OKAY else result,
          fin, ctx, parser\<lparr>rr_message_consumer := ms_consumers m\<rparr>, st))"

text \<open>
  Returns the result code, the pointer (null when the header ended too early), the context,
  the reader with the entries of its consumers updated and the client state.
\<close>

definition handle_message ::
    "'st rfc5444_reader \<Rightarrow> rctx \<Rightarrow> u8 list \<Rightarrow> nat \<Rightarrow> nat \<Rightarrow> 'st \<Rightarrow>
     fault + int \<times> nat option \<times> rctx \<times> 'st rfc5444_reader \<times> 'st" where
  "handle_message parser ctx buf start eob st =
     bind_f (message_header buf start eob (ctx\<lparr>tc_do_not_forward := False\<rparr>)) (\<lambda>(early, result, ctx, ptr, size).
     let m = \<lparr>ms_consumers = rr_message_consumer parser, ms_ctx = ctx, ms_addrs = [], ms_tlvs = [],
              ms_st = st, ms_first = None, ms_last = 0\<rparr>
     in if early then Inr (message_cleanup parser start None result m)
        else let fin = start + unat size;
                 result = (if fin > eob then RFC5444_END_OF_BUFFER else result)
             in if result \<noteq> RFC5444_OKAY then Inr (message_cleanup parser start (Some fin) result m)
                else bind_f (parse_tlvblock (rr_malloc_tlvblock_entry parser) (rr_free_tlvblock_entry parser)
                               buf [] ptr fin 0 st) (\<lambda>(result, tlvs, ptr, st).
                     let m = m\<lparr>ms_tlvs := tlvs, ms_st := st\<rparr>
                     in if result \<noteq> RFC5444_OKAY then Inr (message_cleanup parser start (Some fin) result m)
                        else bind_f (message_blocks parser buf (tc_addr_len ctx) ptr fin [] st)
                               (\<lambda>(result, addrs, ptr, st).
                             let m = m\<lparr>ms_addrs := addrs, ms_st := st\<rparr>
                             in if result \<noteq> RFC5444_OKAY
                                then Inr (message_cleanup parser start (Some fin) result m)
                                else bind_f (message_consumers buf [0..<length (rr_message_consumer parser)]
                                       (m\<lparr>ms_ctx := ctx\<lparr>tc_msg_buffer := Some start, tc_msg_size := unat size\<rparr>\<rparr>))
                                       (\<lambda>(cleanup, result, m).
                                     case (if cleanup then (result, m) else message_end_cbs result m) of
                                       (result, m) \<Rightarrow>
                                         Inr (message_cleanup parser start (Some fin) result m)))))"


subsection \<open>Packets\<close>

text \<open>The message loop ends: a message that is handled without an error is at least six bytes long.\<close>

lemma message_header_wp:
  "wp (message_header buf ptr eob ctx) (\<lambda>_. True) (\<lambda>(early, r, ctx', p, size).
     r \<le> RFC5444_OKAY \<and> (early \<longrightarrow> r < RFC5444_OKAY) \<and> (r = RFC5444_OKAY \<longrightarrow> ptr + 4 \<le> p))"
proof -
  define post where "post p e \<longleftrightarrow> e \<le> RFC5444_OKAY \<and> (e = RFC5444_OKAY \<longrightarrow> ptr + 4 \<le> p)" for p e
  have step: "post p' e'" if "post p e" "p \<le> p'" "e' = RFC5444_OKAY \<longrightarrow> e = RFC5444_OKAY" "err_step e e'" for p e p' e'
    using that no_drop [OF that(4)] by (auto simp: post_def)
  have opt: "wp (opt_u8 c buf p eob e old) (\<lambda>_. True) R"
    if "post p e" "\<And>b p' e'. post p' e' \<Longrightarrow> R (b, p', e')" for c p e old R
    unfolding opt_u8_def wp_if using that by (auto intro!: get_u8_wpI intro: step)
  have opt16: "wp (if c then rfc5444_get_u16 buf p eob e else Inr (old, p, e)) (\<lambda>_. True) R"
    if "post p e" "\<And>b p' e'. post p' e' \<Longrightarrow> R (b, p', e')" for c p e old R
    unfolding wp_if using that by (auto intro!: get_u16_wpI intro: step)
  have orig: "wp (message_originator c buf p al ctx) (\<lambda>_. True) R"
    if "post p e" "\<And>ctx p'. post p' e \<Longrightarrow> R (ctx, p')" for c p e al ctx R
  proof -
    have "post (p + unat al) e" using that(1) by (auto simp: post_def)
    with that show ?thesis
      by (cases "netaddr_from_binary (drop p buf) (unat al) 0") (auto simp: message_originator_def)
  qed
  show ?thesis
    unfolding message_header_def wp_bind
    apply (rule get_u8_wpI [rotated], simp)
    apply (simp only: prod.case wp_bind)
    apply (rule get_u8_wpI [rotated], simp)
    apply (simp only: prod.case wp_bind)
    apply (rule get_u16_wpI [rotated], simp)
    apply (simp only: prod.case wp_bind Let_def wp_if)
    apply (intro if_bool_eq_conj [THEN iffD2] conjI impI)
     apply (simp add: rfc5444_results)
    subgoal for t p1 e1 fl p2 e2 sz p3 e3
      apply (rule orig [of _ e3])
      subgoal using no_drop [of e2 e3] no_drop [of e1 e2] no_drop [of RFC5444_OKAY e1] by (auto simp: post_def)
      apply (simp only: prod.case wp_bind)
      apply (rule opt, assumption)
      apply (simp only: prod.case wp_bind)
      apply (rule opt, assumption)
      apply (simp only: prod.case wp_bind)
      apply (rule opt16, assumption)
      apply (simp add: post_def)
      done
    done
qed

lemma message_cleanup_fin [simp]: "fst (snd (message_cleanup parser start fin result m)) = fin"
  by (simp add: message_cleanup_def Let_def)

lemma message_cleanup_result: "fst (message_cleanup parser start fin result m) =
    (if result > RFC5444_OKAY \<and> result \<noteq> RFC5444_DROP_PACKET then RFC5444_OKAY else result)"
  by (simp add: message_cleanup_def Let_def)

lemma handle_message_progress:
  assumes "handle_message parser ctx buf start eob st = Inr (RFC5444_OKAY, p, ctx', parser', st')"
  shows "\<exists>e. p = Some e \<and> start + 6 \<le> e \<and> e \<le> eob"
proof -
  obtain early r ctx1 ptr size where h: "message_header buf start eob (ctx\<lparr>tc_do_not_forward := False\<rparr>) =
      Inr (early, r, ctx1, ptr, size)"
    using assms by (auto simp: handle_message_def bind_f_eq_Inr)
  note hw = wp_InrD [OF message_header_wp h]
  have neg: "\<not> r2 < RFC5444_OKAY" if "message_cleanup parser start fin r2 m = (RFC5444_OKAY, p, ctx', parser', st')"
    for fin r2 m
    using that message_cleanup_result [of parser start fin r2 m] by (auto simp: rfc5444_results split: if_splits)
  have ne: "\<not> early" using assms h hw neg by (auto simp: handle_message_def)
  let ?fin = "start + unat size"
  have ok: "r = RFC5444_OKAY \<and> ?fin \<le> eob"
  proof (rule ccontr)
    assume c: "\<not> ?thesis"
    let ?r = "if ?fin > eob then RFC5444_END_OF_BUFFER else r"
    have n: "?r < RFC5444_OKAY" using c hw by (auto simp: rfc5444_results)
    then have "message_cleanup parser start (Some ?fin) ?r \<lparr>ms_consumers = rr_message_consumer parser, ms_ctx = ctx1,
        ms_addrs = [], ms_tlvs = [], ms_st = st, ms_first = None, ms_last = 0\<rparr> = (RFC5444_OKAY, p, ctx', parser', st')"
      using assms h ne by (simp add: handle_message_def Let_def)
    with neg n show False by blast
  qed
  then have "start + 4 \<le> ptr" using hw by simp
  moreover obtain r3 tb p3 st3 where t: "parse_tlvblock (rr_malloc_tlvblock_entry parser) (rr_free_tlvblock_entry parser)
      buf [] ptr ?fin 0 st = Inr (r3, tb, p3, st3)"
    using assms h ne ok by (auto simp: handle_message_def Let_def bind_f_eq_Inr rfc5444_results)
  have "r3 \<le> RFC5444_OKAY"
    using wp_InrD [OF parse_tlvblock_wpI [of buf ?fin "\<lambda>_. True" 0 ptr "\<lambda>(r, _). r \<le> RFC5444_OKAY"] t] by auto
  have "r3 = RFC5444_OKAY"
  proof (rule ccontr)
    assume "\<not> ?thesis"
    then have "\<exists>m. message_cleanup parser start (Some ?fin) r3 m = (RFC5444_OKAY, p, ctx', parser', st')"
      using assms h ne ok t by (auto simp: handle_message_def Let_def rfc5444_results)
    with neg \<open>r3 \<le> RFC5444_OKAY\<close> \<open>r3 \<noteq> RFC5444_OKAY\<close> show False by fastforce
  qed
  with t have "ptr + 2 \<le> ?fin" using parse_tlvblock_progress [of _ _ buf ptr ?fin 0 st tb p3 st3] by fastforce
  moreover have "p = Some ?fin"
  proof -
    have "\<exists>r m. message_cleanup parser start (Some ?fin) r m = (RFC5444_OKAY, p, ctx', parser', st')"
      using assms h ne ok t \<open>r3 = RFC5444_OKAY\<close>
      by (fastforce simp: handle_message_def Let_def bind_f_eq_Inr rfc5444_results split_beta split: if_splits)
    then show ?thesis by (metis message_cleanup_fin fst_conv snd_conv)
  qed
  ultimately show ?thesis using ok by simp
qed

lemma handle_message_less:
  assumes "ptr < eob" "handle_message parser ctx buf ptr eob st = Inr (RFC5444_OKAY, Some p, ctx', parser', st')"
  shows "eob - p < eob - ptr"
  using handle_message_progress [OF assms(2)] assms(1) by auto

text \<open>The loop over the messages; it returns the code that ended it.\<close>

function packet_messages ::
    "'st rfc5444_reader \<Rightarrow> rctx \<Rightarrow> u8 list \<Rightarrow> nat \<Rightarrow> nat \<Rightarrow> 'st \<Rightarrow>
     fault + int \<times> rctx \<times> 'st rfc5444_reader \<times> 'st" where
  "packet_messages parser ctx buf ptr eob st =
     (if ptr < eob
      then (case handle_message parser ctx buf ptr eob st of
              Inl e \<Rightarrow> Inl e
            | Inr (result, p, ctx, parser, st) \<Rightarrow>
                if result \<noteq> RFC5444_OKAY then Inr (result, ctx, parser, st)
                else (case p of None \<Rightarrow> Inl Null_Deref
                      | Some p \<Rightarrow> packet_messages parser ctx buf p eob st))
      else Inr (RFC5444_OKAY, ctx, parser, st))"
  by pat_completeness auto

termination
  by (relation "measure (\<lambda>(parser, ctx, buf, ptr, eob, st). eob - ptr)")
    (auto intro: handle_message_less)

declare packet_messages.simps [simp del]

text \<open>
  The loop over the packet consumers \<open>ks\<close>; returns the result, the last consumer started, the
  consumers, the TLVs, the context and the client state.
\<close>

definition packet_consumer ::
    "u8 list \<Rightarrow> bool \<Rightarrow> 'st rfc5444_reader_tlvblock_consumer \<Rightarrow> rctx \<Rightarrow> tlvs \<Rightarrow> 'st \<Rightarrow>
     fault + int \<times> 'st rfc5444_reader_tlvblock_consumer \<times> rctx \<times> tlvs \<times> 'st" where
  "packet_consumer buf has_tlv consumer ctx entries st =
     (case call_start consumer ctx st of (result, ctx, st) \<Rightarrow>
        if result = RFC5444_OKAY \<and> has_tlv \<and>
           (co_tlv_callback consumer \<noteq> None \<or> co_block_callback consumer \<noteq> None)
        then schedule_tlvblock buf consumer ctx entries 0 st
        else Inr (result, consumer, ctx, entries, st))"

fun packet_consumers ::
    "u8 list \<Rightarrow> bool \<Rightarrow> nat list \<Rightarrow> nat \<Rightarrow> 'st rfc5444_reader_tlvblock_consumer list \<Rightarrow> rctx \<Rightarrow> tlvs \<Rightarrow> 'st \<Rightarrow>
     fault + int \<times> nat \<times> 'st rfc5444_reader_tlvblock_consumer list \<times> rctx \<times> tlvs \<times> 'st" where
  "packet_consumers buf has_tlv [] lst cs ctx entries st = Inr (RFC5444_OKAY, lst, cs, ctx, entries, st)"
| "packet_consumers buf has_tlv (k # ks) lst cs ctx entries st =
     bind_f (packet_consumer buf has_tlv (cs ! k) ctx entries st) (\<lambda>(result, c, ctx, entries, st).
       if result \<noteq> RFC5444_OKAY then Inr (result, k, cs[k := c], ctx, entries, st)
       else packet_consumers buf has_tlv ks k (cs[k := c]) ctx entries st)"

text \<open>The end callbacks of the packet consumers, from the last one started back to the first.\<close>

fun end_packet_loop ::
    "'st rfc5444_reader_tlvblock_consumer list \<Rightarrow> rctx \<Rightarrow> bool \<Rightarrow> 'st \<Rightarrow> rctx \<times> 'st" where
  "end_packet_loop [] ctx dropped st = (ctx, st)"
| "end_packet_loop (c # cs) ctx dropped st =
     (case co_end_callback c of
        None \<Rightarrow> end_packet_loop cs ctx dropped st
      | Some cb \<Rightarrow>
          let ctx = ctx\<lparr>tc_consumer := Some (co_id c)\<rparr>
          in case cb ctx dropped st of (_, dnf, st) \<Rightarrow> end_packet_loop cs (set_forward ctx dnf) dropped st)"

definition rfc5444_get_pktversion :: "u8 \<Rightarrow> u8" where
  "rfc5444_get_pktversion v = drop_bit 4 v"

text \<open>From the start callbacks of the packet consumers on.\<close>

definition packet_body ::
    "'st rfc5444_reader \<Rightarrow> rctx \<Rightarrow> u8 list \<Rightarrow> bool \<Rightarrow> tlvs \<Rightarrow> nat \<Rightarrow> 'st \<Rightarrow>
     fault + int \<times> 'st rfc5444_reader \<times> 'st" where
  "packet_body parser ctx buf has_tlv entries ptr st =
     bind_f (packet_consumers buf has_tlv [0..<length (rr_packet_consumer parser)] 0 (rr_packet_consumer parser)
               ctx entries st) (\<lambda>(result, lst, cs, ctx, entries, st).
     let parser = parser\<lparr>rr_packet_consumer := cs\<rparr>
     in bind_f (if result \<noteq> RFC5444_OKAY then Inr (result, ctx, parser, st)
                else packet_messages parser ctx buf ptr (length buf) st) (\<lambda>(result, ctx, parser, st).
        let st = (if rr_packet_consumer parser = [] then st
                  else snd (end_packet_loop (rev (take (lst + 1) (rr_packet_consumer parser))) ctx
                              (result \<noteq> RFC5444_OKAY) st));
            st = free_tlvblock (rr_free_tlvblock_entry parser) entries st
        in Inr (if result = RFC5444_DROP_PACKET then RFC5444_OKAY else result, parser, st)))"

definition rfc5444_reader_handle_packet ::
    "'st rfc5444_reader \<Rightarrow> u8 list \<Rightarrow> 'st \<Rightarrow> fault + int \<times> 'st rfc5444_reader \<times> 'st" where
  "rfc5444_reader_handle_packet parser buf st =
     (if length buf > 65535 then Inr (RFC5444_TOO_LARGE, parser, st)
      else let eob = length buf
      in bind_f (rfc5444_get_u8 buf 0 eob RFC5444_OKAY) (\<lambda>(first_byte, ptr, result).
         let ctx = tlvblock_context_zero\<lparr>tc_pkt_version := rfc5444_get_pktversion first_byte,
                     tc_pkt_flags := first_byte AND RFC5444_PKT_FLAGMASK\<rparr>
         in if tc_pkt_version ctx \<noteq> 0 then Inr (RFC5444_UNSUPPORTED_VERSION, parser, st)
            else let has_seqno = tc_pkt_flags ctx AND RFC5444_PKT_FLAG_SEQNO \<noteq> 0
            in bind_f (if has_seqno then rfc5444_get_u16 buf ptr eob result else Inr (0, ptr, result))
                 (\<lambda>(seqno, ptr, result).
               let ctx = ctx\<lparr>tc_has_pktseqno := has_seqno, tc_pkt_seqno := seqno\<rparr>
               in if result \<noteq> RFC5444_OKAY then Inr (result, parser, st)
                  else let has_tlv = tc_pkt_flags ctx AND RFC5444_PKT_FLAG_TLV \<noteq> 0
                  in bind_f (if has_tlv
                             then parse_tlvblock (rr_malloc_tlvblock_entry parser) (rr_free_tlvblock_entry parser)
                                    buf [] ptr eob 0 st
                             else Inr (RFC5444_OKAY, [], ptr, st)) (\<lambda>(result, entries, ptr, st).
                     if result \<noteq> RFC5444_OKAY then Inr (result, parser, st)
                     else packet_body parser (ctx\<lparr>tc_pkt_buffer := Some 0, tc_pkt_size := length buf\<rparr>)
                            buf has_tlv entries ptr st))))"
end
