(* ===== verification/Rfc5444_Reader_Safety.thy ===== *)
theory Rfc5444_Reader_Safety
  imports Rfc5444_Reader
begin

section \<open>Safety of the scheduler and of the reader\<close>

text \<open>
  The memory safety of the callback scheduling of \<^verbatim>\<open>rfc5444_reader.c\<close>, proved over the model of
  \<open>Rfc5444_Reader\<close>. The chains of TLVs (\<open>next_entry\<close>) are described by the list of their elements,
  the loop over two sorted lists by an invariant on its state.
\<close>

subsection \<open>Chains of TLVs\<close>

fun chain :: "tlvs \<Rightarrow> nat list \<Rightarrow> bool" where
  "chain tlvs [] = False"
| "chain tlvs [i] = (i < length tlvs \<and> te_next_entry (tlvs ! i) = None)"
| "chain tlvs (i # j # is) = (i < length tlvs \<and> te_next_entry (tlvs ! i) = Some j \<and> chain tlvs (j # is))"

lemma chain_last_Inr: "chain tlvs (i # is) \<Longrightarrow> length is < n \<Longrightarrow> chain_last n tlvs i = Inr (List.last (i # is))"
proof (induction "is" arbitrary: i n)
  case Nil
  then show ?case by (cases n) auto
next
  case (Cons j js)
  then show ?case by (cases n) auto
qed

lemma chain_update: "chain tlvs is \<Longrightarrow> k \<notin> set is \<Longrightarrow> chain (tlvs[k := t]) is"
  by (induction tlvs "is" rule: chain.induct) auto

lemma nth_update_next:
  "te_next_entry t = te_next_entry (tlvs ! k) \<Longrightarrow> te_next_entry (tlvs[k := t] ! i) = te_next_entry (tlvs ! i)"
  by (cases "k = i"; cases "k < length tlvs") (auto simp: list_update_beyond)

lemma chain_same_next: "chain tlvs is \<Longrightarrow> te_next_entry t = te_next_entry (tlvs ! k) \<Longrightarrow> chain (tlvs[k := t]) is"
  by (induction tlvs "is" rule: chain.induct) (auto simp: nth_update_next)

lemma chain_append:
  assumes "chain tlvs is" "k \<notin> set is" "k < length tlvs" "te_next_entry (tlvs ! k) = None"
    "distinct is" "te_next_entry t = Some k"
  shows "chain (tlvs[List.last is := t]) (is @ [k])"
  using assms
proof (induction tlvs "is" rule: chain.induct)
  case (3 tlvs i j "is")
  then have "chain (tlvs[List.last (j # is) := t]) ((j # is) @ [k])" by auto
  moreover have "List.last (j # is) \<noteq> i"
    using 3(6) last_in_set [of "j # is"] by auto
  ultimately show ?case using 3(2) by (auto simp: nth_list_update)
qed auto

lemma sorted_chain_length: "sorted_wrt (<) is \<Longrightarrow> \<forall>i\<in>set is. i < (n :: nat) \<Longrightarrow> length is \<le> n"
proof -
  assume a: "sorted_wrt (<) is" "\<forall>i\<in>set is. i < n"
  then have "card (set is) = length is" by (intro distinct_card) (auto simp: strict_sorted_iff)
  moreover have "card (set is) \<le> card {..<n}" using a(2) by (intro card_mono) auto
  ultimately show ?thesis by simp
qed

subsection \<open>The invariant of the loop\<close>

definition ce_ok :: "rfc5444_reader_tlvblock_consumer_entry \<Rightarrow> bool" where
  "ce_ok c \<longleftrightarrow> (case ce_copy_value c of None \<Rightarrow> True | Some b \<Rightarrow> unat (ce_max_length c) \<le> length b)"

text \<open>The chain of the current entry runs through TLVs that have been passed.\<close>

definition current_chain :: "'st sched \<Rightarrow> nat \<Rightarrow> bool" where
  "current_chain s n \<longleftrightarrow> (ss_ce s < length (ss_ces s) \<longrightarrow>
     (case ce_tlv (ss_ces s ! ss_ce s) of None \<Rightarrow> True
      | Some f \<Rightarrow> \<exists>is. chain (ss_tlvs s) (f # is) \<and> sorted_wrt (<) (f # is) \<and> (\<forall>i\<in>set (f # is). i < n)))"

definition sched_inv :: "nat \<Rightarrow> 'st sched \<Rightarrow> bool" where
  "sched_inv n s \<longleftrightarrow> (\<forall>t\<in>set (ss_tlvs s). tlv_value_ok n t) \<and> (\<forall>c\<in>set (ss_ces s). ce_ok c) \<and>
     current_chain s (ss_tlv s)"

lemma chain_bound: "chain tlvs is \<Longrightarrow> i \<in> set is \<Longrightarrow> i < length tlvs"
  by (induction tlvs "is" rule: chain.induct) auto

lemma current_chain_mono: "current_chain s m \<Longrightarrow> m \<le> n \<Longrightarrow> current_chain s n"
  by (fastforce simp: current_chain_def split: option.splits)

lemma set_update_ball: "(\<forall>x\<in>set xs. P x) \<Longrightarrow> P y \<Longrightarrow> (\<forall>x\<in>set (xs[i := y]). P x)"
  using set_update_subset_insert [of xs i y] by blast

text \<open>The value a matching TLV offers for copying.\<close>

definition offers :: "nat \<Rightarrow> rfc5444_reader_tlvblock_entry \<Rightarrow> bool" where
  "offers n t \<longleftrightarrow> (te_length t \<noteq> 0 \<longrightarrow> (\<exists>v. te_single_value t = Some v \<and> v + unat (te_length t) \<le> n))"

lemma sched_copy_wpI:
  assumes o: "offers (length buf) t" and c: "ce_ok c"
    and Q: "\<And>c'. ce_ok c' \<Longrightarrow> ce_tlv c' = ce_tlv c \<Longrightarrow> Q c'"
  shows "wp (sched_copy buf t c) (\<lambda>_. False) Q"
proof (cases "ce_copy_value c")
  case None
  then show ?thesis using Q c by (simp add: sched_copy_def)
next
  case (Some b)
  show ?thesis
  proof (cases "te_length t = 0")
    case True
    then show ?thesis using Some Q c by (simp add: sched_copy_def)
  next
    case False
    then obtain v where v: "te_single_value t = Some v" "v + unat (te_length t) \<le> length buf"
      using o by (auto simp: offers_def)
    let ?l = "if te_length t < ce_max_length c then te_length t else ce_max_length c"
    have l: "unat ?l \<le> unat (te_length t)" "unat ?l \<le> length b"
      using c Some by (auto simp: ce_ok_def word_less_nat_alt)
    then have l': "v + unat ?l \<le> length buf" using v(2) by linarith
    have "te_length t > 0" using False by (simp add: word_neq_0_conv)
    then have "sched_copy buf t c = bind_f (slice buf v (unat ?l)) (\<lambda>bytes.
        bind_f (memcpy_in b 0 bytes) (\<lambda>dst. Inr (c\<lparr>ce_copy_value := Some dst\<rparr>)))"
      using Some v(1) by (simp add: sched_copy_def Let_def)
    also have "wp \<dots> (\<lambda>_. False) Q"
      unfolding wp_bind
    proof (rule slice_wpI)
      fix r :: "u8 list" assume r: "length r = unat ?l"
      show "wp (memcpy_in b 0 r) (\<lambda>_. False) (\<lambda>a. wp (Inr (c\<lparr>ce_copy_value := Some a\<rparr>)) (\<lambda>_. False) Q)"
      proof (rule memcpy_in_wpI)
        assume "length b < 0 + length r" then show False using r l(2) by simp
      next
        fix b' :: "u8 list" assume "length b' = length b"
        then show "wp (Inr (c\<lparr>ce_copy_value := Some b'\<rparr>)) (\<lambda>_. False) Q"
          using c Some by (auto simp: ce_ok_def intro!: Q)
      qed
    next
      assume "length buf < v + unat ?l" then show False using l' by simp
    qed
    finally show ?thesis .
  qed
qed

lemma tlv_value_ok_next [simp]: "tlv_value_ok n (t\<lparr>te_next_entry := x\<rparr>) = tlv_value_ok n t"
  by (simp add: tlv_value_ok_def cong: option.case_cong)

lemma sched_match_wp:
  assumes inv: "sched_inv (length buf) s" and ti: "ss_tlv s < length (ss_tlvs s)"
    and ci: "ss_ce s < length (ss_ces s)" and off: "offers (length buf) (ss_tlvs s ! ss_tlv s)"
  shows "wp (sched_match buf (ss_tlv s) (ss_ce s) s) (\<lambda>_. False)
    (\<lambda>s'. sched_inv (length buf) (s'\<lparr>ss_tlv := ss_tlv s + 1\<rparr>))"
proof -
  let ?ti = "ss_tlv s" and ?ci = "ss_ce s"
  let ?t = "(ss_tlvs s ! ?ti)\<lparr>te_next_entry := None\<rparr>" and ?c = "ss_ces s ! ?ci"
  let ?tlvs = "(ss_tlvs s)[?ti := ?t]"
  have v: "\<forall>t\<in>set ?tlvs. tlv_value_ok (length buf) t"
    using inv ti by (intro set_update_ball) (auto simp: sched_inv_def)
  have c: "ce_ok ?c" using inv ci by (auto simp: sched_inv_def)
  show ?thesis
  proof (cases "ce_tlv ?c")
    case None
    have "wp (sched_copy buf (ss_tlvs s ! ?ti) (?c\<lparr>ce_tlv := Some ?ti\<rparr>)) (\<lambda>_. False)
      (\<lambda>c'. ce_ok c' \<and> ce_tlv c' = Some ?ti)"
      using off c by (intro sched_copy_wpI) (auto simp: ce_ok_def cong: option.case_cong)
    then obtain c' where c': "sched_copy buf (ss_tlvs s ! ?ti) (?c\<lparr>ce_tlv := Some ?ti\<rparr>) = Inr c'"
      "ce_ok c'" "ce_tlv c' = Some ?ti" by (auto dest: wp_False_ex)
    have "\<forall>c\<in>set ((ss_ces s)[?ci := c']). ce_ok c"
      using inv c'(2) by (intro set_update_ball) (auto simp: sched_inv_def)
    moreover have "chain ?tlvs [?ti]" using ti by simp
    ultimately show ?thesis
      using None c' v ci by (auto simp: sched_match_def Let_def sched_inv_def current_chain_def intro!: exI [of _ "[]"])
  next
    case (Some f)
    then obtain "is" where ch: "chain (ss_tlvs s) (f # is)" "sorted_wrt (<) (f # is)" "\<forall>i\<in>set (f # is). i < ?ti"
      using inv ci by (auto simp: sched_inv_def current_chain_def)
    then have nin: "?ti \<notin> set (f # is)" by blast
    have ch': "chain ?tlvs (f # is)" by (rule chain_update [OF ch(1) nin])
    have "length (f # is) \<le> ?ti" using ch(2,3) by (rule sorted_chain_length)
    then have len: "length is < Suc (length ?tlvs)" using ti by simp
    let ?l = "List.last (f # is)"
    have app: "chain (?tlvs[?l := (?tlvs ! ?l)\<lparr>te_next_entry := Some ?ti\<rparr>]) ((f # is) @ [?ti])"
      using ch' nin ti ch(2) by (intro chain_append) (auto simp: strict_sorted_iff)
    have l: "?l < length ?tlvs" using chain_bound [OF ch' last_in_set] by simp
    have "\<forall>t\<in>set (?tlvs[?l := (?tlvs ! ?l)\<lparr>te_next_entry := Some ?ti\<rparr>]). tlv_value_ok (length buf) t"
      using bspec [OF v nth_mem [OF l]] by (intro set_update_ball [OF v]) simp
    moreover have "sorted_wrt (<) (f # is @ [?ti])" "\<forall>i\<in>set (f # is @ [?ti]). i < ?ti + 1"
      using ch(2,3) by (auto simp: sorted_wrt_append)
    ultimately show ?thesis
      using Some chain_last_Inr [OF ch' len] app inv ci
      by (auto simp: sched_match_def Let_def sched_inv_def current_chain_def
          intro!: exI [of _ "is @ [?ti]"] simp del: chain_last.simps)
  qed
qed

subsection \<open>An iteration keeps the invariant\<close>

lemma multivalue_ptr_ok:
  assumes "tlv_value_ok n t"
  shows "tlv_value_ok n (multivalue_ptr t idx)"
  using assms by (auto simp: multivalue_ptr_def tlv_value_ok_def split: option.splits)

lemma multivalue_ptr_offers:
  assumes "tlv_value_ok n t" "index_match t idx"
  shows "offers n (multivalue_ptr t idx)"
  using assms by (auto simp: multivalue_ptr_def tlv_value_ok_def offers_def index_match_def split: option.splits if_splits)

lemma tlv_value_ok_drop [simp]: "tlv_value_ok n (t\<lparr>te_int_drop_tlv := x\<rparr>) = tlv_value_ok n t"
  by (simp add: tlv_value_ok_def cong: option.case_cong)

lemma multivalue_ptr_next [simp]: "te_next_entry (multivalue_ptr t idx) = te_next_entry t"
  by (simp add: multivalue_ptr_def)

lemma multivalue_ptr_keys [simp]: "te_order (multivalue_ptr t idx) = te_order t" "te_type (multivalue_ptr t idx) = te_type t"
  by (simp_all add: multivalue_ptr_def)

lemma current_chain_update:
  assumes "current_chain s n" "ss_ces s' = ss_ces s" "ss_ce s' = ss_ce s"
    "ss_tlvs s' = (ss_tlvs s)[k := t]" "te_next_entry t = te_next_entry (ss_tlvs s ! k)"
  shows "current_chain s' n"
proof -
  have "chain (ss_tlvs s') is" if "chain (ss_tlvs s) is" for "is"
    using chain_same_next [OF that assms(5)] assms(4) by simp
  with assms(1-3) show ?thesis
    unfolding current_chain_def by (auto split: option.splits intro: exI)
qed

lemma sched_tlv_callback_inv:
  assumes inv: "sched_inv n s" and cb: "sched_tlv_callback consumer idx s = (r, m, s')"
  shows "sched_inv n s'"
    and "m \<Longrightarrow> ss_tlv s' < length (ss_tlvs s') \<and> ss_ce s' < length (ss_ces s') \<and>
       offers n (ss_tlvs s' ! ss_tlv s') \<and>
       compare_tlvtypes (nth_opt (ss_tlvs s') (ss_tlv s')) (nth_opt (ss_ces s') (ss_ce s')) = 0"
proof -
  let ?ti = "ss_tlv s"
  have "sched_inv n s' \<and> (m \<longrightarrow> ss_tlv s' < length (ss_tlvs s') \<and> ss_ce s' < length (ss_ces s') \<and>
       offers n (ss_tlvs s' ! ss_tlv s') \<and>
       compare_tlvtypes (nth_opt (ss_tlvs s') (ss_tlv s')) (nth_opt (ss_ces s') (ss_ce s')) = 0)"
  proof (cases "?ti < length (ss_tlvs s) \<and> index_match (ss_tlvs s ! ?ti) idx")
    case False
    then show ?thesis
      using inv cb by (auto simp: sched_tlv_callback_def nth_opt_def split: if_splits)
  next
    case True
    let ?t = "multivalue_ptr (ss_tlvs s ! ?ti) idx"
    let ?m = "nth_opt (ss_ces s) (ss_ce s) \<noteq> None \<and>
      compare_tlvtypes (Some (ss_tlvs s ! ?ti)) (nth_opt (ss_ces s) (ss_ce s)) = 0"
    have v: "tlv_value_ok n (ss_tlvs s ! ?ti)" using inv True by (auto simp: sched_inv_def)
    have cmp: "compare_tlvtypes (Some t') ce = compare_tlvtypes (Some (ss_tlvs s ! ?ti)) ce"
      if "te_order t' = te_order (ss_tlvs s ! ?ti)" "te_type t' = te_type (ss_tlvs s ! ?ti)" for t' ce
      using that by (simp add: compare_tlvtypes_def split: option.split)
    have nth: "nth_opt ((ss_tlvs s)[?ti := t']) ?ti = Some t'" for t' using True by (simp add: nth_opt_def)
    have upd: "sched_inv n s2" if "ss_tlvs s2 = (ss_tlvs s)[?ti := t']" "ss_ces s2 = ss_ces s" "ss_ce s2 = ss_ce s"
      "ss_tlv s2 = ?ti" "te_next_entry t' = te_next_entry (ss_tlvs s ! ?ti)" "tlv_value_ok n t'" for s2 t'
      using inv that current_chain_update [of s ?ti s2 ?ti t'] set_update_ball [of "ss_tlvs s" "tlv_value_ok n" t' ?ti]
      by (auto simp: sched_inv_def)
    have mm: "ss_tlv s2 < length (ss_tlvs s2) \<and> ss_ce s2 < length (ss_ces s2) \<and> offers n (ss_tlvs s2 ! ss_tlv s2) \<and>
       compare_tlvtypes (nth_opt (ss_tlvs s2) (ss_tlv s2)) (nth_opt (ss_ces s2) (ss_ce s2)) = 0"
      if "ss_tlvs s2 = (ss_tlvs s)[?ti := ?t]" "ss_ces s2 = ss_ces s" "ss_ce s2 = ss_ce s" "ss_tlv s2 = ?ti" ?m for s2
      using that True multivalue_ptr_offers [OF v, of idx] cmp [of ?t "nth_opt (ss_ces s) (ss_ce s)"]
      by (simp add: nth not_le)
    have ok: "tlv_value_ok n ?t" by (rule multivalue_ptr_ok [OF v])
    show ?thesis
    proof (cases "co_tlv_callback consumer")
      case None
      then have "m = ?m" "s' = s\<lparr>ss_tlvs := (ss_tlvs s)[?ti := ?t]\<rparr>"
        using cb True by (auto simp: sched_tlv_callback_def nth_opt_def Let_def)
      then show ?thesis using upd [of s' ?t] mm [of s'] ok True by (simp add: not_le)
    next
      case (Some f)
      obtain r1 dnf st where f: "f ?t ((ss_ctx s)\<lparr>tc_consumer := Some (co_id consumer)\<rparr>) (ss_st s) = (r1, dnf, st)"
        by (metis prod_cases3)
      show ?thesis
      proof (cases "r1 = RFC5444_DROP_TLV")
        case drop: True
        then have "\<not> m" "ss_tlvs s' = (ss_tlvs s)[?ti := ?t\<lparr>te_int_drop_tlv := bitmap256_set (te_int_drop_tlv ?t) idx\<rparr>]"
          "ss_ces s' = ss_ces s" "ss_ce s' = ss_ce s" "ss_tlv s' = ?ti"
          using cb True Some f by (auto simp: sched_tlv_callback_def nth_opt_def Let_def)
        then show ?thesis using upd [of s' "?t\<lparr>te_int_drop_tlv := bitmap256_set (te_int_drop_tlv ?t) idx\<rparr>"] ok by simp
      next
        case False
        then have "m = ?m" "ss_tlvs s' = (ss_tlvs s)[?ti := ?t]"
          "ss_ces s' = ss_ces s" "ss_ce s' = ss_ce s" "ss_tlv s' = ?ti"
          using cb True Some f by (auto simp: sched_tlv_callback_def nth_opt_def Let_def)
        then show ?thesis using upd [of s' ?t] mm [of s'] ok True by (simp add: not_le)
      qed
    qed
  qed
  then show "sched_inv n s'"
    "m \<Longrightarrow> ss_tlv s' < length (ss_tlvs s') \<and> ss_ce s' < length (ss_ces s') \<and>
       offers n (ss_tlvs s' ! ss_tlv s') \<and>
       compare_tlvtypes (nth_opt (ss_tlvs s') (ss_tlv s')) (nth_opt (ss_ces s') (ss_ce s')) = 0" by auto
qed

lemma tlv_keys_length: "tlv_keys ts = tlv_keys us \<Longrightarrow> length ts = length us"
  unfolding tlv_keys_def by (rule map_eq_imp_length_eq)

lemma ce_keys_length: "ce_keys cs = ce_keys ds \<Longrightarrow> length cs = length ds"
  unfolding ce_keys_def by (rule map_eq_imp_length_eq)

lemma current_chain_frame [simp]:
  "current_chain (s\<lparr>ss_failed := x\<rparr>) n = current_chain s n"
  "current_chain (s\<lparr>ss_tlv := i\<rparr>) n = current_chain s n"
  "current_chain (s\<lparr>ss_ctx := c\<rparr>) n = current_chain s n"
  "current_chain (s\<lparr>ss_st := st\<rparr>) n = current_chain s n"
  by (simp_all add: current_chain_def cong: option.case_cong)

lemma reset_entry_ok: "\<forall>c\<in>set ces. ce_ok c \<Longrightarrow> \<forall>c\<in>set (reset_entry ces i). ce_ok c"
  unfolding reset_entry_def
  by (auto simp: ce_ok_def cong: option.case_cong dest!: set_update_subset_insert [THEN subsetD] split: if_splits)

lemma current_chain_reset:
  "current_chain (s\<lparr>ss_ce := i, ss_ces := reset_entry ces i\<rparr>) n"
  by (simp add: current_chain_def reset_entry_def)

lemma sched_match_ctx: "wp (sched_match buf ti ci s) (\<lambda>_. True) (\<lambda>s'. ss_ctx s' = ss_ctx s)"
  by (simp add: sched_match_def Let_def del: chain_last.simps split: option.split)

lemma sched_advance_wp:
  assumes inv: "sched_inv (length buf) s" and more: "sched_more s"
    and m: "m \<Longrightarrow> ss_tlv s < length (ss_tlvs s) \<and> ss_ce s < length (ss_ces s) \<and>
       offers (length buf) (ss_tlvs s ! ss_tlv s) \<and>
       compare_tlvtypes (nth_opt (ss_tlvs s) (ss_tlv s)) (nth_opt (ss_ces s) (ss_ce s)) = 0"
  shows "wp (sched_advance buf m s) (\<lambda>_. False) (\<lambda>s'. sched_inv (length buf) s' \<and> ss_ctx s' = ss_ctx s)"
proof -
  let ?t = "nth_opt (ss_tlvs s) (ss_tlv s)" and ?c = "nth_opt (ss_ces s) (ss_ce s)"
  let ?cmp = "compare_tlvtypes ?t ?c"
  let ?P = "\<lambda>s'. tlv_keys (ss_tlvs s') = tlv_keys (ss_tlvs s) \<and> ss_tlv s' = ss_tlv s \<and>
      ce_keys (ss_ces s') = ce_keys (ss_ces s) \<and> ss_ce s' = ss_ce s \<and> ss_ctx s' = ss_ctx s \<and>
      (if m then sched_inv (length buf) (s'\<lparr>ss_tlv := ss_tlv s + 1\<rparr>) else sched_inv (length buf) s')"
  have first: "wp (if ?cmp \<ge> 0
           then (case ?c of
                   None \<Rightarrow> Inl Null_Deref
                 | Some c \<Rightarrow>
                     let s' = s\<lparr>ss_failed := ss_failed s \<or> (ce_mandatory c \<and> \<not> m)\<rparr>
                     in if m then sched_match buf (ss_tlv s) (ss_ce s) s' else Inr s')
           else Inr s) (\<lambda>_. False) ?P"
  proof (cases ?c)
    case None
    then obtain t where t: "?t = Some t" using more by (auto simp: sched_more_def nth_opt_def split: if_splits)
    have "\<not> ?cmp \<ge> 0" unfolding None t by (simp add: compare_tlvtypes_def)
    moreover have "\<not> m" using m None by auto
    ultimately show ?thesis using inv unfolding None by simp
  next
    case (Some c)
    let ?s = "s\<lparr>ss_failed := ss_failed s \<or> (ce_mandatory c \<and> \<not> m)\<rparr>"
    have i: "sched_inv (length buf) ?s" using inv by (simp add: sched_inv_def)
    show ?thesis
    proof (cases m)
      case True
      have "wp (sched_match buf (ss_tlv ?s) (ss_ce ?s) ?s) (\<lambda>_. False)
        (\<lambda>s'. sched_inv (length buf) (s'\<lparr>ss_tlv := ss_tlv ?s + 1\<rparr>))"
        using i m [OF True] by (intro sched_match_wp) auto
      with sched_match_frame [of buf "ss_tlv ?s" "ss_ce ?s" ?s] sched_match_ctx [of buf "ss_tlv ?s" "ss_ce ?s" ?s]
      have "wp (sched_match buf (ss_tlv s) (ss_ce s) ?s) (\<lambda>_. False) ?P"
        using True by (cases "sched_match buf (ss_tlv s) (ss_ce s) ?s") auto
      then show ?thesis using True m [OF True] Some by (simp add: Let_def)
    next
      case False
      then show ?thesis using i inv Some by (auto simp: Let_def)
    qed
  qed
  show ?thesis
    unfolding sched_advance_def Let_def [of "ss_tlv s"] Let_def [of "ss_ce s"] Let_def [of ?c]
      Let_def [of ?cmp] wp_bind
  proof (rule wp_mono, rule first)
    fix s' :: "'a sched" assume P: "?P s'"
    have cmp': "compare_tlvtypes (nth_opt (ss_tlvs s') i) (nth_opt (ss_ces s') j) =
        compare_tlvtypes (nth_opt (ss_tlvs s) i) (nth_opt (ss_ces s) j)" for i j
      using P by (intro compare_keys) auto
    have len: "length (ss_tlvs s') = length (ss_tlvs s)" "length (ss_ces s') = length (ss_ces s)"
      using P by (auto intro: tlv_keys_length ce_keys_length)
    let ?adv = "nth_opt (ss_tlvs s') (ss_tlv s) \<noteq> None \<and> ?cmp \<le> 0"
    let ?s2 = "if ?adv then s'\<lparr>ss_tlv := ss_tlv s + 1\<rparr> else s'"
    have i2: "sched_inv (length buf) ?s2"
    proof (cases m)
      case True
      then have "?adv" using m len by auto
      then show ?thesis using P True by simp
    next
      case False
      then have "sched_inv (length buf) s'" using P by simp
      moreover have "current_chain (s'\<lparr>ss_tlv := ss_tlv s + 1\<rparr>) (ss_tlv s + 1)"
        using calculation P current_chain_mono [of s' "ss_tlv s" "ss_tlv s + 1"]
        by (simp add: sched_inv_def)
      ultimately show ?thesis by (auto simp: sched_inv_def)
    qed
    have ces: "sched_inv (length buf) (?s2\<lparr>ss_failed := x, ss_ce := j, ss_ces := reset_entry (ss_ces ?s2) j\<rparr>)" for x j
      using i2 reset_entry_ok [of "ss_ces ?s2" j] current_chain_reset [of "ss_ces ?s2" j "?s2\<lparr>ss_failed := x\<rparr>"]
      by (simp add: sched_inv_def)
    show "wp (let s'' = ?s2;
              cmp = compare_tlvtypes (nth_opt (ss_tlvs s'') (ss_tlv s'')) (nth_opt (ss_ces s'') (ss_ce s))
         in if cmp > 0
            then (case nth_opt (ss_ces s'') (ss_ce s) of
                    None \<Rightarrow> Inl Null_Deref
                  | Some c \<Rightarrow>
                      Inr (s''\<lparr>ss_failed := ss_failed s'' \<or> (ce_mandatory c \<and> \<not> m),
                             ss_ce := ss_ce s + 1, ss_ces := reset_entry (ss_ces s'') (ss_ce s + 1)\<rparr>))
            else Inr s'') (\<lambda>_. False) (\<lambda>s'. sched_inv (length buf) s' \<and> ss_ctx s' = ss_ctx s)"
    proof (cases "nth_opt (ss_ces ?s2) (ss_ce s)")
      case None
      have "\<not> compare_tlvtypes (nth_opt (ss_tlvs ?s2) (ss_tlv ?s2)) (nth_opt (ss_ces ?s2) (ss_ce s)) > 0"
        unfolding None using compare_some_none by (simp add: not_less)
      then show ?thesis using i2 P by (simp add: Let_def)
    next
      case (Some c)
      show ?thesis using i2 ces Some P by (simp add: Let_def)
    qed
  qed simp
qed

subsection \<open>Scheduling a TLV block never fails\<close>

text \<open>The fields of the context that the scheduler and the callbacks leave alone.\<close>

lemma sched_ctx_frame:
  "sched_tlv_callback consumer idx s = (r, m, s') \<Longrightarrow> tc_addr_len (ss_ctx s') = tc_addr_len (ss_ctx s)"
  by (auto simp: sched_tlv_callback_def Let_def set_forward_def split: option.splits if_splits prod.splits)

lemma sched_loop_wp:
  assumes "sched_inv (length buf) s"
  shows "wp (sched_loop buf consumer idx s) (\<lambda>_. False)
    (\<lambda>(r, s'). sched_inv (length buf) s' \<and> tc_addr_len (ss_ctx s') = tc_addr_len (ss_ctx s))"
  using assms
proof (induction buf consumer idx s rule: sched_loop.induct)
  case (1 buf consumer idx s)
  show ?case
  proof (cases "sched_more s")
    case True
    obtain r m s1 where c: "sched_tlv_callback consumer idx s = (r, m, s1)" by (cases "sched_tlv_callback consumer idx s")
    note ok = sched_tlv_callback_inv [OF 1(2) c]
    have ctx: "tc_addr_len (ss_ctx s1) = tc_addr_len (ss_ctx s)" by (rule sched_ctx_frame [OF c])
    have more: "sched_more s1" using True sched_tlv_callback_frame [OF c] by (simp add: sched_more_def)
    show ?thesis
    proof (cases "r = RFC5444_OKAY")
      case r: True
      obtain s2 where s2: "sched_advance buf m s1 = Inr s2" "sched_inv (length buf) s2" "ss_ctx s2 = ss_ctx s1"
        using wp_False_ex [OF sched_advance_wp [OF ok(1) more ok(2)]] by blast
      then have it: "sched_iter buf consumer idx s = Inr (RFC5444_OKAY, s2)" using c r by (simp add: sched_iter_def)
      show ?thesis using 1(1) [OF True it refl] s2(2,3) True it ctx by (subst sched_loop.simps) simp
    next
      case False
      then have "sched_iter buf consumer idx s = Inr (r, s1)" using c by (simp add: sched_iter_def)
      with False True ok(1) ctx show ?thesis by (subst sched_loop.simps) simp
    qed
  next
    case False
    with 1(2) show ?thesis by (subst sched_loop.simps) simp
  qed
qed

definition tlvs_ok :: "nat \<Rightarrow> tlvs \<Rightarrow> bool" where
  "tlvs_ok n tlvs \<longleftrightarrow> (\<forall>t\<in>set tlvs. tlv_value_ok n t)"

definition consumer_ok :: "'st rfc5444_reader_tlvblock_consumer \<Rightarrow> bool" where
  "consumer_ok c \<longleftrightarrow> (\<forall>e\<in>set (co_consumer_list c). ce_ok e)"

lemma drop_tlvs_ok:
  assumes "drop_tlvs idx ces tlvs = (ces', tlvs')" "tlvs_ok n tlvs" "\<forall>c\<in>set ces. ce_ok c"
  shows "tlvs_ok n tlvs' \<and> (\<forall>c\<in>set ces'. ce_ok c)"
  using assms
proof (induction idx ces tlvs arbitrary: ces' tlvs' rule: drop_tlvs.induct)
  case (2 idx ce ces tlvs)
  have upd: "tlvs_ok n (tlvs[i := (tlvs ! i)\<lparr>te_int_drop_tlv := x\<rparr>])" for i x
  proof (cases "i < length tlvs")
    case True
    then show ?thesis using 2(5) unfolding tlvs_ok_def by (intro set_update_ball) simp_all
  next
    case False
    then show ?thesis using 2(5) by (simp add: list_update_beyond)
  qed
  have d: "ce_ok (ce\<lparr>ce_drop := b\<rparr>)" for b using 2(6) by (simp add: ce_ok_def cong: option.case_cong)
  show ?case
    using 2 upd d by (fastforce split: option.splits if_splits prod.splits)
qed simp

lemma mark_drops_ok: "\<forall>c\<in>set ces. ce_ok c \<Longrightarrow> \<forall>c\<in>set (mark_drops ds ces). ce_ok c"
  by (auto simp: mark_drops_def ce_ok_def cong: option.case_cong)

lemma sched_finish_ok:
  assumes "sched_finish consumer idx s = (r, s')" "sched_inv n s"
  shows "tlvs_ok n (ss_tlvs s') \<and> (\<forall>c\<in>set (ss_ces s'). ce_ok c)"
proof -
  have i: "tlvs_ok n (ss_tlvs s)" "\<forall>c\<in>set (ss_ces s). ce_ok c"
    using assms(2) by (auto simp: sched_inv_def tlvs_ok_def)
  have d: "tlvs_ok n ts \<and> (\<forall>c\<in>set cs. ce_ok c)" if "drop_tlvs idx (mark_drops ds (ss_ces s)) (ss_tlvs s) = (cs, ts)"
    for ds cs ts
    using drop_tlvs_ok [OF that i(1) mark_drops_ok [OF i(2)]] .
  show ?thesis
    using assms(1) i mark_drops_ok [OF i(2)] d
    by (auto simp: sched_finish_def Let_def split: option.splits if_splits prod.splits)
qed

lemma sched_finish_ctx: "sched_finish consumer idx s = (r, s') \<Longrightarrow> tc_addr_len (ss_ctx s') = tc_addr_len (ss_ctx s)"
  by (auto simp: sched_finish_def Let_def set_forward_def split: option.splits if_splits prod.splits)

lemma schedule_tlvblock_wp:
  assumes "tlvs_ok (length buf) entries" "consumer_ok consumer"
  shows "wp (schedule_tlvblock buf consumer ctx entries idx st) (\<lambda>_. False)
    (\<lambda>(r, c', ctx', tlvs', st'). tlvs_ok (length buf) tlvs' \<and> consumer_ok c' \<and> tc_addr_len ctx' = tc_addr_len ctx)"
proof -
  let ?s = "\<lparr>ss_tlvs = entries, ss_tlv = 0, ss_ces = reset_entry (co_consumer_list consumer) 0, ss_ce = 0,
                ss_ctx = ctx, ss_st = st, ss_failed = False\<rparr>"
  have "sched_inv (length buf) ?s"
    using assms reset_entry_ok [of "co_consumer_list consumer" 0]
    by (simp add: sched_inv_def tlvs_ok_def consumer_ok_def current_chain_def reset_entry_def)
  then obtain r s where s: "sched_loop buf consumer idx ?s = Inr (r, s)" "sched_inv (length buf) s"
      "tc_addr_len (ss_ctx s) = tc_addr_len ctx"
    using wp_False_ex [OF sched_loop_wp [of buf ?s consumer idx]] by auto
  obtain r2 s2 where f: "(if r \<noteq> RFC5444_OKAY then (r, s) else sched_finish consumer idx s) = (r2, s2)" by fastforce
  have "tlvs_ok (length buf) (ss_tlvs s2) \<and> (\<forall>c\<in>set (ss_ces s2). ce_ok c)"
    using f s(2) sched_finish_ok [of consumer idx s r2 s2 "length buf"]
    by (auto simp: sched_inv_def tlvs_ok_def split: if_splits)
  moreover have "tc_addr_len (ss_ctx s2) = tc_addr_len ctx"
    using f s(3) sched_finish_ctx [of consumer idx s] by (auto split: if_splits)
  ultimately show ?thesis
    using s(1) f by (simp add: schedule_tlvblock_def consumer_ok_def)
qed

subsection \<open>The addresses of a message\<close>

text \<open>
  What the parser promises about an address block, for the consumers: everything is inside the
  packet, and only a block whose middle part reaches beyond the sixteen bytes of an address can
  overflow that array.
\<close>

definition block_ok :: "(fault \<Rightarrow> bool) \<Rightarrow> nat \<Rightarrow> rfc5444_reader_addrblock_entry \<Rightarrow> bool" where
  "block_ok F n a \<longleftrightarrow> addrblock_ok n a \<and> tlvs_ok n (ab_tlvblock a) \<and>
     (16 < unat (ab_mid_start a) + unat (ab_mid_len a) \<longrightarrow> F OOB_Write)"

lemma block_ok_update [simp]:
  "block_ok F n (a\<lparr>ab_dropAddr := d\<rparr>) = block_ok F n a"
  "block_ok F n (a\<lparr>ab_tlvblock := t\<rparr>) \<longleftrightarrow>
     addrblock_ok n a \<and> tlvs_ok n t \<and> (16 < unat (ab_mid_start a) + unat (ab_mid_len a) \<longrightarrow> F OOB_Write)"
  by (simp_all add: block_ok_def addrblock_ok_def cong: option.case_cong)

lemma from_binary_prefix_wpI:
  assumes "length bin = 16" "len \<le> 16" "\<And>a. Q a"
  shows "wp (netaddr_from_binary_prefix bin len 0 plen) F Q"
  using assms unfolding netaddr_from_binary_prefix_def Let_def wp_bind
  by (auto intro!: slice_wpI memcpy_in_wpI)

lemma call_start_addr_len: "call_start c ctx st = (r, ctx', st') \<Longrightarrow> tc_addr_len ctx' = tc_addr_len ctx"
  by (auto simp: call_start_def Let_def set_forward_def split: option.splits prod.splits)

lemma call_end_addr_len: "call_end c ctx r0 st = (r, ctx', st') \<Longrightarrow> tc_addr_len ctx' = tc_addr_len ctx"
  by (auto simp: call_end_def Let_def set_forward_def split: option.splits prod.splits)

lemma schedule_or_skip_wp:
  assumes "tlvs_ok (length buf) entries" "consumer_ok c"
  shows "wp (if b then schedule_tlvblock buf c ctx entries idx st else Inr (r, c, ctx, entries, st)) F
    (\<lambda>(r, c', ctx', tlvs', st'). tlvs_ok (length buf) tlvs' \<and> consumer_ok c' \<and> tc_addr_len ctx' = tc_addr_len ctx)"
  using assms wp_mono [OF schedule_tlvblock_wp [OF assms], of F] by (simp add: wp_if)

lemma wp_case3I: "(\<And>a b c. p = (a, b, c) \<Longrightarrow> wp (f a b c) F Q) \<Longrightarrow> wp (case p of (a, b, c) \<Rightarrow> f a b c) F Q"
  by (cases p) simp

lemma mid_bound:
  assumes "src + mid * num \<le> n" "(i :: nat) < num"
  shows "src + mid * i + mid \<le> (n :: nat)"
proof -
  have "mid * i + mid = mid * Suc i" by simp
  also have "\<dots> \<le> mid * num" using assms(2) by (intro mult_le_mono2) simp
  finally show ?thesis using assms(1) by simp
qed

lemma msgaddr_address_wp:
  assumes b: "block_ok F (length buf) a" and c: "consumer_ok c" and i: "unat i < unat (ab_num_addr a)"
    and al: "unat (tc_addr_len ctx) \<le> 16"
  shows "wp (msgaddr_address buf c ctx a i st) F (\<lambda>(r, c', ctx', a', st').
    block_ok F (length buf) a' \<and> ab_num_addr a' = ab_num_addr a \<and> consumer_ok c' \<and> tc_addr_len ctx' = tc_addr_len ctx)"
proof (cases "bitmap256_get (ab_dropAddr a) i")
  case True
  with b c show ?thesis by (simp add: msgaddr_address_def)
next
  case False
  have bnd: "ab_mid_src a + unat (ab_mid_len a) * unat i + unat (ab_mid_len a) \<le> length buf"
    using b i by (intro mid_bound) (auto simp: block_ok_def addrblock_ok_def)
  have pl: "wp (case ab_prefixes (a\<lparr>ab_addr := bytes\<rparr>) of None \<Rightarrow> Inr (ab_prefixlen (a\<lparr>ab_addr := bytes\<rparr>))
      | Some p \<Rightarrow> rd buf (p + unat i)) F R" if "\<And>x. R x" for R bytes
    using b i that by (auto simp: block_ok_def addrblock_ok_def split: option.splits)
  have fin: "wp (case call_end c' ctx' r st' of (result, ctx, st) \<Rightarrow>
      if result = RFC5444_DROP_ADDRESS
      then Inr (RFC5444_OKAY, c', ctx, (a\<lparr>ab_addr := bytes, ab_tlvblock := tlvs\<rparr>)\<lparr>ab_dropAddr := bitmap256_set (ab_dropAddr (a\<lparr>ab_addr := bytes, ab_tlvblock := tlvs\<rparr>)) i\<rparr>, st)
      else Inr (result, c', ctx, a\<lparr>ab_addr := bytes, ab_tlvblock := tlvs\<rparr>, st)) F (\<lambda>(r, c', ctx', a', st').
    block_ok F (length buf) a' \<and> ab_num_addr a' = ab_num_addr a \<and> consumer_ok c' \<and> tc_addr_len ctx' = tc_addr_len ctx)"
    if "tlvs_ok (length buf) tlvs" "consumer_ok c'" "tc_addr_len ctx' = tc_addr_len ctx" "length bytes = 16" for c' ctx' r st' tlvs bytes
  proof -
    have "addrblock_ok (length buf) (a\<lparr>ab_addr := bytes\<rparr>)"
      using b that(4) by (simp add: block_ok_def addrblock_ok_def cong: option.case_cong)
    then show ?thesis
      using b that by (auto simp: block_ok_def addrblock_ok_def call_end_addr_len split: prod.split option.splits)
  qed
  show ?thesis
    unfolding msgaddr_address_def if_not_P [OF False] wp_bind Let_def
    apply (rule slice_wpI [rotated])
     subgoal using bnd by simp
    apply (rule memcpy_in_wpI)
     subgoal using b by (simp add: block_ok_def addrblock_ok_def)
    subgoal premises l for mid bytes
      apply (rule pl)
      apply (rule from_binary_prefix_wpI)
        subgoal using l b by (simp add: block_ok_def addrblock_ok_def)
       apply (rule al)
      apply (clarsimp simp only: prod.case wp_bind)
      apply (rule wp_case3I, unfold wp_bind)
      apply (rule wp_mono [OF schedule_or_skip_wp])
         subgoal using b by (simp add: block_ok_def)
        subgoal by (rule c)
       apply assumption
      apply (clarsimp simp only: prod.case)
      apply (rule fin)
         apply (use l b in \<open>auto simp: block_ok_def addrblock_ok_def dest: call_start_addr_len\<close>)
      done
    done
qed

lemma wp_anyI: "(\<And>a. Q a) \<Longrightarrow> wp m (\<lambda>_. True) Q"
  by (cases m) simp_all

lemma wp_bindI: "wp m F P \<Longrightarrow> (\<And>a. P a \<Longrightarrow> wp (f a) F Q) \<Longrightarrow> wp (bind_f m f) F Q"
  unfolding wp_bind by (rule wp_mono)

lemma msgaddr_addresses_wp:
  assumes "block_ok F (length buf) a" "consumer_ok c" "unat (tc_addr_len ctx) \<le> 16"
    "\<forall>i\<in>set is. i < unat (ab_num_addr a)"
  shows "wp (msgaddr_addresses buf c ctx a is st) F (\<lambda>(r, c', ctx', a', st').
    block_ok F (length buf) a' \<and> consumer_ok c' \<and> tc_addr_len ctx' = tc_addr_len ctx)"
  using assms
proof (induction "is" arbitrary: c ctx a st)
  case (Cons i "is")
  have "i < 256" using Cons.prems(4) u8_bound [of "ab_num_addr a"] by simp
  then have "unat (of_nat i :: u8) = i" by (intro unat_of_nat_small) simp
  then have "wp (msgaddr_address buf c ctx a (of_nat i) st) F (\<lambda>(r, c', ctx', a', st').
    block_ok F (length buf) a' \<and> ab_num_addr a' = ab_num_addr a \<and> consumer_ok c' \<and> tc_addr_len ctx' = tc_addr_len ctx)"
    using Cons.prems by (intro msgaddr_address_wp) auto
  then show ?case
    unfolding msgaddr_addresses.simps
    apply (rule wp_bindI)
    subgoal for x
      using Cons.IH [of "fst (snd (snd (snd x)))" "fst (snd x)" "fst (snd (snd x))" "snd (snd (snd (snd x)))"] Cons.prems
      by (cases x) (auto elim!: wp_mono)
    done
qed simp

lemma msgaddr_blocks_wp:
  assumes "\<forall>a\<in>set as. block_ok F (length buf) a" "consumer_ok c" "unat (tc_addr_len ctx) \<le> 16"
  shows "wp (msgaddr_blocks buf c ctx as st) F (\<lambda>(r, c', ctx', as', st').
    (\<forall>a\<in>set as'. block_ok F (length buf) a) \<and> consumer_ok c' \<and> tc_addr_len ctx' = tc_addr_len ctx)"
  using assms
proof (induction "as" arbitrary: c ctx st)
  case (Cons a "as")
  let ?ctx = "ctx\<lparr>tc_addr_block_buffer := Some (ab_addr_block_ptr a),
                    tc_addr_block_size := ab_addr_block_size a, tc_addr_tlv_size := ab_addr_tlv_size a\<rparr>"
  have "wp (msgaddr_addresses buf c ?ctx a [0..<unat (ab_num_addr a)] st) F (\<lambda>(r, c', ctx', a', st').
    block_ok F (length buf) a' \<and> consumer_ok c' \<and> tc_addr_len ctx' = tc_addr_len ctx)"
    using msgaddr_addresses_wp [of F buf a c ?ctx "[0..<unat (ab_num_addr a)]" st] Cons.prems by simp
  then show ?case
    unfolding msgaddr_blocks.simps Let_def
    apply (rule wp_bindI)
    subgoal for x
      using Cons.IH [of "fst (snd x)" "fst (snd (snd x))" "snd (snd (snd (snd x)))"] Cons.prems
      by (cases x) (auto elim!: wp_mono)
    done
qed simp

subsection \<open>The consumers of a message\<close>

definition msg_ok :: "(fault \<Rightarrow> bool) \<Rightarrow> nat \<Rightarrow> 'st msg \<Rightarrow> bool" where
  "msg_ok F n m \<longleftrightarrow> (\<forall>a\<in>set (ms_addrs m). block_ok F n a) \<and> tlvs_ok n (ms_tlvs m) \<and>
     (\<forall>c\<in>set (ms_consumers m). consumer_ok c) \<and> unat (tc_addr_len (ms_ctx m)) \<le> 16"

lemma message_consumer_wp:
  assumes "msg_ok F (length buf) m" "k < length (ms_consumers m)"
  shows "wp (message_consumer buf k m) F
    (\<lambda>(r, m'). msg_ok F (length buf) m' \<and> length (ms_consumers m') = length (ms_consumers m))"
proof -
  let ?c = "ms_consumers m ! k"
  have c: "consumer_ok ?c" using assms by (simp add: msg_ok_def)
  have upd: "\<forall>c\<in>set ((ms_consumers m)[k := c']). consumer_ok c" if "consumer_ok c'" for c'
    using assms(1) that by (intro set_update_ball) (auto simp: msg_ok_def)
  have "wp (msgaddr_blocks buf ?c ((ms_ctx m)\<lparr>tc_type := RFC5444_CONTEXT_ADDRESS\<rparr>) (ms_addrs m) (ms_st m)) F
    (\<lambda>(r, c', ctx', as', st'). (\<forall>a\<in>set as'. block_ok F (length buf) a) \<and> consumer_ok c' \<and>
      tc_addr_len ctx' = tc_addr_len ((ms_ctx m)\<lparr>tc_type := RFC5444_CONTEXT_ADDRESS\<rparr>))"
    using assms c by (intro msgaddr_blocks_wp) (auto simp: msg_ok_def)
  then have addr: "wp (bind_f (schedule_msgaddr_consumer buf ?c (ms_ctx m) (ms_addrs m) (ms_st m))
                (\<lambda>(result, c, ctx, addrs, st).
                 Inr (result, m\<lparr>ms_consumers := (ms_consumers m)[k := c], ms_ctx := ctx,
                                 ms_addrs := addrs, ms_st := st\<rparr>))) F
     (\<lambda>(r, m'). msg_ok F (length buf) m' \<and> length (ms_consumers m') = length (ms_consumers m))"
    unfolding schedule_msgaddr_consumer_def wp_bind
    by (rule wp_mono) (use assms upd in \<open>auto simp: msg_ok_def\<close>)
  obtain r ctx st where s: "call_start ?c ((ms_ctx m)\<lparr>tc_type := RFC5444_CONTEXT_MESSAGE\<rparr>) (ms_st m) = (r, ctx, st)"
    by (metis prod_cases3)
  have l: "tc_addr_len ctx = tc_addr_len (ms_ctx m)" using call_start_addr_len [OF s] by simp
  have "tlvs_ok (length buf) (ms_tlvs m)" using assms(1) by (simp add: msg_ok_def)
  from schedule_or_skip_wp [OF this c]
  have msg: "wp (bind_f (schedule_msgtlv_consumer buf ?c (ms_ctx m) (ms_tlvs m) (ms_st m))
                (\<lambda>(result, c, ctx, tlvs, st).
                 Inr (result, m\<lparr>ms_consumers := (ms_consumers m)[k := c], ms_ctx := ctx,
                                 ms_tlvs := tlvs, ms_st := st,
                                 ms_first := Some (case ms_first m of None \<Rightarrow> k | Some f \<Rightarrow> f),
                                 ms_last := k\<rparr>))) F
     (\<lambda>(r, m'). msg_ok F (length buf) m' \<and> length (ms_consumers m') = length (ms_consumers m))"
    unfolding schedule_msgtlv_consumer_def s prod.case wp_bind
    by (rule wp_mono) (use assms upd l in \<open>auto simp: msg_ok_def\<close>)
  show ?thesis
    unfolding message_consumer_def Let_def using addr msg by (simp only: wp_if if_True if_False split: if_split) simp
qed

lemma end_message_loop_addr_len:
  "end_message_loop cs ctx r st = (r', ctx', st') \<Longrightarrow> tc_addr_len ctx' = tc_addr_len ctx"
  by (induction cs arbitrary: ctx r st) (auto split: if_splits prod.splits dest: call_end_addr_len)

lemma message_end_cbs_ok:
  "message_end_cbs r m = (r', m') \<Longrightarrow> msg_ok F n m \<Longrightarrow> msg_ok F n m' \<and> ms_consumers m' = ms_consumers m"
  by (auto simp: message_end_cbs_def schedule_end_message_cbs_def msg_ok_def
      split: option.splits prod.splits dest: end_message_loop_addr_len)

lemma msg_ok_first [simp]: "msg_ok F n (m\<lparr>ms_first := x\<rparr>) = msg_ok F n m"
  by (simp add: msg_ok_def)

lemma message_consumers_wp:
  assumes "msg_ok F (length buf) m" "\<forall>k\<in>set ks. k < length (ms_consumers m)"
  shows "wp (message_consumers buf ks m) F
    (\<lambda>(b, r, m'). msg_ok F (length buf) m' \<and> length (ms_consumers m') = length (ms_consumers m))"
  using assms
proof (induction ks arbitrary: m)
  case (Cons k ks)
  let ?c = "ms_consumers m ! k"
  let ?no = "ms_first m \<noteq> None \<and> co_order ?c > co_order (ms_consumers m ! ms_last m)"
  obtain r m1 where e: "(if ?no then message_end_cbs RFC5444_OKAY m else (RFC5444_OKAY, m)) = (r, m1)" by fastforce
  then have m1: "msg_ok F (length buf) m1" "ms_consumers m1 = ms_consumers m"
    using Cons.prems(1) by (auto split: if_splits dest: message_end_cbs_ok)
  let ?m2 = "if ?no then m1\<lparr>ms_first := None\<rparr> else m1"
  have m2: "msg_ok F (length buf) ?m2" "ms_consumers ?m2 = ms_consumers m" using m1 by auto
  have "wp (message_consumer buf k ?m2) F
    (\<lambda>(r, m'). msg_ok F (length buf) m' \<and> length (ms_consumers m') = length (ms_consumers ?m2))"
    using m2 Cons.prems(2) by (intro message_consumer_wp) auto
  then have "wp (bind_f (message_consumer buf k ?m2) (\<lambda>(result, m).
                         if result \<noteq> RFC5444_OKAY then Inr (False, result, m)
                         else message_consumers buf ks m)) F
    (\<lambda>(b, r, m'). msg_ok F (length buf) m' \<and> length (ms_consumers m') = length (ms_consumers m))"
    apply (rule wp_bindI)
    subgoal for x
      using Cons.IH [of "snd x"] Cons.prems(2) m2(2) by (cases x) (auto elim!: wp_mono)
    done
  then show ?case
    using Cons.IH [OF Cons.prems(1)] Cons.prems(1,2) m1 e by (simp add: Let_def)
qed simp

subsection \<open>Messages\<close>

lemma tlv_value_ok_mono: "tlv_value_ok m t \<Longrightarrow> m \<le> n \<Longrightarrow> tlv_value_ok n t"
  by (fastforce simp: tlv_value_ok_def split: option.splits if_splits intro: order_trans)

lemma tlvblock_ok_tlvs: "tlvblock_ok m ac tb \<Longrightarrow> m \<le> n \<Longrightarrow> tlvs_ok n tb"
  by (auto simp: tlvblock_ok_def tlvs_ok_def tlv_ok_def intro: tlv_value_ok_mono)

lemma addrblock_ok_mono: "addrblock_ok m a \<Longrightarrow> m \<le> n \<Longrightarrow> addrblock_ok n a"
  by (auto simp: addrblock_ok_def split: option.splits)

definition packet_fault :: "fault \<Rightarrow> bool" where
  "packet_fault e \<longleftrightarrow> e = OOB_Read \<or> e = OOB_Write \<or> e = Div_By_Zero"

lemma packet_faults [simp]: "packet_fault OOB_Read" "packet_fault OOB_Write" "packet_fault Div_By_Zero"
  "\<not> packet_fault Null_Deref" "\<not> packet_fault Hang"
  by (simp_all add: packet_fault_def)

lemma message_block_wp:
  assumes "fin \<le> length buf"
  shows "wp (message_block parser buf al ptr fin st) packet_fault
    (\<lambda>(r, a, p, st). r = RFC5444_OKAY \<longrightarrow> block_ok packet_fault (length buf) a)"
proof -
  obtain b st1 where m: "rr_malloc_addrblock_entry parser st = (b, st1)" by fastforce
  have "wp (bind_f (parse_addrblock buf al addrblock_entry_zero ptr fin) (\<lambda>(result, addr, ptr).
          if result \<noteq> RFC5444_OKAY then Inr (result, addr, ptr, rr_free_addrblock_entry parser st1)
          else bind_f (parse_tlvblock (rr_malloc_tlvblock_entry parser) (rr_free_tlvblock_entry parser) buf []
                         ptr fin (ab_num_addr addr) st1) (\<lambda>(result, tlvblock, ptr, st).
               if result \<noteq> RFC5444_OKAY then Inr (result, addr, ptr, rr_free_addrblock_entry parser st)
               else Inr (result, addr\<lparr>ab_tlvblock := tlvblock,
                      ab_addr_tlv_size := ptr - ab_addr_block_size addr - ab_addr_block_ptr addr\<rparr>, ptr, st))))
    packet_fault (\<lambda>(r, a, p, st). r = RFC5444_OKAY \<longrightarrow> block_ok packet_fault (length buf) a)"
    unfolding wp_bind
    apply (rule parse_addrblock_wpI)
       apply simp
      apply simp
     apply (simp add: addrblock_entry_zero_def)
    apply (clarsimp simp only: prod.case wp_if wp_bind wp_Inr split: if_split)
    apply (intro conjI impI)
     apply simp
    apply (rule parse_tlvblock_wpI)
      apply simp
     apply simp
    subgoal for r a p r' tb p' st'
      using assms
      by (auto simp: block_ok_def dest: tlvblock_ok_tlvs [of fin _ _ "length buf"]
          addrblock_ok_mono [of fin a "length buf"] simp: addrblock_ok_def split: option.splits)
    done
  then show ?thesis using m by (cases b) (auto simp: message_block_def rfc5444_results)
qed

lemma message_blocks_wp:
  assumes "fin \<le> length buf" "\<forall>a\<in>set as. block_ok packet_fault (length buf) a"
  shows "wp (message_blocks parser buf al ptr fin as st) packet_fault
    (\<lambda>(r, as, p, st). \<forall>a\<in>set as. block_ok packet_fault (length buf) a)"
  using assms
proof (induction parser buf al ptr fin "as" st rule: message_blocks.induct)
  case (1 parser buf al ptr fin "as" st)
  show ?case
  proof (cases "ptr < fin")
    case True
    note b = message_block_wp [OF 1(2), of parser al ptr st]
    show ?thesis
    proof (cases "message_block parser buf al ptr fin st")
      case (Inl e)
      with b True show ?thesis by (subst message_blocks.simps) simp
    next
      case (Inr x)
      obtain r a p st' where x: "x = (r, a, p, st')" by (cases x)
      show ?thesis
      proof (cases "r = RFC5444_OKAY")
        case ok: True
        then have "block_ok packet_fault (length buf) a" using b Inr x by simp
        then show ?thesis
          using 1(1) [OF True Inr [unfolded x] refl refl refl] 1(2,3) ok True Inr x by (subst message_blocks.simps) (auto elim!: wp_mono)
      next
        case False
        with True Inr x 1(3) show ?thesis by (subst message_blocks.simps) simp
      qed
    qed
  qed (use 1(3) in \<open>subst message_blocks.simps, simp\<close>)
qed

lemma message_header_safe:
  assumes "eob \<le> length buf"
  shows "wp (message_header buf ptr eob ctx) packet_fault
    (\<lambda>(early, r, ctx', p, size). unat (tc_addr_len ctx') \<le> 16)"
proof -
  have al: "unat ((fl AND RFC5444_MSG_FLAG_ADDRLENMASK) + 1) \<le> 16" for fl :: u8
    using unat_inc_le [of "fl AND 15"] by (simp add: RFC5444_MSG_FLAG_ADDRLENMASK_def unat_and_15)
  have opt: "wp (opt_u8 c buf p eob e old) packet_fault R" if "\<And>b p e. R (b, p, e)" for c p e old R
    unfolding opt_u8_def wp_if using that by (auto intro!: get_u8_wpI)
  have opt16: "wp (if c then rfc5444_get_u16 buf p eob e else Inr (old, p, e)) packet_fault R"
    if "\<And>b p e. R (b, p, e)" for c p e old R
    unfolding wp_if using that by (auto intro!: get_u16_wpI)
  have orig: "wp (message_originator h buf p a ctx) packet_fault R"
    if "\<And>ctx' p'. tc_addr_len ctx' = tc_addr_len ctx \<Longrightarrow> R (ctx', p')" "unat a \<le> 16" "h \<longrightarrow> p + unat a \<le> eob"
    for h p a ctx R
    using that assms
    unfolding message_originator_def netaddr_from_binary_def netaddr_from_binary_prefix_def Let_def wp_bind wp_if
    by (auto intro!: slice_wpI memcpy_in_wpI)
  show ?thesis
    unfolding message_header_def wp_bind
    apply (rule get_u8_wpI [rotated], simp)
    apply (simp only: prod.case wp_bind)
    apply (rule get_u8_wpI [rotated], simp)
    apply (simp only: prod.case wp_bind)
    apply (rule get_u16_wpI [rotated], simp)
    apply (simp only: prod.case wp_bind Let_def wp_if)
    apply (intro if_bool_eq_conj [THEN iffD2] conjI impI)
     apply (simp add: al)
    apply (rule orig)
      apply (simp only: prod.case wp_bind)
      apply (rule opt)
      apply (simp only: prod.case wp_bind)
      apply (rule opt)
      apply (simp only: prod.case wp_bind)
      apply (rule opt16)
      apply (simp add: al)
     apply (rule al)
    apply (simp add: not_less) 
    apply blast
    done
qed

lemma wp_ifI: "(c \<Longrightarrow> wp a F Q) \<Longrightarrow> (\<not> c \<Longrightarrow> wp b F Q) \<Longrightarrow> wp (if c then a else b) F Q"
  by simp

lemma wp_case2I: "(\<And>a b. p = (a, b) \<Longrightarrow> wp (f a b) F Q) \<Longrightarrow> wp (case p of (a, b) \<Rightarrow> f a b) F Q"
  by (cases p) simp

definition reader_ok :: "'st rfc5444_reader \<Rightarrow> bool" where
  "reader_ok r \<longleftrightarrow> (\<forall>c\<in>set (rr_packet_consumer r) \<union> set (rr_message_consumer r). consumer_ok c)"

lemma message_cleanup_ok:
  assumes "message_cleanup parser start fin r m = (r', p', ctx', parser', st')" "reader_ok parser"
    "\<forall>c\<in>set (ms_consumers m). consumer_ok c"
  shows "reader_ok parser'"
  using assms by (auto simp: message_cleanup_def Let_def reader_ok_def)

lemma message_cleanup_wp:
  assumes "reader_ok parser" "\<forall>c\<in>set (ms_consumers m). consumer_ok c"
  shows "wp (Inr (message_cleanup parser start fin r m)) F (\<lambda>(r, p, ctx, parser', st). reader_ok parser')"
  using assms by (auto simp: message_cleanup_def Let_def reader_ok_def)

lemma handle_message_wp:
  assumes eob: "eob \<le> length buf" and rok: "reader_ok parser"
  shows "wp (handle_message parser ctx buf start eob st) packet_fault (\<lambda>(r, p, ctx, parser', st). reader_ok parser')"
proof -
  have cs: "\<forall>c\<in>set (rr_message_consumer parser). consumer_ok c" using rok by (simp add: reader_ok_def)
  show ?thesis
    unfolding handle_message_def Let_def
    apply (rule wp_bindI [OF message_header_safe [OF eob]])
    apply (simp only: split_paired_all prod.case)
    apply (rule wp_ifI)
     apply (rule message_cleanup_wp [OF rok], simp add: cs)
    apply (rule wp_ifI)
     apply (rule message_cleanup_wp [OF rok], simp add: cs)
    apply (unfold wp_bind)
    apply (rule parse_tlvblock_wpI)
      apply simp
     apply simp
    apply (simp only: prod.case)
    apply (rule wp_ifI)
     apply (rule message_cleanup_wp [OF rok], simp add: cs)
    apply (rule wp_bindI, rule message_blocks_wp)
      subgoal using eob by (auto simp: rfc5444_results split: if_splits)
     apply simp
    apply (simp only: split_paired_all prod.case)
    apply (rule wp_ifI)
     apply (rule message_cleanup_wp [OF rok], simp add: cs)
    apply (rule wp_bindI, rule message_consumers_wp [where F = packet_fault])
      subgoal using eob cs by (auto simp: msg_ok_def rfc5444_results not_less split: if_splits elim!: tlvblock_ok_tlvs)
     apply simp
    apply (simp only: split_paired_all prod.case)
    apply (rule wp_case2I)
    apply (rule message_cleanup_wp [OF rok])
    subgoal by (auto simp: msg_ok_def split: if_splits dest!: message_end_cbs_ok)
    done
qed

subsection \<open>Packets\<close>

lemma packet_messages_wp:
  assumes "eob \<le> length buf" "reader_ok parser"
  shows "wp (packet_messages parser ctx buf ptr eob st) packet_fault (\<lambda>(r, ctx, parser', st). reader_ok parser')"
  using assms
proof (induction parser ctx buf ptr eob st rule: packet_messages.induct)
  case (1 parser ctx buf ptr eob st)
  show ?case
  proof (cases "ptr < eob")
    case True
    note h = handle_message_wp [OF 1(2,3), of ctx ptr st]
    show ?thesis
    proof (cases "handle_message parser ctx buf ptr eob st")
      case (Inl e)
      with h True show ?thesis by (subst packet_messages.simps) simp
    next
      case (Inr x)
      obtain r p ctx' parser' st' where x: "x = (r, p, ctx', parser', st')" by (cases x)
      have ok: "reader_ok parser'" using h Inr x by simp
      show ?thesis
      proof (cases "r = RFC5444_OKAY")
        case r: True
        then obtain q where q: "p = Some q"
          using handle_message_progress [OF Inr [unfolded x r]] by auto
        show ?thesis
          using 1(1) [OF True Inr [unfolded x] refl refl refl refl _ q] 1(2) ok True Inr x q r
          by (subst packet_messages.simps) (auto elim!: wp_mono)
      next
        case False
        with True Inr x ok show ?thesis by (subst packet_messages.simps) simp
      qed
    qed
  qed (use 1(3) in \<open>subst packet_messages.simps, simp\<close>)
qed

lemma packet_consumer_wp:
  assumes "tlvs_ok (length buf) ts" "consumer_ok c"
  shows "wp (packet_consumer buf has_tlv c ctx ts st) F
    (\<lambda>(r, c', ctx', ts', st'). tlvs_ok (length buf) ts' \<and> consumer_ok c')"
  unfolding packet_consumer_def
  by (rule wp_case3I, rule wp_mono [OF schedule_or_skip_wp [OF assms]]) auto

lemma packet_consumers_wp:
  assumes "tlvs_ok (length buf) ts" "\<forall>c\<in>set cs. consumer_ok c" "\<forall>k\<in>set ks. k < length cs"
  shows "wp (packet_consumers buf has_tlv ks l cs ctx ts st) F
    (\<lambda>(r, l', cs', ctx', ts', st'). tlvs_ok (length buf) ts' \<and> (\<forall>c\<in>set cs'. consumer_ok c))"
  using assms
proof (induction ks arbitrary: l cs ctx ts st)
  case (Cons k ks)
  have c: "consumer_ok (cs ! k)" using Cons.prems(2,3) by simp
  show ?case
    unfolding packet_consumers.simps
  proof (rule wp_bindI [OF packet_consumer_wp [OF Cons.prems(1) c]], unfold split_paired_all prod.case, rule wp_ifI)
    fix r c' ctx' ts' and st'
    assume ok: "tlvs_ok (length buf) ts' \<and> consumer_ok (c' :: 'a rfc5444_reader_tlvblock_consumer)"
    then have cs: "\<forall>c\<in>set (cs[k := c']). consumer_ok c" using Cons.prems(2) by (intro set_update_ball) auto
    then show "wp (packet_consumers buf has_tlv ks k (cs[k := c']) ctx' ts' st') F
      (\<lambda>(r, l', cs', ctx', ts', st'). tlvs_ok (length buf) ts' \<and> (\<forall>c\<in>set cs'. consumer_ok c))"
      using ok Cons.prems(3) by (intro Cons.IH) auto
    show "wp (Inr (r, k, cs[k := c'], ctx', ts', st')) F
      (\<lambda>(r, l', cs', ctx', ts', st'). tlvs_ok (length buf) ts' \<and> (\<forall>c\<in>set cs'. consumer_ok c))"
      using ok cs by simp
  qed
qed simp

lemma packet_body_wp:
  assumes "reader_ok parser" "tlvs_ok (length buf) ts"
  shows "wp (packet_body parser ctx buf has_tlv ts ptr st) packet_fault (\<lambda>(r, parser', st). reader_ok parser')"
  unfolding packet_body_def Let_def
  apply (rule wp_bindI, rule packet_consumers_wp)
     apply (rule assms(2))
    subgoal using assms(1) by (simp add: reader_ok_def)
   apply simp
  apply (simp only: split_paired_all prod.case)
  subgoal for r l cs ctx' ts' st'
    apply (rule wp_bindI [where P = "\<lambda>(r, ctx, parser', st). reader_ok parser'"])
     apply (rule wp_ifI)
      subgoal using assms(1) by (auto simp: reader_ok_def)
     apply (rule packet_messages_wp)
      apply simp
     subgoal using assms(1) by (auto simp: reader_ok_def)
    apply (auto simp: reader_ok_def)
    done
  done

lemma handle_packet_wp:
  assumes "reader_ok parser"
  shows "wp (rfc5444_reader_handle_packet parser buf st) packet_fault (\<lambda>(r, parser', st). reader_ok parser')"
  unfolding rfc5444_reader_handle_packet_def Let_def
  apply (rule wp_ifI)
   subgoal using assms by simp
  apply (unfold wp_bind)
  apply (rule get_u8_wpI [rotated], simp)
  apply (simp only: prod.case)
  apply (rule wp_ifI)
   subgoal using assms by simp
  apply (rule wp_bindI [where P = "\<lambda>_. True"])
   apply (rule wp_ifI)
    apply (rule get_u16_wpI; simp)
   apply simp
  apply (simp only: split_paired_all prod.case)
  apply (rule wp_ifI)
   subgoal using assms by simp
  apply (rule wp_bindI [where P = "\<lambda>(r, ts, p, st). tlvs_ok (length buf) ts"])
   apply (rule wp_ifI)
    apply (rule parse_tlvblock_wpI)
      apply simp
     apply simp
    subgoal for b p e' a r2 aa r tb
      by (cases "r = RFC5444_OKAY") (auto simp: tlvs_ok_def dest: tlvblock_ok_tlvs [OF _ order_refl])
   apply (simp add: tlvs_ok_def)
  apply (simp only: split_paired_all prod.case)
  apply (rule wp_ifI)
   subgoal using assms by simp
  apply (rule packet_body_wp [OF assms], assumption)
  done

subsection \<open>Properties of the reader\<close>

lemma ucast_u8_u16_zero: "(ucast (w :: u8) :: u16) = 0 \<longleftrightarrow> w = 0"
  using unat_ucast_up [of w, where 'b = 16] by (auto simp: unat_eq_zero [symmetric])

text \<open>
  C4: the handling of a packet never uses a null pointer and never loops forever, whatever bytes are
  received and whatever the callbacks do: besides a result the only outcomes are a read beyond the
  packet, a write beyond the array of an address and a division by zero; and the consumers
  stay well-formed, so the next packet can be handled (the copy buffers of the consumer entries are as large
  as their maximal length before and after).
\<close>

theorem handle_packet_outcomes:
  assumes "reader_ok parser"
  shows "case rfc5444_reader_handle_packet parser buf st of
      Inl e \<Rightarrow> e \<in> {OOB_Read, OOB_Write, Div_By_Zero}
    | Inr (result, parser', st') \<Rightarrow> reader_ok parser'"
  using handle_packet_wp [OF assms, of buf st]
  by (auto simp: wp_def packet_fault_def split: sum.splits)

text \<open>A reader with one consumer that copies a value of at most two bytes and counts its callbacks.\<close>

definition example_consumer :: "bool \<Rightarrow> nat rfc5444_reader_tlvblock_consumer" where
  "example_consumer addr = \<lparr>co_id = 1, co_order = 0, co_default_msg_consumer = True, co_msg_id = 0,
     co_addrblock_consumer = addr, co_consumer_list = [],
     co_start_callback = Some (\<lambda>ctx n. (RFC5444_OKAY, False, n + 1)), co_end_callback = None,
     co_tlv_callback = None, co_block_callback = Some (\<lambda>ctx ces tlvs n. (RFC5444_OKAY, False, [], n + 100)),
     co_block_callback_failed_constraints = None\<rparr>"

definition example_entry :: rfc5444_reader_tlvblock_consumer_entry where
  "example_entry = \<lparr>ce_mandatory = True, ce_type = 1, ce_type_ext = 0, ce_match_type_ext = False,
     ce_min_length = 1, ce_max_length = 2, ce_match_length = True, ce_copy_value = Some [0, 0], ce_tlv = None,
     ce_drop = False\<rparr>"

definition example_reader :: "bool \<Rightarrow> nat rfc5444_reader" where
  "example_reader addr = rfc5444_reader_add_message_consumer
     (rfc5444_reader_init None None None None None (\<lambda>n. (True, n)) (\<lambda>n. (True, n)) id id)
     (example_consumer addr) [example_entry]"

lemma example_reader_ok: "reader_ok (example_reader addr)"
  by (simp add: reader_ok_def example_reader_def rfc5444_reader_add_message_consumer_def add_consumer_def
      rfc5444_reader_init_def example_consumer_def consumer_ok_def insert_entry_def fix_length_def
      example_entry_def ce_ok_def)

theorem handle_packet_outcomes_witness:
  "case rfc5444_reader_handle_packet (example_reader False) [0, 1, 3, 0, 10, 0, 4, 1, 0x10, 1, 9] 0 of
      Inl e \<Rightarrow> e \<in> {OOB_Read, OOB_Write, Div_By_Zero}
    | Inr (result, parser', st') \<Rightarrow> reader_ok parser'"
  using handle_packet_outcomes [OF example_reader_ok [of False]] .

text \<open>
  C5: scheduling the callbacks of a consumer over a TLV block is memory safe: when the values of the
  TLVs lie in the packet and the copy buffers of the entries are large enough, the loop over the two sorted
  lists ends without any fault, for every packet, callback and index, and keeps both conditions.
\<close>

theorem schedule_tlvblock_safe:
  assumes "tlvs_ok (length buf) entries" "consumer_ok consumer"
  shows "\<exists>r c' ctx' tlvs' st'. schedule_tlvblock buf consumer ctx entries idx st = Inr (r, c', ctx', tlvs', st') \<and>
    tlvs_ok (length buf) tlvs' \<and> consumer_ok c'"
  using wp_False_ex [OF schedule_tlvblock_wp [OF assms, of ctx idx st]] by auto

theorem schedule_tlvblock_safe_witness:
  "\<exists>r c' ctx' tlvs' st'. schedule_tlvblock [7, 8]
      ((example_consumer False)\<lparr>co_consumer_list := [example_entry]\<rparr>) tlvblock_context_zero
      [tlvblock_entry_zero\<lparr>te_type := 1, te_length := 2, te_value := Some 0, te_single_value := Some 0\<rparr>] 0 5 =
        Inr (r, c', ctx', tlvs', st') \<and> tlvs_ok (length ([7, 8] :: u8 list)) tlvs' \<and> consumer_ok c'"
  by (rule schedule_tlvblock_safe)
    (simp_all add: tlvs_ok_def tlv_value_ok_def tlvblock_entry_zero_def consumer_ok_def ce_ok_def example_entry_def)

text \<open>
  C6: the parser of a TLV block never reads outside the packet when its limit is inside it, and never
  loops forever: its only fault is the division by zero. On success the pointer has moved past the length field and stays
  within the limit, the TLVs are in the order of their types, the values of all the addresses they cover end before
  the limit and their index ranges are within the address block; on an error the tree is empty.
\<close>

theorem parse_tlvblock_safe:
  assumes "eob \<le> length buf"
  shows "case parse_tlvblock malloc free buf [] ptr eob addr_count st of
      Inl e \<Rightarrow> e = Div_By_Zero
    | Inr (result, tlvs, p, st') \<Rightarrow> result \<le> RFC5444_OKAY \<and> p \<le> eob \<and>
        (if result = RFC5444_OKAY then ptr + 2 \<le> p \<and> tlvblock_ok eob addr_count tlvs else tlvs = [])"
proof -
  have "wp (parse_tlvblock malloc free buf [] ptr eob addr_count st) (\<lambda>e. e = Div_By_Zero) (\<lambda>(result, tlvs, p, st').
      result \<le> RFC5444_OKAY \<and> p \<le> eob \<and>
        (if result = RFC5444_OKAY then ptr + 2 \<le> p \<and> tlvblock_ok eob addr_count tlvs else tlvs = []))"
    using assms by (intro parse_tlvblock_wpI) auto
  then show ?thesis by (cases "parse_tlvblock malloc free buf [] ptr eob addr_count st") auto
qed

theorem parse_tlvblock_safe_witness:
  "case parse_tlvblock (\<lambda>n. (True, n + 1)) id [0, 3, 1, 0x10, 1, 9] [] 0 6 0 (0 :: nat) of
      Inl e \<Rightarrow> e = Div_By_Zero
    | Inr (result, tlvs, p, st') \<Rightarrow> result \<le> RFC5444_OKAY \<and> p \<le> 6 \<and>
        (if result = RFC5444_OKAY then 0 + 2 \<le> p \<and> tlvblock_ok 6 0 tlvs else tlvs = [])"
  by (rule parse_tlvblock_safe) simp

text \<open>
  C7: the parser of an address block is memory safe when at least one byte follows the message in the packet
  and the address length is at most sixteen; on success it
  has moved on by at least two bytes and the middle parts and prefix lengths of all its addresses are inside the message.
\<close>

theorem parse_addrblock_safe:
  assumes "eob < length buf" "addr_len \<le> 16"
  shows "\<exists>result a p. parse_addrblock buf addr_len addrblock_entry_zero ptr eob = Inr (result, a, p) \<and>
    result \<le> RFC5444_OKAY \<and> (result = RFC5444_OKAY \<longrightarrow> ptr + 2 \<le> p \<and> p \<le> eob \<and> addrblock_ok eob a)"
proof -
  have "wp (parse_addrblock buf addr_len addrblock_entry_zero ptr eob) (\<lambda>_. False) (\<lambda>(result, a, p).
      result \<le> RFC5444_OKAY \<and> (result = RFC5444_OKAY \<longrightarrow> ptr + 2 \<le> p \<and> p \<le> eob \<and> addrblock_ok eob a))"
    using assms by (intro parse_addrblock_wpI) (auto simp: addrblock_entry_zero_def word_le_nat_alt)
  from wp_False_ex [OF this] show ?thesis by auto
qed

theorem parse_addrblock_safe_witness:
  "\<exists>result a p. parse_addrblock [1, 0x10, 10, 0, 0, 1, 24, 0, 0] 4 addrblock_entry_zero 0 7 = Inr (result, a, p) \<and>
    result \<le> RFC5444_OKAY \<and> (result = RFC5444_OKAY \<longrightarrow> 0 + 2 \<le> p \<and> p \<le> 7 \<and> addrblock_ok 7 a)"
  by (rule parse_addrblock_safe) simp_all

text \<open>
  C8: a message that is handled without an error is at least six bytes long and ends inside the packet, so the
  loop over the messages of a packet terminates: every iteration consumes at least six bytes.
\<close>

theorem handle_message_consumes:
  assumes "handle_message parser ctx buf start eob st = Inr (RFC5444_OKAY, p, ctx', parser', st')"
  shows "\<exists>e. p = Some e \<and> start + 6 \<le> e \<and> e \<le> eob"
  using assms by (rule handle_message_progress)

definition empty_reader :: "nat rfc5444_reader" where
  "empty_reader = rfc5444_reader_init None None None None None (\<lambda>n. (True, n)) (\<lambda>n. (True, n)) id id"

theorem handle_message_consumes_witness:
  "\<exists>e. Some 6 = Some e \<and> 0 + 6 \<le> e \<and> e \<le> (7 :: nat)"
proof (rule handle_message_consumes)
  show "handle_message empty_reader tlvblock_context_zero [3, 0, 0, 6, 0, 0, 9] 0 7 0 =
    Inr (RFC5444_OKAY, Some 6, tlvblock_context_zero\<lparr>tc_msg_type := 3, tc_addr_len := 1, tc_msg_size := 6\<rparr>, empty_reader, 0)"
    by (simp add: handle_message_def message_header_def rfc5444_get_u16_def rfc5444_get_u8_def rfc5444_results
        rfc5444_flags Let_def message_originator_def opt_u8_def tlvblock_context_zero_def parse_tlvblock_def
        tlvblock_loop.simps message_blocks.simps empty_reader_def rfc5444_reader_init_def message_end_cbs_def
        message_cleanup_def)
qed

text \<open>
  C13: a multivalue TLV with a value in a packet or message TLV block (which has no addresses, so the number of
  values is computed as zero) divides by zero, whatever its type and value.
\<close>

theorem multivalue_message_tlv_divides_by_zero:
  assumes "0 < len" "unat len \<le> length value"
  shows "parse_tlv (type # 0x14 # len # value) entry 0 (3 + length value) 0 = Inl Div_By_Zero"
  using assms ucast_u8_u16_zero [of len]
  by (auto simp: parse_tlv_def rfc5444_get_u8_def rd_def parse_tlv_index_def parse_tlv_length_def parse_tlv_value_def
      rfc5444_results rfc5444_flags Let_def tlv_count_def unat_ucast_up)

theorem multivalue_message_tlv_divides_by_zero_witness:
  "parse_tlv [4, 0x14, 1, 9] tlvblock_entry_zero 0 4 0 = Inl Div_By_Zero"
  using multivalue_message_tlv_divides_by_zero [of 1 "[9]" 4 tlvblock_entry_zero] by simp

text \<open>
  C15: an address block with a single prefix length whose addresses end exactly at the end of the packet
  reads the prefix length beyond the packet: the pointer is checked after the read.
\<close>

theorem prefix_length_read_past_end:
  assumes "num \<noteq> 0" "length addrs = 4 * unat num"
  shows "parse_addrblock (num # 0x10 # addrs) 4 addrblock_entry_zero 0 (2 + length addrs) = Inl OOB_Read"
  using assms
  by (auto simp: parse_addrblock_def rfc5444_get_u8_def rd_def set_prefix_def rfc5444_results rfc5444_flags Let_def)

theorem prefix_length_read_past_end_witness:
  "parse_addrblock [1, 0x10, 10, 0, 0, 1] 4 addrblock_entry_zero 0 6 = Inl OOB_Read"
  using prefix_length_read_past_end [of 1 "[10, 0, 0, 1]"] by simp

text \<open>
  C14: the length of a zero tail is not compared with the length of an address: with four byte addresses a
  tail of 5 to 243 zero bytes is accepted, the length of the middle part wraps around, and assembling the first address
  writes beyond the sixteen bytes of the array.
\<close>

theorem zero_tail_overflows_address:
  assumes "4 < tail_len" "tail_len < 244" "length rest = 255"
  shows "\<exists>a p. parse_addrblock ([1, 0x20, tail_len] @ rest) 4 addrblock_entry_zero 0 258 = Inr (RFC5444_OKAY, a, p) \<and>
    msgaddr_address ([1, 0x20, tail_len] @ rest) consumer ctx a 0 st = Inl OOB_Write"
proof -
  have "unat tail_len > 4" "unat tail_len < 244" using assms(1,2) by (simp_all add: word_less_nat_alt)
  then have u: "unat (4 - tail_len) = 260 - unat tail_len"
    by (simp add: unat_sub_if_size word_size)
  have big: "\<not> 260 - unat tail_len \<le> 16" using \<open>unat tail_len < 244\<close> by simp
  define a where "a = addrblock_entry_zero\<lparr>ab_addr_block_ptr := 0, ab_num_addr := 1, ab_addr := replicate 16 0,
      ab_mid_len := 4 - tail_len, ab_mid_src := 3, ab_prefixlen := 32, ab_addr_block_size := 3 + unat (4 - tail_len)\<rparr>"
  have "parse_addrblock ([1, 0x20, tail_len] @ rest) 4 addrblock_entry_zero 0 258 =
      Inr (RFC5444_OKAY, a, 3 + unat (4 - tail_len))"
    using assms(3) \<open>unat tail_len > 4\<close>
    by (simp add: parse_addrblock_def rfc5444_get_u8_def rd_def set_prefix_def rfc5444_results rfc5444_flags Let_def u a_def
        addrblock_entry_zero_def RFC5444_MAX_ADDRLEN_def)
  moreover have "msgaddr_address ([1, 0x20, tail_len] @ rest) consumer ctx a 0 st = Inl OOB_Write"
    using assms(3) \<open>unat tail_len > 4\<close> big
    by (simp add: msgaddr_address_def a_def addrblock_entry_zero_def bitmap256_get_def bitmap256_zero_def u slice_def memcpy_in_def)
  ultimately show ?thesis by blast
qed

theorem zero_tail_overflows_address_witness:
  "\<exists>a p. parse_addrblock ([1, 0x20, 5] @ replicate 255 0) 4 addrblock_entry_zero 0 258 = Inr (RFC5444_OKAY, a, p) \<and>
    msgaddr_address ([1, 0x20, 5] @ replicate 255 0) (example_consumer True) tlvblock_context_zero a 0 0 = Inl OOB_Write"
  by (rule zero_tail_overflows_address) simp_all

text \<open>
  A TLV without a value keeps the pointer to a value that the entry it is parsed into holds, which is that of the TLV before it (the
  interface promises a null pointer for a length of zero): the entry is not cleared between the TLVs.
\<close>

lemma parse_tlv_value_empty:
  "parse_tlv_value e ptr eob r = Inr (RFC5444_OKAY, t, p) \<Longrightarrow> te_value t = None \<Longrightarrow>
    te_length t = 0 \<and> te_single_value t = te_single_value e"
  by (auto simp: parse_tlv_value_def Let_def rfc5444_results split: if_splits)

lemma empty_tlv_keeps_stale_value:
  assumes "parse_tlv buf entry ptr eob ac = Inr (RFC5444_OKAY, t, p)" "te_value t = None"
  shows "te_length t = 0 \<and> te_single_value t = te_single_value entry"
proof -
  let ?Q = "\<lambda>(r, t, p). r = RFC5444_OKAY \<longrightarrow> te_value t = None \<longrightarrow> te_length t = 0 \<and> te_single_value t = te_single_value entry"
  have val: "wp (parse_tlv_value e q eob r) (\<lambda>_. True) ?Q" if "te_single_value e = te_single_value entry" for e q r
    using that parse_tlv_value_empty [of e q eob r] by (cases "parse_tlv_value e q eob r") auto
  have err: "wp (Inr (r, x)) (\<lambda>_. True) ?Q" if "r < RFC5444_OKAY" for r x
    using that by (cases x) simp
  have neg: "RFC5444_BAD_TLV_IDXFLAGS < RFC5444_OKAY" "RFC5444_BAD_TLV_INDEX < RFC5444_OKAY" "RFC5444_BAD_TLV_VALUEFLAGS < RFC5444_OKAY"
    by (simp_all add: rfc5444_results)
  have "wp (parse_tlv buf entry ptr eob ac) (\<lambda>_. True) ?Q"
    unfolding parse_tlv_def Let_def wp_bind
    apply (rule wp_anyI, rule wp_case3I, unfold wp_bind)
    apply (rule wp_anyI, rule wp_case3I, unfold wp_bind)
    apply (rule wp_anyI, rule wp_case3I, unfold wp_bind)
    apply (rule wp_anyI)
    subgoal for _ _ _ _ _ _ _ _ _ _ _ _ idx
      apply (cases idx; simp only: option.case)
       apply (rule err, rule neg)
      apply (simp only: split_paired_all prod.case)
      apply (rule wp_ifI)
       apply (rule err, rule neg)
      apply (unfold wp_bind, rule wp_anyI)
      subgoal for _ _ _ _ len
        by (cases len; simp only: option.case split_paired_all prod.case)
          (rule err, rule neg, rule val, simp)
      done
    done
  with assms show ?thesis by simp
qed

lemma compare_tlvtypes_keys [simp]:
  "compare_tlvtypes (Some (multivalue_ptr t i)) ce = compare_tlvtypes (Some t) ce"
  "compare_tlvtypes (Some (t\<lparr>te_next_entry := n\<rparr>)) ce = compare_tlvtypes (Some t) ce"
  "compare_tlvtypes x (Some (c\<lparr>ce_tlv := y\<rparr>)) = compare_tlvtypes x (Some c)"
  "compare_tlvtypes None (Some c) = 1"
  by (auto simp: compare_tlvtypes_def calc_tlvconsumer_intorder_def split: option.splits)







end
