(* ===== verification/Rfc5444_Reader_Memory.thy ===== *)
theory Rfc5444_Reader_Memory
  imports Rfc5444_Reader_Safety
begin

section \<open>The memory of the reader (librfc5444/rfc5444_reader)\<close>

text \<open>
  What the reader allocates while it handles a packet: entries for TLVs and for address blocks, with functions of the client that
  may fail. Two functions read the numbers of allocated entries from the state of the client; a packet leaves both as they were,
  and a message that does not parse reaches no callback.
\<close>

subsection \<open>Callbacks that do not allocate\<close>

definition callbacks_keep :: "('st \<Rightarrow> 'a) \<Rightarrow> 'st rfc5444_reader_tlvblock_consumer \<Rightarrow> bool" where
  "callbacks_keep f c \<longleftrightarrow>
     (\<forall>cb. co_start_callback c = Some cb \<longrightarrow> (\<forall>ctx st. f (snd (snd (cb ctx st))) = f st)) \<and>
     (\<forall>cb. co_end_callback c = Some cb \<longrightarrow> (\<forall>ctx d st. f (snd (snd (cb ctx d st))) = f st)) \<and>
     (\<forall>cb. co_tlv_callback c = Some cb \<longrightarrow> (\<forall>tlv ctx st. f (snd (snd (cb tlv ctx st))) = f st)) \<and>
     (\<forall>cb. co_block_callback c = Some cb \<or> co_block_callback_failed_constraints c = Some cb \<longrightarrow>
        (\<forall>ctx ces tlvs st. f (snd (snd (snd (cb ctx ces tlvs st)))) = f st))"

lemma callbacks_keepD:
  assumes "callbacks_keep f c"
  shows "co_start_callback c = Some sc \<Longrightarrow> sc ctx st = (r, d, st') \<Longrightarrow> f st' = f st"
    and "co_end_callback c = Some ec \<Longrightarrow> ec ctx b st = (r, d, st') \<Longrightarrow> f st' = f st"
    and "co_tlv_callback c = Some tc \<Longrightarrow> tc tlv ctx st = (r, d, st') \<Longrightarrow> f st' = f st"
    and "co_block_callback c = Some bc \<Longrightarrow> bc ctx ces tlvs st = (r, d, ds, st') \<Longrightarrow> f st' = f st"
    and "co_block_callback_failed_constraints c = Some bc \<Longrightarrow> bc ctx ces tlvs st = (r, d, ds, st') \<Longrightarrow> f st' = f st"
  using assms unfolding callbacks_keep_def by (metis snd_conv)+

lemma callbacks_keep_list [simp]: "callbacks_keep f (c\<lparr>co_consumer_list := l\<rparr>) = callbacks_keep f c"
  by (simp add: callbacks_keep_def)

lemma call_start_keeps: "callbacks_keep f c \<Longrightarrow> call_start c ctx st = (r, ctx', st') \<Longrightarrow> f st' = f st"
  by (auto simp: call_start_def Let_def split: option.splits prod.splits dest: callbacks_keepD(1))

lemma call_end_keeps: "callbacks_keep f c \<Longrightarrow> call_end c ctx r0 st = (r, ctx', st') \<Longrightarrow> f st' = f st"
  by (auto simp: call_end_def Let_def split: option.splits prod.splits dest: callbacks_keepD(2))

lemma sched_callback_keeps:
  "callbacks_keep f c \<Longrightarrow> sched_tlv_callback c idx s = (r, m, s') \<Longrightarrow> f (ss_st s') = f (ss_st s)"
  by (auto simp: sched_tlv_callback_def Let_def split: option.splits prod.splits if_splits dest: callbacks_keepD(3))

lemma sched_match_st: "sched_match buf ti ci s = Inr s' \<Longrightarrow> ss_st s' = ss_st s \<and> length (ss_tlvs s') = length (ss_tlvs s)"
  by (auto simp: sched_match_def Let_def bind_f_eq_Inr split: option.splits)

lemma sched_advance_st:
  assumes "sched_advance buf m s = Inr s'"
  shows "ss_st s' = ss_st s \<and> length (ss_tlvs s') = length (ss_tlvs s)"
proof -
  define first where "first = (if compare_tlvtypes (nth_opt (ss_tlvs s) (ss_tlv s)) (nth_opt (ss_ces s) (ss_ce s)) \<ge> 0
           then (case nth_opt (ss_ces s) (ss_ce s) of
                   None \<Rightarrow> Inl Null_Deref
                 | Some c \<Rightarrow>
                     let s' = s\<lparr>ss_failed := ss_failed s \<or> (ce_mandatory c \<and> \<not> m)\<rparr>
                     in if m then sched_match buf (ss_tlv s) (ss_ce s) s' else Inr s')
           else Inr s)"
  obtain s1 where s1: "first = Inr s1"
    using assms unfolding sched_advance_def Let_def first_def [unfolded Let_def, symmetric] by (auto simp: bind_f_eq_Inr)
  have "ss_st s1 = ss_st s \<and> length (ss_tlvs s1) = length (ss_tlvs s)"
    using s1 by (auto simp: first_def Let_def split: option.splits if_splits dest!: sched_match_st)
  moreover have "ss_st s' = ss_st s1 \<and> length (ss_tlvs s') = length (ss_tlvs s1)"
    using assms s1 unfolding sched_advance_def Let_def first_def [unfolded Let_def, symmetric]
    by (auto split: option.splits if_splits)
  ultimately show ?thesis by simp
qed

lemma sched_loop_keeps:
  assumes "callbacks_keep f c" "sched_loop buf c idx s = Inr (r, s')"
  shows "f (ss_st s') = f (ss_st s) \<and> length (ss_tlvs s') = length (ss_tlvs s)"
  using assms
proof (induction buf c idx s rule: sched_loop.induct)
  case (1 buf c idx s)
  show ?case
  proof (cases "sched_more s")
    case True
    obtain r1 s1 where it: "sched_iter buf c idx s = Inr (r1, s1)"
      using 1(3) True by (subst (asm) sched_loop.simps) (auto split: sum.splits)
    have k: "f (ss_st s1) = f (ss_st s) \<and> length (ss_tlvs s1) = length (ss_tlvs s)"
      using it sched_tlv_callback_frame(1) [of c idx s] sched_callback_keeps [OF 1(2), of idx s]
      by (auto simp: sched_iter_def bind_f_eq_Inr split: prod.splits if_splits dest!: sched_advance_st)
    show ?thesis
      using 1(1) [OF True it refl] 1(2,3) True it k by (subst (asm) (2) sched_loop.simps) (auto split: if_splits)
  qed (use 1(3) in \<open>subst (asm) sched_loop.simps, simp\<close>)
qed

lemma drop_tlvs_length: "drop_tlvs idx ces tlvs = (ces', tlvs') \<Longrightarrow> length tlvs' = length tlvs"
  by (induction idx ces tlvs arbitrary: ces' tlvs' rule: drop_tlvs.induct)
    (auto split: option.splits if_splits prod.splits)

lemma sched_finish_keeps:
  "callbacks_keep f c \<Longrightarrow> sched_finish c idx s = (r, s') \<Longrightarrow> f (ss_st s') = f (ss_st s) \<and> length (ss_tlvs s') = length (ss_tlvs s)"
  by (auto simp: sched_finish_def Let_def split: option.splits if_splits prod.splits
      dest: callbacks_keepD(4,5) drop_tlvs_length)

lemma schedule_tlvblock_keeps:
  assumes k: "callbacks_keep f c" and s: "schedule_tlvblock buf c ctx entries idx st = Inr (r, c', ctx', tlvs', st')"
  shows "f st' = f st \<and> length tlvs' = length entries \<and> callbacks_keep f c'"
proof -
  obtain r1 s1 where l: "sched_loop buf c idx
               \<lparr>ss_tlvs = entries, ss_tlv = 0, ss_ces = reset_entry (co_consumer_list c) 0, ss_ce = 0,
                ss_ctx = ctx, ss_st = st, ss_failed = False\<rparr> = Inr (r1, s1)"
    using s by (auto simp: schedule_tlvblock_def bind_f_eq_Inr)
  from sched_loop_keeps [OF k l] s l k sched_finish_keeps [OF k, of idx s1] show ?thesis
    by (auto simp: schedule_tlvblock_def split: if_splits prod.splits)
qed

subsection \<open>The consumers of a message\<close>

definition tlv_counts :: "rfc5444_reader_addrblock_entry list \<Rightarrow> nat list" where
  "tlv_counts = map (\<lambda>a. length (ab_tlvblock a))"

lemma msgaddr_address_keeps:
  assumes k: "callbacks_keep f c" and s: "msgaddr_address buf c ctx a i st = Inr (r, c', ctx', a', st')"
  shows "f st' = f st \<and> callbacks_keep f c' \<and> length (ab_tlvblock a') = length (ab_tlvblock a)"
proof -
  let ?Q = "\<lambda>(r, c', ctx', a', st'). f st' = f st \<and> callbacks_keep f c' \<and> length (ab_tlvblock a') = length (ab_tlvblock a)"
  have sched: "wp (if b then schedule_tlvblock buf c ctx1 ts i st1 else Inr (r1, c, ctx1, ts, st1)) (\<lambda>_. True)
      (\<lambda>(r, c', ctx', tlvs', st'). f st' = f st1 \<and> length tlvs' = length ts \<and> callbacks_keep f c')" for b ctx1 ts st1 r1
    using k schedule_tlvblock_keeps [OF k, of buf ctx1 ts i st1]
    by (cases "schedule_tlvblock buf c ctx1 ts i st1") (auto split: if_splits)
  have fin: "wp (case call_end c2 ctx2 r2 st2 of (result, ctx, st) \<Rightarrow>
       if result = RFC5444_DROP_ADDRESS then Inr (RFC5444_OKAY, c2, ctx, a2\<lparr>ab_dropAddr := d\<rparr>, st)
       else Inr (result, c2, ctx, a2, st)) (\<lambda>_. True) ?Q"
    if "callbacks_keep f c2" "f st2 = f st" "length (ab_tlvblock a2) = length (ab_tlvblock a)" for c2 ctx2 r2 st2 a2 d
    using that call_end_keeps [OF that(1)] by (auto split: prod.splits)
  have "wp (msgaddr_address buf c ctx a i st) (\<lambda>_. True) ?Q"
    unfolding msgaddr_address_def Let_def wp_if wp_bind
    apply (intro if_bool_eq_conj [THEN iffD2] conjI impI)
     apply (simp add: k)
    apply (rule wp_anyI, rule wp_anyI, rule wp_anyI, rule wp_anyI)
    apply (rule wp_case2I)
    apply (rule wp_case3I)
    apply (simp only: wp_bind)
    apply (rule wp_mono, rule sched, assumption)
    apply (clarsimp simp only: prod.case)
    apply (rule fin)
      apply (auto dest: call_start_keeps [OF k])
    done
  with s show ?thesis by simp
qed

lemma msgaddr_addresses_keeps:
  assumes "callbacks_keep f c" "msgaddr_addresses buf c ctx a is st = Inr (r, c', ctx', a', st')"
  shows "f st' = f st \<and> callbacks_keep f c' \<and> length (ab_tlvblock a') = length (ab_tlvblock a)"
  using assms
proof (induction "is" arbitrary: c ctx a st)
  case (Cons i "is")
  obtain r1 c1 ctx1 a1 st1 where m: "msgaddr_address buf c ctx a (of_nat i) st = Inr (r1, c1, ctx1, a1, st1)"
    using Cons.prems(2) by (auto simp: bind_f_eq_Inr)
  note k = msgaddr_address_keeps [OF Cons.prems(1) m]
  with Cons.prems m Cons.IH [of c1 ctx1 a1 st1] show ?case by (auto split: if_splits)
qed simp

lemma msgaddr_blocks_keeps:
  assumes "callbacks_keep f c" "msgaddr_blocks buf c ctx as st = Inr (r, c', ctx', as', st')"
  shows "f st' = f st \<and> callbacks_keep f c' \<and> tlv_counts as' = tlv_counts as"
  using assms
proof (induction "as" arbitrary: c ctx st as' r c' ctx' st')
  case (Cons a "as")
  let ?ctx = "ctx\<lparr>tc_addr_block_buffer := Some (ab_addr_block_ptr a),
                    tc_addr_block_size := ab_addr_block_size a, tc_addr_tlv_size := ab_addr_tlv_size a\<rparr>"
  obtain r1 c1 ctx1 a1 st1 where
    m: "msgaddr_addresses buf c ?ctx a [0..<unat (ab_num_addr a)] st = Inr (r1, c1, ctx1, a1, st1)"
    using Cons.prems(2) by (auto simp: bind_f_eq_Inr)
  note k = msgaddr_addresses_keeps [OF Cons.prems(1) m]
  with Cons.prems m Cons.IH [of c1 ctx1 st1] show ?case
    by (auto simp: bind_f_eq_Inr tlv_counts_def split: if_splits)
qed simp

definition consumers_keep :: "('st \<Rightarrow> 'a) \<Rightarrow> 'st rfc5444_reader_tlvblock_consumer list \<Rightarrow> bool" where
  "consumers_keep f cs \<longleftrightarrow> (\<forall>c\<in>set cs. callbacks_keep f c)"

text \<open>What the cleanup of a message depends on.\<close>

definition same_memory :: "('st \<Rightarrow> 'a) \<Rightarrow> 'st msg \<Rightarrow> 'st msg \<Rightarrow> bool" where
  "same_memory f m m' \<longleftrightarrow> f (ms_st m') = f (ms_st m) \<and> length (ms_tlvs m') = length (ms_tlvs m) \<and>
     tlv_counts (ms_addrs m') = tlv_counts (ms_addrs m) \<and> consumers_keep f (ms_consumers m') \<and>
     length (ms_consumers m') = length (ms_consumers m)"

lemma same_memory_trans: "same_memory f m1 m2 \<Longrightarrow> same_memory f m2 m3 \<Longrightarrow> same_memory f m1 m3"
  by (simp add: same_memory_def)

lemma consumers_keep_update: "consumers_keep f cs \<Longrightarrow> callbacks_keep f c \<Longrightarrow> consumers_keep f (cs[k := c])"
  unfolding consumers_keep_def by (rule set_update_ball)

lemma message_consumer_keeps:
  assumes k: "consumers_keep f (ms_consumers m)" "k < length (ms_consumers m)"
    and s: "message_consumer buf k m = Inr (r, m')"
  shows "same_memory f m m'"
proof -
  have c: "callbacks_keep f (ms_consumers m ! k)" using k by (simp add: consumers_keep_def)
  show ?thesis
    using s k(1) c msgaddr_blocks_keeps [OF c] schedule_tlvblock_keeps [OF c] call_start_keeps [OF c]
    by (fastforce simp: message_consumer_def Let_def bind_f_eq_Inr schedule_msgaddr_consumer_def schedule_msgtlv_consumer_def
        same_memory_def intro!: consumers_keep_update split: if_splits prod.splits)
qed

lemma end_message_loop_keeps:
  "consumers_keep f cs \<Longrightarrow> end_message_loop cs ctx r0 st = (r, ctx', st') \<Longrightarrow> f st' = f st"
  by (induction cs arbitrary: ctx r0 st)
    (auto simp: consumers_keep_def split: if_splits prod.splits dest: call_end_keeps)

lemma message_end_cbs_keeps:
  assumes "consumers_keep f (ms_consumers m)" "message_end_cbs r0 m = (r, m')"
  shows "same_memory f m m' \<and> ms_consumers m' = ms_consumers m"
proof -
  have "consumers_keep f (rev (take n (drop k (ms_consumers m))))" for n k
    using assms(1) by (auto simp: consumers_keep_def dest: in_set_takeD in_set_dropD)
  from end_message_loop_keeps [OF this] assms show ?thesis
    by (auto simp: message_end_cbs_def schedule_end_message_cbs_def same_memory_def split: option.splits prod.splits)
qed

lemma message_consumers_keeps:
  assumes "consumers_keep f (ms_consumers m)" "\<forall>k\<in>set ks. k < length (ms_consumers m)"
    and "message_consumers buf ks m = Inr (b, r, m')"
  shows "same_memory f m m'"
  using assms
proof (induction ks arbitrary: m)
  case (Cons k ks)
  let ?c = "ms_consumers m ! k"
  let ?no = "ms_first m \<noteq> None \<and> co_order ?c > co_order (ms_consumers m ! ms_last m)"
  let ?skip = "\<not> co_default_msg_consumer ?c \<and> co_msg_id ?c \<noteq> tc_msg_type (ms_ctx m)"
  obtain r1 m1 where e: "(if ?no then message_end_cbs RFC5444_OKAY m else (RFC5444_OKAY, m)) = (r1, m1)" by fastforce
  then have m1: "same_memory f m m1" "ms_consumers m1 = ms_consumers m"
    using Cons.prems(1) by (auto simp: same_memory_def split: if_splits dest: message_end_cbs_keeps)
  define m2 where "m2 = (if ?no then m1\<lparr>ms_first := None\<rparr> else m1)"
  have m2: "same_memory f m m2" "ms_consumers m2 = ms_consumers m" using m1 by (auto simp: m2_def same_memory_def)
  show ?case
  proof (cases "?skip \<or> r1 \<noteq> RFC5444_OKAY")
    case True
    then show ?thesis using Cons.IH [OF Cons.prems(1)] Cons.prems(2,3) e m1 by (auto simp: Let_def split: if_splits)
  next
    case False
    then have "bind_f (message_consumer buf k m2) (\<lambda>(result, m).
       if result \<noteq> RFC5444_OKAY then Inr (False, result, m) else message_consumers buf ks m) = Inr (b, r, m')"
      using Cons.prems(3) e by (auto simp: Let_def m2_def)
    then obtain r3 m3 where m3: "message_consumer buf k m2 = Inr (r3, m3)"
      "(if r3 \<noteq> RFC5444_OKAY then Inr (False, r3, m3) else message_consumers buf ks m3) = Inr (b, r, m')"
      by (auto simp: bind_f_eq_Inr)
    have s3: "same_memory f m2 m3"
      using message_consumer_keeps [OF _ _ m3(1)] m2(2) Cons.prems(1,2) by auto
    have "same_memory f m3 m'"
    proof (cases "r3 = RFC5444_OKAY")
      case True
      with m3(2) s3 m2(2) Cons.prems(2) show ?thesis by (intro Cons.IH) (auto simp: same_memory_def)
    next
      case False
      with m3(2) s3 show ?thesis by (simp add: same_memory_def)
    qed
    with m2(1) s3 show ?thesis by (blast intro: same_memory_trans)
  qed
qed (simp add: same_memory_def)

subsection \<open>Allocated structures\<close>

text \<open>
  \<open>nt\<close> and \<open>na\<close> read the number of allocated TLV entries and address block entries from the state of the client. The
  allocation functions may fail, and then leave the numbers alone; no other callback of the client changes them.
\<close>

definition counts_memory :: "('st \<Rightarrow> int) \<Rightarrow> ('st \<Rightarrow> int) \<Rightarrow> 'st rfc5444_reader \<Rightarrow> bool" where
  "counts_memory nt na p \<longleftrightarrow>
     (\<forall>st. case rr_malloc_tlvblock_entry p st of (ok, st') \<Rightarrow> nt st' = nt st + of_bool ok \<and> na st' = na st) \<and>
     (\<forall>st. case rr_malloc_addrblock_entry p st of (ok, st') \<Rightarrow> nt st' = nt st \<and> na st' = na st + of_bool ok) \<and>
     (\<forall>st. nt (rr_free_tlvblock_entry p st) = nt st - 1 \<and> na (rr_free_tlvblock_entry p st) = na st) \<and>
     (\<forall>st. nt (rr_free_addrblock_entry p st) = nt st \<and> na (rr_free_addrblock_entry p st) = na st - 1) \<and>
     (\<forall>f ctx start len st. rr_forward_message p = Some f \<longrightarrow> nt (f ctx start len st) = nt st \<and> na (f ctx start len st) = na st) \<and>
     consumers_keep (\<lambda>st. (nt st, na st)) (rr_packet_consumer p) \<and>
     consumers_keep (\<lambda>st. (nt st, na st)) (rr_message_consumer p)"

lemma counts_memoryD:
  assumes "counts_memory nt na p"
  shows "rr_malloc_tlvblock_entry p st = (ok, st') \<Longrightarrow> nt st' = nt st + of_bool ok \<and> na st' = na st"
    and "rr_malloc_addrblock_entry p st = (ok, st') \<Longrightarrow> nt st' = nt st \<and> na st' = na st + of_bool ok"
    and "nt (rr_free_tlvblock_entry p st) = nt st - 1 \<and> na (rr_free_tlvblock_entry p st) = na st"
    and "nt (rr_free_addrblock_entry p st) = nt st \<and> na (rr_free_addrblock_entry p st) = na st - 1"
    and "rr_forward_message p = Some f \<Longrightarrow> nt (f ctx start len st) = nt st \<and> na (f ctx start len st) = na st"
    and "consumers_keep (\<lambda>st. (nt st, na st)) (rr_packet_consumer p)"
    and "consumers_keep (\<lambda>st. (nt st, na st)) (rr_message_consumer p)"
  using assms unfolding counts_memory_def by (fastforce split: prod.splits)+

lemma counts_memory_consumers:
  "counts_memory nt na p \<Longrightarrow> consumers_keep (\<lambda>st. (nt st, na st)) cs \<Longrightarrow> counts_memory nt na (p\<lparr>rr_message_consumer := cs\<rparr>)"
  "counts_memory nt na p \<Longrightarrow> consumers_keep (\<lambda>st. (nt st, na st)) cs \<Longrightarrow> counts_memory nt na (p\<lparr>rr_packet_consumer := cs\<rparr>)"
  by (simp_all add: counts_memory_def)

lemma free_tlvblock_counts:
  assumes "counts_memory nt na p"
  shows "nt (free_tlvblock (rr_free_tlvblock_entry p) tlvs st) = nt st - int (length tlvs) \<and>
    na (free_tlvblock (rr_free_tlvblock_entry p) tlvs st) = na st"
  by (induction tlvs arbitrary: st) (simp_all add: counts_memoryD(3) [OF assms])

lemma free_addrblocks_counts:
  assumes "counts_memory nt na p"
  shows "nt (free_addrblocks p as st) = nt st - int (sum_list (tlv_counts as)) \<and>
    na (free_addrblocks p as st) = na st - int (length as)"
  by (induction "as" arbitrary: st)
    (simp_all add: tlv_counts_def counts_memoryD(4) [OF assms] free_tlvblock_counts [OF assms])

lemma tree_insert_dup_length: "length (tree_insert_dup cmp xs x) = Suc (length xs)"
  by (induction xs) auto

lemma tlvblock_loop_counts:
  assumes "counts_memory nt na p"
    and "tlvblock_loop (rr_malloc_tlvblock_entry p) buf fin eob ac e tb ptr st = Inr (r, tb', ptr', st')"
  shows "nt st' = nt st + int (length tb') - int (length tb) \<and> na st' = na st"
  using assms(2)
proof (induction "rr_malloc_tlvblock_entry p" buf fin eob ac e tb ptr st rule: tlvblock_loop.induct)
  case (1 buf fin eob ac e tb ptr st)
  show ?case
  proof (cases "ptr < fin")
    case True
    then obtain r1 e1 p1 where t: "parse_tlv buf e ptr eob ac = Inr (r1, e1, p1)"
      using 1(2) by (subst (asm) tlvblock_loop.simps) (auto split: sum.splits)
    obtain b st1 where m: "rr_malloc_tlvblock_entry p st = (b, st1)" by fastforce
    note c = counts_memoryD(1) [OF assms(1) m]
    show ?thesis
    proof (cases "r1 = RFC5444_OKAY \<and> b")
      case ok: True
      then have "tlvblock_loop (rr_malloc_tlvblock_entry p) buf fin eob ac e1 (tree_insert_dup tlv_comp tb e1) p1 st1 =
          Inr (r, tb', ptr', st')"
        using 1(2) True t m by (subst (asm) tlvblock_loop.simps) simp
      from 1(1) [OF True t refl refl _ _ _ this] ok m c show ?thesis by (simp add: tree_insert_dup_length)
    next
      case False
      then show ?thesis using 1(2) True t m c by (subst (asm) tlvblock_loop.simps) (auto split: if_splits bool.splits)
    qed
  qed (use 1(2) in \<open>subst (asm) tlvblock_loop.simps, simp\<close>)
qed

lemma parse_tlvblock_counts:
  assumes c: "counts_memory nt na p"
    and s: "parse_tlvblock (rr_malloc_tlvblock_entry p) (rr_free_tlvblock_entry p) buf [] ptr eob ac st = Inr (r, tb, ptr', st')"
  shows "nt st' = nt st + int (length tb) \<and> na st' = na st \<and> (r \<noteq> RFC5444_OKAY \<longrightarrow> tb = [])"
proof -
  let ?loop = "\<lambda>fin q. tlvblock_loop (rr_malloc_tlvblock_entry p) buf fin eob ac tlvblock_entry_zero [] q st"
  have loop: "wp (if fin > eob then Inr (RFC5444_END_OF_BUFFER, [], q, st) else ?loop fin q) (\<lambda>_. True)
      (\<lambda>(r, tb, q, st'). nt st' = nt st + int (length tb) \<and> na st' = na st)" for fin q
    using tlvblock_loop_counts [OF c, of buf fin eob ac tlvblock_entry_zero "[]" q st]
    by (cases "?loop fin q") auto
  have "wp (parse_tlvblock (rr_malloc_tlvblock_entry p) (rr_free_tlvblock_entry p) buf [] ptr eob ac st) (\<lambda>_. True)
      (\<lambda>(r, tb, q, st'). nt st' = nt st + int (length tb) \<and> na st' = na st \<and> (r \<noteq> RFC5444_OKAY \<longrightarrow> tb = []))"
    unfolding parse_tlvblock_def Let_def wp_bind
    apply (rule wp_anyI)
    apply (rule wp_case3I)
    apply (simp only: wp_bind)
    apply (rule wp_mono, rule loop, assumption)
    apply (auto simp: free_tlvblock_counts [OF c])
    done
  with s show ?thesis by simp
qed

lemma message_block_counts:
  assumes c: "counts_memory nt na p"
    and s: "message_block p buf al ptr fin st = Inr (r, a, ptr', st')"
  shows "if r = RFC5444_OKAY then nt st' = nt st + int (length (ab_tlvblock a)) \<and> na st' = na st + 1
    else nt st' = nt st \<and> na st' = na st"
proof -
  obtain b st1 where m: "rr_malloc_addrblock_entry p st = (b, st1)" by fastforce
  note n = counts_memoryD(2) [OF c m]
  show ?thesis
  proof (cases b)
    case False
    with s m n show ?thesis by (auto simp: message_block_def rfc5444_results)
  next
    case True
    with s m obtain r1 a1 p1 where a: "parse_addrblock buf al addrblock_entry_zero ptr fin = Inr (r1, a1, p1)"
      by (auto simp: message_block_def bind_f_eq_Inr)
    show ?thesis
    proof (cases "r1 = RFC5444_OKAY")
      case False
      with s m True a n counts_memoryD(4) [OF c] show ?thesis by (auto simp: message_block_def)
    next
      case r1: True
      with s m True a obtain r2 tb p2 st2 where
        t: "parse_tlvblock (rr_malloc_tlvblock_entry p) (rr_free_tlvblock_entry p) buf [] p1 fin (ab_num_addr a1) st1 =
          Inr (r2, tb, p2, st2)"
        by (auto simp: message_block_def bind_f_eq_Inr)
      with parse_tlvblock_counts [OF c t] s m True a r1 t n counts_memoryD(4) [OF c] show ?thesis
        by (auto simp: message_block_def split: if_splits)
    qed
  qed
qed

lemma message_blocks_counts:
  assumes "counts_memory nt na p"
    and "message_blocks p buf al ptr fin as st = Inr (r, as', ptr', st')"
  shows "nt st' - int (sum_list (tlv_counts as')) = nt st - int (sum_list (tlv_counts as)) \<and>
    na st' - int (length as') = na st - int (length as)"
  using assms
proof (induction p buf al ptr fin "as" st rule: message_blocks.induct)
  case (1 p buf al ptr fin "as" st)
  show ?case
  proof (cases "ptr < fin")
    case True
    then obtain r1 a1 p1 st1 where b: "message_block p buf al ptr fin st = Inr (r1, a1, p1, st1)"
      using 1(3) by (subst (asm) message_blocks.simps) (auto split: sum.splits)
    note n = message_block_counts [OF 1(2) b]
    show ?thesis
    proof (cases "r1 = RFC5444_OKAY")
      case ok: True
      then have "message_blocks p buf al p1 fin (as @ [a1]) st1 = Inr (r, as', ptr', st')"
        using 1(3) True b by (subst (asm) message_blocks.simps) simp
      from 1(1) [OF True b refl refl refl _ 1(2) this] ok n show ?thesis by (simp add: tlv_counts_def)
    next
      case False
      then show ?thesis using 1(3) True b n by (subst (asm) message_blocks.simps) simp
    qed
  qed (use 1(3) in \<open>subst (asm) message_blocks.simps, simp\<close>)
qed

lemma message_cleanup_counts:
  assumes c: "counts_memory nt na p" "consumers_keep (\<lambda>st. (nt st, na st)) (ms_consumers m)"
    and n: "nt (ms_st m) = nt st + int (length (ms_tlvs m)) + int (sum_list (tlv_counts (ms_addrs m)))"
      "na (ms_st m) = na st + int (length (ms_addrs m))"
  shows "wp (Inr (message_cleanup p start fin r m)) F
    (\<lambda>(r, fin, ctx, p', st'). counts_memory nt na p' \<and> nt st' = nt st \<and> na st' = na st)"
  using n by (auto simp: message_cleanup_def Let_def counts_memory_consumers(1) [OF c] free_tlvblock_counts [OF c(1)]
      free_addrblocks_counts [OF c(1)] counts_memoryD(5) [OF c(1)] split: option.splits)

lemma message_cleanup_same:
  assumes "counts_memory nt na p" "same_memory (\<lambda>st. (nt st, na st)) m0 m"
    and "nt (ms_st m0) = nt st + int (length (ms_tlvs m0)) + int (sum_list (tlv_counts (ms_addrs m0)))"
      "na (ms_st m0) = na st + int (length (ms_addrs m0))"
  shows "wp (Inr (message_cleanup p start fin r m)) F
    (\<lambda>(r, fin, ctx, p', st'). counts_memory nt na p' \<and> nt st' = nt st \<and> na st' = na st)"
proof -
  have "length (ms_addrs m) = length (ms_addrs m0)"
    using assms(2) unfolding same_memory_def tlv_counts_def by (metis length_map)
  with assms show ?thesis by (intro message_cleanup_counts) (simp_all add: same_memory_def)
qed

lemma end_cbs_same:
  assumes "(if b then (r, m1) else message_end_cbs r m1) = (r', m2)" "same_memory f m m1"
  shows "same_memory f m m2"
proof -
  have k: "consumers_keep f (ms_consumers m1)" using assms(2) by (simp add: same_memory_def)
  show ?thesis
    using assms message_end_cbs_keeps [OF k, of r r' m2] by (cases b) (auto intro: same_memory_trans)
qed

lemma wp_Inr_refl: "(\<And>a. m = Inr a \<Longrightarrow> Q a) \<Longrightarrow> wp m (\<lambda>_. True) Q"
  by (cases m) simp_all

lemma handle_message_counts:
  assumes c: "counts_memory nt na p"
  shows "wp (handle_message p ctx buf start eob st) (\<lambda>_. True)
    (\<lambda>(r, fin, ctx, p', st'). counts_memory nt na p' \<and> nt st' = nt st \<and> na st' = na st)"
proof -
  have cs: "consumers_keep (\<lambda>st. (nt st, na st)) (rr_message_consumer p)" using counts_memoryD(7) [OF c] .
  have tlvs: "wp (parse_tlvblock (rr_malloc_tlvblock_entry p) (rr_free_tlvblock_entry p) buf [] ptr eob 0 st) (\<lambda>_. True)
      (\<lambda>(r, tb, q, st'). nt st' = nt st + int (length tb) \<and> na st' = na st)" for ptr eob
    by (rule wp_Inr_refl) (auto dest: parse_tlvblock_counts [OF c])
  have blocks: "wp (message_blocks p buf al ptr fin [] st1) (\<lambda>_. True)
      (\<lambda>(r, as, q, st'). nt st' = nt st1 + int (sum_list (tlv_counts as)) \<and> na st' = na st1 + int (length as))" for al ptr fin st1
    by (rule wp_Inr_refl) (auto dest: message_blocks_counts [OF c] simp: tlv_counts_def)
  have consumers: "wp (message_consumers buf [0..<n] m) (\<lambda>_. True)
      (\<lambda>(b, r, m'). same_memory (\<lambda>st. (nt st, na st)) m m')"
    if "consumers_keep (\<lambda>st. (nt st, na st)) (ms_consumers m)" "n = length (ms_consumers m)" for m n
    by (rule wp_Inr_refl) (use that(2) in \<open>auto dest: message_consumers_keeps [OF that(1), rotated]\<close>)
  show ?thesis
    unfolding handle_message_def Let_def
    apply (rule wp_bindI [where P = "\<lambda>_. True"], rule wp_trivial)
    apply (simp only: split_paired_all prod.case)
    apply (rule wp_ifI)
     apply (rule message_cleanup_counts [OF c]; simp add: cs tlv_counts_def)
    apply (rule wp_ifI)
     apply (rule message_cleanup_counts [OF c]; simp add: cs tlv_counts_def)
    apply (rule wp_bindI, rule tlvs)
    apply (simp only: split_paired_all prod.case)
    apply (rule wp_ifI)
     apply (rule message_cleanup_counts [OF c]; simp add: cs tlv_counts_def)
    apply (rule wp_bindI, rule blocks)
    apply (simp only: split_paired_all prod.case)
    apply (rule wp_ifI)
     apply (rule message_cleanup_counts [OF c]; simp add: cs)
    apply (rule wp_bindI, rule consumers)
      apply (simp add: cs)
     apply simp
    apply (simp only: split_paired_all prod.case)
    apply (rule wp_case2I)
    apply (rule message_cleanup_same [OF c], erule end_cbs_same, assumption)
     apply simp
    apply simp
    done
qed

lemma packet_messages_counts:
  assumes "counts_memory nt na p" "packet_messages p ctx buf ptr eob st = Inr (r, ctx', p', st')"
  shows "counts_memory nt na p' \<and> nt st' = nt st \<and> na st' = na st"
  using assms
proof (induction p ctx buf ptr eob st rule: packet_messages.induct)
  case (1 p ctx buf ptr eob st)
  show ?case
  proof (cases "ptr < eob")
    case True
    then obtain r1 q ctx1 p1 st1 where h: "handle_message p ctx buf ptr eob st = Inr (r1, q, ctx1, p1, st1)"
      using 1(3) by (subst (asm) packet_messages.simps) (auto split: sum.splits)
    note n = wp_InrD [OF handle_message_counts [OF 1(2)] h, unfolded prod.case]
    show ?thesis
    proof (cases "r1 = RFC5444_OKAY")
      case r: True
      then obtain e where q: "q = Some e" using handle_message_progress [OF h [unfolded r]] by auto
      have "packet_messages p1 ctx1 buf e eob st1 = Inr (r, ctx', p', st')"
        using 1(3) True h q r by (subst (asm) packet_messages.simps) simp
      from 1(1) [OF True h refl refl refl refl _ q _ this] n r show ?thesis by simp
    next
      case False
      then show ?thesis using 1(3) True h n by (subst (asm) packet_messages.simps) simp
    qed
  qed (use 1(2,3) in \<open>subst (asm) packet_messages.simps, simp\<close>)
qed

lemma packet_consumers_keeps:
  assumes "consumers_keep f cs" "\<forall>k\<in>set ks. k < length cs"
    and "packet_consumers buf has_tlv ks l cs ctx ts st = Inr (r, l', cs', ctx', ts', st')"
  shows "consumers_keep f cs' \<and> length ts' = length ts \<and> f st' = f st"
  using assms
proof (induction ks arbitrary: l cs ctx ts st)
  case (Cons k ks)
  have c: "callbacks_keep f (cs ! k)" using Cons.prems(1,2) by (simp add: consumers_keep_def)
  obtain r1 c1 ctx1 ts1 st1 where p: "packet_consumer buf has_tlv (cs ! k) ctx ts st = Inr (r1, c1, ctx1, ts1, st1)"
    using Cons.prems(3) by (auto simp: bind_f_eq_Inr)
  then have k: "callbacks_keep f c1 \<and> length ts1 = length ts \<and> f st1 = f st"
    using c call_start_keeps [OF c] schedule_tlvblock_keeps [OF c]
    by (fastforce simp: packet_consumer_def split: prod.splits if_splits)
  then have "consumers_keep f (cs[k := c1])" by (intro consumers_keep_update Cons.prems(1)) simp
  with Cons.IH [OF this] Cons.prems(2,3) p k show ?case by (auto split: if_splits)
qed simp

lemma end_packet_loop_keeps:
  "consumers_keep f cs \<Longrightarrow> f (snd (end_packet_loop cs ctx d st)) = f st"
  by (induction cs arbitrary: ctx st) (auto simp: consumers_keep_def Let_def split: option.splits prod.splits dest: callbacks_keepD(2))

lemma packet_body_counts:
  assumes c: "counts_memory nt na p" and s: "packet_body p ctx buf has_tlv ts ptr st = Inr (r, p', st')"
  shows "counts_memory nt na p' \<and> nt st' = nt st - int (length ts) \<and> na st' = na st"
proof -
  let ?f = "\<lambda>st. (nt st, na st)"
  obtain r1 l cs ctx1 ts1 st1 where
    1: "packet_consumers buf has_tlv [0..<length (rr_packet_consumer p)] 0 (rr_packet_consumer p) ctx ts st =
      Inr (r1, l, cs, ctx1, ts1, st1)"
    using s by (auto simp: packet_body_def bind_f_eq_Inr)
  have k: "consumers_keep ?f cs \<and> length ts1 = length ts \<and> ?f st1 = ?f st"
    using packet_consumers_keeps [OF counts_memoryD(6) [OF c] _ 1] by simp
  obtain r2 ctx2 p2 st2 where
    2: "(if r1 \<noteq> RFC5444_OKAY then Inr (r1, ctx1, p\<lparr>rr_packet_consumer := cs\<rparr>, st1)
         else packet_messages (p\<lparr>rr_packet_consumer := cs\<rparr>) ctx1 buf ptr (length buf) st1) = Inr (r2, ctx2, p2, st2)"
    using s 1 by (auto simp: packet_body_def bind_f_eq_Inr Let_def)
  have n2: "counts_memory nt na p2 \<and> nt st2 = nt st1 \<and> na st2 = na st1"
    using 2 counts_memory_consumers(2) [OF c conjunct1 [OF k]]
      packet_messages_counts [OF counts_memory_consumers(2) [OF c conjunct1 [OF k]]] by (auto split: if_splits)
  have "consumers_keep ?f (rev (take n (rr_packet_consumer p2)))" for n
    using counts_memoryD(6) [OF conjunct1 [OF n2]] by (auto simp: consumers_keep_def dest: in_set_takeD)
  from end_packet_loop_keeps [OF this] n2 k s 1 2 free_tlvblock_counts [OF conjunct1 [OF n2]] show ?thesis
    by (auto simp: packet_body_def Let_def split: if_splits)
qed

lemma handle_packet_counts:
  assumes c: "counts_memory nt na p"
  shows "wp (rfc5444_reader_handle_packet p buf st) (\<lambda>_. True)
    (\<lambda>(r, p', st'). counts_memory nt na p' \<and> nt st' = nt st \<and> na st' = na st)"
  unfolding rfc5444_reader_handle_packet_def Let_def
  apply (rule wp_ifI)
   subgoal using c by simp
  apply (rule wp_bindI [where P = "\<lambda>_. True"], rule wp_trivial)
  apply (simp only: split_paired_all prod.case)
  apply (rule wp_ifI)
   subgoal using c by simp
  apply (rule wp_bindI [where P = "\<lambda>_. True"], rule wp_trivial)
  apply (simp only: split_paired_all prod.case)
  apply (rule wp_ifI)
   subgoal using c by simp
  apply (rule wp_bindI [where P = "\<lambda>(r, tb, q, st'). nt st' = nt st + int (length tb) \<and> na st' = na st \<and>
      (r \<noteq> RFC5444_OKAY \<longrightarrow> tb = [])"])
   apply (rule wp_ifI)
    apply (rule wp_Inr_refl)
    subgoal using parse_tlvblock_counts [OF c] by auto
   apply simp
  apply (simp only: split_paired_all prod.case)
  apply (rule wp_ifI)
   subgoal using c by simp
  apply (rule wp_Inr_refl)
  subgoal using packet_body_counts [OF c] by auto
  done

subsection \<open>What a message without consumers tells\<close>







subsection \<open>Properties\<close>

text \<open>
  C12: everything that is allocated for a packet is freed again: when the allocation functions count the entries they hand out (they may
  fail at any time) and no other callback changes the numbers, then after the packet both numbers are as before, whatever bytes
  are received, however the callbacks answer and wherever the parsing of a TLV block, an address block or a message breaks off; and the
  reader still counts in this way, so that it holds for any number of packets.
\<close>

theorem handle_packet_frees_everything:
  assumes "counts_memory nt na parser"
    and "rfc5444_reader_handle_packet parser buf st = Inr (result, parser', st')"
  shows "nt st' = nt st \<and> na st' = na st \<and> counts_memory nt na parser'"
  using handle_packet_counts [OF assms(1), of buf st] assms(2) by simp

text \<open>A reader that counts its TLV entries, its address block entries and its callbacks.\<close>

definition counting_consumer :: "(int \<times> int \<times> nat) rfc5444_reader_tlvblock_consumer" where
  "counting_consumer = \<lparr>co_id = 1, co_order = 0, co_default_msg_consumer = True, co_msg_id = 0,
     co_addrblock_consumer = False, co_consumer_list = [],
     co_start_callback = Some (\<lambda>ctx (t, a, n). (RFC5444_OKAY, False, (t, a, n + 1))), co_end_callback = None,
     co_tlv_callback = Some (\<lambda>tlv ctx (t, a, n). (RFC5444_OKAY, False, (t, a, n + 1))), co_block_callback = None,
     co_block_callback_failed_constraints = None\<rparr>"

definition counting_reader :: "(int \<times> int \<times> nat) rfc5444_reader" where
  "counting_reader = rfc5444_reader_add_message_consumer
     (rfc5444_reader_init None None None None None (\<lambda>(t, a, n). (True, (t, a + 1, n))) (\<lambda>(t, a, n). (True, (t + 1, a, n)))
        (\<lambda>(t, a, n). (t, a - 1, n)) (\<lambda>(t, a, n). (t - 1, a, n)))
     counting_consumer []"

lemma counting_reader_counts: "counts_memory fst (\<lambda>st. fst (snd st)) counting_reader"
  by (auto simp: counts_memory_def counting_reader_def rfc5444_reader_add_message_consumer_def add_consumer_def
      rfc5444_reader_init_def consumers_keep_def callbacks_keep_def counting_consumer_def split: prod.splits)

text \<open>A message with a TLV, an address block with a TLV and an empty second address block.\<close>

theorem handle_packet_frees_everything_witness:
  "\<exists>result parser' st'. rfc5444_reader_handle_packet counting_reader
      [0, 3, 0, 0, 18, 0, 4, 1, 0x10, 1, 9, 1, 0, 7, 0, 2, 5, 0, 0] (5, 6, 0) = Inr (result, parser', st') \<and>
    result = RFC5444_EMPTY_ADDRBLOCK \<and>
    fst st' = fst (5 :: int, 6 :: int, 0 :: nat) \<and> fst (snd st') = fst (snd (5 :: int, 6 :: int, 0 :: nat)) \<and>
    counts_memory fst (\<lambda>st. fst (snd st)) parser'"
proof -
  have run: "rfc5444_reader_handle_packet counting_reader
      [0, 3, 0, 0, 18, 0, 4, 1, 0x10, 1, 9, 1, 0, 7, 0, 2, 5, 0, 0] (5, 6, 0) =
    Inr (RFC5444_EMPTY_ADDRBLOCK, counting_reader, (5, 6, 0))"
    by (simp add: rfc5444_reader_handle_packet_def packet_body_def packet_messages.simps handle_message_def message_header_def
        rfc5444_get_pktversion_def rfc5444_get_u16_def rfc5444_get_u8_def rfc5444_results rfc5444_flags Let_def message_originator_def opt_u8_def
        tlvblock_context_zero_def parse_tlvblock_def tlvblock_loop.simps parse_tlv_def parse_tlv_index_def parse_tlv_length_def
        parse_tlv_value_def tlv_count_def calc_tlvblock_intorder_def tlvblock_entry_zero_def message_blocks.simps message_block_def
        parse_addrblock_def set_prefix_def addrblock_entry_zero_def counting_reader_def rfc5444_reader_add_message_consumer_def
        rfc5444_reader_init_def message_cleanup_def RFC5444_MAX_ADDRLEN_def)
  with handle_packet_frees_everything [OF counting_reader_counts run] show ?thesis by blast
qed



end
