(* ===== verification/Rfc5444_Tlv_Writer.thy ===== *)
theory Rfc5444_Tlv_Writer
  imports Rfc5444_Reader_Safety "HOL-Library.Multiset"
begin

section \<open>Writing TLVs (librfc5444/rfc5444_tlv_writer)\<close>

text \<open>
  \<^verbatim>\<open>src/src/librfc5444/rfc5444_tlv_writer.c\<close>: a TLV write session adds TLVs behind a header, reserves space
  for later ones and fills the reserved space. A \<open>size_t\<close> is a natural number below \<open>2 ^ 64\<close>, and every sum and difference of them is
  reduced to it by \<open>size_t\<close>. The theorems at the end are round
  trips with the parser of \<^verbatim>\<open>rfc5444_reader.c\<close>: what is written is what is read.
\<close>

definition RFC5444_DUPLICATE_TLV :: int where "RFC5444_DUPLICATE_TLV = -10"
definition RFC5444_OUT_OF_ADDRTLV_MEM :: int where "RFC5444_OUT_OF_ADDRTLV_MEM = -11"
definition RFC5444_MTU_TOO_SMALL :: int where "RFC5444_MTU_TOO_SMALL = -12"

lemmas rfc5444_writer_results = RFC5444_DUPLICATE_TLV_def RFC5444_OUT_OF_ADDRTLV_MEM_def RFC5444_MTU_TOO_SMALL_def
  RFC5444_OKAY_def

record rfc5444_tlv_writer_data =
  tw_buffer :: "u8 list"
  tw_header :: nat
  tw_added :: nat
  tw_allocated :: nat
  tw_set :: nat
  tw_max :: nat

definition rfc5444_tlv_writer_init :: "rfc5444_tlv_writer_data \<Rightarrow> nat \<Rightarrow> rfc5444_tlv_writer_data" where
  "rfc5444_tlv_writer_init data mx =
     data\<lparr>tw_header := 0, tw_added := 0, tw_allocated := 0, tw_set := 0, tw_max := mx\<rparr>"

text \<open>The wrap-around of sizes.\<close>

definition size_t :: "nat \<Rightarrow> nat" where
  "size_t n = n mod 2 ^ 64"

definition calc_tlv_size :: "bool \<Rightarrow> nat \<Rightarrow> nat" where
  "calc_tlv_size has_exttype len =
     (let s = 2; s = (if has_exttype then s + 1 else s); s = size_t (s + len)
      in if len > 255 then size_t (s + 2) else if len > 0 then size_t (s + 1) else s)"

text \<open>The bytes \<open>_write_tlv\<close> stores through its running pointer, first the flags.\<close>

definition write_tlv_flags :: "u8 \<Rightarrow> u8 \<Rightarrow> u8 \<Rightarrow> nat \<Rightarrow> u8" where
  "write_tlv_flags exttype idx1 idx2 len =
     (if exttype > 0 then RFC5444_TLV_FLAG_TYPEEXT else 0) OR
     (if idx1 = idx2 then RFC5444_TLV_FLAG_SINGLE_IDX
      else if idx1 > 0 \<or> idx2 < 255 then RFC5444_TLV_FLAG_MULTI_IDX else 0) OR
     (if len > 255 then RFC5444_TLV_FLAG_EXTVALUE else 0) OR
     (if len > 0 then RFC5444_TLV_FLAG_VALUE else 0)"

definition write_tlv_header :: "u8 \<Rightarrow> u8 \<Rightarrow> u8 \<Rightarrow> u8 \<Rightarrow> nat \<Rightarrow> u8 list" where
  "write_tlv_header type exttype idx1 idx2 len =
     [type, write_tlv_flags exttype idx1 idx2 len] @
     (if exttype \<noteq> 0 then [exttype] else []) @
     (if idx1 > 0 \<or> idx2 < 255 then (if idx1 \<noteq> idx2 then [idx1, idx2] else [idx1]) else []) @
     (if len > 255 then [of_nat (len div 256)] else []) @
     (if len > 0 then [of_nat len] else [])"

definition write_tlv ::
    "u8 list \<Rightarrow> nat \<Rightarrow> u8 \<Rightarrow> u8 \<Rightarrow> u8 \<Rightarrow> u8 \<Rightarrow> u8 list \<Rightarrow> nat \<Rightarrow> fault + u8 list" where
  "write_tlv buf ptr type exttype idx1 idx2 value len =
     bind_f (if len > 0 then slice value 0 len else Inr []) (\<lambda>bytes.
     memcpy_in buf ptr (write_tlv_header type exttype idx1 idx2 len @ bytes))"

definition rfc5444_tlv_writer_add ::
    "rfc5444_tlv_writer_data \<Rightarrow> u8 \<Rightarrow> u8 \<Rightarrow> u8 list \<Rightarrow> nat \<Rightarrow> fault + int \<times> rfc5444_tlv_writer_data" where
  "rfc5444_tlv_writer_add data type exttype value len =
     (let s = calc_tlv_size (exttype \<noteq> 0) len
      in if size_t (tw_header data + tw_added data + tw_allocated data + s) > tw_max data
         then Inr (RFC5444_MTU_TOO_SMALL, data)
         else bind_f (write_tlv (tw_buffer data) (size_t (tw_header data + tw_added data)) type exttype 0 255 value len)
                (\<lambda>buf. Inr (RFC5444_OKAY, data\<lparr>tw_buffer := buf, tw_added := size_t (tw_added data + s)\<rparr>)))"

definition rfc5444_tlv_writer_allocate ::
    "rfc5444_tlv_writer_data \<Rightarrow> bool \<Rightarrow> nat \<Rightarrow> int \<times> rfc5444_tlv_writer_data" where
  "rfc5444_tlv_writer_allocate data has_exttype len =
     (let s = calc_tlv_size has_exttype len
      in if size_t (tw_header data + tw_added data + tw_allocated data + s) > tw_max data
         then (RFC5444_MTU_TOO_SMALL, data)
         else (RFC5444_OKAY, data\<lparr>tw_allocated := size_t (tw_allocated data + s)\<rparr>))"

definition rfc5444_tlv_writer_set ::
    "rfc5444_tlv_writer_data \<Rightarrow> u8 \<Rightarrow> u8 \<Rightarrow> u8 list \<Rightarrow> nat \<Rightarrow> fault + int \<times> rfc5444_tlv_writer_data" where
  "rfc5444_tlv_writer_set data type exttype value len =
     (let s = calc_tlv_size (exttype \<noteq> 0) len
      in if size_t (tw_allocated data + 2 ^ 64 - tw_set data) < s
         then Inr (RFC5444_MTU_TOO_SMALL, data)
         else bind_f (write_tlv (tw_buffer data) (size_t (tw_header data + tw_added data + tw_set data))
                        type exttype 0 255 value len)
                (\<lambda>buf. Inr (RFC5444_OKAY, data\<lparr>tw_buffer := buf, tw_set := size_t (tw_set data + s)\<rparr>)))"

subsection \<open>Reading what was written\<close>

text \<open>The prefix of the address range of a TLV with the indexes \<open>idx1\<close> and \<open>idx2\<close> (0 and 255: all).\<close>

lemma size_t_id [simp]: "n < 2 ^ 64 \<Longrightarrow> size_t n = n"
  by (simp add: size_t_def)

lemma header_size:
  "n + 5 < 2 ^ 64 \<Longrightarrow> length (write_tlv_header type exttype 0 255 n) + n = calc_tlv_size (exttype \<noteq> 0) n"
  by (simp add: write_tlv_header_def calc_tlv_size_def Let_def)

lemma calc_size_bounds: "n + 5 < 2 ^ 64 \<Longrightarrow> 2 \<le> calc_tlv_size e n \<and> calc_tlv_size e n \<le> n + 5"
  by (simp add: calc_tlv_size_def Let_def)

definition bytes_at :: "u8 list \<Rightarrow> nat \<Rightarrow> u8 list \<Rightarrow> bool" where
  "bytes_at buf i xs \<longleftrightarrow> i + length xs \<le> length buf \<and> take (length xs) (drop i buf) = xs"

lemma bytes_at_append: "bytes_at buf i (xs @ ys) \<longleftrightarrow> bytes_at buf i xs \<and> bytes_at buf (i + length xs) ys"
proof -
  have "take (length xs + length ys) (drop i buf) = take (length xs) (drop i buf) @ take (length ys) (drop (i + length xs) buf)"
    by (simp add: take_add add.commute)
  then show ?thesis
    by (auto simp: bytes_at_def)
qed

lemma bytes_at_take: "bytes_at buf i (xs @ ys) \<Longrightarrow> bytes_at buf i xs"
  by (simp add: bytes_at_append)

lemma bytes_at_Cons: "bytes_at buf i (x # xs) \<longleftrightarrow> i < length buf \<and> buf ! i = x \<and> bytes_at buf (i + 1) xs"
  using bytes_at_append [of buf i "[x]" xs] by (auto simp: bytes_at_def take_Suc_conv_app_nth Cons_nth_drop_Suc [symmetric])

lemma bytes_at_Nil [simp]: "bytes_at buf i [] \<longleftrightarrow> i \<le> length buf"
  by (simp add: bytes_at_def)

lemma bytes_at_slice: "bytes_at buf i xs \<Longrightarrow> slice buf i (length xs) = Inr xs"
  by (simp add: bytes_at_def)

lemma memcpy_in_bytes_at: "memcpy_in buf i xs = Inr buf' \<Longrightarrow> bytes_at buf' i xs"
  by (auto simp: memcpy_in_def bytes_at_def split: if_splits)

lemma get_u8_bytes:
  "bytes_at buf i (x # xs) \<Longrightarrow> i < eob \<Longrightarrow> rfc5444_get_u8 buf i eob RFC5444_OKAY = Inr (x, i + 1, RFC5444_OKAY)"
  by (simp add: rfc5444_get_u8_def bytes_at_Cons)


lemma flags_typeext: "write_tlv_flags ext i1 i2 n AND RFC5444_TLV_FLAG_TYPEEXT \<noteq> 0 \<longleftrightarrow> ext \<noteq> 0"
  by (simp add: write_tlv_flags_def rfc5444_flags word_neq_0_conv)

lemma flags_index:
  "write_tlv_flags ext i1 i2 n AND (RFC5444_TLV_FLAG_SINGLE_IDX OR RFC5444_TLV_FLAG_MULTI_IDX) =
   (if i1 = i2 then RFC5444_TLV_FLAG_SINGLE_IDX
    else if i1 > 0 \<or> i2 < 255 then RFC5444_TLV_FLAG_MULTI_IDX else 0)"
  by (simp add: write_tlv_flags_def rfc5444_flags)

lemma flags_value:
  "write_tlv_flags ext i1 i2 n AND (RFC5444_TLV_FLAG_VALUE OR RFC5444_TLV_FLAG_EXTVALUE) =
   (if n > 255 then RFC5444_TLV_FLAG_EXTVALUE OR RFC5444_TLV_FLAG_VALUE
    else if n > 0 then RFC5444_TLV_FLAG_VALUE else 0)"
  by (simp add: write_tlv_flags_def rfc5444_flags)

lemma flags_multivalue: "write_tlv_flags ext i1 i2 n AND RFC5444_TLV_FLAG_MULTIVALUE = 0"
  by (simp add: write_tlv_flags_def rfc5444_flags)

lemma byte_limits: "(0 :: u8) < i \<or> j < 255 \<longleftrightarrow> \<not> (i = 0 \<and> j = (255 :: u8))"
proof -
  have "(j :: u8) \<le> 255" using u8_bound [of j] by (simp add: word_le_nat_alt)
  then show ?thesis by (auto simp: word_neq_0_conv)
qed

lemma read_exttype:
  assumes "bytes_at buf p ((if ext \<noteq> 0 then [ext] else []) @ rest)" "ext \<noteq> 0 \<longrightarrow> p < eob"
  shows "(if write_tlv_flags ext i1 i2 n AND RFC5444_TLV_FLAG_TYPEEXT \<noteq> 0 then rfc5444_get_u8 buf p eob RFC5444_OKAY
      else Inr (0, p, RFC5444_OKAY)) = Inr (ext, p + length (if ext \<noteq> 0 then [ext] else []), RFC5444_OKAY)"
  using assms unfolding flags_typeext by (auto simp: get_u8_bytes)

definition index_bytes :: "u8 \<Rightarrow> u8 \<Rightarrow> u8 list" where
  "index_bytes i1 i2 = (if i1 > 0 \<or> i2 < 255 then (if i1 \<noteq> i2 then [i1, i2] else [i1]) else [])"

definition length_bytes :: "nat \<Rightarrow> u8 list" where
  "length_bytes n = (if n > 255 then [of_nat (n div 256)] else []) @ (if n > 0 then [of_nat n] else [])"

lemma header_parts:
  "write_tlv_header type ext i1 i2 n =
     type # write_tlv_flags ext i1 i2 n # (if ext \<noteq> 0 then [ext] else []) @ index_bytes i1 i2 @ length_bytes n"
  by (simp add: write_tlv_header_def index_bytes_def length_bytes_def)

lemma read_index:
  assumes "bytes_at buf p (index_bytes i1 i2 @ rest)" "p + length (index_bytes i1 i2) \<le> eob"
  shows "parse_tlv_index buf p eob RFC5444_OKAY (write_tlv_flags ext i1 i2 n) ac =
    Inr (Some (if i1 = 0 \<and> i2 = 255 then 0 else i1, if i1 = 0 \<and> i2 = 255 then ac - 1 else i2,
               p + length (index_bytes i1 i2), RFC5444_OKAY))"
proof -
  have f: "RFC5444_TLV_FLAG_SINGLE_IDX \<noteq> 0" "RFC5444_TLV_FLAG_MULTI_IDX \<noteq> 0"
    "RFC5444_TLV_FLAG_MULTI_IDX \<noteq> RFC5444_TLV_FLAG_SINGLE_IDX" by (simp_all add: rfc5444_flags)
  consider "i1 = 0 \<and> i2 = 255" | "i1 = i2" | "i1 \<noteq> i2" "\<not> (i1 = 0 \<and> i2 = 255)" by blast
  then show ?thesis
  proof cases
    case 3
    then have b: "bytes_at buf p [i1, i2]" "p + 2 \<le> eob"
      using assms bytes_at_take [of buf p "[i1, i2]" rest] by (auto simp: index_bytes_def byte_limits)
    then have "bytes_at buf (p + 1) [i2]" by (simp add: bytes_at_Cons)
    with b 3 f show ?thesis
      unfolding parse_tlv_index_def Let_def flags_index
      by (auto simp: byte_limits get_u8_bytes index_bytes_def)
  next
    case 2
    then have "\<not> (i1 = 0 \<and> i2 = 255)" by auto
    then have b: "bytes_at buf p [i1]" "p + 1 \<le> eob"
      using assms 2 bytes_at_take [of buf p "[i1]" rest] by (auto simp: index_bytes_def byte_limits)
    with f \<open>\<not> (i1 = 0 \<and> i2 = 255)\<close> 2 show ?thesis
      unfolding parse_tlv_index_def Let_def flags_index
      by (auto simp: byte_limits get_u8_bytes index_bytes_def)
  qed (simp add: parse_tlv_index_def Let_def flags_index index_bytes_def)
qed

lemma bit_word_of_nat: "bit (of_nat n :: 'a::len word) k \<longleftrightarrow> k < LENGTH('a) \<and> bit n k"
  by transfer (simp add: bit_of_nat_iff bit_take_bit_iff)

lemma bytes_of_length: 
  "push_bit 8 (ucast (of_nat (n div 256) :: u8)) OR ucast (of_nat n :: u8) = (of_nat n :: u16)"
proof -
  have "n div 256 = drop_bit 8 n" by (simp add: drop_bit_eq_div)
  then show ?thesis
    by (intro bit_word_eqI) (auto simp: bit_or_iff bit_push_bit_iff bit_ucast_iff bit_word_of_nat bit_drop_bit_eq)
qed

lemma read_length:
  assumes "bytes_at buf p (length_bytes n @ rest)" "p + length (length_bytes n) \<le> eob" "n < 65536"
  shows "parse_tlv_length buf p eob RFC5444_OKAY (write_tlv_flags ext i1 i2 n) =
    Inr (Some (of_nat n, p + length (length_bytes n), RFC5444_OKAY))"
proof -
  have f: "RFC5444_TLV_FLAG_VALUE \<noteq> 0" "RFC5444_TLV_FLAG_EXTVALUE OR RFC5444_TLV_FLAG_VALUE \<noteq> RFC5444_TLV_FLAG_VALUE"
    "RFC5444_TLV_FLAG_EXTVALUE OR RFC5444_TLV_FLAG_VALUE \<noteq> 0" by (simp_all add: rfc5444_flags)
  consider "n = 0" | "0 < n" "n < 256" | "255 < n" by linarith
  then show ?thesis
  proof cases
    case 3
    then have b: "bytes_at buf p [of_nat (n div 256), of_nat n]" "p + 2 \<le> eob"
      using assms bytes_at_take [of buf p "[of_nat (n div 256), of_nat n]" rest] by (auto simp: length_bytes_def)
    then have "bytes_at buf (p + 1) [of_nat n]" by (simp add: bytes_at_Cons)
    with b 3 f assms(3) show ?thesis
      unfolding parse_tlv_length_def Let_def flags_value
      by (simp add: rfc5444_get_u16_def get_u8_bytes length_bytes_def bytes_of_length)
  next
    case 2
    then have b: "bytes_at buf p [of_nat n]" "p + 1 \<le> eob"
      using assms bytes_at_take [of buf p "[of_nat n]" rest] by (auto simp: length_bytes_def)
    have "ucast (of_nat n :: u8) = (of_nat n :: u16)"
      using 2 by (simp add: ucast_of_unat unat_of_nat_small)
    with 2 b f show ?thesis
      unfolding parse_tlv_length_def Let_def flags_value
      by (simp add: get_u8_bytes length_bytes_def)
  qed (simp add: parse_tlv_length_def Let_def flags_value length_bytes_def)
qed

text \<open>What a reader sees of a TLV: type, extended type, index range and value.\<close>

definition tlv_view :: "u8 list \<Rightarrow> rfc5444_reader_tlvblock_entry \<Rightarrow> u8 \<times> u8 \<times> u8 list" where
  "tlv_view buf e = (te_type e, te_type_ext e,
     (case te_value e of None \<Rightarrow> [] | Some v \<Rightarrow> take (unat (te_length e)) (drop v buf)))"

lemma parse_written_tlv:
  assumes b: "bytes_at buf ptr (write_tlv_header type ext i1 i2 (length value) @ value)"
    and l: "length value < 65536" and e: "ptr + length (write_tlv_header type ext i1 i2 (length value)) + length value \<le> eob"
    and idx: "i1 = 0 \<and> i2 = 255 \<or> ac = 0 \<or> i1 < ac \<and> i2 < ac"
  shows "\<exists>t. parse_tlv buf entry ptr eob ac = Inr (RFC5444_OKAY, t,
      ptr + length (write_tlv_header type ext i1 i2 (length value)) + length value) \<and>
    tlv_view buf t = (type, ext, value) \<and> te_order t = calc_tlvblock_intorder t \<and>
    te_index1 t = (if i1 = 0 \<and> i2 = 255 then 0 else i1) \<and>
    te_index2 t = (if i1 = 0 \<and> i2 = 255 then ac - 1 else i2) \<and> unat (te_length t) = length value \<and> \<not> te_multivalue_tlv t"
proof -
  let ?n = "length value" and ?x = "if ext \<noteq> 0 then [ext] else []"
  let ?fl = "write_tlv_flags ext i1 i2 ?n"
  let ?all = "i1 = 0 \<and> i2 = 255"
  let ?p2 = "ptr + 2" 
  let ?p3 = "?p2 + length ?x"
  let ?p4 = "?p3 + length (index_bytes i1 i2)"
  let ?p5 = "?p4 + length (length_bytes ?n)"
  have hl: "ptr + length (write_tlv_header type ext i1 i2 ?n) = ?p5"
    by (simp add: header_parts)
  have bs: "bytes_at buf ptr (type # ?fl # ?x @ index_bytes i1 i2 @ length_bytes ?n @ value)"
    using b by (simp add: header_parts)
  then have b1: "bytes_at buf (ptr + 1) (?fl # ?x @ index_bytes i1 i2 @ length_bytes ?n @ value)"
    by (simp add: bytes_at_Cons)
  then have b2: "bytes_at buf ?p2 (?x @ index_bytes i1 i2 @ length_bytes ?n @ value)"
    by (simp add: bytes_at_Cons)
  then have b3: "bytes_at buf ?p3 (index_bytes i1 i2 @ length_bytes ?n @ value)"
    unfolding bytes_at_append [of _ _ ?x] by simp
  then have b4: "bytes_at buf ?p4 (length_bytes ?n @ value)"
    unfolding bytes_at_append [of _ _ "index_bytes i1 i2"] by simp
  then have b5: "bytes_at buf ?p5 value"
    unfolding bytes_at_append [of _ _ "length_bytes ?n"] by simp
  have eob: "?p5 + ?n \<le> eob" using e hl by simp
  have r1: "rfc5444_get_u8 buf ptr eob RFC5444_OKAY = Inr (type, ptr + 1, RFC5444_OKAY)"
    using bs eob by (intro get_u8_bytes) auto
  have r2: "rfc5444_get_u8 buf (ptr + 1) eob RFC5444_OKAY = Inr (?fl, ?p2, RFC5444_OKAY)"
    using get_u8_bytes [OF b1] eob by simp
  have r3: "(if ?fl AND RFC5444_TLV_FLAG_TYPEEXT \<noteq> 0 then rfc5444_get_u8 buf ?p2 eob RFC5444_OKAY
      else Inr (0, ?p2, RFC5444_OKAY)) = Inr (ext, ?p3, RFC5444_OKAY)"
    using b2 eob by (intro read_exttype) auto
  have r4: "parse_tlv_index buf ?p3 eob RFC5444_OKAY ?fl ac =
    Inr (Some (if ?all then 0 else i1, if ?all then ac - 1 else i2, ?p4, RFC5444_OKAY))"
    using b3 eob by (intro read_index) auto
  have r5: "parse_tlv_length buf ?p4 eob RFC5444_OKAY ?fl = Inr (Some (of_nat ?n, ?p5, RFC5444_OKAY))"
    using b4 eob l by (intro read_length) auto
  have dec: "ac - 1 < ac" if "ac > 0"
    using that unat_minus_one [of ac] unat_eq_0 [of ac] by (auto simp: word_less_nat_alt word_neq_0_conv)
  have ok: "\<not> (ac > 0 \<and> ((if ?all then 0 else i1) \<ge> ac \<or> (if ?all then ac - 1 else i2) \<ge> ac))"
    using idx dec by (auto simp: not_le)
  have n: "unat (of_nat ?n :: u16) = ?n" using l by (intro unat_of_nat_small) simp
  have n0: "(of_nat ?n :: u16) = 0 \<longleftrightarrow> value = []" using n by (metis length_0_conv unat_eq_0)
  have v: "take ?n (drop ?p5 buf) = value" using b5 by (simp add: bytes_at_def)
  define e0 where "e0 = entry\<lparr>te_type := type, te_flags := ?fl, te_type_ext := ext\<rparr>"
  define e1 where "e1 = (e0\<lparr>te_order := calc_tlvblock_intorder e0\<rparr>)
      \<lparr>te_index1 := if ?all then 0 else i1, te_index2 := if ?all then ac - 1 else i2, te_length := of_nat ?n,
       te_multivalue_tlv := False\<rparr>"
  define t where "t = (if value = [] then e1\<lparr>te_value := None\<rparr>
      else e1\<lparr>te_value := Some ?p5, te_single_value := Some ?p5\<rparr>)"
  have "parse_tlv_value e1 ?p5 eob RFC5444_OKAY = Inr (RFC5444_OKAY, t, ?p5 + ?n)"
  proof (cases "value = []")
    case True
    then show ?thesis using n0 n eob by (simp add: parse_tlv_value_def t_def e1_def)
  next
    case False
    then have "\<not> ?p5 + unat (te_length e1) > eob" "te_length e1 \<noteq> 0" "unat (te_length e1) = ?n"
      using n n0 eob by (simp_all add: e1_def)
    moreover have "(if tlv_count (e1\<lparr>te_value := Some ?p5\<rparr>) = 1 then e1\<lparr>te_value := Some ?p5, te_multivalue_tlv := False\<rparr>
        else e1\<lparr>te_value := Some ?p5\<rparr>) = e1\<lparr>te_value := Some ?p5\<rparr>"
      by (simp add: e1_def)
    moreover have "\<not> te_multivalue_tlv e1" by (simp add: e1_def)
    ultimately show ?thesis using False by (simp add: parse_tlv_value_def t_def Let_def)
  qed
  then have "parse_tlv buf entry ptr eob ac = Inr (RFC5444_OKAY, t, ?p5 + ?n)"
    unfolding e1_def e0_def
    by (simp only: parse_tlv_def r1 r2 r3 r4 r5 bind_f_Inr prod.case option.case Let_def if_not_P [OF ok] flags_multivalue
        simp_thms if_False)
  moreover have "tlv_view buf t = (type, ext, value)"
    using v n by (auto simp: tlv_view_def t_def e1_def e0_def)
  moreover have "te_order t = calc_tlvblock_intorder t" "te_index1 t = (if ?all then 0 else i1)"
    "te_index2 t = (if ?all then ac - 1 else i2)" "unat (te_length t) = length value" "\<not> te_multivalue_tlv t"
    using n by (auto simp: t_def e1_def e0_def calc_tlvblock_intorder_def)
  ultimately show ?thesis unfolding hl by blast
qed

subsection \<open>A TLV write session\<close>

definition tw_ok :: "rfc5444_tlv_writer_data \<Rightarrow> bool" where
  "tw_ok d \<longleftrightarrow> tw_header d + tw_added d + tw_allocated d \<le> tw_max d \<and> tw_max d \<le> length (tw_buffer d) \<and>
     tw_set d \<le> tw_allocated d \<and> tw_max d < 2 ^ 64"

text \<open>A value or a reservation of \<open>n\<close> bytes for which the check of the space does not wrap around.\<close>

definition tw_fits :: "rfc5444_tlv_writer_data \<Rightarrow> nat \<Rightarrow> bool" where
  "tw_fits d n \<longleftrightarrow> tw_max d + n + 5 < 2 ^ 64"

definition tlv_code :: "u8 \<times> u8 \<times> u8 list \<Rightarrow> u8 list" where
  "tlv_code t = (case t of (type, ext, value) \<Rightarrow> write_tlv_header type ext 0 255 (length value) @ value)"

lemma tlv_code_length: "length value + 5 < 2 ^ 64 \<Longrightarrow> length (tlv_code (type, ext, value)) = calc_tlv_size (ext \<noteq> 0) (length value)"
  using header_size [of "length value" type ext] by (simp add: tlv_code_def)

lemma write_tlv_code: "write_tlv buf ptr type ext 0 255 value (length value) = memcpy_in buf ptr (tlv_code (type, ext, value))"
  by (auto simp: write_tlv_def tlv_code_def)

text \<open>\<open>written buf i xs buf'\<close>: \<open>buf'\<close> is \<open>buf\<close> with \<open>xs\<close> at \<open>i\<close>.\<close>

definition written :: "u8 list \<Rightarrow> nat \<Rightarrow> u8 list \<Rightarrow> u8 list \<Rightarrow> bool" where
  "written buf i xs buf' \<longleftrightarrow> buf' = take i buf @ xs @ drop (i + length xs) buf \<and> i + length xs \<le> length buf"

lemma writtenD:
  assumes "written buf i xs buf'"
  shows "length buf' = length buf" "bytes_at buf' i xs" "take i buf' = take i buf"
  using assms by (auto simp: written_def bytes_at_def)

lemma written_bytes:
  assumes "written buf i xs buf'" "bytes_at buf j ys" "j + length ys \<le> i \<or> i + length xs \<le> j"
  shows "bytes_at buf' j ys"
proof -
  have w: "buf' = take i buf @ xs @ drop (i + length xs) buf" "i + length xs \<le> length buf"
    using assms(1) by (auto simp: written_def)
  have "take (length ys) (drop j buf') = take (length ys) (drop j buf)"
  proof (cases "j + length ys \<le> i")
    case True
    then have "take (length ys) (drop j b) = take (length ys) (drop j (take i b))" for b :: "u8 list"
      by (simp add: drop_take min_def)
    moreover have "take i buf' = take i buf" using writtenD(3) [OF assms(1)] .
    ultimately show ?thesis by metis
  next
    case False
    then have "i + length xs \<le> j" using assms(3) by simp
    then have "drop j buf' = drop (j - (i + length xs)) (drop (i + length xs) buf)"
      using w by simp
    then show ?thesis using \<open>i + length xs \<le> j\<close> by simp
  qed
  then show ?thesis using assms writtenD(1) [OF assms(1)] by (simp add: bytes_at_def)
qed

lemma written_append: "written buf i xs buf' \<Longrightarrow> written buf' (i + length xs) ys buf'' \<Longrightarrow> written buf i (xs @ ys) buf''"
  by (auto simp: written_def ac_simps)

lemma memcpy_written: "i + length xs \<le> length buf \<Longrightarrow> \<exists>buf'. memcpy_in buf i xs = Inr buf' \<and> written buf i xs buf'"
  by (simp add: written_def)

lemma tw_sizes:
  assumes "tw_ok d" "tw_fits d n" "s \<le> n + 5"
  shows "size_t (tw_header d + tw_added d + tw_allocated d + s) = tw_header d + tw_added d + tw_allocated d + s"
    "size_t (tw_header d + tw_added d) = tw_header d + tw_added d" "size_t (tw_added d + s) = tw_added d + s"
    "size_t (tw_header d + tw_added d + tw_set d) = tw_header d + tw_added d + tw_set d"
    "size_t (tw_allocated d + s) = tw_allocated d + s" "size_t (tw_set d + s) = tw_set d + s"
    "size_t (tw_allocated d + 2 ^ 64 - tw_set d) = tw_allocated d - tw_set d"
proof -
  have "tw_allocated d + 2 ^ 64 - tw_set d = (tw_allocated d - tw_set d) + 2 ^ 64" using assms(1) by (simp add: tw_ok_def)
  moreover have "tw_allocated d - tw_set d < 2 ^ 64" using assms(1) unfolding tw_ok_def by linarith
  ultimately show "size_t (tw_allocated d + 2 ^ 64 - tw_set d) = tw_allocated d - tw_set d"
    unfolding size_t_def by (simp only: mod_add_self2 mod_less)
qed (use assms in \<open>simp_all add: tw_ok_def tw_fits_def\<close>)

lemma tw_fits_code:
  assumes "tw_fits d (length value)"
  shows "length (tlv_code (type, ext, value)) = calc_tlv_size (ext \<noteq> 0) (length value)" "length (tlv_code (type, ext, value)) \<le> length value + 5"
  using assms calc_size_bounds [of "length value" "ext \<noteq> 0"] by (simp_all add: tw_fits_def tlv_code_length)

lemma tlv_writer_add_ok:
  assumes "tw_ok d" and fits: "tw_fits d (length value)"
  shows "\<exists>r d'. rfc5444_tlv_writer_add d type ext value (length value) = Inr (r, d') \<and> tw_ok d' \<and>
    (if tw_header d + tw_added d + tw_allocated d + length (tlv_code (type, ext, value)) \<le> tw_max d
     then r = RFC5444_OKAY \<and> (\<exists>buf'. written (tw_buffer d) (tw_header d + tw_added d) (tlv_code (type, ext, value)) buf' \<and>
       d' = d\<lparr>tw_buffer := buf', tw_added := tw_added d + length (tlv_code (type, ext, value))\<rparr>)
     else r = RFC5444_MTU_TOO_SMALL \<and> d' = d)"
proof (cases "tw_header d + tw_added d + tw_allocated d + length (tlv_code (type, ext, value)) \<le> tw_max d")
  case True
  note c = tw_fits_code(1) [OF fits, of type ext]
  note s = tw_sizes [OF assms tw_fits_code(2) [OF fits, of type ext], unfolded c]
  obtain buf' where w: "memcpy_in (tw_buffer d) (tw_header d + tw_added d) (tlv_code (type, ext, value)) = Inr buf'"
      "written (tw_buffer d) (tw_header d + tw_added d) (tlv_code (type, ext, value)) buf'"
    using memcpy_written [of "tw_header d + tw_added d" "tlv_code (type, ext, value)" "tw_buffer d"] True assms
    by (auto simp: tw_ok_def)
  have l: "length buf' = length (tw_buffer d)" using writtenD(1) [OF w(2)] .
  have "tw_ok (d\<lparr>tw_buffer := buf', tw_added := tw_added d + length (tlv_code (type, ext, value))\<rparr>)"
    using True assms l by (simp add: tw_ok_def)
  moreover have "rfc5444_tlv_writer_add d type ext value (length value) =
      Inr (RFC5444_OKAY, d\<lparr>tw_buffer := buf', tw_added := tw_added d + length (tlv_code (type, ext, value))\<rparr>)"
    using w(1) True unfolding rfc5444_tlv_writer_add_def Let_def s c by (simp add: write_tlv_code)
  ultimately show ?thesis using w(2) True by auto
next
  case False
  note c = tw_fits_code(1) [OF fits, of type ext]
  note s = tw_sizes [OF assms tw_fits_code(2) [OF fits, of type ext], unfolded c]
  from False assms(1) show ?thesis
    unfolding rfc5444_tlv_writer_add_def Let_def s c by auto
qed

lemma tlv_writer_allocate_ok:
  assumes "tw_ok d" and fits: "tw_fits d n" and r: "rfc5444_tlv_writer_allocate d e n = (r, d')"
  shows "tw_ok d' \<and> (if tw_header d + tw_added d + tw_allocated d + calc_tlv_size e n \<le> tw_max d
     then r = RFC5444_OKAY \<and> d' = d\<lparr>tw_allocated := tw_allocated d + calc_tlv_size e n\<rparr>
     else r = RFC5444_MTU_TOO_SMALL \<and> d' = d)"
proof -
  have "calc_tlv_size e n \<le> n + 5" using fits calc_size_bounds [of n e] by (simp add: tw_fits_def)
  note s = tw_sizes [OF assms(1) fits this]
  show ?thesis using assms(1) r by (auto simp: rfc5444_tlv_writer_allocate_def Let_def s tw_ok_def split: if_splits)
qed

lemma tlv_writer_set_ok:
  assumes "tw_ok d" and fits: "tw_fits d (length value)"
  shows "\<exists>r d'. rfc5444_tlv_writer_set d type ext value (length value) = Inr (r, d') \<and> tw_ok d' \<and>
    (if tw_set d + length (tlv_code (type, ext, value)) \<le> tw_allocated d
     then r = RFC5444_OKAY \<and> (\<exists>buf'. written (tw_buffer d) (tw_header d + tw_added d + tw_set d) (tlv_code (type, ext, value)) buf' \<and>
       d' = d\<lparr>tw_buffer := buf', tw_set := tw_set d + length (tlv_code (type, ext, value))\<rparr>)
     else r = RFC5444_MTU_TOO_SMALL \<and> d' = d)"
proof -
  note c = tw_fits_code(1) [OF fits, of type ext]
  note s = tw_sizes [OF assms tw_fits_code(2) [OF fits, of type ext], unfolded c]
  show ?thesis
  proof (cases "tw_set d + length (tlv_code (type, ext, value)) \<le> tw_allocated d")
    case True
    obtain buf' where w: "memcpy_in (tw_buffer d) (tw_header d + tw_added d + tw_set d) (tlv_code (type, ext, value)) = Inr buf'"
        "written (tw_buffer d) (tw_header d + tw_added d + tw_set d) (tlv_code (type, ext, value)) buf'"
      using memcpy_written [of "tw_header d + tw_added d + tw_set d" "tlv_code (type, ext, value)" "tw_buffer d"] True assms
      by (auto simp: tw_ok_def)
    have l: "length buf' = length (tw_buffer d)" using writtenD(1) [OF w(2)] .
    have ok: "tw_ok (d\<lparr>tw_buffer := buf', tw_set := tw_set d + length (tlv_code (type, ext, value))\<rparr>)"
      using True assms l by (simp add: tw_ok_def)
    have "rfc5444_tlv_writer_set d type ext value (length value) =
        Inr (RFC5444_OKAY, d\<lparr>tw_buffer := buf', tw_set := tw_set d + length (tlv_code (type, ext, value))\<rparr>)"
      using w(1) True unfolding rfc5444_tlv_writer_set_def Let_def s c by (simp add: write_tlv_code; linarith)
    with ok w(2) True show ?thesis by auto
  next
    case False
    then have "tw_allocated d - tw_set d < length (tlv_code (type, ext, value))"
      using assms(1) unfolding tw_ok_def by linarith
    then have "rfc5444_tlv_writer_set d type ext value (length value) = Inr (RFC5444_MTU_TOO_SMALL, d)"
      unfolding rfc5444_tlv_writer_set_def Let_def s c by simp
    with False assms(1) show ?thesis by auto
  qed
qed


subsection \<open>A block of TLVs\<close>

text \<open>Adding a list of TLVs, as a client does in its callbacks.\<close>

fun add_tlvs :: "rfc5444_tlv_writer_data \<Rightarrow> (u8 \<times> u8 \<times> u8 list) list \<Rightarrow> fault + int \<times> rfc5444_tlv_writer_data" where
  "add_tlvs d [] = Inr (RFC5444_OKAY, d)"
| "add_tlvs d ((type, ext, value) # ts) =
     bind_f (rfc5444_tlv_writer_add d type ext value (length value)) (\<lambda>(r, d).
     if r \<noteq> RFC5444_OKAY then Inr (r, d) else add_tlvs d ts)"

definition tlvs_code :: "(u8 \<times> u8 \<times> u8 list) list \<Rightarrow> u8 list" where
  "tlvs_code ts = concat (map tlv_code ts)"

lemma tlvs_code_simps [simp]: "tlvs_code [] = []" "tlvs_code (t # ts) = tlv_code t @ tlvs_code ts"
  by (simp_all add: tlvs_code_def)

lemma add_tlvs_ok:
  assumes "tw_ok d" "\<forall>(type, ext, value)\<in>set ts. tw_fits d (length value)"
  shows "\<exists>r d'. add_tlvs d ts = Inr (r, d') \<and> tw_ok d' \<and>
    (if tw_header d + tw_added d + tw_allocated d + length (tlvs_code ts) \<le> tw_max d
     then r = RFC5444_OKAY \<and> (\<exists>buf'. written (tw_buffer d) (tw_header d + tw_added d) (tlvs_code ts) buf' \<and>
       d' = d\<lparr>tw_buffer := buf', tw_added := tw_added d + length (tlvs_code ts)\<rparr>)
     else r = RFC5444_MTU_TOO_SMALL)"
  using assms
proof (induction ts arbitrary: d)
  case Nil
  have "written (tw_buffer d) (tw_header d + tw_added d) [] (tw_buffer d)"
    using Nil by (auto simp: written_def tw_ok_def)
  with Nil show ?case by (auto simp: tw_ok_def)
next
  case (Cons t ts)
  obtain ty ext v where t: "t = (ty, ext, v)" by (cases t)
  have "tw_fits d (length v)" using Cons.prems(2) t by simp
  from tlv_writer_add_ok [OF Cons.prems(1) this, of ty ext]
  obtain r1 d1 where a: "rfc5444_tlv_writer_add d ty ext v (length v) = Inr (r1, d1)" "tw_ok d1"
    and b: "if tw_header d + tw_added d + tw_allocated d + length (tlv_code t) \<le> tw_max d
     then r1 = RFC5444_OKAY \<and> (\<exists>buf'. written (tw_buffer d) (tw_header d + tw_added d) (tlv_code t) buf' \<and>
       d1 = d\<lparr>tw_buffer := buf', tw_added := tw_added d + length (tlv_code t)\<rparr>)
     else r1 = RFC5444_MTU_TOO_SMALL \<and> d1 = d" unfolding t by blast
  show ?case
  proof (cases "tw_header d + tw_added d + tw_allocated d + length (tlv_code t) \<le> tw_max d")
    case True
    then obtain buf1 where 1: "r1 = RFC5444_OKAY" "written (tw_buffer d) (tw_header d + tw_added d) (tlv_code t) buf1"
      "d1 = d\<lparr>tw_buffer := buf1, tw_added := tw_added d + length (tlv_code t)\<rparr>" using b by auto
    have "add_tlvs d (t # ts) = add_tlvs d1 ts" using a 1(1) t by simp
    moreover have "\<forall>(type, ext, value)\<in>set ts. tw_fits d1 (length value)" using Cons.prems(2) 1(3) by (simp add: tw_fits_def)
    ultimately show ?thesis using Cons.IH [OF a(2)] 1
      by (fastforce simp: add.assoc [symmetric] intro: written_append)
  next
    case False
    with a b show ?thesis by (auto simp: t rfc5444_writer_results)
  qed
qed

lemma parse_tlvs_code:
  assumes "bytes_at buf ptr (tlvs_code ts)" "\<forall>(type, ext, value)\<in>set ts. length value < 65536"
    "fin = ptr + length (tlvs_code ts)" "fin \<le> eob" "\<forall>st. fst (malloc st)"
  shows "\<exists>es st'. tlvblock_loop malloc buf fin eob 0 entry tb ptr st =
    Inr (RFC5444_OKAY, foldl (tree_insert_dup tlv_comp) tb es, fin, st') \<and> map (tlv_view buf) es = ts \<and>
    (\<forall>e\<in>set es. \<not> te_multivalue_tlv e) \<and> ((\<forall>st. malloc st = (True, st)) \<longrightarrow> st' = st)"
  using assms(1,2,3)
proof (induction ts arbitrary: ptr entry tb st)
  case Nil
  then show ?case by (intro exI [of _ "[]"]) (simp add: tlvblock_loop.simps)
next
  case (Cons t ts)
  obtain ty ext v where t: "t = (ty, ext, v)" by (cases t)
  let ?p = "ptr + length (tlv_code t)"
  have b: "bytes_at buf ptr (tlv_code t)" "bytes_at buf ?p (tlvs_code ts)"
    using Cons.prems(1) by (simp_all add: bytes_at_append)
  obtain e where e: "parse_tlv buf entry ptr eob 0 = Inr (RFC5444_OKAY, e, ?p)" "tlv_view buf e = t" "\<not> te_multivalue_tlv e"
    using parse_written_tlv [of buf ptr ty ext 0 255 v eob 0 entry] b(1) Cons.prems(2,3) assms(4) t
    by (auto simp: tlv_code_def add.assoc)
  obtain st1 where m: "malloc st = (True, st1)" using assms(5) by (metis prod.collapse)
  have lt: "ptr < fin" using Cons.prems(3) by (simp add: t tlv_code_def header_parts)
  have "fin = ?p + length (tlvs_code ts)" "\<forall>(type, ext, value)\<in>set ts. length value < 65536"
    using Cons.prems(2,3) by auto
  from Cons.IH [OF b(2) this(2,1), of e "tree_insert_dup tlv_comp tb e" st1]
  obtain es st' where es: "tlvblock_loop malloc buf fin eob 0 e (tree_insert_dup tlv_comp tb e) ?p st1 =
    Inr (RFC5444_OKAY, foldl (tree_insert_dup tlv_comp) (tree_insert_dup tlv_comp tb e) es, fin, st')"
    "map (tlv_view buf) es = ts" "\<forall>e\<in>set es. \<not> te_multivalue_tlv e"
    "(\<forall>st. malloc st = (True, st)) \<longrightarrow> st' = st1" by blast
  have "tlvblock_loop malloc buf fin eob 0 entry tb ptr st =
    Inr (RFC5444_OKAY, foldl (tree_insert_dup tlv_comp) tb (e # es), fin, st')"
    using lt e(1) m es(1) by (subst tlvblock_loop.simps) simp
  then show ?case using e(2,3) es(2-4) m by (intro exI [of _ "e # es"]) auto
qed

lemma insert_dup_mset: "mset (tree_insert_dup cmp xs x) = add_mset x (mset xs)"
  by (induction xs) auto

lemma foldl_insert_dup_mset: "mset (foldl (tree_insert_dup cmp) xs ys) = mset xs + mset ys"
  by (induction ys arbitrary: xs) (auto simp: insert_dup_mset)

lemma tlv_value_length: "(type, ext, value) \<in> set ts \<Longrightarrow> length value \<le> length (tlvs_code ts)"
proof (induction ts)
  case (Cons t ts)
  then show ?case by (cases t) (auto simp: tlv_code_def)
qed simp

lemma parse_block_code:
  assumes "bytes_at buf ptr ([of_nat (length (tlvs_code ts) div 256), of_nat (length (tlvs_code ts))] @ tlvs_code ts)"
    "length (tlvs_code ts) < 65536" "ptr + 2 + length (tlvs_code ts) \<le> eob" "\<forall>st. fst (malloc st)"
  shows "\<exists>es st'. parse_tlvblock malloc free buf [] ptr eob 0 st = Inr (RFC5444_OKAY, es, ptr + 2 + length (tlvs_code ts), st') \<and>
    mset (map (tlv_view buf) es) = mset ts \<and> (\<forall>e\<in>set es. \<not> te_multivalue_tlv e) \<and>
    ((\<forall>st. malloc st = (True, st)) \<longrightarrow> st' = st)"
proof -
  let ?n = "length (tlvs_code ts)"
  have b: "bytes_at buf ptr [of_nat (?n div 256), of_nat ?n]" "bytes_at buf (ptr + 1) [of_nat ?n]"
    "bytes_at buf (ptr + 2) (tlvs_code ts)"
    using assms(1) by (simp_all add: bytes_at_Cons bytes_at_append)
  have u: "rfc5444_get_u16 buf ptr eob RFC5444_OKAY = Inr (of_nat ?n, ptr + 2, RFC5444_OKAY)"
    using b(1,2) assms(3) by (simp add: rfc5444_get_u16_def get_u8_bytes bytes_of_length)
  have n: "unat (of_nat ?n :: u16) = ?n" using assms(2) by (intro unat_of_nat_small) simp
  have "\<forall>(type, ext, value)\<in>set ts. length value < 65536"
    using tlv_value_length assms(2) by fastforce
  from parse_tlvs_code [OF b(3) this refl assms(3,4), of tlvblock_entry_zero "[]" st]
  obtain es st' where es: "tlvblock_loop malloc buf (ptr + 2 + ?n) eob 0 tlvblock_entry_zero [] (ptr + 2) st =
    Inr (RFC5444_OKAY, foldl (tree_insert_dup tlv_comp) [] es, ptr + 2 + ?n, st')" "map (tlv_view buf) es = ts"
    "\<forall>e\<in>set es. \<not> te_multivalue_tlv e" "(\<forall>st. malloc st = (True, st)) \<longrightarrow> st' = st" by blast
  have m: "mset (foldl (tree_insert_dup tlv_comp) [] es) = mset es" by (simp add: foldl_insert_dup_mset)
  then have "set (foldl (tree_insert_dup tlv_comp) [] es) = set es" by (metis set_mset_mset)
  moreover have "parse_tlvblock malloc free buf [] ptr eob 0 st =
      Inr (RFC5444_OKAY, foldl (tree_insert_dup tlv_comp) [] es, ptr + 2 + ?n, st')"
    using es(1) assms(3) by (simp add: parse_tlvblock_def u n Let_def)
  ultimately show ?thesis using es(2-4) m by auto
qed


subsection \<open>Properties\<close>

text \<open>The calls of a session, in any order; results other than \<open>RFC5444_OKAY\<close> leave the session unchanged.\<close>

datatype tw_call = Tw_Add u8 u8 "u8 list" | Tw_Allocate bool nat | Tw_Set u8 u8 "u8 list"

fun tw_run :: "tw_call list \<Rightarrow> rfc5444_tlv_writer_data \<Rightarrow> fault + rfc5444_tlv_writer_data" where
  "tw_run [] d = Inr d"
| "tw_run (Tw_Add ty ext v # cs) d =
     bind_f (rfc5444_tlv_writer_add d ty ext v (length v)) (\<lambda>(r, d). tw_run cs d)"
| "tw_run (Tw_Allocate ext n # cs) d = (case rfc5444_tlv_writer_allocate d ext n of (r, d) \<Rightarrow> tw_run cs d)"
| "tw_run (Tw_Set ty ext v # cs) d =
     bind_f (rfc5444_tlv_writer_set d ty ext v (length v)) (\<lambda>(r, d). tw_run cs d)"

fun call_size :: "tw_call \<Rightarrow> nat" where
  "call_size (Tw_Add ty ext v) = length v"
| "call_size (Tw_Allocate ext n) = n"
| "call_size (Tw_Set ty ext v) = length v"

lemma tw_run_safe:
  assumes "tw_ok d" "\<forall>c\<in>set cs. tw_fits d (call_size c)"
  shows "\<exists>d'. tw_run cs d = Inr d' \<and> tw_ok d' \<and> tw_max d' = tw_max d \<and> length (tw_buffer d') = length (tw_buffer d)"
  using assms
proof (induction cs d rule: tw_run.induct)
  case (2 ty ext v cs d)
  have f: "tw_fits d (length v)" using 2(3) by simp
  from tlv_writer_add_ok [OF 2(2) f, of ty ext] obtain r d1
    where 1: "rfc5444_tlv_writer_add d ty ext v (length v) = Inr (r, d1)" "tw_ok d1"
      "tw_max d1 = tw_max d" "length (tw_buffer d1) = length (tw_buffer d)"
    by (auto split: if_splits dest: writtenD)
  then show ?case using 2(1) [of d1] 2(3) by (simp add: tw_fits_def)
next
  case (3 ext n cs d)
  obtain r d1 where a: "rfc5444_tlv_writer_allocate d ext n = (r, d1)" by fastforce
  have f: "tw_fits d n" using 3(3) by simp
  from tlv_writer_allocate_ok [OF 3(2) f a]
  have "tw_ok d1" "tw_max d1 = tw_max d" "length (tw_buffer d1) = length (tw_buffer d)"
    by (auto split: if_splits)
  then show ?case using 3(1) [OF a [symmetric]] 3(3) a by (simp add: tw_fits_def)
next
  case (4 ty ext v cs d)
  have f: "tw_fits d (length v)" using 4(3) by simp
  from tlv_writer_set_ok [OF 4(2) f, of ty ext] obtain r d1
    where 1: "rfc5444_tlv_writer_set d ty ext v (length v) = Inr (r, d1)" "tw_ok d1"
      "tw_max d1 = tw_max d" "length (tw_buffer d1) = length (tw_buffer d)"
    by (auto split: if_splits dest: writtenD)
  then show ?case using 4(1) [of d1] 4(3) by (simp add: tw_fits_def)
qed simp

text \<open>
  C10: a TLV write session never writes outside its buffer, whatever sequence of TLVs is added, reserved and
  set (also when a call is refused for lack of space), as long as the limit of the buffer and the length of each value or reservation
  add up to less than \<open>2 ^ 64 - 5\<close>: the header, the added TLVs and the reserved space stay within the limit and
  the TLVs set within the reserved space.
\<close>

theorem tlv_session_stays_in_buffer:
  assumes "mx \<le> length (tw_buffer d)" "hdr \<le> mx" "mx < 2 ^ 64" "\<forall>c\<in>set calls. mx + call_size c + 5 < 2 ^ 64"
  shows "\<exists>d'. tw_run calls ((rfc5444_tlv_writer_init d mx)\<lparr>tw_header := hdr\<rparr>) = Inr d' \<and>
    length (tw_buffer d') = length (tw_buffer d) \<and>
    tw_header d' + tw_added d' + tw_allocated d' \<le> mx \<and> tw_set d' \<le> tw_allocated d'"
proof -
  let ?d = "(rfc5444_tlv_writer_init d mx)\<lparr>tw_header := hdr\<rparr>"
  have "tw_ok ?d" "\<forall>c\<in>set calls. tw_fits ?d (call_size c)" "tw_max ?d = mx" "length (tw_buffer ?d) = length (tw_buffer d)"
    using assms by (simp_all add: tw_ok_def tw_fits_def rfc5444_tlv_writer_init_def)
  with tw_run_safe [of ?d calls] show ?thesis by (auto simp: tw_ok_def)
qed

theorem tlv_session_stays_in_buffer_witness:
  "\<exists>d'. tw_run [Tw_Allocate False 1, Tw_Add 1 2 [3, 4], Tw_Set 5 0 [6], Tw_Set 5 0 [6]]
      ((rfc5444_tlv_writer_init \<lparr>tw_buffer = replicate 20 0, tw_header = 9, tw_added = 9, tw_allocated = 9,
          tw_set = 9, tw_max = 9\<rparr> 20)\<lparr>tw_header := 3\<rparr>) = Inr d' \<and>
    length (tw_buffer d') = length (tw_buffer \<lparr>tw_buffer = replicate 20 (0 :: u8), tw_header = 9, tw_added = 9, tw_allocated = 9,
          tw_set = 9, tw_max = 9\<rparr>) \<and>
    tw_header d' + tw_added d' + tw_allocated d' \<le> 20 \<and> tw_set d' \<le> tw_allocated d'"
  by (rule tlv_session_stays_in_buffer) simp_all

text \<open>
  The checks of the space do not hold for every length. Without that bound, a reservation of \<open>SIZE_MAX - 5\<close> bytes wraps
  around: in a fresh session with a header of at least two bytes it is accepted, leaves \<open>2 ^ 64 - 2\<close> bytes reserved, and setting any TLV
  that is longer than what is left of the buffer writes past its end.
\<close>

lemma huge_reservation_overflows:
  assumes "mx \<le> length (tw_buffer d)" "2 \<le> hdr" "hdr \<le> mx" "mx < 2 ^ 64" "length value + 5 < 2 ^ 63"
    and "length (tw_buffer d) < hdr + calc_tlv_size (ext \<noteq> 0) (length value)"
  shows "fst (rfc5444_tlv_writer_allocate ((rfc5444_tlv_writer_init d mx)\<lparr>tw_header := hdr\<rparr>) False (2 ^ 64 - 6)) = RFC5444_OKAY \<and>
    tw_run [Tw_Allocate False (2 ^ 64 - 6), Tw_Set type ext value] ((rfc5444_tlv_writer_init d mx)\<lparr>tw_header := hdr\<rparr>) = Inl OOB_Write"
proof -
  have s: "calc_tlv_size False 18446744073709551610 = 18446744073709551614"
    by (simp add: calc_tlv_size_def size_t_def)
  have h: "size_t (hdr + 18446744073709551614) = hdr - 2"
  proof -
    have "hdr + 18446744073709551614 = (hdr - 2) + 2 ^ 64" using assms(2) by simp
    moreover have "hdr - 2 < 2 ^ 64" using assms(3,4) by simp
    ultimately show ?thesis unfolding size_t_def by (simp only: mod_add_self2 mod_less)
  qed
  have w: "size_t 36893488147419103230 = 18446744073709551614" by (simp add: size_t_def)
  have l: "length value + 5 < 2 ^ 64" using assms(5) by simp
  have c: "length (tlv_code (type, ext, value)) = calc_tlv_size (ext \<noteq> 0) (length value)"
    using tlv_code_length [OF l, of type ext] .
  have "calc_tlv_size (ext \<noteq> 0) (length value) \<le> 18446744073709551614"
    using calc_size_bounds [OF l, of "ext \<noteq> 0"] assms(5) by simp
  moreover have "\<not> mx < hdr - 2" using assms(3) by simp
  ultimately show ?thesis
    using assms(1,3,4,6) by (simp add: rfc5444_tlv_writer_allocate_def rfc5444_tlv_writer_set_def rfc5444_tlv_writer_init_def
        s h w c write_tlv_code memcpy_in_def Let_def)
qed

text \<open>
  C9: round trip of a TLV: what \<open>_write_tlv\<close> stores, with any type, extended type, value of at most 65535 bytes and index
  range (0 and 255: all addresses), \<open>_parse_tlv\<close> reads back, behind any bytes and with any entry left over from before; the
  pointer ends up right behind the TLV.
\<close>

theorem tlv_roundtrip:
  assumes "ptr + length (write_tlv_header type ext i1 i2 (length val)) + length val \<le> length buf"
    and "length val < 65536" and "i1 = 0 \<and> i2 = 255 \<or> addr_count = 0 \<or> i1 < addr_count \<and> i2 < addr_count"
  shows "\<exists>buf' t p. write_tlv buf ptr type ext i1 i2 val (length val) = Inr buf' \<and>
    parse_tlv buf' entry ptr (length buf') addr_count = Inr (RFC5444_OKAY, t, p) \<and>
    p = ptr + length (write_tlv_header type ext i1 i2 (length val)) + length val \<and>
    tlv_view buf' t = (type, ext, val) \<and>
    te_index1 t = (if i1 = 0 \<and> i2 = 255 then 0 else i1) \<and>
    te_index2 t = (if i1 = 0 \<and> i2 = 255 then addr_count - 1 else i2)"
proof -
  let ?c = "write_tlv_header type ext i1 i2 (length val) @ val"
  have "write_tlv buf ptr type ext i1 i2 val (length val) = memcpy_in buf ptr ?c"
    by (auto simp: write_tlv_def)
  moreover obtain buf' where w: "memcpy_in buf ptr ?c = Inr buf'" "written buf ptr ?c buf'"
    using memcpy_written [of ptr ?c buf] assms(1) by auto
  moreover note writtenD [OF w(2)]
  ultimately show ?thesis
    using parse_written_tlv [of buf' ptr type ext i1 i2 val "length buf'" addr_count entry] assms by auto
qed

theorem tlv_roundtrip_witness:
  "\<exists>buf' t p. write_tlv (replicate 12 7) 2 9 1 2 3 [5, 6] (length [5, 6 :: u8]) = Inr buf' \<and>
    parse_tlv buf' tlvblock_entry_zero 2 (length buf') 4 = Inr (RFC5444_OKAY, t, p) \<and>
    p = 2 + length (write_tlv_header 9 1 2 3 (length [5, 6 :: u8])) + length [5, 6 :: u8] \<and>
    tlv_view buf' t = (9, 1, [5, 6]) \<and>
    te_index1 t = (if (2 :: u8) = 0 \<and> (3 :: u8) = 255 then 0 else 2) \<and>
    te_index2 t = (if (2 :: u8) = 0 \<and> (3 :: u8) = 255 then 4 - 1 else 3)"
  by (rule tlv_roundtrip) (simp_all add: write_tlv_header_def)

end
