(* ===== verification/Rfc5444_Pkt_Generator.thy ===== *)
theory Rfc5444_Pkt_Generator
  imports Rfc5444_Tlv_Writer
begin

section \<open>Generating packets (librfc5444/rfc5444_pkt_generator)\<close>

text \<open>
  \<^verbatim>\<open>src/src/librfc5444/rfc5444_pkt_generator.c\<close>: a packet is started, its header and TLVs are added by
  callbacks, messages are put behind the space reserved for TLVs, and a flush completes and sends it. A callback gets the
  state of the writer, the target and the client state \<open>'st\<close> and changes the target through
  the functions of the interface; an assertion on the state of the writer that fails is \<open>Assert_Failed\<close>.
\<close>

datatype rfc5444_internal_state =
  RFC5444_WRITER_NONE
| RFC5444_WRITER_ADD_PKTHEADER
| RFC5444_WRITER_ADD_PKTTLV
| RFC5444_WRITER_ADD_HEADER
| RFC5444_WRITER_ADD_MSGTLV
| RFC5444_WRITER_ADD_ADDRESSES
| RFC5444_WRITER_FINISH_MSGTLV
| RFC5444_WRITER_FINISH_HEADER
| RFC5444_WRITER_FINISH_PKTTLV
| RFC5444_WRITER_FINISH_PKTHEADER

record rfc5444_writer_target =
  wt_packet_size :: nat
  wt_has_seqno :: bool
  wt_seqno :: u16
  wt_is_flushed :: bool
  wt_pkt :: rfc5444_tlv_writer_data
  wt_bin_msgs_size :: nat

type_synonym 'st pkt_callback =
  "rfc5444_internal_state \<Rightarrow> rfc5444_writer_target \<Rightarrow> 'st \<Rightarrow> fault + rfc5444_writer_target \<times> 'st"

text \<open>The callbacks of a target, of a packet handler and of a post-processor.\<close>

record 'st target_callbacks =
  wc_addPacketHeader :: "'st pkt_callback option"
  wc_finishPacketHeader :: "'st pkt_callback option"
  wc_sendPacket :: "(u8 list \<Rightarrow> 'st \<Rightarrow> 'st) option"

record 'st rfc5444_writer_pkthandler =
  ph_addPacketTLVs :: "'st pkt_callback option"
  ph_finishPacketTLVs :: "'st pkt_callback option"

record 'st rfc5444_writer_postprocessor =
  pp_priority :: int
  pp_allocate_space :: u16
  pp_is_matching_signature :: "int \<Rightarrow> bool"
  pp_process :: "u8 list \<Rightarrow> nat \<Rightarrow> 'st \<Rightarrow> int \<times> u8 list \<times> nat \<times> 'st"

definition RFC5444_WRITER_PKT_POSTPROCESSOR :: int where "RFC5444_WRITER_PKT_POSTPROCESSOR = -1"

definition assert_c :: "bool \<Rightarrow> fault + unit" where
  "assert_c b = (if b then Inr () else Inl Assert_Failed)"

subsection \<open>The interface for the callbacks\<close>

definition rfc5444_writer_add_packettlv ::
    "rfc5444_internal_state \<Rightarrow> rfc5444_writer_target \<Rightarrow> u8 \<Rightarrow> u8 \<Rightarrow> u8 list \<Rightarrow> nat \<Rightarrow>
     fault + int \<times> rfc5444_writer_target" where
  "rfc5444_writer_add_packettlv state target typ exttype val len =
     bind_f (assert_c (state = RFC5444_WRITER_ADD_PKTTLV)) (\<lambda>_.
     bind_f (rfc5444_tlv_writer_add (wt_pkt target) typ exttype val len) (\<lambda>(r, pkt).
     Inr (r, target\<lparr>wt_pkt := pkt\<rparr>)))"

definition rfc5444_writer_allocate_packettlv ::
    "rfc5444_internal_state \<Rightarrow> rfc5444_writer_target \<Rightarrow> bool \<Rightarrow> nat \<Rightarrow> fault + int \<times> rfc5444_writer_target" where
  "rfc5444_writer_allocate_packettlv state target has_exttype len =
     bind_f (assert_c (state = RFC5444_WRITER_ADD_PKTTLV)) (\<lambda>_.
     case rfc5444_tlv_writer_allocate (wt_pkt target) has_exttype len of (r, pkt) \<Rightarrow>
     Inr (r, target\<lparr>wt_pkt := pkt\<rparr>))"

definition rfc5444_writer_set_packettlv ::
    "rfc5444_internal_state \<Rightarrow> rfc5444_writer_target \<Rightarrow> u8 \<Rightarrow> u8 \<Rightarrow> u8 list \<Rightarrow> nat \<Rightarrow>
     fault + int \<times> rfc5444_writer_target" where
  "rfc5444_writer_set_packettlv state target typ exttype val len =
     bind_f (assert_c (state = RFC5444_WRITER_FINISH_PKTTLV)) (\<lambda>_.
     bind_f (rfc5444_tlv_writer_set (wt_pkt target) typ exttype val len) (\<lambda>(r, pkt).
     Inr (r, target\<lparr>wt_pkt := pkt\<rparr>)))"

definition rfc5444_writer_set_pkt_header ::
    "rfc5444_internal_state \<Rightarrow> rfc5444_writer_target \<Rightarrow> bool \<Rightarrow> fault + rfc5444_writer_target" where
  "rfc5444_writer_set_pkt_header state target has_seqno =
     bind_f (assert_c (state = RFC5444_WRITER_ADD_PKTHEADER)) (\<lambda>_.
     let target = target\<lparr>wt_pkt := (wt_pkt target)\<lparr>tw_header := 1 + 2\<rparr>, wt_has_seqno := has_seqno\<rparr>
     in Inr (if has_seqno
             then target\<lparr>wt_pkt := (wt_pkt target)\<lparr>tw_header := tw_header (wt_pkt target) + 2\<rparr>\<rparr> else target))"

definition rfc5444_writer_set_pkt_seqno ::
    "rfc5444_internal_state \<Rightarrow> rfc5444_writer_target \<Rightarrow> u16 \<Rightarrow> fault + rfc5444_writer_target" where
  "rfc5444_writer_set_pkt_seqno state target seqno =
     bind_f (assert_c (state = RFC5444_WRITER_ADD_PKTHEADER \<or> state = RFC5444_WRITER_FINISH_PKTHEADER)) (\<lambda>_.
     Inr (target\<lparr>wt_seqno := seqno\<rparr>))"

subsection \<open>Starting a packet\<close>

fun reserve_postprocessors ::
    "'st rfc5444_writer_postprocessor list \<Rightarrow> rfc5444_writer_target \<Rightarrow> rfc5444_writer_target" where
  "reserve_postprocessors [] target = target"
| "reserve_postprocessors (p # ps) target =
     reserve_postprocessors ps
       (if pp_is_matching_signature p RFC5444_WRITER_PKT_POSTPROCESSOR
        then target\<lparr>wt_pkt := (wt_pkt target)\<lparr>tw_allocated := tw_allocated (wt_pkt target) + unat (pp_allocate_space p)\<rparr>\<rparr>
        else target)"

fun call_handlers ::
    "'st pkt_callback option list \<Rightarrow> rfc5444_internal_state \<Rightarrow> rfc5444_writer_target \<Rightarrow> 'st \<Rightarrow>
     fault + rfc5444_writer_target \<times> 'st" where
  "call_handlers [] state target st = Inr (target, st)"
| "call_handlers (None # cbs) state target st = call_handlers cbs state target st"
| "call_handlers (Some cb # cbs) state target st =
     bind_f (cb state target st) (\<lambda>(target, st). call_handlers cbs state target st)"

definition rfc5444_writer_begin_packet ::
    "'st rfc5444_writer_postprocessor list \<Rightarrow> 'st rfc5444_writer_pkthandler list \<Rightarrow> 'st target_callbacks \<Rightarrow>
     rfc5444_writer_target \<Rightarrow> 'st \<Rightarrow> fault + rfc5444_writer_target \<times> 'st" where
  "rfc5444_writer_begin_packet processors handlers cbs target st =
     (let target = target\<lparr>wt_pkt := rfc5444_tlv_writer_init (wt_pkt target) (wt_packet_size target)\<rparr>;
          target = reserve_postprocessors processors target
      in bind_f (case wc_addPacketHeader cbs of
                   Some cb \<Rightarrow> cb RFC5444_WRITER_ADD_PKTHEADER target st
                 | None \<Rightarrow> bind_f (rfc5444_writer_set_pkt_header RFC5444_WRITER_ADD_PKTHEADER target False)
                            (\<lambda>target. Inr (target, st))) (\<lambda>(target, st).
         bind_f (call_handlers (map ph_addPacketTLVs handlers) RFC5444_WRITER_ADD_PKTTLV target st) (\<lambda>(target, st).
         Inr (target\<lparr>wt_is_flushed := False\<rparr>, st))))"

subsection \<open>Flushing a packet\<close>

text \<open>The bytes \<open>_write_pktheader\<close> stores from the start of the buffer on.\<close>

definition pktheader_bytes :: "rfc5444_writer_target \<Rightarrow> u8 list" where
  "pktheader_bytes target =
     (let len = tw_added (wt_pkt target) + tw_set (wt_pkt target)
      in [(if wt_has_seqno target then RFC5444_PKT_FLAG_SEQNO else 0) OR (if len > 0 then RFC5444_PKT_FLAG_TLV else 0)] @
         (if wt_has_seqno target then [ucast (drop_bit 8 (wt_seqno target)), ucast (wt_seqno target AND 255)] else []) @
         (if len > 0 then [of_nat (len div 256), of_nat (len mod 256)] else []))"

definition write_pktheader :: "rfc5444_writer_target \<Rightarrow> fault + rfc5444_writer_target" where
  "write_pktheader target =
     bind_f (memcpy_in (tw_buffer (wt_pkt target)) 0 (pktheader_bytes target)) (\<lambda>buf.
     Inr (target\<lparr>wt_pkt := (wt_pkt target)\<lparr>tw_buffer := buf\<rparr>\<rparr>))"

text \<open>The post-processors in turn; the flag is \<open>error\<close>.\<close>

fun run_postprocessors ::
    "'st rfc5444_writer_postprocessor list \<Rightarrow> u8 list \<Rightarrow> nat \<Rightarrow> 'st \<Rightarrow> bool \<times> u8 list \<times> nat \<times> 'st" where
  "run_postprocessors [] buf tot st = (False, buf, tot, st)"
| "run_postprocessors (p # ps) buf tot st =
     (if pp_is_matching_signature p RFC5444_WRITER_PKT_POSTPROCESSOR
      then (case pp_process p buf tot st of (r, buf, tot, st) \<Rightarrow>
              if r \<noteq> 0 then (True, buf, tot, st) else run_postprocessors ps buf tot st)
      else run_postprocessors ps buf tot st)"

text \<open>From the call of \<open>_write_pktheader\<close> on.\<close>

definition flush_packet ::
    "'st rfc5444_writer_postprocessor list \<Rightarrow> (u8 list \<Rightarrow> 'st \<Rightarrow> 'st) \<Rightarrow> rfc5444_writer_target \<Rightarrow> 'st \<Rightarrow>
     fault + rfc5444_writer_target \<times> 'st" where
  "flush_packet processors send target st =
     bind_f (write_pktheader target) (\<lambda>target.
     let pkt = wt_pkt target;
         len = 1;
         len = (if wt_has_seqno target then len + 2 else len);
         len = (if tw_added pkt + tw_set pkt > 0 then len + 2 else len)
     in bind_f
          (if wt_bin_msgs_size target \<noteq> 0
           then bind_f (slice (tw_buffer pkt) (tw_header pkt + tw_added pkt + tw_allocated pkt) (wt_bin_msgs_size target))
                  (\<lambda>msgs. memcpy_in (tw_buffer pkt) (len + tw_added pkt + tw_set pkt) msgs)
           else Inr (tw_buffer pkt)) (\<lambda>buf.
        let tot = len + tw_added pkt + tw_set pkt + wt_bin_msgs_size target
        in case run_postprocessors processors buf tot st of (err, buf, tot, st) \<Rightarrow>
           bind_f (if \<not> err \<and> tot > 0
                   then bind_f (slice buf 0 tot) (\<lambda>bytes. Inr (send bytes st))
                   else Inr st) (\<lambda>st.
           Inr (target\<lparr>wt_pkt := pkt\<lparr>tw_buffer := buf, tw_set := 0\<rparr>, wt_bin_msgs_size := 0, wt_is_flushed := True\<rparr>, st))))"

definition rfc5444_writer_flush ::
    "rfc5444_internal_state \<Rightarrow> 'st rfc5444_writer_postprocessor list \<Rightarrow> 'st rfc5444_writer_pkthandler list \<Rightarrow>
     'st target_callbacks \<Rightarrow> rfc5444_writer_target \<Rightarrow> bool \<Rightarrow> 'st \<Rightarrow> fault + rfc5444_writer_target \<times> 'st" where
  "rfc5444_writer_flush state processors handlers cbs target force st =
     bind_f (assert_c (state = RFC5444_WRITER_NONE)) (\<lambda>_.
     case wc_sendPacket cbs of
       None \<Rightarrow> Inl Assert_Failed
     | Some send \<Rightarrow>
         if wt_is_flushed target \<and> \<not> force then Inr (target, st)
         else bind_f (if wt_is_flushed target then rfc5444_writer_begin_packet processors handlers cbs target st
                      else Inr (target, st)) (\<lambda>(target, st).
              bind_f (call_handlers (map ph_finishPacketTLVs (rev handlers)) RFC5444_WRITER_FINISH_PKTTLV target st)
                (\<lambda>(target, st).
              bind_f (case wc_finishPacketHeader cbs of
                        Some cb \<Rightarrow> cb RFC5444_WRITER_FINISH_PKTHEADER target st
                      | None \<Rightarrow> Inr (target, st)) (\<lambda>(target, st).
              flush_packet processors send target st))))"

subsection \<open>A packet with TLVs\<close>

text \<open>Clients: a target that sets a sequence number, and a handler that adds TLVs to a packet.\<close>

definition seqno_callback :: "u16 option \<Rightarrow> 'st pkt_callback" where
  "seqno_callback seqno = (\<lambda>state target st. case seqno of
     None \<Rightarrow> bind_f (rfc5444_writer_set_pkt_header state target False) (\<lambda>target. Inr (target, st))
   | Some s \<Rightarrow> bind_f (rfc5444_writer_set_pkt_header state target True) (\<lambda>target.
              bind_f (rfc5444_writer_set_pkt_seqno state target s) (\<lambda>target. Inr (target, st))))"

fun add_packettlvs where
  "add_packettlvs state target [] = Inr target"
| "add_packettlvs state target ((ty, ext, v) # ts) =
     bind_f (rfc5444_writer_add_packettlv state target ty ext v (length v)) (\<lambda>(r, target).
     if r \<noteq> RFC5444_OKAY then Inr target else add_packettlvs state target ts)"

definition tlv_handler :: "(u8 \<times> u8 \<times> u8 list) list \<Rightarrow> 'st rfc5444_writer_pkthandler" where
  "tlv_handler ts = \<lparr>ph_addPacketTLVs = Some (\<lambda>state target st.
     bind_f (add_packettlvs state target ts) (\<lambda>target. Inr (target, st))), ph_finishPacketTLVs = None\<rparr>"

definition log_target :: "u16 option \<Rightarrow> u8 list list target_callbacks" where
  "log_target seqno = \<lparr>wc_addPacketHeader = Some (seqno_callback seqno), wc_finishPacketHeader = None,
     wc_sendPacket = Some (\<lambda>bytes sent. sent @ [bytes])\<rparr>"

definition packet_header :: "u16 option \<Rightarrow> u8 list" where
  "packet_header seqno = (case seqno of
     None \<Rightarrow> [RFC5444_PKT_FLAG_TLV]
   | Some s \<Rightarrow> [RFC5444_PKT_FLAG_SEQNO OR RFC5444_PKT_FLAG_TLV, ucast (drop_bit 8 s), ucast (s AND 255)])"

definition packet_code :: "u16 option \<Rightarrow> (u8 \<times> u8 \<times> u8 list) list \<Rightarrow> u8 list" where
  "packet_code seqno ts = packet_header seqno @
     [of_nat (length (tlvs_code ts) div 256), of_nat (length (tlvs_code ts))] @ tlvs_code ts"

lemma add_packettlvs_add_tlvs:
  "add_packettlvs RFC5444_WRITER_ADD_PKTTLV target ts =
     bind_f (add_tlvs (wt_pkt target) ts) (\<lambda>(r, pkt). Inr (target\<lparr>wt_pkt := pkt\<rparr>))"
proof (induction ts arbitrary: target)
  case (Cons t ts)
  obtain ty ext v where t: "t = (ty, ext, v)" by (cases t)
  show ?case
    by (cases "rfc5444_tlv_writer_add (wt_pkt target) ty ext v (length v)")
      (auto simp: t rfc5444_writer_add_packettlv_def assert_c_def Cons)
qed simp

lemma of_nat_mod_256: "(of_nat (n mod 256) :: u8) = of_nat n"
  by (rule word_unat_eq_iff [THEN iffD2]) (simp add: unat_of_nat)

lemma flush_sends_packet:
  assumes "wt_is_flushed target" "wt_bin_msgs_size target = 0"
    and len: "length (tw_buffer (wt_pkt target)) = wt_packet_size target" "wt_packet_size target < 65536"
    and ts: "ts \<noteq> []" "length (packet_code seqno ts) \<le> wt_packet_size target"
  shows "\<exists>target'. rfc5444_writer_flush RFC5444_WRITER_NONE [] [tlv_handler ts] (log_target seqno) target True sent =
    Inr (target', sent @ [packet_code seqno ts])"
proof -
  let ?n = "length (tlvs_code ts)"
  define h :: nat where "h = (case seqno of None \<Rightarrow> 3 | Some _ \<Rightarrow> 5)"
  have h: "length (packet_header seqno) + 2 = h" by (simp add: packet_header_def h_def split: option.split)
  obtain t ts' where "ts = t # ts'" using ts(1) by (cases ts) auto
  then have n0: "0 < ?n" by (cases t) (simp add: tlv_code_def header_parts)
  have n: "h + ?n \<le> wt_packet_size target" using ts(2) h by (simp add: packet_code_def)
  define d where "d = (rfc5444_tlv_writer_init (wt_pkt target) (wt_packet_size target))\<lparr>tw_header := h\<rparr>"
  have dok: "tw_ok d" using len n by (simp add: d_def tw_ok_def rfc5444_tlv_writer_init_def)
  have d: "tw_header d = h" "tw_added d = 0" "tw_allocated d = 0" "tw_set d = 0" "tw_max d = wt_packet_size target"
    "tw_buffer d = tw_buffer (wt_pkt target)"
    by (simp_all add: d_def rfc5444_tlv_writer_init_def)
  have fits: "\<forall>(type, ext, value)\<in>set ts. tw_fits d (length value)"
    using tlv_value_length [of _ _ _ ts] n len d(5) by (fastforce simp: tw_fits_def)
  obtain buf1 where add: "add_tlvs d ts = Inr (RFC5444_OKAY, d\<lparr>tw_buffer := buf1, tw_added := ?n\<rparr>)"
    and w1: "written (tw_buffer d) h (tlvs_code ts) buf1"
    using add_tlvs_ok [OF dok fits] n by (auto simp: d)
  define t1 where "t1 = target\<lparr>wt_pkt := d, wt_has_seqno := (seqno \<noteq> None),
      wt_seqno := (case seqno of None \<Rightarrow> wt_seqno target | Some s \<Rightarrow> s)\<rparr>"
  have hdr: "seqno_callback seqno RFC5444_WRITER_ADD_PKTHEADER
      (target\<lparr>wt_pkt := rfc5444_tlv_writer_init (wt_pkt target) (wt_packet_size target)\<rparr>) sent = Inr (t1, sent)"
    by (simp add: seqno_callback_def rfc5444_writer_set_pkt_header_def rfc5444_writer_set_pkt_seqno_def assert_c_def
        t1_def d_def h_def Let_def split: option.split)
  define t2 where "t2 = t1\<lparr>wt_pkt := d\<lparr>tw_buffer := buf1, tw_added := ?n\<rparr>\<rparr>"
  have beg: "rfc5444_writer_begin_packet [] [tlv_handler ts] (log_target seqno) target sent =
      Inr (t2\<lparr>wt_is_flushed := False\<rparr>, sent)"
    using hdr add
    by (simp add: rfc5444_writer_begin_packet_def Let_def log_target_def tlv_handler_def add_packettlvs_add_tlvs t1_def t2_def)
  let ?hb = "packet_header seqno @ [of_nat (?n div 256), of_nat ?n]"
  have hb: "pktheader_bytes (t2\<lparr>wt_is_flushed := False\<rparr>) = ?hb"
    using n0 by (simp add: pktheader_bytes_def t2_def t1_def d packet_header_def Let_def of_nat_mod_256 split: option.split)
  have l1: "length buf1 = wt_packet_size target" using writtenD(1) [OF w1] len d by simp
  have hl: "length ?hb = h" using h by simp
  obtain buf2 where wp: "memcpy_in buf1 0 ?hb = Inr buf2" "written buf1 0 ?hb buf2"
    using memcpy_written [of 0 ?hb buf1] n l1 hl by auto
  have b2: "bytes_at buf2 0 ?hb" "length buf2 = wt_packet_size target" using writtenD [OF wp(2)] l1 by auto
  have b3: "bytes_at buf2 h (tlvs_code ts)"
    by (rule written_bytes [OF wp(2) writtenD(2) [OF w1]]) (use hl in simp)
  have "bytes_at buf2 0 (?hb @ tlvs_code ts)"
    unfolding bytes_at_append [of buf2 0 ?hb "tlvs_code ts"] hl add_0 using b2(1) b3 by (rule conjI)
  from bytes_at_slice [OF this]
  have sl: "slice buf2 0 (h + ?n) = Inr (packet_code seqno ts)"
    by (simp add: packet_code_def hl [symmetric])
  have sl': "slice buf2 0 m = Inr (packet_code seqno ts)" if "m = h + ?n" for m
    using sl that by simp
  have "(if wt_has_seqno t1 then 1 + 2 else 1 :: nat) + 2 = h" by (simp add: t1_def h_def split: option.split)
  then have "flush_packet [] (\<lambda>bytes sent. sent @ [bytes]) (t2\<lparr>wt_is_flushed := False\<rparr>) sent =
      Inr (t2\<lparr>wt_pkt := (wt_pkt t2)\<lparr>tw_buffer := buf2, tw_set := 0\<rparr>, wt_bin_msgs_size := 0, wt_is_flushed := True\<rparr>,
        sent @ [packet_code seqno ts])"
    using wp(1) hb n0 assms(2)
    by (simp add: sl' flush_packet_def write_pktheader_def t2_def t1_def d Let_def split: if_splits)
  then show ?thesis
    using assms(1) beg
    by (simp add: rfc5444_writer_flush_def assert_c_def log_target_def tlv_handler_def)
qed


subsection \<open>Reading the packet\<close>

text \<open>A packet consumer without entries that records what it sees.\<close>

definition log_consumer ::
    "u8 list \<Rightarrow> (u16 option \<times> (u8 \<times> u8 \<times> u8 list) list) list rfc5444_reader_tlvblock_consumer" where
  "log_consumer buf = \<lparr>co_id = 0, co_order = 0, co_default_msg_consumer = False, co_msg_id = 0,
     co_addrblock_consumer = False, co_consumer_list = [], co_start_callback = None, co_end_callback = None,
     co_tlv_callback = None,
     co_block_callback = Some (\<lambda>ctx ces tlvs seen. (RFC5444_OKAY, False, [],
       seen @ [(if tc_has_pktseqno ctx then Some (tc_pkt_seqno ctx) else None, map (tlv_view buf) tlvs)])),
     co_block_callback_failed_constraints = None\<rparr>"

definition log_reader ::
    "u8 list \<Rightarrow> (u16 option \<times> (u8 \<times> u8 \<times> u8 list) list) list rfc5444_reader" where
  "log_reader buf = rfc5444_reader_add_packet_consumer
     (rfc5444_reader_init None None None None None (\<lambda>s. (True, s)) (\<lambda>s. (True, s)) id id) (log_consumer buf) []"

lemma sched_loop_no_entries:
  assumes "ss_ces s = []" "co_tlv_callback c = None" "ss_ce s = 0" "\<forall>t\<in>set (ss_tlvs s). \<not> te_multivalue_tlv t"
  shows "sched_loop buf c idx s = Inr (RFC5444_OKAY, s\<lparr>ss_tlv := max (ss_tlv s) (length (ss_tlvs s))\<rparr>)"
  using assms
proof (induction "length (ss_tlvs s) - ss_tlv s" arbitrary: s)
  case 0
  then show ?case by (subst sched_loop.simps) (simp add: sched_more_def max_def)
next
  case (Suc n)
  let ?t = "ss_tlvs s ! ss_tlv s"
  have i: "ss_tlv s < length (ss_tlvs s)" using Suc.hyps(2) by simp
  have m: "multivalue_ptr ?t idx = ?t" using Suc.prems(4) i by (simp add: multivalue_ptr_def)
  have cb: "\<exists>b. sched_tlv_callback c idx s = (RFC5444_OKAY, False, s)"
    using i Suc.prems m by (simp add: sched_tlv_callback_def nth_opt_def Let_def)
  have "sched_advance buf False s = Inr (s\<lparr>ss_tlv := ss_tlv s + 1\<rparr>)"
    using i Suc.prems by (simp add: sched_advance_def nth_opt_def compare_tlvtypes_def Let_def)
  then have "sched_iter buf c idx s = Inr (RFC5444_OKAY, s\<lparr>ss_tlv := ss_tlv s + 1\<rparr>)"
    using cb by (simp add: sched_iter_def)
  then have "sched_loop buf c idx s = sched_loop buf c idx (s\<lparr>ss_tlv := ss_tlv s + 1\<rparr>)"
    using i by (subst sched_loop.simps) (simp add: sched_more_def)
  also have "\<dots> = Inr (RFC5444_OKAY, s\<lparr>ss_tlv := max (ss_tlv s) (length (ss_tlvs s))\<rparr>)"
    using Suc.hyps(1) [of "s\<lparr>ss_tlv := ss_tlv s + 1\<rparr>"] Suc.hyps(2) Suc.prems i by (simp add: max_def)
  finally show ?case .
qed

lemma get_u8_first: "rfc5444_get_u8 (x # xs) 0 (Suc (length xs)) RFC5444_OKAY = Inr (x, 1, RFC5444_OKAY)"
  by (simp add: rfc5444_get_u8_def)

lemma seqno_bytes: "push_bit 8 (ucast (ucast (drop_bit 8 s) :: u8)) OR ucast (ucast (s AND 255) :: u8) = (s :: u16)"
proof -
  have m: "s AND 255 = take_bit 8 s" by (simp add: take_bit_eq_mask mask_eq_exp_minus_1)
  show ?thesis
    unfolding m
    by (rule bit_word_eqI)
      (auto simp: bit_or_iff bit_push_bit_iff bit_ucast_iff bit_drop_bit_eq bit_take_bit_iff not_less)
qed

lemma packet_body_log:
  assumes "\<forall>e\<in>set es. \<not> te_multivalue_tlv e"
  shows "\<exists>reader'. packet_body (log_reader buf) ctx buf True es (length buf) seen =
    Inr (RFC5444_OKAY, reader', seen @ [(if tc_has_pktseqno ctx then Some (tc_pkt_seqno ctx) else None, map (tlv_view buf) es)])"
proof -
  have free: "free_tlvblock id ts st = st" for ts and st :: 'x by (induction ts arbitrary: st) auto
  have r: "rr_packet_consumer (log_reader buf) = [log_consumer buf]" "rr_free_tlvblock_entry (log_reader buf) = id"
    by (simp_all add: log_reader_def rfc5444_reader_add_packet_consumer_def add_consumer_def rfc5444_reader_init_def
        log_consumer_def)
  have c: "packet_consumer buf True (log_consumer buf) ctx es seen =
      Inr (RFC5444_OKAY, log_consumer buf, set_forward (ctx\<lparr>tc_consumer := Some 0\<rparr>) False, es,
        seen @ [(if tc_has_pktseqno ctx then Some (tc_pkt_seqno ctx) else None, map (tlv_view buf) es)])"
    using assms
    by (simp add: packet_consumer_def call_start_def schedule_tlvblock_def sched_loop_no_entries log_consumer_def
        reset_entry_def sched_finish_def Let_def mark_drops_def rfc5444_results)
  have pm: "packet_messages p ctx' buf (length buf) (length buf) st = Inr (RFC5444_OKAY, ctx', p, st)" for p ctx' st
    by (subst packet_messages.simps) simp
  show ?thesis
    by (simp add: packet_body_def r c pm Let_def free) (simp add: log_consumer_def)
qed

lemma reader_handles_packet:
  assumes "ts \<noteq> []" "length (packet_code seqno ts) < 65536" "buf = packet_code seqno ts"
  shows "\<exists>reader' seen. rfc5444_reader_handle_packet (log_reader buf) buf [] = Inr (RFC5444_OKAY, reader', [(seqno, seen)]) \<and>
    mset seen = mset ts"
proof -
  let ?n = "length (tlvs_code ts)"
  let ?off = "length (packet_header seqno)"
  have n: "?n < 65536" "length buf = ?off + 2 + ?n" using assms(2,3) by (simp_all add: packet_code_def)
  have b: "bytes_at buf ?off ([of_nat (?n div 256), of_nat ?n] @ tlvs_code ts)"
    unfolding assms(3) packet_code_def by (simp add: bytes_at_def)
  obtain es st' where es: "parse_tlvblock (\<lambda>s. (True, s)) id buf [] ?off (length buf) 0 [] =
      Inr (RFC5444_OKAY, es, length buf, [] :: (u16 option \<times> (u8 \<times> u8 \<times> u8 list) list) list)" "mset (map (tlv_view buf) es) = mset ts" "\<forall>e\<in>set es. \<not> te_multivalue_tlv e"
    using parse_block_code [OF b n(1), of "length buf" "\<lambda>s. (True, s)" id "[]"] n(2) by auto
  have r: "rr_malloc_tlvblock_entry (log_reader buf) = (\<lambda>s. (True, s))" "rr_free_tlvblock_entry (log_reader buf) = id"
    by (simp_all add: log_reader_def rfc5444_reader_add_packet_consumer_def add_consumer_def rfc5444_reader_init_def)
  obtain rd' where rd': "\<And>ctx seen. packet_body (log_reader buf) ctx buf True es (length buf) seen =
    Inr (RFC5444_OKAY, rd' ctx seen, seen @ [(if tc_has_pktseqno ctx then Some (tc_pkt_seqno ctx) else None, map (tlv_view buf) es)])"
    using packet_body_log [OF es(3), of buf] by metis
  have parse: "parse_tlvblock (rr_malloc_tlvblock_entry (log_reader buf)) (rr_free_tlvblock_entry (log_reader buf))
      buf [] ?off (length buf) 0 [] = Inr (RFC5444_OKAY, es, length buf, [])" using es(1) r by simp
  show ?thesis
  proof (cases seqno)
    case None
    then have buf: "buf = 4 # tl buf" "?off = 1" "length buf \<le> 65535" "0 < length buf"
      using assms(2,3) by (simp_all add: packet_code_def packet_header_def rfc5444_flags)
    have g: "rfc5444_get_u8 buf 0 (length buf) RFC5444_OKAY = Inr (4, 1, RFC5444_OKAY)"
      using buf by (metis get_u8_first length_Cons)
    have "\<exists>reader'. rfc5444_reader_handle_packet (log_reader buf) buf [] = 
        Inr (RFC5444_OKAY, reader', [] @ [(None, map (tlv_view buf) es)])"
      using rd' buf(3) parse [unfolded buf(2)]
      by (simp add: rfc5444_reader_handle_packet_def g Let_def rfc5444_get_pktversion_def rfc5444_flags tlvblock_context_zero_def)
    then show ?thesis using None es(2) by auto
  next
    case (Some s)
    then have buf: "buf = 12 # tl buf" "?off = 3" "length buf \<le> 65535" "5 \<le> length buf"
      "bytes_at buf 1 [ucast (drop_bit 8 s), ucast (s AND 255)]"
      using assms(2,3) by (simp_all add: packet_code_def packet_header_def rfc5444_flags bytes_at_def)
    have g: "rfc5444_get_u8 buf 0 (length buf) RFC5444_OKAY = Inr (12, 1, RFC5444_OKAY)"
      using buf(1) by (metis get_u8_first length_Cons)
    have b2: "bytes_at buf 2 [ucast (s AND 255)]" using buf(5) by (simp add: bytes_at_Cons numeral_2_eq_2)
    have "rfc5444_get_u8 buf 1 (length buf) RFC5444_OKAY = Inr (ucast (drop_bit 8 s), 2, RFC5444_OKAY)"
      using get_u8_bytes [OF buf(5), of "length buf"] buf(4) by (simp add: numeral_2_eq_2)
    moreover have "rfc5444_get_u8 buf 2 (length buf) RFC5444_OKAY = Inr (ucast (s AND 255), 3, RFC5444_OKAY)"
      using get_u8_bytes [OF b2, of "length buf"] buf(4) by simp
    ultimately have g2: "rfc5444_get_u16 buf 1 (length buf) RFC5444_OKAY = Inr (s, 3, RFC5444_OKAY)"
      by (simp only: rfc5444_get_u16_def bind_f_Inr prod.case seqno_bytes)
    have "\<exists>reader'. rfc5444_reader_handle_packet (log_reader buf) buf [] =
        Inr (RFC5444_OKAY, reader', [] @ [(Some s, map (tlv_view buf) es)])"
      using rd' buf(3) parse [unfolded buf(2)]
      by (simp add: rfc5444_reader_handle_packet_def g g2 Let_def rfc5444_get_pktversion_def rfc5444_flags tlvblock_context_zero_def
          del: One_nat_def)
    then show ?thesis using Some es(2) by auto
  qed
qed


subsection \<open>Properties\<close>

text \<open>
  C1: the packet a target sends is the packet a reader understands: a flushed target with an empty packet to which
  a handler adds any TLVs that fit is flushed into exactly one packet, and the reader hands a packet consumer exactly these TLVs (each with
  type, extended type and value) and the sequence number, when one was set.
\<close>

theorem packet_roundtrip:
  assumes "wt_is_flushed target" "wt_bin_msgs_size target = 0"
    and "length (tw_buffer (wt_pkt target)) = wt_packet_size target" "wt_packet_size target < 65536"
    and "ts \<noteq> []" "length (packet_code seqno ts) \<le> wt_packet_size target"
  shows "\<exists>target' pkt reader' seen.
    rfc5444_writer_flush RFC5444_WRITER_NONE [] [tlv_handler ts] (log_target seqno) target True [] = Inr (target', [pkt]) \<and>
    rfc5444_reader_handle_packet (log_reader pkt) pkt [] = Inr (RFC5444_OKAY, reader', [(seqno, seen)]) \<and>
    mset seen = mset ts"
  using flush_sends_packet [OF assms, of "[]"] reader_handles_packet [of ts seqno] assms(4,5,6) by fastforce

definition empty_target :: "nat \<Rightarrow> rfc5444_writer_target" where
  "empty_target n = \<lparr>wt_packet_size = n, wt_has_seqno = False, wt_seqno = 0, wt_is_flushed = True,
     wt_pkt = \<lparr>tw_buffer = replicate n 0, tw_header = 0, tw_added = 0, tw_allocated = 0, tw_set = 0, tw_max = n\<rparr>,
     wt_bin_msgs_size = 0\<rparr>"

theorem packet_roundtrip_witness:
  "\<exists>target' pkt reader' seen.
    rfc5444_writer_flush RFC5444_WRITER_NONE [] [tlv_handler [(1, 0, [9]), (1, 2, [])]] (log_target (Some 700))
      (empty_target 40) True [] = Inr (target', [pkt]) \<and>
    rfc5444_reader_handle_packet (log_reader pkt) pkt [] = Inr (RFC5444_OKAY, reader', [(Some 700, seen)]) \<and>
    mset seen = mset [(1, 0, [9]), (1, 2, [])]"
  by (rule packet_roundtrip)
    (simp_all add: empty_target_def packet_code_def packet_header_def tlvs_code_def tlv_code_def write_tlv_header_def)

end
