(* ===== verification/Os_Routing.thy ===== *)
theory Os_Routing
  imports Avl_Spec Rfc5444_Conv "HOL-Library.Mapping" "HOL-Library.List_Lexorder" "HOL-Library.Product_Lexorder"
begin

section \<open>Addresses and route keys as ordered types (base/os_routing)\<close>

text \<open>
  Addresses and route keys as linearly ordered types, so that the trees of the code over them are maps
  walked in key order: \<open>struct netaddr\<close> and \<open>struct os_route_key\<close> are compared by \<open>memcmp\<close>. Then the functions
  of \<^verbatim>\<open>src/include/oonf/base/os_routing.h\<close> that make a route key of an address.
\<close>

subsection \<open>Addresses in the order of memcmp\<close>

text \<open>The bytes of an address, and the rest of an extended record.\<close>

definition netaddr_key :: "'a netaddr_scheme \<Rightarrow> u8 list \<times> 'a" where
  "netaddr_key a = (na_addr a @ [na_type a, na_prefix_len a], netaddr.more a)"

lemma netaddr_key_inj: "netaddr_key a = netaddr_key b \<Longrightarrow> a = b"
  by (cases a; cases b) (simp add: netaddr_key_def)

instantiation netaddr_ext :: (linorder) linorder
begin

definition less_eq_netaddr_ext :: "'a netaddr_scheme \<Rightarrow> 'a netaddr_scheme \<Rightarrow> bool" where
  "less_eq_netaddr_ext a b \<longleftrightarrow> netaddr_key a \<le> netaddr_key b"

definition less_netaddr_ext :: "'a netaddr_scheme \<Rightarrow> 'a netaddr_scheme \<Rightarrow> bool" where
  "less_netaddr_ext a b \<longleftrightarrow> netaddr_key a < netaddr_key b"

instance
  by standard (auto simp: less_eq_netaddr_ext_def less_netaddr_ext_def intro: netaddr_key_inj)

end

lemma memcmp_less: "length xs = length ys \<Longrightarrow> xs < ys \<longleftrightarrow> memcmp xs ys < 0"
  by (induction xs ys rule: memcmp.induct) auto

text \<open>This is the order of the comparator of the code.\<close>

lemma netaddr_less_iff:
  assumes "netaddr_wf a" "netaddr_wf b"
  shows "a < b \<longleftrightarrow> avl_comp_netaddr a b < 0"
proof -
  have "length (netaddr_bytes a) = length (netaddr_bytes b)" using assms by (simp add: netaddr_bytes_length)
  from memcmp_less [OF this] show ?thesis
    by (simp add: less_netaddr_ext_def avl_comp_netaddr_def netaddr_key_def netaddr_bytes_def less_prod_def)
qed

record os_route_key =
  rk_dst :: netaddr
  rk_src :: netaddr

definition route_key_bytes :: "'a os_route_key_scheme \<Rightarrow> u8 list" where
  "route_key_bytes k = netaddr_bytes (rk_dst k) @ netaddr_bytes (rk_src k)"

definition os_routing_avl_cmp_route_key :: "os_route_key \<Rightarrow> os_route_key \<Rightarrow> int" where
  "os_routing_avl_cmp_route_key ss1 ss2 = memcmp (route_key_bytes ss1) (route_key_bytes ss2)"

definition route_key_wf :: "os_route_key \<Rightarrow> bool" where
  "route_key_wf k \<longleftrightarrow> netaddr_wf (rk_dst k) \<and> netaddr_wf (rk_src k)"

definition route_key_key :: "'a os_route_key_scheme \<Rightarrow> (netaddr \<times> netaddr) \<times> 'a" where
  "route_key_key k = ((rk_dst k, rk_src k), os_route_key.more k)"

lemma route_key_key_inj: "route_key_key a = route_key_key b \<Longrightarrow> a = b"
  by (cases a; cases b) (simp add: route_key_key_def)

instantiation os_route_key_ext :: (linorder) linorder
begin

definition less_eq_os_route_key_ext :: "'a os_route_key_scheme \<Rightarrow> 'a os_route_key_scheme \<Rightarrow> bool" where
  "less_eq_os_route_key_ext a b \<longleftrightarrow> route_key_key a \<le> route_key_key b"

definition less_os_route_key_ext :: "'a os_route_key_scheme \<Rightarrow> 'a os_route_key_scheme \<Rightarrow> bool" where
  "less_os_route_key_ext a b \<longleftrightarrow> route_key_key a < route_key_key b"

instance
  by standard (auto simp: less_eq_os_route_key_ext_def less_os_route_key_ext_def intro: route_key_key_inj)

end

lemma memcmp_append:
  "length xs = length ys \<Longrightarrow> memcmp (xs @ us) (ys @ vs) = (if memcmp xs ys = 0 then memcmp us vs else memcmp xs ys)"
  by (induction xs ys rule: memcmp.induct) auto

lemma route_key_less_iff:
  assumes "route_key_wf a" "route_key_wf b"
  shows "a < b \<longleftrightarrow> os_routing_avl_cmp_route_key a b < 0"
proof -
  have w: "netaddr_wf (rk_dst a)" "netaddr_wf (rk_dst b)" "netaddr_wf (rk_src a)" "netaddr_wf (rk_src b)"
    using assms by (simp_all add: route_key_wf_def)
  have l: "length (netaddr_bytes (rk_dst a)) = length (netaddr_bytes (rk_dst b))"
    using w by (simp add: netaddr_bytes_length)
  have z: "memcmp (netaddr_bytes (rk_dst a)) (netaddr_bytes (rk_dst b)) = 0 \<longleftrightarrow> rk_dst a = rk_dst b"
    by (simp add: memcmp_zero_iff [OF l] netaddr_bytes_inj)
  have ab: "a < b \<longleftrightarrow> rk_dst a < rk_dst b \<or> rk_dst a = rk_dst b \<and> rk_src a < rk_src b"
    by (auto simp: less_os_route_key_ext_def route_key_key_def less_prod_def)
  have cmp: "os_routing_avl_cmp_route_key a b =
      (if rk_dst a = rk_dst b then avl_comp_netaddr (rk_src a) (rk_src b) else avl_comp_netaddr (rk_dst a) (rk_dst b))"
    unfolding os_routing_avl_cmp_route_key_def route_key_bytes_def memcmp_append [OF l] z avl_comp_netaddr_def by (rule refl)
  show ?thesis
  proof (cases "rk_dst a = rk_dst b")
    case True then show ?thesis unfolding ab cmp netaddr_less_iff [OF w(3,4)] by simp
  next
    case False then show ?thesis unfolding ab cmp netaddr_less_iff [OF w(1,2)] by simp
  qed
qed

lemma route_key_bytes_inj:
  assumes "route_key_wf a" "route_key_wf b"
  shows "route_key_bytes a = route_key_bytes b \<longleftrightarrow> a = b"
proof
  assume e: "route_key_bytes a = route_key_bytes b"
  have "length (netaddr_bytes (rk_dst a)) = length (netaddr_bytes (rk_dst b))"
    using assms by (simp add: netaddr_bytes_length route_key_wf_def)
  with e have "netaddr_bytes (rk_dst a) = netaddr_bytes (rk_dst b) \<and> netaddr_bytes (rk_src a) = netaddr_bytes (rk_src b)"
    unfolding route_key_bytes_def by (simp add: append_eq_append_conv)
  then have "rk_dst a = rk_dst b" "rk_src a = rk_src b" by (simp_all add: netaddr_bytes_inj)
  then show "a = b" by (rule os_route_key.equality) simp
qed simp

lemma route_key_bytes_length: "route_key_wf k \<Longrightarrow> length (route_key_bytes k) = 36"
  by (simp add: route_key_bytes_def route_key_wf_def netaddr_bytes_length)

interpretation cmp_route_key: avl_key route_key_wf os_routing_avl_cmp_route_key
  unfolding os_routing_avl_cmp_route_key_def
proof
  fix a b assume "route_key_wf a" "route_key_wf b"
  then have l: "length (route_key_bytes a) = length (route_key_bytes b)" by (simp only: route_key_bytes_length)
  show "memcmp (route_key_bytes b) (route_key_bytes a) < 0 \<longleftrightarrow> 0 < memcmp (route_key_bytes a) (route_key_bytes b)"
    using memcmp_antisym [OF l] by linarith
next
  fix a b c assume "route_key_wf a" "route_key_wf b" "route_key_wf c"
    "memcmp (route_key_bytes a) (route_key_bytes b) \<le> 0" "memcmp (route_key_bytes b) (route_key_bytes c) \<le> 0"
  then show "memcmp (route_key_bytes a) (route_key_bytes c) \<le> 0"
    using memcmp_trans [of "route_key_bytes a" "route_key_bytes b" "route_key_bytes c"] by (simp only: route_key_bytes_length)
next
  fix a b assume v: "route_key_wf a" "route_key_wf b"
  then have l: "length (route_key_bytes a) = length (route_key_bytes b)" by (simp only: route_key_bytes_length)
  show "memcmp (route_key_bytes a) (route_key_bytes b) = 0 \<longleftrightarrow> a = b"
    unfolding memcmp_zero_iff [OF l] by (rule route_key_bytes_inj [OF v])
qed

text \<open>\<^verbatim>\<open>os_routing_generic_init_half_os_route_key\<close>: the address, and the "any" prefix of its family.\<close>

definition NETADDR_IPV4_ANY :: netaddr where
  "NETADDR_IPV4_ANY = \<lparr>na_addr = replicate 16 0, na_type = AF_INET, na_prefix_len = 0\<rparr>"

definition NETADDR_IPV6_ANY :: netaddr where
  "NETADDR_IPV6_ANY = \<lparr>na_addr = replicate 16 0, na_type = AF_INET6, na_prefix_len = 0\<rparr>"

definition NETADDR_UNSPEC :: netaddr where
  "NETADDR_UNSPEC = \<lparr>na_addr = replicate 16 0, na_type = AF_UNSPEC, na_prefix_len = 0\<rparr>"

definition init_half_os_route_key :: "netaddr \<Rightarrow> netaddr" where
  "init_half_os_route_key source =
     (if na_type source = AF_INET then NETADDR_IPV4_ANY
      else if na_type source = AF_INET6 then NETADDR_IPV6_ANY
      else netaddr_invalidate)"

definition os_routing_init_sourcespec_prefix :: "netaddr \<Rightarrow> os_route_key" where
  "os_routing_init_sourcespec_prefix destination =
     \<lparr>rk_dst = destination, rk_src = init_half_os_route_key destination\<rparr>"

definition os_routing_init_sourcespec_src_prefix :: "netaddr \<Rightarrow> os_route_key" where
  "os_routing_init_sourcespec_src_prefix source = \<lparr>rk_dst = init_half_os_route_key source, rk_src = source\<rparr>"

end
