(* ===== verification/Nhdp_Data.thy ===== *)
theory Nhdp_Data
  imports Os_Routing
begin

section \<open>The data of NHDP (nhdp/nhdp_db.h, nhdp_domain.h, nhdp_interfaces.h)\<close>

text \<open>
  The objects of the neighborhood database as one state. A pointer to a neighbor, a link or an interface is its
  number in the maps \<open>db_neighs\<close>, \<open>db_links\<close> and \<open>db_interfaces\<close>; an object that was freed is not in its map. A tree or list that
  orders objects stands for itself where its order matters (\<open>nb_links\<close>, \<open>nif_links\<close>, \<open>db_neigh_list\<close>,
  \<open>db_link_list\<close>, \<open>db_naddrs\<close>, \<open>lk_addresses\<close>, \<open>lk_2hop\<close>); a tree that only finds the same objects by another key (the originator
  trees, the addresses of the links of an interface) is a search over them. A timer is the time it was set to, \<open>None\<close> when
  it is stopped.
\<close>

definition NHDP_MAXIMUM_DOMAINS :: nat where "NHDP_MAXIMUM_DOMAINS = 4"

definition RFC7181_WILLINGNESS_NEVER :: u8 where "RFC7181_WILLINGNESS_NEVER = 0"
definition RFC7181_WILLINGNESS_ALWAYS :: u8 where "RFC7181_WILLINGNESS_ALWAYS = 15"
definition RFC7181_WILLINGNESS_MASK :: u8 where "RFC7181_WILLINGNESS_MASK = 0xf"
definition RFC7181_WILLINGNESS_SHIFT :: nat where "RFC7181_WILLINGNESS_SHIFT = 4"

definition RFC7181_METRIC_INFINITE_PATH :: u32 where "RFC7181_METRIC_INFINITE_PATH = 0xffffffff"

datatype nhdp_link_status = NHDP_LINK_PENDING | NHDP_LINK_LOST | NHDP_LINK_SYMMETRIC | NHDP_LINK_HEARD

record nhdp_metric =
  mt_in :: u32
  mt_out :: u32

record nhdp_link_domaindata =
  ldd_metric :: nhdp_metric
  ldd_last_metric_change :: u64

record nhdp_neighbor_domaindata =
  ndd_metric :: nhdp_metric
  ndd_best_out_link :: "nat option"
  ndd_best_out_link_metric :: u32
  ndd_best_link_ifindex :: u32
  ndd_local_is_mpr :: bool
  ndd_neigh_is_mpr :: bool
  ndd_neigh_was_mpr :: bool
  ndd_willingness :: u8

record nhdp_l2hop_domaindata =
  l2d_metric :: nhdp_metric
  l2d_last_used_outgoing_metric :: u32

record nhdp_l2hop =
  l2_same_interface :: bool
  l2_vtime :: "u64 option"
  l2_domaindata :: "nhdp_l2hop_domaindata list"

record nhdp_laddr =
  la_might_be_removed :: bool

record nhdp_link =
  lk_vtime_value :: u64
  lk_itime_value :: u64
  lk_sym_time :: "u64 option"
  lk_heard_time :: "u64 option"
  lk_vtime :: "u64 option"
  lk_last_status :: nhdp_link_status
  lk_status :: nhdp_link_status
  lk_local_if :: nat
  lk_dualstack_partner :: "nat option"
  lk_neigh :: nat
  lk_if_addr :: netaddr
  lk_remote_mac :: netaddr
  lk_last_status_change :: u64
  lk_local_is_flooding_mpr :: bool
  lk_neigh_is_flooding_mpr :: bool
  lk_flooding_willingness :: u8
  lk_neigh_was_flooding_mpr :: bool
  lk_process_count :: int
  lk_addresses :: "(netaddr, nhdp_laddr) mapping"
  lk_2hop :: "(netaddr, nhdp_l2hop) mapping"
  lk_domaindata :: "nhdp_link_domaindata list"

record nhdp_neighbor =
  nb_originator :: netaddr
  nb_symmetric :: int
  nb_dualstack_partner :: "nat option"
  nb_process_count :: int
  nb_selection_is_mpr :: bool
  nb_old_originator :: netaddr
  nb_links :: "nat list"
  nb_domaindata :: "nhdp_neighbor_domaindata list"

record nhdp_naddr =
  nad_neigh :: nat
  nad_laddr_count :: int
  nad_lost_vtime :: "u64 option"
  nad_this_if :: bool
  nad_might_be_removed :: bool

text \<open>\<open>nif_addresses\<close>: the local addresses of the interface, \<open>True\<close> for a removed one. \<open>nif_mac\<close> and \<open>nif_index\<close> are the data of
  the operating system for the interface.\<close>

record nhdp_interface =
  nif_h_hold_time :: u64
  nif_l_hold_time :: u64
  nif_n_hold_time :: u64
  nif_i_hold_time :: u64
  nif_use_ipv4_for_flooding :: bool
  nif_use_ipv6_for_flooding :: bool
  nif_dualstack_af_type :: u8
  nif_addresses :: "(netaddr, bool) mapping"
  nif_links :: "nat list"
  nif_mac :: netaddr
  nif_index :: u32

record nhdp_domain_metric =
  dm_incoming_link_start :: u32
  dm_outgoing_link_start :: u32
  dm_incoming_2hop_start :: u32
  dm_outgoing_2hop_start :: u32
  dm_no_default_handling :: bool

record nhdp_domain =
  dom_metric :: nhdp_domain_metric
  dom_mpr :: string
  dom_local_willingness :: u8
  dom_ext :: u8
  dom_index :: nat
  dom_mpr_outdated :: bool
  dom_tmp_willingness :: u8

text \<open>What the listeners of the memory classes and of the domains are told, in order.\<close>

datatype nhdp_event = Neigh_Added nat | Neigh_Removed nat | Neigh_Changed nat | Link_Added nat | Link_Removed nat | Link_Changed nat
  | Laddr_Added nat netaddr | Laddr_Removed nat netaddr | L2hop_Added nat netaddr | L2hop_Removed nat netaddr
  | Naddr_Added netaddr | Naddr_Removed netaddr | Metric_Update "nat option" | Mpr_Update "nat option"

record nhdp_db =
  db_neighs :: "(nat, nhdp_neighbor) mapping"
  db_links :: "(nat, nhdp_link) mapping"
  db_naddrs :: "(netaddr, nhdp_naddr) mapping"
  db_interfaces :: "(nat, nhdp_interface) mapping"
  db_neigh_list :: "nat list"
  db_link_list :: "nat list"
  db_domains :: "nhdp_domain list"
  db_flooding_domain :: nhdp_domain
  db_neighbor_set_id :: u32
  db_originator_v4 :: netaddr
  db_originator_v6 :: netaddr
  db_now :: u64
  db_next :: nat
  db_events :: "nhdp_event list"

subsection \<open>Access\<close>

definition get_neigh :: "nhdp_db \<Rightarrow> nat \<Rightarrow> fault + nhdp_neighbor" where
  "get_neigh db n = (case Mapping.lookup (db_neighs db) n of None \<Rightarrow> Inl Null_Deref | Some neigh \<Rightarrow> Inr neigh)"

definition get_link :: "nhdp_db \<Rightarrow> nat \<Rightarrow> fault + nhdp_link" where
  "get_link db l = (case Mapping.lookup (db_links db) l of None \<Rightarrow> Inl Null_Deref | Some lnk \<Rightarrow> Inr lnk)"

definition upd_neigh :: "nat \<Rightarrow> (nhdp_neighbor \<Rightarrow> nhdp_neighbor) \<Rightarrow> nhdp_db \<Rightarrow> nhdp_db" where
  "upd_neigh n f db = db\<lparr>db_neighs := Mapping.map_entry n f (db_neighs db)\<rparr>"

definition upd_link :: "nat \<Rightarrow> (nhdp_link \<Rightarrow> nhdp_link) \<Rightarrow> nhdp_db \<Rightarrow> nhdp_db" where
  "upd_link l f db = db\<lparr>db_links := Mapping.map_entry l f (db_links db)\<rparr>"

text \<open>The domain data of an object, with index \<open>d\<close> of its array.\<close>

definition nhdp_domain_get_linkdata :: "nat \<Rightarrow> nhdp_link \<Rightarrow> nhdp_link_domaindata" where
  "nhdp_domain_get_linkdata d lnk = lk_domaindata lnk ! d"

definition nhdp_domain_get_neighbordata :: "nat \<Rightarrow> nhdp_neighbor \<Rightarrow> nhdp_neighbor_domaindata" where
  "nhdp_domain_get_neighbordata d neigh = nb_domaindata neigh ! d"

definition nhdp_domain_get_l2hopdata :: "nat \<Rightarrow> nhdp_l2hop \<Rightarrow> nhdp_l2hop_domaindata" where
  "nhdp_domain_get_l2hopdata d l2hop = l2_domaindata l2hop ! d"

text \<open>The tree of addresses of a neighbor.\<close>

definition nhdp_db_neighbor_addr_get :: "nhdp_db \<Rightarrow> netaddr \<Rightarrow> nhdp_naddr option" where
  "nhdp_db_neighbor_addr_get db addr = Mapping.lookup (db_naddrs db) addr"

definition has_neigh_address :: "nhdp_db \<Rightarrow> nat \<Rightarrow> netaddr \<Rightarrow> bool" where
  "has_neigh_address db n addr \<longleftrightarrow>
     (case nhdp_db_neighbor_addr_get db addr of None \<Rightarrow> False | Some naddr \<Rightarrow> nad_neigh naddr = n)"

lemmas nhdp_getters = get_neigh_def get_link_def upd_neigh_def upd_link_def

lemma lookup_map_entry_iff: "Mapping.lookup (Mapping.map_entry k f m) k' = (if k' = k then map_option f (Mapping.lookup m k) else Mapping.lookup m k')"
  by transfer (auto split: option.splits)

lemma get_neigh_upd_link [simp]: "get_neigh (upd_link l f db) n = get_neigh db n"
  by (simp add: nhdp_getters)

lemma get_link_upd_neigh [simp]: "get_link (upd_neigh n f db) l = get_link db l"
  by (simp add: nhdp_getters)

lemma get_link_upd_link: "get_link (upd_link l f db) l' = (if l' = l then map_sum id f (get_link db l) else get_link db l')"
  by (auto simp: nhdp_getters lookup_map_entry_iff split: option.splits)

lemma get_neigh_upd_neigh: "get_neigh (upd_neigh n f db) n' = (if n' = n then map_sum id f (get_neigh db n) else get_neigh db n')"
  by (auto simp: nhdp_getters lookup_map_entry_iff split: option.splits)

end
