(* ===== verification/Olsrv2_Local.thy ===== *)
theory Olsrv2_Local
  imports Nhdp_Data
begin

section \<open>Local databases of OLSRv2: originators and attached networks\<close>

text \<open>
  \<^verbatim>\<open>src/src/olsrv2/olsrv2/olsrv2_originator.c\<close>, the addresses the router uses or used as originator, and
  \<^verbatim>\<open>src/src/olsrv2/olsrv2/olsrv2_lan.c\<close>, the networks attached to it.
\<close>

subsection \<open>The originator set (olsrv2_originator.c)\<close>

text \<open>
  The two current originators and the former ones, with the validity time their timer was set to. What NHDP
  is told is recorded in \<open>or_nhdp\<close>: \<open>Some\<close> originator or, for a reset, \<open>None\<close>.
\<close>

record originator_db =
  originator_v4 :: netaddr
  originator_v6 :: netaddr
  originator_set :: "(netaddr, u64) mapping"
  or_nhdp :: "netaddr option list"

definition olsrv2_originator_get :: "originator_db \<Rightarrow> u8 \<Rightarrow> netaddr option" where
  "olsrv2_originator_get db af_type =
     (if af_type = AF_INET then Some (originator_v4 db)
      else if af_type = AF_INET6 then Some (originator_v6 db)
      else None)"

definition olsrv2_originator_is_local :: "originator_db \<Rightarrow> netaddr \<Rightarrow> bool" where
  "olsrv2_originator_is_local db addr =
     (if netaddr_cmp (originator_v4 db) addr = 0 then True
      else if netaddr_cmp (originator_v6 db) addr = 0 then True
      else Mapping.lookup (originator_set db) addr \<noteq> None)"

definition remove_originator_entry :: "netaddr \<Rightarrow> originator_db \<Rightarrow> originator_db" where
  "remove_originator_entry addr db = db\<lparr>originator_set := Mapping.delete addr (originator_set db)\<rparr>"

text \<open>\<open>ok\<close>: the allocation of a new entry succeeds.\<close>

definition remember_removed_originator :: "bool \<Rightarrow> netaddr \<Rightarrow> u64 \<Rightarrow> originator_db \<Rightarrow> originator_db" where
  "remember_removed_originator ok originator vtime db =
     (if Mapping.lookup (originator_set db) originator = None \<and> \<not> ok then db
      else db\<lparr>originator_set := Mapping.update originator vtime (originator_set db)\<rparr>)"

definition set_originator ::
    "bool \<Rightarrow> u64 \<Rightarrow> netaddr \<Rightarrow> (netaddr \<Rightarrow> originator_db \<Rightarrow> originator_db) \<Rightarrow> netaddr \<Rightarrow> originator_db \<Rightarrow> originator_db" where
  "set_originator ok validity old store new_originator db =
     (let db = (if na_type old \<noteq> AF_UNSPEC then remember_removed_originator ok old validity db else db);
          db = store new_originator db;
          db = (if Mapping.lookup (originator_set db) new_originator \<noteq> None then remove_originator_entry new_originator db else db)
      in db\<lparr>or_nhdp := or_nhdp db @ [if na_type new_originator \<noteq> AF_UNSPEC then Some new_originator else None]\<rparr>)"

definition olsrv2_originator_set :: "bool \<Rightarrow> u64 \<Rightarrow> netaddr \<Rightarrow> originator_db \<Rightarrow> originator_db" where
  "olsrv2_originator_set ok validity originator db =
     (if na_type originator = AF_INET
      then set_originator ok validity (originator_v4 db) (\<lambda>a db. db\<lparr>originator_v4 := a\<rparr>) originator db
      else if na_type originator = AF_INET6
      then set_originator ok validity (originator_v6 db) (\<lambda>a db. db\<lparr>originator_v6 := a\<rparr>) originator db
      else db)"

definition cb_originator_entry_vtime :: "netaddr \<Rightarrow> originator_db \<Rightarrow> originator_db" where
  "cb_originator_entry_vtime = remove_originator_entry"

definition olsrv2_originator_cleanup :: "originator_db \<Rightarrow> originator_db" where
  "olsrv2_originator_cleanup db = fold remove_originator_entry (Mapping.ordered_keys (originator_set db)) db"

lemma netaddr_cmp_zero: "netaddr_wf a \<Longrightarrow> netaddr_wf b \<Longrightarrow> netaddr_cmp a b = 0 \<longleftrightarrow> a = b"
  using cmp_netaddr.comp_eq [of a b] by (simp add: netaddr_cmp_def avl_comp_netaddr_def)

text \<open>The type invariant: well-formed addresses in their fields.\<close>

definition originator_wf :: "originator_db \<Rightarrow> bool" where
  "originator_wf db \<longleftrightarrow> netaddr_wf (originator_v4 db) \<and> netaddr_wf (originator_v6 db) \<and>
     na_type (originator_v4 db) \<in> {AF_UNSPEC, AF_INET} \<and> na_type (originator_v6 db) \<in> {AF_UNSPEC, AF_INET6} \<and>
     (\<forall>a\<in>Mapping.keys (originator_set db). netaddr_wf a)"

lemma lookup_delete_iff: "Mapping.lookup (Mapping.delete k m) k' = (if k' = k then None else Mapping.lookup m k')"
  by transfer simp

lemma olsrv2_originator_set_wf:
  "originator_wf db \<Longrightarrow> netaddr_wf a \<Longrightarrow> originator_wf (olsrv2_originator_set ok validity a db)"
  by (auto simp: originator_wf_def olsrv2_originator_set_def set_originator_def remember_removed_originator_def
      remove_originator_entry_def Let_def)

text \<open>
  C40: After \<open>olsrv2_originator_set\<close> the router recognises its own messages under the new originator and, as long as memory
  suffices, still under the one it replaced and under every former one: \<open>olsrv2_originator_is_local\<close> stays true for all of them, and
  the new originator is the one \<open>olsrv2_originator_get\<close> returns.
\<close>

theorem originator_set_stays_local:
  assumes wf: "originator_wf db" "netaddr_wf a" and af: "na_type a = AF_INET \<or> na_type a = AF_INET6"
    and old: "olsrv2_originator_is_local db b" "netaddr_wf b" "na_type b \<noteq> AF_UNSPEC"
  shows "olsrv2_originator_get (olsrv2_originator_set True validity a db) (na_type a) = Some a \<and>
    olsrv2_originator_is_local (olsrv2_originator_set True validity a db) a \<and>
    olsrv2_originator_is_local (olsrv2_originator_set True validity a db) b"
proof -
  have w: "netaddr_wf (originator_v4 db)" "netaddr_wf (originator_v6 db)" using wf(1) by (simp_all add: originator_wf_def)
  have loc: "b = originator_v4 db \<or> b = originator_v6 db \<or> Mapping.lookup (originator_set db) b \<noteq> None"
    using old(1) w old(2) by (auto simp: olsrv2_originator_is_local_def netaddr_cmp_zero split: if_splits)
  have ne: "AF_INET \<noteq> AF_INET6" "AF_INET \<noteq> AF_UNSPEC" "AF_INET6 \<noteq> AF_UNSPEC" by (simp_all add: af_defs)
  let ?db = "olsrv2_originator_set True validity a db"
  have s: "originator_v4 ?db = (if na_type a = AF_INET then a else originator_v4 db)"
    "originator_v6 ?db = (if na_type a = AF_INET then originator_v6 db else a)"
    using af ne by (auto simp: olsrv2_originator_set_def set_originator_def Let_def remember_removed_originator_def remove_originator_entry_def)
  have l: "Mapping.lookup (originator_set ?db) c \<noteq> None"
    if "c \<noteq> a" "Mapping.lookup (originator_set db) c \<noteq> None \<or>
      c = (if na_type a = AF_INET then originator_v4 db else originator_v6 db) \<and> na_type c \<noteq> AF_UNSPEC" for c
    using that af ne by (auto simp: olsrv2_originator_set_def set_originator_def Let_def remember_removed_originator_def
        remove_originator_entry_def lookup_delete_iff lookup_update')
  have w': "netaddr_wf (originator_v4 ?db)" "netaddr_wf (originator_v6 ?db)" using s w wf(2) by auto
  have local: "olsrv2_originator_is_local ?db c \<longleftrightarrow>
      c = originator_v4 ?db \<or> c = originator_v6 ?db \<or> Mapping.lookup (originator_set ?db) c \<noteq> None" if "netaddr_wf c" for c
    using w' that by (auto simp: olsrv2_originator_is_local_def netaddr_cmp_zero)
  have "olsrv2_originator_get ?db (na_type a) = Some a"
    using af ne s by (auto simp: olsrv2_originator_get_def)
  moreover have "olsrv2_originator_is_local ?db a"
    unfolding local [OF wf(2)] s by simp
  moreover have "olsrv2_originator_is_local ?db b"
  proof (cases "b = a")
    case True with calculation(2) show ?thesis by simp
  next
    case False
    with l [OF False] loc old(3) show ?thesis unfolding local [OF old(2)] s by (auto split: if_splits)
  qed
  ultimately show ?thesis by simp
qed

lemma originator_set_stays_local_witness:
  "let a = \<lparr>na_addr = replicate 16 1, na_type = AF_INET, na_prefix_len = 32\<rparr>;
       b = \<lparr>na_addr = replicate 16 2, na_type = AF_INET, na_prefix_len = 32\<rparr>;
       db = \<lparr>originator_v4 = b, originator_v6 = NETADDR_UNSPEC, originator_set = Mapping.empty, or_nhdp = []\<rparr>
   in olsrv2_originator_is_local (olsrv2_originator_set True 60 a db) a \<and>
      olsrv2_originator_is_local (olsrv2_originator_set True 60 a db) b"
proof -
  let ?a = "\<lparr>na_addr = replicate 16 1, na_type = AF_INET, na_prefix_len = 32\<rparr>"
  let ?b = "\<lparr>na_addr = replicate 16 2, na_type = AF_INET, na_prefix_len = 32\<rparr>"
  let ?db = "\<lparr>originator_v4 = ?b, originator_v6 = NETADDR_UNSPEC, originator_set = Mapping.empty, or_nhdp = []\<rparr>"
  have "originator_wf ?db" "netaddr_wf ?a" "netaddr_wf ?b"
    by (simp_all add: originator_wf_def netaddr_wf_def NETADDR_UNSPEC_def)
  moreover have "olsrv2_originator_is_local ?db ?b"
    using \<open>netaddr_wf ?b\<close> by (simp add: olsrv2_originator_is_local_def netaddr_cmp_zero)
  ultimately show ?thesis
    unfolding Let_def using originator_set_stays_local [of ?db ?a ?b 60] by (simp add: af_defs)
qed

subsection \<open>Locally attached networks (olsrv2_lan.c)\<close>

record olsrv2_lan_domaindata =
  ld_outgoing_metric :: u32
  ld_distance :: u8
  ld_active :: bool

text \<open>The array \<open>_domaindata\<close> has \<open>NHDP_MAXIMUM_DOMAINS\<close> elements.\<close>

record olsrv2_lan_entry =
  lan_same_distance :: bool
  lan_domaindata :: "olsrv2_lan_domaindata list"

type_synonym lan_tree = "(os_route_key, olsrv2_lan_entry) mapping"

definition olsrv2_lan_get :: "lan_tree \<Rightarrow> os_route_key \<Rightarrow> olsrv2_lan_entry option" where
  "olsrv2_lan_get t prefix = Mapping.lookup t prefix"

text \<open>The loop over the domains, with \<open>tmp_dist\<close>; it stops at the first difference.\<close>

fun same_distance_loop :: "olsrv2_lan_domaindata list \<Rightarrow> u8 \<Rightarrow> bool" where
  "same_distance_loop [] tmp_dist = True"
| "same_distance_loop (d # ds) tmp_dist =
     (if ld_active d
      then let tmp_dist = (if tmp_dist = 0 then ld_distance d else tmp_dist)
           in if tmp_dist \<noteq> ld_distance d then False else same_distance_loop ds tmp_dist
      else same_distance_loop ds tmp_dist)"

definition lan_new :: olsrv2_lan_entry where
  "lan_new = \<lparr>lan_same_distance = True, lan_domaindata = replicate NHDP_MAXIMUM_DOMAINS
     \<lparr>ld_outgoing_metric = RFC7181_METRIC_INFINITE, ld_distance = 0, ld_active = False\<rparr>\<rparr>"

text \<open>Returns whether there was memory. Both operations also call \<open>olsrv2_routing_domain_changed(domain, true)\<close>
  for the domain they change.\<close>

definition olsrv2_lan_add ::
    "bool \<Rightarrow> nat \<Rightarrow> os_route_key \<Rightarrow> u32 \<Rightarrow> u8 \<Rightarrow> lan_tree \<Rightarrow> bool \<times> lan_tree" where
  "olsrv2_lan_add ok domain prefix metric distance t =
     (if olsrv2_lan_get t prefix = None \<and> \<not> ok then (False, t)
      else let entry = (case olsrv2_lan_get t prefix of None \<Rightarrow> lan_new | Some e \<Rightarrow> e);
               data = (lan_domaindata entry)[domain :=
                 \<lparr>ld_outgoing_metric = metric, ld_distance = distance, ld_active = True\<rparr>]
           in (True, Mapping.update prefix \<lparr>lan_same_distance = same_distance_loop data 0, lan_domaindata = data\<rparr> t))"

definition olsrv2_lan_remove :: "nat \<Rightarrow> os_route_key \<Rightarrow> lan_tree \<Rightarrow> lan_tree" where
  "olsrv2_lan_remove domain prefix t =
     (case olsrv2_lan_get t prefix of
        None \<Rightarrow> t
      | Some entry \<Rightarrow>
          let data = (lan_domaindata entry)[domain := (lan_domaindata entry ! domain)\<lparr>ld_active := False\<rparr>]
          in if \<exists>d\<in>set data. ld_active d then Mapping.update prefix (entry\<lparr>lan_domaindata := data\<rparr>) t
             else Mapping.delete prefix t)"

definition active_distances :: "olsrv2_lan_domaindata list \<Rightarrow> u8 set" where
  "active_distances ds = ld_distance ` {d \<in> set ds. ld_active d}"

lemma active_distances_simps [simp]:
  "active_distances [] = {}"
  "active_distances (d # ds) = (if ld_active d then insert (ld_distance d) (active_distances ds) else active_distances ds)"
  by (auto simp: active_distances_def)

lemma same_distance_loop_nonzero:
  "0 \<notin> active_distances ds \<Longrightarrow>
   same_distance_loop ds v \<longleftrightarrow> (if v = 0 then \<exists>x. active_distances ds \<subseteq> {x} else active_distances ds \<subseteq> {v})"
proof (induction ds arbitrary: v)
  case Nil then show ?case by (simp add: active_distances_def)
next
  case (Cons d ds)
  show ?case
  proof (cases "ld_active d")
    case False
    then have "active_distances (d # ds) = active_distances ds" by (auto simp: active_distances_def)
    with Cons False show ?thesis by simp
  next
    case True
    then have a: "active_distances (d # ds) = insert (ld_distance d) (active_distances ds)" by (auto simp: active_distances_def)
    with Cons.prems have nz: "ld_distance d \<noteq> 0" "0 \<notin> active_distances ds" by auto
    show ?thesis
    proof (cases "v = 0")
      case True
      have "same_distance_loop (d # ds) v \<longleftrightarrow> active_distances ds \<subseteq> {ld_distance d}"
        using Cons.IH [OF nz(2)] True \<open>ld_active d\<close> nz(1) by simp
      then show ?thesis unfolding a using True by auto
    next
      case False
      then show ?thesis unfolding a using Cons.IH [OF nz(2)] \<open>ld_active d\<close> by auto
    qed
  qed
qed

text \<open>\<open>same_distance\<close> of an attached network, which decides whether the generated TC carries one distance for all
  domains, is true after \<open>olsrv2_lan_add\<close> exactly when the active domains agree on the distance, as long as no distance is 0.
  (The distance 0 stands for "none yet" in the loop.)
\<close>

theorem lan_add_same_distance:
  assumes "olsrv2_lan_add ok domain prefix metric distance t = (True, t')" "olsrv2_lan_get t' prefix = Some entry"
    "0 \<notin> active_distances (lan_domaindata entry)"
  shows "lan_same_distance entry \<longleftrightarrow> (\<exists>x. active_distances (lan_domaindata entry) \<subseteq> {x})"
  using assms same_distance_loop_nonzero [of "lan_domaindata entry" 0]
  by (auto simp: olsrv2_lan_add_def olsrv2_lan_get_def Let_def lookup_update' split: if_splits)

lemma lan_add_same_distance_witness:
  "let p = os_routing_init_sourcespec_prefix NETADDR_UNSPEC;
       t = snd (olsrv2_lan_add True 1 p 5 3 (snd (olsrv2_lan_add True 0 p 5 2 Mapping.empty)))
   in \<exists>entry. olsrv2_lan_get t p = Some entry \<and> \<not> lan_same_distance entry"
proof -
  let ?p = "os_routing_init_sourcespec_prefix NETADDR_UNSPEC"
  let ?t = "snd (olsrv2_lan_add True 0 ?p 5 2 Mapping.empty)"
  obtain t where t: "olsrv2_lan_add True 1 ?p 5 3 ?t = (True, t)"
    by (simp add: olsrv2_lan_add_def Let_def)
  obtain entry where e: "olsrv2_lan_get t ?p = Some entry" "active_distances (lan_domaindata entry) = {2, 3}"
    using t by (auto simp: olsrv2_lan_add_def Let_def olsrv2_lan_get_def lookup_update' lan_new_def NHDP_MAXIMUM_DOMAINS_def
        numeral_eq_Suc)
  have "\<not> lan_same_distance entry"
    using lan_add_same_distance [OF t e(1)] unfolding e(2) by auto
  with e t show ?thesis by (simp add: Let_def)
qed

end
