(* ===== verification/Olsrv2_Tc.thy ===== *)
theory Olsrv2_Tc
  imports Rfc5444_Conv Avl_Spec "HOL-Library.Mapping"
begin

section \<open>The topology database (olsrv2/olsrv2_tc)\<close>

text \<open>
  \<^verbatim>\<open>src/src/olsrv2/olsrv2/olsrv2_tc.c\<close>: the nodes, edges, attached networks and endpoints learned from TC messages.
  A tree of the code is a \<open>mapping\<close> from its keys, walked in key order by \<open>ordered_keys\<close>. Addresses are
  a linearly ordered type \<open>'a\<close> and route keys (destination and source prefix) one \<open>'p\<close>: in the code they are \<open>struct netaddr\<close> and
  \<open>struct os_route_key\<close>, ordered by \<open>memcmp\<close>. An edge is
  identified by its source and destination, so its \<open>inverse\<close> is the edge in the other direction; the \<open>inverse\<close> of an
  edge from a node to itself is an object that is in no tree. The results of the memory classes are arguments: whether
  each allocation succeeds, in the order of the code. Events and changes are recorded in the state.
\<close>

datatype olsrv2_target_type = OLSRV2_NODE_TARGET | OLSRV2_ADDRESS_TARGET | OLSRV2_NETWORK_TARGET

record olsrv2_tc_edge =
  ed_cost :: "nat \<Rightarrow> u32"
  ed_ansn :: u16
  ed_virtual :: bool

record olsrv2_tc_attachment =
  at_cost :: "nat \<Rightarrow> u32"
  at_distance :: "nat \<Rightarrow> u8"
  at_ansn :: u16

text \<open>\<open>nd_validity\<close> is the time its validity timer was set to, \<open>None\<close> when it does not run.\<close>

record ('a, 'p) olsrv2_tc_node =
  nd_ansn :: u16
  nd_interval_time :: u64
  nd_direct_neighbor :: bool
  nd_source_specific :: bool
  nd_ss_attached_networks :: "nat \<Rightarrow> bool"
  nd_validity :: "u64 option"
  nd_edges :: "('a, olsrv2_tc_edge) mapping"
  nd_attached :: "('p, olsrv2_tc_attachment) mapping"

record 'a olsrv2_tc_endpoint =
  ep_type :: olsrv2_target_type
  ep_originator :: 'a
  ep_attached :: "('a, unit) mapping"

datatype ('a, 'p) tc_event =
  Node_Added 'a | Node_Removed 'a | Node_Changed 'a
| Edge_Added 'a 'a | Edge_Removed 'a 'a
| Attached_Added 'a 'p | Attached_Removed 'a 'p
| Endpoint_Added 'p | Endpoint_Removed 'p

text \<open>\<open>tc_changed\<close>: \<open>olsrv2_routing_domain_changed(NULL, true)\<close> was called, \<open>tc_triggered\<close>:
  \<open>olsrv2_routing_trigger_update()\<close> was.\<close>

record ('a, 'p) tc_db =
  tc_tree :: "('a, ('a, 'p) olsrv2_tc_node) mapping"
  tc_endpoint_tree :: "('p, 'a olsrv2_tc_endpoint) mapping"
  tc_events :: "('a, 'p) tc_event list"
  tc_changed :: bool
  tc_triggered :: bool

definition tc_node_empty :: "('a, 'p) olsrv2_tc_node" where
  "tc_node_empty = \<lparr>nd_ansn = 0, nd_interval_time = 0, nd_direct_neighbor = False, nd_source_specific = False,
     nd_ss_attached_networks = (\<lambda>_. False), nd_validity = None, nd_edges = Mapping.empty, nd_attached = Mapping.empty\<rparr>"

definition olsrv2_tc_init :: "('a, 'p) tc_db" where
  "olsrv2_tc_init = \<lparr>tc_tree = Mapping.empty, tc_endpoint_tree = Mapping.empty, tc_events = [], tc_changed = False,
     tc_triggered = False\<rparr>"

definition tc_event :: "('a, 'p) tc_event \<Rightarrow> ('a, 'p) tc_db \<Rightarrow> ('a, 'p) tc_db" where
  "tc_event e db = db\<lparr>tc_events := tc_events db @ [e]\<rparr>"

definition tc_domain_changed :: "('a, 'p) tc_db \<Rightarrow> ('a, 'p) tc_db" where
  "tc_domain_changed db = db\<lparr>tc_changed := True, tc_triggered := True\<rparr>"

definition olsrv2_tc_node_get :: "('a, 'p) tc_db \<Rightarrow> 'a \<Rightarrow> ('a, 'p) olsrv2_tc_node option" where
  "olsrv2_tc_node_get db n = Mapping.lookup (tc_tree db) n"

definition olsrv2_tc_endpoint_get :: "('a, 'p) tc_db \<Rightarrow> 'p \<Rightarrow> 'a olsrv2_tc_endpoint option" where
  "olsrv2_tc_endpoint_get db p = Mapping.lookup (tc_endpoint_tree db) p"

definition olsrv2_tc_is_node_virtual :: "('a, 'p) olsrv2_tc_node \<Rightarrow> bool" where
  "olsrv2_tc_is_node_virtual nd \<longleftrightarrow> nd_validity nd = None"

subsection \<open>Access to nodes and edges\<close>

definition upd_node ::
    "'a \<Rightarrow> (('a, 'p) olsrv2_tc_node \<Rightarrow> ('a, 'p) olsrv2_tc_node) \<Rightarrow> ('a, 'p) tc_db \<Rightarrow> ('a, 'p) tc_db" where
  "upd_node n f db = db\<lparr>tc_tree := Mapping.map_entry n f (tc_tree db)\<rparr>"

definition get_edge :: "('a, 'p) tc_db \<Rightarrow> 'a \<Rightarrow> 'a \<Rightarrow> olsrv2_tc_edge option" where
  "get_edge db n m = Option.bind (olsrv2_tc_node_get db n) (\<lambda>nd. Mapping.lookup (nd_edges nd) m)"

definition put_edge :: "'a \<Rightarrow> 'a \<Rightarrow> olsrv2_tc_edge \<Rightarrow> ('a, 'p) tc_db \<Rightarrow> ('a, 'p) tc_db" where
  "put_edge n m e = upd_node n (\<lambda>nd. nd\<lparr>nd_edges := Mapping.update m e (nd_edges nd)\<rparr>)"

definition cut_edge :: "'a \<Rightarrow> 'a \<Rightarrow> ('a, 'p) tc_db \<Rightarrow> ('a, 'p) tc_db" where
  "cut_edge n m = upd_node n (\<lambda>nd. nd\<lparr>nd_edges := Mapping.delete m (nd_edges nd)\<rparr>)"

definition get_attachment :: "('a, 'p) tc_db \<Rightarrow> 'a \<Rightarrow> 'p \<Rightarrow> olsrv2_tc_attachment option" where
  "get_attachment db n p = Option.bind (olsrv2_tc_node_get db n) (\<lambda>nd. Mapping.lookup (nd_attached nd) p)"

text \<open>The field \<open>virtual\<close> of the inverse of an edge.\<close>

definition inverse_virtual :: "('a, 'p) tc_db \<Rightarrow> 'a \<Rightarrow> 'a \<Rightarrow> bool" where
  "inverse_virtual db src dst \<longleftrightarrow> (src = dst \<or> (case get_edge db dst src of None \<Rightarrow> True | Some e \<Rightarrow> ed_virtual e))"

subsection \<open>Nodes\<close>

text \<open>Returns whether there is a node now; \<open>ok\<close>: the allocation succeeds. A timer set to 0 is stopped.\<close>

definition olsrv2_tc_node_add ::
    "bool \<Rightarrow> 'a \<Rightarrow> u64 \<Rightarrow> u16 \<Rightarrow> ('a, 'p) tc_db \<Rightarrow> bool \<times> ('a, 'p) tc_db" where
  "olsrv2_tc_node_add ok originator vtime ansn db =
     (let set_timer = upd_node originator (\<lambda>nd. nd\<lparr>nd_validity := (if vtime = 0 then None else Some vtime)\<rparr>)
      in case olsrv2_tc_node_get db originator of
           None \<Rightarrow>
             if \<not> ok then (False, db)
             else let db = db\<lparr>tc_tree := Mapping.update originator (tc_node_empty\<lparr>nd_ansn := ansn\<rparr>) (tc_tree db)\<rparr>;
                      db = tc_event (Node_Added originator) db
                  in (True, set_timer db)
         | Some nd \<Rightarrow>
             let db = (if olsrv2_tc_is_node_virtual nd
                       then tc_event (Node_Added originator) (upd_node originator (\<lambda>nd. nd\<lparr>nd_ansn := ansn\<rparr>) db)
                       else db)
             in (True, set_timer db))"

subsection \<open>Endpoints\<close>

text \<open>\<open>ok_net\<close> and \<open>ok_end\<close>: the allocations of the attachment and of the endpoint.\<close>

definition olsrv2_tc_endpoint_add ::
    "bool \<Rightarrow> bool \<Rightarrow> 'a \<Rightarrow> 'p \<Rightarrow> bool \<Rightarrow> ('a, 'p) tc_db \<Rightarrow> bool \<times> ('a, 'p) tc_db" where
  "olsrv2_tc_endpoint_add ok_net ok_end node prefix mesh db =
     (if get_attachment db node prefix \<noteq> None then (True, db)
      else if \<not> ok_net then (False, db)
      else if olsrv2_tc_endpoint_get db prefix = None \<and> \<not> ok_end then (False, db)
      else let db = (if olsrv2_tc_endpoint_get db prefix = None
                     then tc_event (Endpoint_Added prefix)
                            (db\<lparr>tc_endpoint_tree := Mapping.update prefix
                               \<lparr>ep_type = (if mesh then OLSRV2_ADDRESS_TARGET else OLSRV2_NETWORK_TARGET),
                                ep_originator = node, ep_attached = Mapping.empty\<rparr> (tc_endpoint_tree db)\<rparr>)
                     else db);
               db = upd_node node (\<lambda>nd. nd\<lparr>nd_attached := Mapping.update prefix
                      \<lparr>at_cost = (\<lambda>_. RFC7181_METRIC_INFINITE), at_distance = (\<lambda>_. 0), at_ansn = 0\<rparr> (nd_attached nd)\<rparr>) db;
               db = db\<lparr>tc_endpoint_tree := Mapping.map_entry prefix
                      (\<lambda>ep. ep\<lparr>ep_attached := Mapping.update node () (ep_attached ep), ep_originator := node\<rparr>)
                      (tc_endpoint_tree db)\<rparr>
           in (True, tc_event (Attached_Added node prefix) db))"

text \<open>
  The function takes a pointer to an attachment, here the node and the prefix of one that exists. Its endpoint is in the tree then
  (\<open>tc_attached_ok\<close>, an invariant of every operation), so the branch without an endpoint is never taken.
\<close>

definition olsrv2_tc_endpoint_remove :: "'a \<Rightarrow> 'p \<Rightarrow> ('a, 'p) tc_db \<Rightarrow> ('a, 'p) tc_db" where
  "olsrv2_tc_endpoint_remove node prefix db =
     (let db = tc_event (Attached_Removed node prefix) db;
          db = upd_node node (\<lambda>nd. nd\<lparr>nd_attached := Mapping.delete prefix (nd_attached nd)\<rparr>) db;
          db = db\<lparr>tc_endpoint_tree := Mapping.map_entry prefix
                 (\<lambda>ep. ep\<lparr>ep_attached := Mapping.delete node (ep_attached ep)\<rparr>) (tc_endpoint_tree db)\<rparr>;
          db = (case olsrv2_tc_endpoint_get db prefix of
                  None \<Rightarrow> db
                | Some ep \<Rightarrow> if Mapping.size (ep_attached ep) = 0
                            then (let db = tc_event (Endpoint_Removed prefix) db
                                  in db\<lparr>tc_endpoint_tree := Mapping.delete prefix (tc_endpoint_tree db)\<rparr>)
                            else db)
      in tc_domain_changed db)"

subsection \<open>Edges and the removal of nodes\<close>

text \<open>
  \<open>_remove_edge\<close> and \<open>olsrv2_tc_node_remove\<close> call each other: a node without edges is removed with its last edge, and the
  removal of that node has no edges to remove. So the recursion is two levels deep; each
  function takes the other one as an argument.
\<close>

definition remove_edge_with ::
    "('a \<Rightarrow> ('a, 'p) tc_db \<Rightarrow> fault + ('a, 'p) tc_db) \<Rightarrow> 'a \<Rightarrow> 'a \<Rightarrow> bool \<Rightarrow> ('a, 'p) tc_db \<Rightarrow>
     fault + bool \<times> ('a, 'p) tc_db" where
  "remove_edge_with node_remove src dst cleanup db =
     (case get_edge db src dst of
        None \<Rightarrow> Inl Null_Deref
      | Some edge \<Rightarrow>
          if ed_virtual edge then Inr (False, db)
          else let db = tc_event (Edge_Removed src dst) db
          in if \<not> inverse_virtual db src dst
             then Inr (False, put_edge src dst (edge\<lparr>ed_virtual := True\<rparr>) db)
             else if src = dst then Inl Null_Deref
             else let db = cut_edge dst src (cut_edge src dst db)
             in case olsrv2_tc_node_get db dst of
                  None \<Rightarrow> Inl Null_Deref
                | Some nd \<Rightarrow>
                    if Mapping.size (nd_edges nd) = 0 \<and> cleanup \<and> olsrv2_tc_is_node_virtual nd
                    then bind_f (node_remove dst db) (\<lambda>db. Inr (True, db))
                    else Inr (False, db))"

fun remove_edges ::
    "('a \<Rightarrow> 'a \<Rightarrow> ('a, 'p) tc_db \<Rightarrow> fault + ('a, 'p) tc_db) \<Rightarrow> 'a \<Rightarrow> 'a list \<Rightarrow> ('a, 'p) tc_db \<Rightarrow>
     fault + ('a, 'p) tc_db" where
  "remove_edges edge_remove n [] db = Inr db"
| "remove_edges edge_remove n (m # ms) db = bind_f (edge_remove n m db) (\<lambda>db. remove_edges edge_remove n ms db)"

definition node_remove_with ::
    "('a::linorder \<Rightarrow> 'a \<Rightarrow> ('a, 'p::linorder) tc_db \<Rightarrow> fault + ('a, 'p) tc_db) \<Rightarrow> 'a \<Rightarrow> ('a, 'p) tc_db \<Rightarrow>
     fault + ('a, 'p) tc_db" where
  "node_remove_with edge_remove n db =
     (case olsrv2_tc_node_get db n of
        None \<Rightarrow> Inl Null_Deref
      | Some nd \<Rightarrow>
          bind_f (remove_edges edge_remove n (Mapping.ordered_keys (nd_edges nd)) (tc_event (Node_Removed n) db)) (\<lambda>db.
          let db = fold (olsrv2_tc_endpoint_remove n) (Mapping.ordered_keys (nd_attached nd)) db;
              db = upd_node n (\<lambda>nd. nd\<lparr>nd_validity := None\<rparr>) db
          in case olsrv2_tc_node_get db n of
               None \<Rightarrow> Inl Null_Deref
             | Some nd \<Rightarrow>
                 Inr (tc_domain_changed
                        (if Mapping.size (nd_edges nd) = 0 \<and> \<not> nd_direct_neighbor nd
                         then db\<lparr>tc_tree := Mapping.delete n (tc_tree db)\<rparr> else db))))"

text \<open>The removal of a node without edges.\<close>

definition bare_node_remove :: "'a::linorder \<Rightarrow> ('a, 'p::linorder) tc_db \<Rightarrow> fault + ('a, 'p) tc_db" where
  "bare_node_remove = node_remove_with (\<lambda>_ _ _. Inl Hang)"

definition remove_edge ::
    "'a::linorder \<Rightarrow> 'a \<Rightarrow> bool \<Rightarrow> ('a, 'p::linorder) tc_db \<Rightarrow> fault + bool \<times> ('a, 'p) tc_db" where
  "remove_edge = remove_edge_with bare_node_remove"

definition olsrv2_tc_edge_remove ::
    "'a::linorder \<Rightarrow> 'a \<Rightarrow> ('a, 'p::linorder) tc_db \<Rightarrow> fault + bool \<times> ('a, 'p) tc_db" where
  "olsrv2_tc_edge_remove src dst db = remove_edge src dst True (tc_domain_changed db)"

definition olsrv2_tc_node_remove :: "'a::linorder \<Rightarrow> ('a, 'p::linorder) tc_db \<Rightarrow> fault + ('a, 'p) tc_db" where
  "olsrv2_tc_node_remove =
     node_remove_with (\<lambda>src dst db. bind_f (olsrv2_tc_edge_remove src dst db) (\<lambda>(b, db). Inr db))"

text \<open>\<open>ok_edge\<close>, \<open>ok_inverse\<close>, \<open>ok_node\<close>: the allocations of the edge, its inverse and the destination.\<close>

definition new_edge :: "bool \<Rightarrow> olsrv2_tc_edge" where
  "new_edge virt = \<lparr>ed_cost = (\<lambda>_. RFC7181_METRIC_INFINITE), ed_ansn = 0, ed_virtual = virt\<rparr>"

definition olsrv2_tc_edge_add ::
    "bool \<Rightarrow> bool \<Rightarrow> bool \<Rightarrow> 'a::linorder \<Rightarrow> 'a \<Rightarrow> ('a, 'p::linorder) tc_db \<Rightarrow> bool \<times> ('a, 'p) tc_db" where
  "olsrv2_tc_edge_add ok_edge ok_inverse ok_node src addr db =
     (case get_edge db src addr of
        Some edge \<Rightarrow>
          (True, tc_event (Edge_Added src addr)
             (put_edge src addr (edge\<lparr>ed_virtual := False, ed_cost := (\<lambda>_. RFC7181_METRIC_INFINITE)\<rparr>) db))
      | None \<Rightarrow>
          if \<not> ok_edge \<or> \<not> ok_inverse then (False, db)
          else case (if olsrv2_tc_node_get db addr = None then olsrv2_tc_node_add ok_node addr 0 0 db else (True, db)) of
                 (False, db) \<Rightarrow> (False, db)
               | (True, db) \<Rightarrow>
                   let db = put_edge src addr (new_edge False) db;
                       db = (if src = addr then db else put_edge addr src (new_edge True) db)
                   in (True, tc_event (Edge_Added src addr) db))"

subsection \<open>Timeouts, neighbors and cleanup\<close>

definition olsrv2_tc_trigger_change :: "'a \<Rightarrow> ('a, 'p) tc_db \<Rightarrow> ('a, 'p) tc_db" where
  "olsrv2_tc_trigger_change n = tc_event (Node_Changed n)"

definition cb_tc_node_timeout :: "'a::linorder \<Rightarrow> ('a, 'p::linorder) tc_db \<Rightarrow> fault + ('a, 'p) tc_db" where
  "cb_tc_node_timeout n db =
     bind_f (olsrv2_tc_node_remove n (upd_node n (\<lambda>nd. nd\<lparr>nd_validity := None\<rparr>) db)) (\<lambda>db.
     Inr (db\<lparr>tc_triggered := True\<rparr>))"

text \<open>A neighbor is given by its originator, \<open>None\<close> an unspecified one, and its old originator.\<close>

definition cb_neighbor_remove :: "'a::linorder option \<Rightarrow> ('a, 'p::linorder) tc_db \<Rightarrow> fault + ('a, 'p) tc_db" where
  "cb_neighbor_remove originator db =
     (case originator of
        None \<Rightarrow> Inr db
      | Some n \<Rightarrow>
          (case olsrv2_tc_node_get db n of
             None \<Rightarrow> Inr db
           | Some nd \<Rightarrow>
               let db = upd_node n (\<lambda>nd. nd\<lparr>nd_direct_neighbor := False\<rparr>) db
               in if olsrv2_tc_is_node_virtual nd then olsrv2_tc_node_remove n db else Inr db))"

definition cb_neighbor_change ::
    "bool \<Rightarrow> 'a::linorder option \<Rightarrow> 'a option \<Rightarrow> ('a, 'p::linorder) tc_db \<Rightarrow> fault + ('a, 'p) tc_db" where
  "cb_neighbor_change ok originator old_originator db =
     (if originator = old_originator then Inr db
      else bind_f (cb_neighbor_remove originator db) (\<lambda>db.
           case originator of
             None \<Rightarrow> Inr db
           | Some n \<Rightarrow>
               (case (if olsrv2_tc_node_get db n = None then olsrv2_tc_node_add ok n 0 0 db else (True, db)) of
                  (False, db) \<Rightarrow> Inr db
                | (True, db) \<Rightarrow> Inr (upd_node n (\<lambda>nd. nd\<lparr>nd_direct_neighbor := True\<rparr>) db))))"

definition cleanup_edges :: "'a::linorder \<Rightarrow> 'a list \<Rightarrow> ('a, 'p::linorder) tc_db \<Rightarrow> fault + ('a, 'p) tc_db" where
  "cleanup_edges = remove_edges (\<lambda>src dst db. bind_f (remove_edge src dst False db) (\<lambda>(b, db). Inr db))"

fun cleanup_nodes :: "'a::linorder list \<Rightarrow> ('a, 'p::linorder) tc_db \<Rightarrow> fault + ('a, 'p) tc_db" where
  "cleanup_nodes [] db = Inr db"
| "cleanup_nodes (n # ns) db =
     (case olsrv2_tc_node_get db n of
        None \<Rightarrow> Inl Null_Deref
      | Some nd \<Rightarrow>
          bind_f (cleanup_edges n (Mapping.ordered_keys (nd_edges nd)) db) (\<lambda>db.
          cleanup_nodes ns (fold (olsrv2_tc_endpoint_remove n) (Mapping.ordered_keys (nd_attached nd)) db)))"

fun remove_nodes :: "'a::linorder list \<Rightarrow> ('a, 'p::linorder) tc_db \<Rightarrow> fault + ('a, 'p) tc_db" where
  "remove_nodes [] db = Inr db"
| "remove_nodes (n # ns) db = bind_f (olsrv2_tc_node_remove n db) (remove_nodes ns)"

definition olsrv2_tc_cleanup :: "('a::linorder, 'p::linorder) tc_db \<Rightarrow> fault + ('a, 'p) tc_db" where
  "olsrv2_tc_cleanup db =
     bind_f (cleanup_nodes (Mapping.ordered_keys (tc_tree db)) db) (\<lambda>db.
     remove_nodes (Mapping.ordered_keys (tc_tree db)) db)"

subsection \<open>Reading the database after an update\<close>

named_theorems tc_simps \<open>nodes, edges and attachments after an update of the database\<close>

lemma keys_lookup: "x \<in> Mapping.keys m \<longleftrightarrow> Mapping.lookup m x \<noteq> None"
  by (auto simp: keys_dom_lookup)

lemma lookup_map_entry' [tc_simps]:
  "Mapping.lookup (Mapping.map_entry k f m) k' =
     (if k' = k then map_option f (Mapping.lookup m k) else Mapping.lookup m k')"
  by (transfer) (auto split: option.splits)

lemma lookup_tc [tc_simps]:
  "Mapping.lookup (Mapping.update k v m) k' = (if k' = k then Some v else Mapping.lookup m k')"
  "Mapping.lookup (Mapping.delete k m) k' = (if k' = k then None else Mapping.lookup m k')"
  by (auto simp: lookup_update')

lemma tc_event_simps [simp, tc_simps]:
  "tc_tree (tc_event ev db) = tc_tree db" "tc_endpoint_tree (tc_event ev db) = tc_endpoint_tree db"
  "tc_tree (tc_domain_changed db) = tc_tree db" "tc_endpoint_tree (tc_domain_changed db) = tc_endpoint_tree db"
  by (simp_all add: tc_event_def tc_domain_changed_def)

lemma get_tree [tc_simps]:
  "olsrv2_tc_node_get (tc_event ev db) n = olsrv2_tc_node_get db n"
  "olsrv2_tc_node_get (tc_domain_changed db) n = olsrv2_tc_node_get db n"
  "olsrv2_tc_node_get (upd_node m f db) n =
     (if n = m then map_option f (olsrv2_tc_node_get db n) else olsrv2_tc_node_get db n)"
  "olsrv2_tc_endpoint_get (tc_event ev db) p = olsrv2_tc_endpoint_get db p"
  "olsrv2_tc_endpoint_get (tc_domain_changed db) p = olsrv2_tc_endpoint_get db p"
  "olsrv2_tc_endpoint_get (upd_node m f db) p = olsrv2_tc_endpoint_get db p"
  by (simp_all add: olsrv2_tc_node_get_def olsrv2_tc_endpoint_get_def upd_node_def tc_simps)

lemma get_edge_simps [tc_simps]:
  "get_edge (tc_event ev db) n m = get_edge db n m"
  "get_edge (tc_domain_changed db) n m = get_edge db n m"
  "get_edge (put_edge a b e db) n m =
     (if n = a \<and> m = b \<and> olsrv2_tc_node_get db a \<noteq> None then Some e else get_edge db n m)"
  "get_edge (cut_edge a b db) n m = (if n = a \<and> m = b then None else get_edge db n m)"
  by (auto simp: get_edge_def put_edge_def cut_edge_def tc_simps split: Option.bind_splits)

lemma get_attachment_simps [tc_simps]:
  "get_attachment (tc_event ev db) n p = get_attachment db n p"
  "get_attachment (tc_domain_changed db) n p = get_attachment db n p"
  "get_attachment (put_edge a b e db) n p = get_attachment db n p"
  "get_attachment (cut_edge a b db) n p = get_attachment db n p"
  by (auto simp: get_attachment_def put_edge_def cut_edge_def tc_simps split: Option.bind_splits)

lemma get_upd_node:
  "(\<And>nd. nd_edges (f nd) = nd_edges nd) \<Longrightarrow> get_edge (upd_node a f db) n m = get_edge db n m"
  "(\<And>nd. nd_attached (f nd) = nd_attached nd) \<Longrightarrow> get_attachment (upd_node a f db) n p = get_attachment db n p"
  by (auto simp: get_edge_def get_attachment_def tc_simps split: Option.bind_splits)

subsection \<open>The invariant of the database\<close>

text \<open>
  \<^item> \<open>tc_finite\<close>: all trees are finite.
  \<^item> \<open>tc_edges_ok\<close>: no edge leads from a node to itself, the inverse of an edge is in the tree of its destination,
    and at least one of the two was announced.
  \<^item> \<open>tc_attached_ok\<close>: the attachments of the nodes are those of the endpoints, and no endpoint is without one.
  \<^item> \<open>tc_nodes_ok X\<close>: a virtual node outside \<open>X\<close> has announced nothing, and is kept for an edge
    to it or as a direct neighbor.
\<close>

definition tc_finite :: "('a, 'p) tc_db \<Rightarrow> bool" where
  "tc_finite db \<longleftrightarrow> finite (Mapping.keys (tc_tree db)) \<and> finite (Mapping.keys (tc_endpoint_tree db)) \<and>
     (\<forall>n nd. olsrv2_tc_node_get db n = Some nd \<longrightarrow>
        finite (Mapping.keys (nd_edges nd)) \<and> finite (Mapping.keys (nd_attached nd))) \<and>
     (\<forall>p ep. olsrv2_tc_endpoint_get db p = Some ep \<longrightarrow> finite (Mapping.keys (ep_attached ep)))"

definition tc_edges_ok :: "('a, 'p) tc_db \<Rightarrow> bool" where
  "tc_edges_ok db \<longleftrightarrow> (\<forall>n m e. get_edge db n m = Some e \<longrightarrow>
     n \<noteq> m \<and> (\<exists>e'. get_edge db m n = Some e' \<and> \<not> (ed_virtual e \<and> ed_virtual e')))"

definition tc_attached_ok :: "('a, 'p) tc_db \<Rightarrow> bool" where
  "tc_attached_ok db \<longleftrightarrow>
     (\<forall>n p. get_attachment db n p \<noteq> None \<longleftrightarrow>
        (\<exists>ep. olsrv2_tc_endpoint_get db p = Some ep \<and> Mapping.lookup (ep_attached ep) n \<noteq> None)) \<and>
     (\<forall>p ep. olsrv2_tc_endpoint_get db p = Some ep \<longrightarrow> (\<exists>n. Mapping.lookup (ep_attached ep) n \<noteq> None))"

definition tc_nodes_ok :: "'a set \<Rightarrow> ('a, 'p) tc_db \<Rightarrow> bool" where
  "tc_nodes_ok X db \<longleftrightarrow> (\<forall>n nd. olsrv2_tc_node_get db n = Some nd \<longrightarrow> n \<notin> X \<longrightarrow> nd_validity nd = None \<longrightarrow>
     (\<forall>m e. get_edge db n m = Some e \<longrightarrow> ed_virtual e) \<and> (\<forall>p. get_attachment db n p = None) \<and>
     ((\<exists>m. get_edge db n m \<noteq> None) \<or> nd_direct_neighbor nd))"

definition tc_inv :: "'a set \<Rightarrow> ('a, 'p) tc_db \<Rightarrow> bool" where
  "tc_inv X db \<longleftrightarrow> tc_finite db \<and> tc_edges_ok db \<and> tc_attached_ok db \<and> tc_nodes_ok X db"

abbreviation tc_ok :: "('a, 'p) tc_db \<Rightarrow> bool" where
  "tc_ok \<equiv> tc_inv {}"

lemma tc_ok_init: "tc_ok olsrv2_tc_init"
  by (simp add: tc_inv_def tc_finite_def tc_edges_ok_def tc_attached_ok_def tc_nodes_ok_def olsrv2_tc_init_def
      olsrv2_tc_node_get_def olsrv2_tc_endpoint_get_def get_edge_def get_attachment_def)

lemma size_zero: "finite (Mapping.keys m) \<Longrightarrow> Mapping.size m = 0 \<longleftrightarrow> (\<forall>k. Mapping.lookup m k = None)"
  by (auto simp: size_def keys_dom_lookup dom_def)

lemma get_edge_node: "olsrv2_tc_node_get db n = Some nd \<Longrightarrow> get_edge db n m = Mapping.lookup (nd_edges nd) m"
  by (simp add: get_edge_def)

lemma get_edge_None: "olsrv2_tc_node_get db n = None \<Longrightarrow> get_edge db n m = None"
  by (simp add: get_edge_def)

lemma get_attachment_node:
  "olsrv2_tc_node_get db n = Some nd \<Longrightarrow> get_attachment db n p = Mapping.lookup (nd_attached nd) p"
  by (simp add: get_attachment_def)

lemma tc_edges_okD:
  assumes "tc_edges_ok db" "get_edge db n m = Some e"
  shows "n \<noteq> m" "\<exists>e'. get_edge db m n = Some e' \<and> \<not> (ed_virtual e \<and> ed_virtual e')"
  using assms unfolding tc_edges_ok_def by blast+

lemma keys_set: "Mapping.keys (Mapping.map_entry k f m) = Mapping.keys m"
  by (auto simp: keys_lookup tc_simps)

lemma tc_finite_event [tc_simps]:
  "tc_finite (tc_event ev db) = tc_finite db" "tc_finite (tc_domain_changed db) = tc_finite db"
  by (simp_all add: tc_finite_def tc_simps)

lemma upd_node_trees [tc_simps]:
  "tc_endpoint_tree (upd_node n f db) = tc_endpoint_tree db"
  "Mapping.keys (tc_tree (upd_node n f db)) = Mapping.keys (tc_tree db)"
  by (simp_all add: upd_node_def keys_set)

lemma tc_finite_upd_node:
  "tc_finite db \<Longrightarrow>
   (\<And>nd. finite (Mapping.keys (nd_edges nd)) \<Longrightarrow> finite (Mapping.keys (nd_edges (f nd)))) \<Longrightarrow>
   (\<And>nd. finite (Mapping.keys (nd_attached nd)) \<Longrightarrow> finite (Mapping.keys (nd_attached (f nd)))) \<Longrightarrow>
   tc_finite (upd_node n f db)"
  unfolding tc_finite_def by (auto simp: tc_simps split: if_splits)

lemma tc_finite_edge:
  "tc_finite db \<Longrightarrow> tc_finite (put_edge a b e db)" "tc_finite db \<Longrightarrow> tc_finite (cut_edge a b db)"
  unfolding put_edge_def cut_edge_def by (rule tc_finite_upd_node; simp)+


subsection \<open>Removal of attachments and nodes\<close>

lemma endpoint_remove_simps [tc_simps]:
  "olsrv2_tc_node_get (olsrv2_tc_endpoint_remove n p db) k =
     (if k = n then map_option (\<lambda>nd. nd\<lparr>nd_attached := Mapping.delete p (nd_attached nd)\<rparr>) (olsrv2_tc_node_get db n)
      else olsrv2_tc_node_get db k)"
  "olsrv2_tc_endpoint_get (olsrv2_tc_endpoint_remove n p db) q =
     (if q = p then
        Option.bind (olsrv2_tc_endpoint_get db p) (\<lambda>ep. let a = Mapping.delete n (ep_attached ep) in
           if Mapping.size a = 0 then None else Some (ep\<lparr>ep_attached := a\<rparr>))
      else olsrv2_tc_endpoint_get db q)"
  by (auto simp: olsrv2_tc_endpoint_remove_def olsrv2_tc_node_get_def olsrv2_tc_endpoint_get_def upd_node_def tc_simps
      Let_def split: option.splits if_splits)

lemma endpoint_remove_trees:
  "Mapping.keys (tc_tree (olsrv2_tc_endpoint_remove n p db)) = Mapping.keys (tc_tree db)"
  "Mapping.keys (tc_endpoint_tree (olsrv2_tc_endpoint_remove n p db)) \<subseteq> Mapping.keys (tc_endpoint_tree db)"
  by (auto simp: olsrv2_tc_endpoint_remove_def tc_simps keys_set Let_def upd_node_def
      split: option.splits if_splits)

lemma endpoint_remove_edges [tc_simps]: "get_edge (olsrv2_tc_endpoint_remove n p db) k m = get_edge db k m"
  by (auto simp: get_edge_def tc_simps split: Option.bind_splits)

lemma endpoint_remove_attachments [tc_simps]:
  "get_attachment (olsrv2_tc_endpoint_remove n p db) k q =
     (if k = n \<and> q = p then None else get_attachment db k q)"
  by (auto simp: get_attachment_def tc_simps split: Option.bind_splits)

lemma endpoint_remove_finite: "tc_finite db \<Longrightarrow> tc_finite (olsrv2_tc_endpoint_remove n p db)"
  using endpoint_remove_trees [of n p db] unfolding tc_finite_def
  by (auto simp: tc_simps Let_def finite_subset split: if_splits Option.bind_splits)

lemma endpoint_remove_attached_ok:
  assumes fin: "tc_finite db" and ok: "tc_attached_ok db"
  shows "tc_attached_ok (olsrv2_tc_endpoint_remove n p db)"
proof -
  have z: "Mapping.size (Mapping.delete n (ep_attached ep)) = 0 \<longleftrightarrow> (\<forall>k. k \<noteq> n \<longrightarrow> Mapping.lookup (ep_attached ep) k = None)"
    if "olsrv2_tc_endpoint_get db p = Some ep" for ep
    using fin that by (subst size_zero) (auto simp: tc_finite_def tc_simps)
  show ?thesis
    using ok z unfolding tc_attached_ok_def
    by (auto simp: tc_simps Let_def split: if_splits Option.bind_splits)
qed


text \<open>All attachments of a node are removed.\<close>

lemma endpoints_remove_simps [tc_simps]:
  "get_edge (fold (olsrv2_tc_endpoint_remove n) ps db) k m = get_edge db k m"
  "get_attachment (fold (olsrv2_tc_endpoint_remove n) ps db) k q =
     (if k = n \<and> q \<in> set ps then None else get_attachment db k q)"
  by (induction ps arbitrary: db) (auto simp: tc_simps)

lemma endpoints_remove_node_other [tc_simps]:
  "k \<noteq> n \<Longrightarrow> olsrv2_tc_node_get (fold (olsrv2_tc_endpoint_remove n) ps db) k = olsrv2_tc_node_get db k"
  by (induction ps arbitrary: db) (auto simp: tc_simps)

lemma endpoints_remove_node:
  "olsrv2_tc_node_get db n = Some nd \<Longrightarrow>
   \<exists>a. olsrv2_tc_node_get (fold (olsrv2_tc_endpoint_remove n) ps db) n = Some (nd\<lparr>nd_attached := a\<rparr>)"
proof (induction ps arbitrary: db nd)
  case Nil
  show ?case by (rule exI [of _ "nd_attached nd"]) (simp add: Nil)
next
  case (Cons p ps)
  have "olsrv2_tc_node_get (olsrv2_tc_endpoint_remove n p db) n
      = Some (nd\<lparr>nd_attached := Mapping.delete p (nd_attached nd)\<rparr>)"
    by (simp add: tc_simps Cons.prems)
  from Cons.IH [OF this] show ?case by simp
qed

lemma endpoints_remove_all:
  assumes nd: "olsrv2_tc_node_get db n = Some nd" and fin: "finite (Mapping.keys (nd_attached nd))"
  shows "olsrv2_tc_node_get (fold (olsrv2_tc_endpoint_remove n) (Mapping.ordered_keys (nd_attached nd)) db) n
    = Some (nd\<lparr>nd_attached := Mapping.empty\<rparr>)" (is "olsrv2_tc_node_get ?d n = _")
proof -
  obtain a where a: "olsrv2_tc_node_get ?d n = Some (nd\<lparr>nd_attached := a\<rparr>)"
    using endpoints_remove_node [OF nd] by blast
  have "Mapping.lookup a q = None" for q
  proof -
    have "get_attachment ?d n q = None"
      using fin nd by (auto simp: tc_simps get_attachment_node keys_lookup)
    with a show ?thesis by (simp add: get_attachment_node)
  qed
  then have "a = Mapping.empty" by (intro mapping_eqI) simp
  with a show ?thesis by simp
qed

lemma endpoints_remove_ok:
  "tc_finite db \<Longrightarrow> tc_finite (fold (olsrv2_tc_endpoint_remove n) ps db)"
  "tc_finite db \<Longrightarrow> tc_attached_ok db \<Longrightarrow> tc_attached_ok (fold (olsrv2_tc_endpoint_remove n) ps db)"
  by (induction ps arbitrary: db) (simp_all add: endpoint_remove_finite endpoint_remove_attached_ok)

lemma tc_edges_ok_cong:
  "(\<And>n m. get_edge db' n m = get_edge db n m) \<Longrightarrow> tc_edges_ok db' = tc_edges_ok db"
  by (simp add: tc_edges_ok_def)

lemma tc_attached_ok_cong:
  "(\<And>n p. get_attachment db' n p = get_attachment db n p) \<Longrightarrow>
   (\<And>p. olsrv2_tc_endpoint_get db' p = olsrv2_tc_endpoint_get db p) \<Longrightarrow> tc_attached_ok db' = tc_attached_ok db"
  by (simp add: tc_attached_ok_def)

text \<open>The part of \<open>olsrv2_tc_node_remove\<close> after the removal of the edges.\<close>

definition drop_node :: "'a::linorder \<Rightarrow> ('a, 'p::linorder) olsrv2_tc_node \<Rightarrow> ('a, 'p) tc_db \<Rightarrow> fault + ('a, 'p) tc_db" where
  "drop_node n nd0 db =
     (let db = fold (olsrv2_tc_endpoint_remove n) (Mapping.ordered_keys (nd_attached nd0)) db;
          db = upd_node n (\<lambda>nd. nd\<lparr>nd_validity := None\<rparr>) db
      in case olsrv2_tc_node_get db n of
           None \<Rightarrow> Inl Null_Deref
         | Some nd \<Rightarrow> Inr (tc_domain_changed
             (if Mapping.size (nd_edges nd) = 0 \<and> \<not> nd_direct_neighbor nd
              then db\<lparr>tc_tree := Mapping.delete n (tc_tree db)\<rparr> else db)))"

lemma delete_node_simps [tc_simps]:
  "olsrv2_tc_node_get (db\<lparr>tc_tree := Mapping.delete n (tc_tree db)\<rparr>) k =
     (if k = n then None else olsrv2_tc_node_get db k)"
  "olsrv2_tc_endpoint_get (db\<lparr>tc_tree := t\<rparr>) p = olsrv2_tc_endpoint_get db p"
  by (simp_all add: olsrv2_tc_node_get_def olsrv2_tc_endpoint_get_def tc_simps)

lemma drop_node_spec:
  assumes nd: "olsrv2_tc_node_get db n = Some nd" and att: "nd_attached nd = nd_attached nd0"
    and fin: "tc_finite db" and aok: "tc_attached_ok db" and eok: "tc_edges_ok db"
  shows "\<exists>db'. drop_node n nd0 db = Inr db' \<and> tc_finite db' \<and> tc_attached_ok db' \<and> tc_edges_ok db' \<and>
    (\<forall>k. k \<noteq> n \<longrightarrow> olsrv2_tc_node_get db' k = olsrv2_tc_node_get db k) \<and>
    (\<forall>k m. get_edge db' k m = get_edge db k m) \<and>
    (\<forall>k p. get_attachment db' k p = (if k = n then None else get_attachment db k p)) \<and>
    olsrv2_tc_node_get db' n =
      (if (\<forall>m. get_edge db n m = None) \<and> \<not> nd_direct_neighbor nd then None
       else Some (nd\<lparr>nd_validity := None, nd_attached := Mapping.empty\<rparr>))"
proof -
  let ?ps = "Mapping.ordered_keys (nd_attached nd0)"
  let ?d = "fold (olsrv2_tc_endpoint_remove n) ?ps db"
  obtain e where e_eq: "e = upd_node n (\<lambda>nd. nd\<lparr>nd_validity := None\<rparr>) ?d" by simp
  let ?f = "e\<lparr>tc_tree := Mapping.delete n (tc_tree e)\<rparr>"
  have finn: "finite (Mapping.keys (nd_attached nd))" "finite (Mapping.keys (nd_edges nd))"
    using fin nd unfolding tc_finite_def by blast+
  have d: "olsrv2_tc_node_get ?d n = Some (nd\<lparr>nd_attached := Mapping.empty\<rparr>)"
    using endpoints_remove_all [OF nd finn(1)] att by simp
  have e: "olsrv2_tc_node_get e n = Some (nd\<lparr>nd_validity := None, nd_attached := Mapping.empty\<rparr>)"
    by (simp add: e_eq tc_simps d)
  have ek: "k \<noteq> n \<Longrightarrow> olsrv2_tc_node_get e k = olsrv2_tc_node_get db k" for k
    by (simp add: e_eq tc_simps)
  have ee: "get_edge e k m = get_edge db k m" for k m
    by (simp add: e_eq get_upd_node tc_simps)
  have ea: "get_attachment e k p = (if k = n then None else get_attachment db k p)" for k p
  proof (cases "k = n")
    case True with e show ?thesis by (simp add: get_attachment_node)
  qed (simp add: e_eq get_upd_node tc_simps)
  have s: "Mapping.size (nd_edges nd) = 0 \<longleftrightarrow> (\<forall>m. get_edge db n m = None)"
    using nd finn by (simp add: size_zero get_edge_node)
  have fe: "tc_finite e" unfolding e_eq by (intro tc_finite_upd_node endpoints_remove_ok fin) simp_all
  have eo: "tc_edges_ok e" using eok by (simp add: tc_edges_ok_def ee)
  have ao: "tc_attached_ok e"
    using endpoints_remove_ok(2) [OF fin aok, of n ?ps]
    by (simp add: e_eq tc_attached_ok_def tc_simps get_upd_node)
  have r: "drop_node n nd0 db = Inr (tc_domain_changed
      (if Mapping.size (nd_edges nd) = 0 \<and> \<not> nd_direct_neighbor nd then ?f else e))"
    unfolding drop_node_def Let_def e_eq [symmetric] by (simp add: e)
  show ?thesis
  proof (cases "Mapping.size (nd_edges nd) = 0 \<and> \<not> nd_direct_neighbor nd")
    case False
    have "tc_edges_ok (tc_domain_changed e)" "tc_attached_ok (tc_domain_changed e)"
      using eo ao by (simp_all add: tc_edges_ok_def tc_attached_ok_def tc_simps)
    moreover have "drop_node n nd0 db = Inr (tc_domain_changed e)" by (simp only: r if_not_P [OF False])
    ultimately show ?thesis using fe False unfolding s
      by (intro exI [of _ "tc_domain_changed e"] conjI) (auto simp add: e tc_simps ee ea ek)
  next
    case True
    have fa: "get_attachment ?f k p = get_attachment e k p" for k p
      using ea [of n] by (cases "k = n") (simp_all add: get_attachment_def tc_simps)
    have fg: "get_edge ?f k m = get_edge e k m" for k m
      using True s ee [of n] by (cases "k = n") (simp_all add: get_edge_def tc_simps)
    have "Mapping.keys (tc_tree ?f) \<subseteq> Mapping.keys (tc_tree e)" by (auto simp: keys_lookup tc_simps)
    then have f: "tc_finite ?f" using fe unfolding tc_finite_def by (auto simp: tc_simps finite_subset)
    have "tc_edges_ok (tc_domain_changed ?f)" "tc_attached_ok (tc_domain_changed ?f)"
      using eo ao tc_edges_ok_cong [of "tc_domain_changed ?f" e] tc_attached_ok_cong [of "tc_domain_changed ?f" e]
      by (simp_all add: fa fg tc_simps)
    with f show ?thesis using True s
      by (intro exI [of _ "tc_domain_changed ?f"] conjI) (simp_all add: r tc_simps fg fa ee ea ek)
  qed
qed


subsection \<open>Removal of edges\<close>

text \<open>What the removal of the edge from \<open>s\<close> to \<open>d\<close> leaves as it was.\<close>

definition edge_gone :: "'a \<Rightarrow> 'a \<Rightarrow> ('a, 'p) tc_db \<Rightarrow> ('a, 'p) tc_db \<Rightarrow> bool" where
  "edge_gone s d db db' \<longleftrightarrow>
     (\<forall>k. k \<noteq> s \<longrightarrow> k \<noteq> d \<longrightarrow> olsrv2_tc_node_get db' k = olsrv2_tc_node_get db k) \<and>
     (\<exists>nd E. olsrv2_tc_node_get db s = Some nd \<and> olsrv2_tc_node_get db' s = Some (nd\<lparr>nd_edges := E\<rparr>)) \<and>
     (\<forall>k m. \<not> (k = s \<and> m = d) \<longrightarrow> \<not> (k = d \<and> m = s) \<longrightarrow> get_edge db' k m = get_edge db k m) \<and>
     (\<forall>e. get_edge db' s d = Some e \<longrightarrow> ed_virtual e) \<and>
     (get_edge db' s d \<noteq> None \<longleftrightarrow> (\<exists>e. get_edge db d s = Some e \<and> \<not> ed_virtual e)) \<and>
     (\<forall>e. get_edge db d s = Some e \<longrightarrow> \<not> ed_virtual e \<longrightarrow> get_edge db' d s = Some e)"

lemma drop_node_bare:
  assumes "olsrv2_tc_node_get db n = Some nd" "finite (Mapping.keys (nd_edges nd))" "\<forall>m. get_edge db n m = None"
  shows "bare_node_remove n db = drop_node n nd (tc_event (Node_Removed n) db)"
proof -
  have "Mapping.keys (nd_edges nd) = {}" using assms by (auto simp: keys_lookup get_edge_node)
  then have "Mapping.ordered_keys (nd_edges nd) = []" by (simp add: ordered_keys_def)
  then show ?thesis using assms
    by (simp add: bare_node_remove_def node_remove_with_def drop_node_def Let_def cong: option.case_cong)
qed

lemma tc_inv_edges:
  "tc_inv X db \<Longrightarrow> get_edge db s d = Some e \<Longrightarrow>
   s \<noteq> d \<and> (\<exists>e'. get_edge db d s = Some e' \<and> \<not> (ed_virtual e \<and> ed_virtual e'))"
  unfolding tc_inv_def tc_edges_ok_def by blast

text \<open>The two updates of edges keep the other fields of the nodes.\<close>

lemma edge_update_nodes [tc_simps]:
  "olsrv2_tc_node_get (put_edge a b e db) n =
     (if n = a then map_option (\<lambda>nd. nd\<lparr>nd_edges := Mapping.update b e (nd_edges nd)\<rparr>) (olsrv2_tc_node_get db n)
      else olsrv2_tc_node_get db n)"
  "olsrv2_tc_node_get (cut_edge a b db) n =
     (if n = a then map_option (\<lambda>nd. nd\<lparr>nd_edges := Mapping.delete b (nd_edges nd)\<rparr>) (olsrv2_tc_node_get db n)
      else olsrv2_tc_node_get db n)"
  "olsrv2_tc_endpoint_get (put_edge a b e db) p = olsrv2_tc_endpoint_get db p"
  "olsrv2_tc_endpoint_get (cut_edge a b db) p = olsrv2_tc_endpoint_get db p"
  by (simp_all add: put_edge_def cut_edge_def tc_simps)

text \<open>An update of edges keeps \<open>tc_nodes_ok\<close> when the nodes that are not excluded keep their edges or were active.\<close>

lemma tc_nodes_ok_edges:
  assumes ok: "tc_nodes_ok X db"
    and node: "\<And>n nd'. olsrv2_tc_node_get db' n = Some nd' \<Longrightarrow> n \<notin> Y \<Longrightarrow> nd_validity nd' = None \<Longrightarrow>
      n \<notin> X \<and> (\<exists>nd. olsrv2_tc_node_get db n = Some nd \<and> nd_validity nd = None \<and>
        nd_direct_neighbor nd' = nd_direct_neighbor nd) \<and>
      (\<forall>p. get_attachment db' n p = get_attachment db n p) \<and> (\<forall>m. get_edge db' n m = get_edge db n m)"
  shows "tc_nodes_ok Y db'"
  unfolding tc_nodes_ok_def
proof (intro allI impI)
  fix n nd' assume "olsrv2_tc_node_get db' n = Some nd'" "n \<notin> Y" "nd_validity nd' = None"
  from node [OF this] obtain nd where n: "n \<notin> X" "olsrv2_tc_node_get db n = Some nd" "nd_validity nd = None"
    "nd_direct_neighbor nd' = nd_direct_neighbor nd" "\<forall>p. get_attachment db' n p = get_attachment db n p"
    "\<forall>m. get_edge db' n m = get_edge db n m" by blast
  with ok show "(\<forall>m e. get_edge db' n m = Some e \<longrightarrow> ed_virtual e) \<and> (\<forall>p. get_attachment db' n p = None) \<and>
     ((\<exists>m. get_edge db' n m \<noteq> None) \<or> nd_direct_neighbor nd')"
    unfolding tc_nodes_ok_def by simp
qed

text \<open>A node that announced an edge is active, or excluded.\<close>

lemma announced_active:
  "tc_nodes_ok X db \<Longrightarrow> get_edge db s d = Some e \<Longrightarrow> \<not> ed_virtual e \<Longrightarrow> s \<notin> X \<Longrightarrow>
   olsrv2_tc_node_get db s = Some nd \<Longrightarrow> nd_validity nd \<noteq> None"
  unfolding tc_nodes_ok_def by blast

lemma get_cut_both:
  "get_edge (cut_edge d s (cut_edge s d (tc_event ev db))) n m =
     (if n = d \<and> m = s \<or> n = s \<and> m = d then None else get_edge db n m)"
  by (cases "n = d"; cases "m = s"; simp only: get_edge_simps simp_thms if_True if_False)

lemma get_put_marked:
  "olsrv2_tc_node_get db s = Some nd \<Longrightarrow>
   get_edge (put_edge s d e (tc_event ev db)) n m = (if n = s \<and> m = d then Some e else get_edge db n m)"
  by (cases "n = s"; cases "m = d"; simp only: get_edge_simps get_tree simp_thms if_True if_False option.distinct not_False_eq_True)

lemma cut_edges_inv:
  assumes inv: "tc_inv X db" and e: "get_edge db s d = Some e" "\<not> ed_virtual e"
  shows "tc_inv (insert d X) (cut_edge d s (cut_edge s d (tc_event ev db)))" (is "tc_inv _ ?c")
proof -
  have ne: "s \<noteq> d" using tc_inv_edges [OF inv e(1)] by blast
  have nok: "tc_nodes_ok X db" using inv by (simp add: tc_inv_def)
  have g: "get_edge ?c n m = (if n = d \<and> m = s \<or> n = s \<and> m = d then None else get_edge db n m)" for n m
    by (rule get_cut_both)
  have a: "get_attachment ?c n p = get_attachment db n p" for n p by (simp add: tc_simps)
  have nn: "olsrv2_tc_node_get ?c n = olsrv2_tc_node_get db n" if "n \<noteq> s" "n \<noteq> d" for n
    using that by (simp add: tc_simps)
  have ns: "olsrv2_tc_node_get ?c s = map_option (\<lambda>nd. nd\<lparr>nd_edges := Mapping.delete d (nd_edges nd)\<rparr>) (olsrv2_tc_node_get db s)"
    using ne by (simp add: tc_simps)
  have "tc_edges_ok ?c"
    unfolding tc_edges_ok_def
  proof (intro allI impI)
    fix n m x assume x: "get_edge ?c n m = Some x"
    then have "get_edge db n m = Some x" "\<not> (n = d \<and> m = s \<or> n = s \<and> m = d)" unfolding g by (auto split: if_splits)
    then show "n \<noteq> m \<and> (\<exists>e'. get_edge ?c m n = Some e' \<and> \<not> (ed_virtual x \<and> ed_virtual e'))"
      using tc_inv_edges [OF inv, of n m x] unfolding g by auto
  qed
  moreover have "tc_attached_ok ?c"
    using inv tc_attached_ok_cong [of ?c db] by (simp add: tc_inv_def tc_simps)
  moreover have "tc_nodes_ok (insert d X) ?c"
  proof (rule tc_nodes_ok_edges [OF nok])
    fix n nd' assume n: "olsrv2_tc_node_get ?c n = Some nd'" "n \<notin> insert d X" "nd_validity nd' = None"
    have "n \<noteq> s"
    proof
      assume "n = s"
      with n(1) ns obtain nd where "olsrv2_tc_node_get db s = Some nd" "nd_validity nd = nd_validity nd'" by auto
      with announced_active [OF nok e] n(2,3) \<open>n = s\<close> show False by auto
    qed
    moreover have "n \<noteq> d" "n \<notin> X" using n(2) by auto
    ultimately show "n \<notin> X \<and> (\<exists>nd. olsrv2_tc_node_get db n = Some nd \<and> nd_validity nd = None \<and>
        nd_direct_neighbor nd' = nd_direct_neighbor nd) \<and>
      (\<forall>p. get_attachment ?c n p = get_attachment db n p) \<and> (\<forall>m. get_edge ?c n m = get_edge db n m)"
      using n nn [of n] by (simp add: a g)
  qed
  moreover have "tc_finite ?c" using inv by (intro tc_finite_edge) (simp add: tc_inv_def tc_simps)
  ultimately show ?thesis by (simp add: tc_inv_def)
qed

lemma bare_node_remove_spec:
  assumes inv: "tc_inv (insert d X) db" and nd: "olsrv2_tc_node_get db d = Some nd" and none: "\<forall>m. get_edge db d m = None"
  shows "\<exists>db'. bare_node_remove d db = Inr db' \<and> tc_inv X db' \<and>
    (\<forall>k. k \<noteq> d \<longrightarrow> olsrv2_tc_node_get db' k = olsrv2_tc_node_get db k) \<and>
    (\<forall>k m. get_edge db' k m = get_edge db k m)"
proof -
  let ?d = "tc_event (Node_Removed d) db"
  have r: "bare_node_remove d db = drop_node d nd ?d"
    using inv nd none by (intro drop_node_bare) (auto simp: tc_inv_def tc_finite_def)
  have i: "tc_finite ?d" "tc_attached_ok ?d" "tc_edges_ok ?d"
    using inv by (simp_all add: tc_inv_def tc_finite_def tc_attached_ok_def tc_edges_ok_def tc_simps)
  from nd have "olsrv2_tc_node_get ?d d = Some nd" by (simp add: tc_simps)
  from drop_node_spec [OF this refl i, unfolded get_tree get_edge_simps get_attachment_simps]
  obtain db' where db': "drop_node d nd ?d = Inr db'" "tc_finite db'" "tc_attached_ok db'" "tc_edges_ok db'"
      "\<forall>k. k \<noteq> d \<longrightarrow> olsrv2_tc_node_get db' k = olsrv2_tc_node_get db k"
      "\<forall>k m. get_edge db' k m = get_edge db k m"
      "\<forall>k p. get_attachment db' k p = (if k = d then None else get_attachment db k p)"
      "olsrv2_tc_node_get db' d = (if (\<forall>m. get_edge db d m = None) \<and> \<not> nd_direct_neighbor nd then None
         else Some (nd\<lparr>nd_validity := None, nd_attached := Mapping.empty\<rparr>))"
    by blast
  have "tc_nodes_ok X db'"
    unfolding tc_nodes_ok_def
  proof (intro allI impI)
    fix n nd' assume n: "olsrv2_tc_node_get db' n = Some nd'" "n \<notin> X" "nd_validity nd' = None"
    show "(\<forall>m e. get_edge db' n m = Some e \<longrightarrow> ed_virtual e) \<and> (\<forall>p. get_attachment db' n p = None) \<and>
        ((\<exists>m. get_edge db' n m \<noteq> None) \<or> nd_direct_neighbor nd')"
    proof (cases "n = d")
      case True with n none db'(8) show ?thesis by (auto simp: db'(6,7) split: if_splits)
    next
      case False
      with n db'(5) inv show ?thesis unfolding tc_inv_def tc_nodes_ok_def by (auto simp: db'(6,7))
    qed
  qed
  with db' r show ?thesis by (auto simp: tc_inv_def)
qed

lemma get_edge_node_ex: "get_edge db s d = Some e \<Longrightarrow> \<exists>nd. olsrv2_tc_node_get db s = Some nd"
  by (cases "olsrv2_tc_node_get db s") (simp_all add: get_edge_None)

lemma remove_edge_spec:
  assumes inv: "tc_inv X db" and e: "get_edge db s d = Some e" and c: "c \<or> d \<in> X"
  shows "\<exists>b db'. remove_edge s d c db = Inr (b, db') \<and> tc_inv X db' \<and> edge_gone s d db db'"
proof -
  from tc_inv_edges [OF inv e] obtain e' where ne: "s \<noteq> d" and e': "get_edge db d s = Some e'"
    "\<not> (ed_virtual e \<and> ed_virtual e')" by blast
  from get_edge_node_ex [OF e] obtain nd where nd: "olsrv2_tc_node_get db s = Some nd" by blast
  from get_edge_node_ex [OF e'(1)] obtain nd' where nd': "olsrv2_tc_node_get db d = Some nd'" by blast
  consider (virt) "ed_virtual e" | (both) "\<not> ed_virtual e" "\<not> ed_virtual e'" | (one) "\<not> ed_virtual e" "ed_virtual e'"
    by blast
  then show ?thesis
  proof cases
    case virt
    then have "remove_edge s d c db = Inr (False, db)" by (simp add: remove_edge_def remove_edge_with_def e)
    moreover have "edge_gone s d db db"
      using nd e virt e' by (auto simp add: edge_gone_def intro!: exI [of _ "nd_edges nd"])
    ultimately show ?thesis using inv by blast
  next
    case both
    let ?d = "put_edge s d (e\<lparr>ed_virtual := True\<rparr>) (tc_event (Edge_Removed s d) db)"
    have nok: "tc_nodes_ok X db" using inv by (simp add: tc_inv_def)
    have r: "remove_edge s d c db = Inr (False, ?d)"
      using both ne by (simp add: remove_edge_def remove_edge_with_def e e' inverse_virtual_def get_edge_simps Let_def)
    have g: "get_edge ?d n m = (if n = s \<and> m = d then Some (e\<lparr>ed_virtual := True\<rparr>) else get_edge db n m)" for n m
      by (rule get_put_marked [OF nd])
    have gn: "olsrv2_tc_node_get ?d n = olsrv2_tc_node_get db n" if "n \<noteq> s" for n
      using that by (simp add: tc_simps)
    have gs: "olsrv2_tc_node_get ?d s = Some (nd\<lparr>nd_edges := Mapping.update d (e\<lparr>ed_virtual := True\<rparr>) (nd_edges nd)\<rparr>)"
      by (simp add: tc_simps nd)
    have "edge_gone s d db ?d"
      unfolding edge_gone_def using nd gn gs g both(2) e' ne by auto
    moreover have "tc_finite ?d" using inv by (intro tc_finite_edge) (simp add: tc_inv_def tc_simps)
    moreover have "tc_edges_ok ?d"
      unfolding tc_edges_ok_def
    proof (intro allI impI)
      fix n m x assume x: "get_edge ?d n m = Some x"
      show "n \<noteq> m \<and> (\<exists>e'. get_edge ?d m n = Some e' \<and> \<not> (ed_virtual x \<and> ed_virtual e'))"
      proof (cases "n = s \<and> m = d")
        case True with x e' both ne show ?thesis unfolding g by auto
      next
        case False
        with x tc_inv_edges [OF inv, of n m x] e' e both ne show ?thesis unfolding g by auto
      qed
    qed
    moreover have "tc_attached_ok ?d"
      using inv tc_attached_ok_cong [of ?d db] by (simp add: tc_inv_def tc_simps)
    moreover have "tc_nodes_ok X ?d"
    proof (rule tc_nodes_ok_edges [OF nok])
      fix n nd' assume n: "olsrv2_tc_node_get ?d n = Some nd'" "n \<notin> X" "nd_validity nd' = None"
      have "n \<noteq> s" using n gs announced_active [OF nok e both(1) _ nd] by auto
      then show "n \<notin> X \<and> (\<exists>nd. olsrv2_tc_node_get db n = Some nd \<and> nd_validity nd = None \<and>
        nd_direct_neighbor nd' = nd_direct_neighbor nd) \<and>
        (\<forall>p. get_attachment ?d n p = get_attachment db n p) \<and> (\<forall>m. get_edge ?d n m = get_edge db n m)"
        using n gn [of n] by (simp add: g get_attachment_simps)
    qed
    ultimately show ?thesis using r by (auto simp: tc_inv_def)
  next
    case one
    let ?c = "cut_edge d s (cut_edge s d (tc_event (Edge_Removed s d) db))"
    have g: "get_edge ?c n m = (if n = d \<and> m = s \<or> n = s \<and> m = d then None else get_edge db n m)" for n m
      by (rule get_cut_both)
    have ga: "get_attachment ?c n p = get_attachment db n p" for n p by (simp add: tc_simps)
    have ci: "tc_inv (insert d X) ?c" by (rule cut_edges_inv [OF inv e one(1)])
    have cs: "olsrv2_tc_node_get ?c s = Some (nd\<lparr>nd_edges := Mapping.delete d (nd_edges nd)\<rparr>)"
      using ne by (simp add: tc_simps nd)
    let ?nd = "nd'\<lparr>nd_edges := Mapping.delete s (nd_edges nd')\<rparr>"
    have cd: "olsrv2_tc_node_get ?c d = Some ?nd"
      using ne by (simp add: tc_simps nd')
    have co: "k \<noteq> s \<Longrightarrow> k \<noteq> d \<Longrightarrow> olsrv2_tc_node_get ?c k = olsrv2_tc_node_get db k" for k
      by (simp add: tc_simps)
    have r: "remove_edge s d c db = (if Mapping.size (nd_edges ?nd) = 0 \<and> c \<and> olsrv2_tc_is_node_virtual ?nd
        then bind_f (bare_node_remove d ?c) (\<lambda>db. Inr (True, db)) else Inr (False, ?c))"
      using one ne cd by (simp add: remove_edge_def remove_edge_with_def e e' inverse_virtual_def get_tree get_edge_simps Let_def)
    have fin: "finite (Mapping.keys (nd_edges ?nd))" using ci cd unfolding tc_inv_def tc_finite_def by blast
    have z: "Mapping.size (nd_edges ?nd) = 0 \<longleftrightarrow> (\<forall>m. get_edge ?c d m = None)"
      using size_zero [OF fin] get_edge_node [OF cd] by simp
    show ?thesis
    proof (cases "Mapping.size (nd_edges ?nd) = 0 \<and> c \<and> olsrv2_tc_is_node_virtual ?nd")
      case True
      then have "\<forall>m. get_edge ?c d m = None" using z by blast
      from bare_node_remove_spec [OF ci cd this] obtain db' where db': "bare_node_remove d ?c = Inr db'" "tc_inv X db'"
        "\<forall>k. k \<noteq> d \<longrightarrow> olsrv2_tc_node_get db' k = olsrv2_tc_node_get ?c k"
        "\<forall>k m. get_edge db' k m = get_edge ?c k m" by blast
      have "remove_edge s d c db = Inr (True, db')" unfolding r if_P [OF True] by (simp add: db'(1))
      moreover have "edge_gone s d db db'"
        unfolding edge_gone_def db'(4) [rule_format] using ne nd cs co db'(3) one(2) e' by (auto simp: g)
      ultimately show ?thesis using db'(2) by blast
    next
      case False
      have "edge_gone s d db ?c" unfolding edge_gone_def using nd cs co one(2) e' by (auto simp: g)
      moreover have "tc_nodes_ok X ?c"
        unfolding tc_nodes_ok_def
      proof (intro allI impI)
        fix n m assume n: "olsrv2_tc_node_get ?c n = Some m" "n \<notin> X" "nd_validity m = None"
        show "(\<forall>k e. get_edge ?c n k = Some e \<longrightarrow> ed_virtual e) \<and> (\<forall>p. get_attachment ?c n p = None) \<and>
            ((\<exists>k. get_edge ?c n k \<noteq> None) \<or> nd_direct_neighbor m)"
        proof (cases "n = d")
          case True
          with n cd have m: "m = ?nd" by simp
          have "nd_validity nd' = None" using n(3) m by simp
          then have ok: "(\<forall>k e. get_edge db d k = Some e \<longrightarrow> ed_virtual e) \<and> (\<forall>p. get_attachment db d p = None)"
            using inv nd' n(2) True unfolding tc_inv_def tc_nodes_ok_def by blast
          have "\<exists>k. get_edge ?c n k \<noteq> None"
            using False c n(2,3) z True m by (auto simp: olsrv2_tc_is_node_virtual_def)
          with ok show ?thesis unfolding True by (auto simp: g ga)
        next
          case False
          with n ci show ?thesis unfolding tc_inv_def tc_nodes_ok_def by blast
        qed
      qed
      ultimately show ?thesis using ci r False by (auto simp: tc_inv_def)
    qed
  qed
qed

lemma edge_gone_node:
  assumes "edge_gone s d db db'" "olsrv2_tc_node_get db s = Some nd"
  shows "\<exists>E. olsrv2_tc_node_get db' s = Some (nd\<lparr>nd_edges := E\<rparr>)"
proof -
  from assms(1) obtain nd' E where "olsrv2_tc_node_get db s = Some nd'" "olsrv2_tc_node_get db' s = Some (nd'\<lparr>nd_edges := E\<rparr>)"
    unfolding edge_gone_def by blast
  with assms(2) show ?thesis by auto
qed

lemma edge_gone_other:
  assumes "edge_gone s d db db'" "\<not> (k = s \<and> m = d)" "\<not> (k = d \<and> m = s)"
  shows "get_edge db' k m = get_edge db k m"
proof -
  from assms(1) have "\<forall>k m. \<not> (k = s \<and> m = d) \<longrightarrow> \<not> (k = d \<and> m = s) \<longrightarrow> get_edge db' k m = get_edge db k m"
    unfolding edge_gone_def by (elim conjE)
  then show ?thesis using assms(2,3) by iprover
qed

text \<open>Both loops over the edges of a node remove edges that are in the tree, one after the other.\<close>

locale edge_remover =
  fixes X :: "'a::linorder set" and er :: "'a \<Rightarrow> 'a \<Rightarrow> ('a::linorder, 'p::linorder) tc_db \<Rightarrow> fault + ('a, 'p) tc_db"
  assumes er: "tc_inv X db \<Longrightarrow> get_edge db s d = Some e \<Longrightarrow> \<exists>db'. er s d db = Inr db' \<and> tc_inv X db' \<and> edge_gone s d db db'"
begin

lemma all_edges:
  assumes "tc_inv X db" "olsrv2_tc_node_get db n = Some nd" "distinct ms" "\<forall>m\<in>set ms. get_edge db n m \<noteq> None"
  shows "\<exists>db' E. remove_edges er n ms db = Inr db' \<and> tc_inv X db' \<and>
    olsrv2_tc_node_get db' n = Some (nd\<lparr>nd_edges := E\<rparr>) \<and>
    (\<forall>m\<in>set ms. (\<forall>e. get_edge db' n m = Some e \<longrightarrow> ed_virtual e) \<and>
       (get_edge db' n m \<noteq> None \<longleftrightarrow> (\<exists>e. get_edge db m n = Some e \<and> \<not> ed_virtual e))) \<and>
    (\<forall>m. m \<notin> set ms \<longrightarrow> get_edge db' n m = get_edge db n m) \<and>
    (\<forall>k m. k \<noteq> n \<longrightarrow> m \<noteq> n \<longrightarrow> get_edge db' k m = get_edge db k m) \<and>
    (\<forall>m e. get_edge db m n = Some e \<longrightarrow> \<not> ed_virtual e \<longrightarrow> get_edge db' m n = Some e)"
  using assms
proof (induction ms arbitrary: db nd)
  case Nil
  then show ?case by (intro exI [of _ db] exI [of _ "nd_edges nd"]) simp
next
  case (Cons m ms)
  then obtain e where e: "get_edge db n m = Some e" by auto
  from er [OF Cons.prems(1) e] obtain d1 where d1: "er n m db = Inr d1" "tc_inv X d1" "edge_gone n m db d1" by blast
  have ne: "n \<noteq> m" using tc_inv_edges [OF Cons.prems(1) e] by blast
  obtain E where n1: "olsrv2_tc_node_get d1 n = Some (nd\<lparr>nd_edges := E\<rparr>)"
    using edge_gone_node [OF d1(3) Cons.prems(2)] by blast
  have g1: "get_edge d1 k j = get_edge db k j" if "\<not> (k = n \<and> j = m)" "\<not> (k = m \<and> j = n)" for k j
    using that by (rule edge_gone_other [OF d1(3)])
  have v1: "\<forall>e. get_edge d1 n m = Some e \<longrightarrow> ed_virtual e"
      "get_edge d1 n m \<noteq> None \<longleftrightarrow> (\<exists>e. get_edge db m n = Some e \<and> \<not> ed_virtual e)"
      "\<forall>e. get_edge db m n = Some e \<longrightarrow> \<not> ed_virtual e \<longrightarrow> get_edge d1 m n = Some e"
    using d1(3) unfolding edge_gone_def by blast+
  have "\<forall>j\<in>set ms. get_edge d1 n j \<noteq> None"
  proof
    fix j assume j: "j \<in> set ms"
    then have "j \<noteq> m" using Cons.prems(3) by auto
    with g1 [of n j] ne have "get_edge d1 n j = get_edge db n j" by simp
    with Cons.prems(4) j show "get_edge d1 n j \<noteq> None" by simp
  qed
  from Cons.IH [OF d1(2) n1 _ this] Cons.prems(3) have "\<exists>db' E'. remove_edges er n ms d1 = Inr db' \<and> tc_inv X db' \<and>
      olsrv2_tc_node_get db' n = Some (nd\<lparr>nd_edges := E'\<rparr>) \<and>
      (\<forall>j\<in>set ms. (\<forall>e. get_edge db' n j = Some e \<longrightarrow> ed_virtual e) \<and>
       (get_edge db' n j \<noteq> None \<longleftrightarrow> (\<exists>e. get_edge d1 j n = Some e \<and> \<not> ed_virtual e))) \<and>
      (\<forall>j. j \<notin> set ms \<longrightarrow> get_edge db' n j = get_edge d1 n j) \<and>
      (\<forall>k j. k \<noteq> n \<longrightarrow> j \<noteq> n \<longrightarrow> get_edge db' k j = get_edge d1 k j) \<and>
      (\<forall>j e. get_edge d1 j n = Some e \<longrightarrow> \<not> ed_virtual e \<longrightarrow> get_edge db' j n = Some e)"
    by simp
  then
  obtain db' E' where r: "remove_edges er n ms d1 = Inr db'" "tc_inv X db'"
      "olsrv2_tc_node_get db' n = Some (nd\<lparr>nd_edges := E'\<rparr>)"
    and v: "\<forall>j\<in>set ms. (\<forall>e. get_edge db' n j = Some e \<longrightarrow> ed_virtual e) \<and>
       (get_edge db' n j \<noteq> None \<longleftrightarrow> (\<exists>e. get_edge d1 j n = Some e \<and> \<not> ed_virtual e))"
    and o: "\<forall>j. j \<notin> set ms \<longrightarrow> get_edge db' n j = get_edge d1 n j"
    and k: "\<forall>k j. k \<noteq> n \<longrightarrow> j \<noteq> n \<longrightarrow> get_edge db' k j = get_edge d1 k j"
    and i: "\<forall>j e. get_edge d1 j n = Some e \<longrightarrow> \<not> ed_virtual e \<longrightarrow> get_edge db' j n = Some e"
    by blast
  have mm: "m \<notin> set ms" using Cons.prems(3) by simp
  have "remove_edges er n (m # ms) db = Inr db'" by (simp add: d1(1) r(1))
  moreover have "\<forall>j\<in>set (m # ms). (\<forall>e. get_edge db' n j = Some e \<longrightarrow> ed_virtual e) \<and>
       (get_edge db' n j \<noteq> None \<longleftrightarrow> (\<exists>e. get_edge db j n = Some e \<and> \<not> ed_virtual e))"
  proof
    fix j assume j: "j \<in> set (m # ms)"
    show "(\<forall>e. get_edge db' n j = Some e \<longrightarrow> ed_virtual e) \<and>
       (get_edge db' n j \<noteq> None \<longleftrightarrow> (\<exists>e. get_edge db j n = Some e \<and> \<not> ed_virtual e))"
    proof (cases "j = m")
      case True then show ?thesis using o mm v1 by simp
    next
      case False
      then have "get_edge d1 j n = get_edge db j n" using g1 ne by auto
      with v j False show ?thesis by simp
    qed
  qed
  moreover have "\<forall>j. j \<notin> set (m # ms) \<longrightarrow> get_edge db' n j = get_edge db n j" using o g1 ne by auto
  moreover have "\<forall>k j. k \<noteq> n \<longrightarrow> j \<noteq> n \<longrightarrow> get_edge db' k j = get_edge db k j" using k g1 by auto
  moreover have "\<forall>j e. get_edge db j n = Some e \<longrightarrow> \<not> ed_virtual e \<longrightarrow> get_edge db' j n = Some e"
  proof (intro allI impI)
    fix j e assume j: "get_edge db j n = Some e" "\<not> ed_virtual e"
    have "get_edge d1 j n = Some e"
    proof (cases "j = m")
      case True with j v1(3) show ?thesis by blast
    next
      case False with j g1 [of j n] ne show ?thesis by auto
    qed
    with i j(2) show "get_edge db' j n = Some e" by blast
  qed
  ultimately show ?case using r by blast
qed

end

lemma tc_inv_event [tc_simps]: "tc_inv X (tc_event ev db) = tc_inv X db" "tc_inv X (tc_domain_changed db) = tc_inv X db"
  by (simp_all only: tc_inv_def tc_finite_event tc_edges_ok_def tc_attached_ok_def tc_nodes_ok_def
      get_tree get_edge_simps get_attachment_simps)

lemma edge_gone_changed: "edge_gone s d (tc_domain_changed db) db' = edge_gone s d db db'"
  by (simp add: edge_gone_def tc_simps)

interpretation edges_removed: edge_remover X "\<lambda>src dst db. bind_f (olsrv2_tc_edge_remove src dst db) (\<lambda>(b, db). Inr db)"
proof unfold_locales
  fix db :: "('a::linorder, 'b::linorder) tc_db" and s d e
  assume a: "tc_inv X db" "get_edge db s d = Some e"
  have "tc_inv X (tc_domain_changed db)" "get_edge (tc_domain_changed db) s d = Some e" using a by (simp_all add: tc_simps)
  from remove_edge_spec [OF this, of True]
  show "\<exists>db'. bind_f (olsrv2_tc_edge_remove s d db) (\<lambda>(b, db). Inr db) = Inr db' \<and> tc_inv X db' \<and> edge_gone s d db db'"
    by (auto simp: olsrv2_tc_edge_remove_def edge_gone_changed)
qed

interpretation edges_cleaned: edge_remover UNIV "\<lambda>src dst db. bind_f (remove_edge src dst False db) (\<lambda>(b, db). Inr db)"
proof unfold_locales
  fix db :: "('a::linorder, 'b::linorder) tc_db" and s d e
  assume a: "tc_inv UNIV db" "get_edge db s d = Some e"
  from remove_edge_spec [OF this, of False]
  show "\<exists>db'. bind_f (remove_edge s d False db) (\<lambda>(b, db). Inr db) = Inr db' \<and> tc_inv UNIV db' \<and> edge_gone s d db db'"
    by auto
qed

lemma node_remove_unfold:
  "node_remove_with er n db =
     (case olsrv2_tc_node_get db n of None \<Rightarrow> Inl Null_Deref
      | Some nd \<Rightarrow> bind_f (remove_edges er n (Mapping.ordered_keys (nd_edges nd)) (tc_event (Node_Removed n) db)) (drop_node n nd))"
  unfolding node_remove_with_def drop_node_def [abs_def] ..

text \<open>
  The removal of a node: its announced edges and attachments are gone, and it is kept, as a virtual node, when
  another node still announces an edge to it or it is a direct neighbor.
\<close>

definition node_gone :: "'a \<Rightarrow> ('a, 'p) tc_db \<Rightarrow> ('a, 'p) tc_db \<Rightarrow> bool" where
  "node_gone n db db' \<longleftrightarrow>
     (\<forall>nd nd'. olsrv2_tc_node_get db n = Some nd \<longrightarrow> olsrv2_tc_node_get db' n = Some nd' \<longrightarrow>
        nd_validity nd' = None \<and> nd_direct_neighbor nd' = nd_direct_neighbor nd) \<and>
     (olsrv2_tc_node_get db' n \<noteq> None \<longleftrightarrow>
        (\<exists>nd. olsrv2_tc_node_get db n = Some nd \<and> nd_direct_neighbor nd) \<or> (\<exists>m e. get_edge db m n = Some e \<and> \<not> ed_virtual e)) \<and>
     (\<forall>m e. get_edge db' n m = Some e \<longrightarrow> ed_virtual e) \<and>
     (\<forall>m e. get_edge db m n = Some e \<longrightarrow> \<not> ed_virtual e \<longrightarrow> get_edge db' m n = Some e) \<and>
     (\<forall>k m. k \<noteq> n \<longrightarrow> m \<noteq> n \<longrightarrow> get_edge db' k m = get_edge db k m)"

lemma ordered_keys_finite: "finite (Mapping.keys m) \<Longrightarrow> set (Mapping.ordered_keys m) = Mapping.keys m \<and> distinct (Mapping.ordered_keys m)"
  by (simp add: ordered_keys_def)

lemma node_edge_keys: "olsrv2_tc_node_get db n = Some nd \<Longrightarrow> Mapping.keys (nd_edges nd) = {m. get_edge db n m \<noteq> None}"
  by (rule set_eqI) (simp only: keys_lookup get_edge_node mem_Collect_eq)

lemma node_remove_spec:
  assumes inv: "tc_inv X db" and nd: "olsrv2_tc_node_get db n = Some nd"
  shows "\<exists>db'. olsrv2_tc_node_remove n db = Inr db' \<and> tc_inv (X - {n}) db' \<and> node_gone n db db'"
proof -
  let ?er = "\<lambda>src dst db. bind_f (olsrv2_tc_edge_remove src dst db) (\<lambda>(b, db). Inr db)"
  let ?d = "tc_event (Node_Removed n) db" and ?ms = "Mapping.ordered_keys (nd_edges nd)"
  have fin: "finite (Mapping.keys (nd_edges nd))" using inv nd unfolding tc_inv_def tc_finite_def by blast
  have ms: "set ?ms = {m. get_edge db n m \<noteq> None}" "distinct ?ms"
    using ordered_keys_finite [OF fin] node_edge_keys [OF nd] by simp_all
  have "tc_inv X ?d" "olsrv2_tc_node_get ?d n = Some nd" "\<forall>m\<in>set ?ms. get_edge ?d n m \<noteq> None"
    using inv nd ms by (simp_all add: tc_simps)
  from edges_removed.all_edges [OF this(1,2) ms(2) this(3), unfolded get_tree get_edge_simps]
  obtain d1 E where r1: "remove_edges ?er n ?ms ?d = Inr d1" and i1: "tc_inv X d1"
    and n1: "olsrv2_tc_node_get d1 n = Some (nd\<lparr>nd_edges := E\<rparr>)"
    and v1: "\<forall>m\<in>set ?ms. (\<forall>e. get_edge d1 n m = Some e \<longrightarrow> ed_virtual e) \<and>
       (get_edge d1 n m \<noteq> None \<longleftrightarrow> (\<exists>e. get_edge db m n = Some e \<and> \<not> ed_virtual e))"
    and o1: "\<forall>m. m \<notin> set ?ms \<longrightarrow> get_edge d1 n m = get_edge db n m"
    and k1: "\<forall>k m. k \<noteq> n \<longrightarrow> m \<noteq> n \<longrightarrow> get_edge d1 k m = get_edge db k m"
    and b1: "\<forall>m e. get_edge db m n = Some e \<longrightarrow> \<not> ed_virtual e \<longrightarrow> get_edge d1 m n = Some e"
    by (elim exE conjE) (rule that)
  have "nd_attached (nd\<lparr>nd_edges := E\<rparr>) = nd_attached nd" by simp
  from drop_node_spec [OF n1 this] i1
  obtain db' where r2: "drop_node n nd d1 = Inr db'" and f2: "tc_finite db'" "tc_attached_ok db'" "tc_edges_ok db'"
    and k2: "\<forall>k. k \<noteq> n \<longrightarrow> olsrv2_tc_node_get db' k = olsrv2_tc_node_get d1 k"
    and e2: "\<forall>k m. get_edge db' k m = get_edge d1 k m"
    and a2: "\<forall>k p. get_attachment db' k p = (if k = n then None else get_attachment d1 k p)"
    and n2: "olsrv2_tc_node_get db' n = (if (\<forall>m. get_edge d1 n m = None) \<and> \<not> nd_direct_neighbor (nd\<lparr>nd_edges := E\<rparr>) then None
       else Some (nd\<lparr>nd_edges := E, nd_validity := None, nd_attached := Mapping.empty\<rparr>))"
    unfolding tc_inv_def by blast
  have virt: "\<forall>m e. get_edge d1 n m = Some e \<longrightarrow> ed_virtual e"
  proof (intro allI impI)
    fix m e assume e: "get_edge d1 n m = Some e"
    show "ed_virtual e"
    proof (cases "m \<in> set ?ms")
      case True with v1 e show ?thesis by blast
    next
      case False with o1 e ms(1) show ?thesis by auto
    qed
  qed
  have some: "get_edge d1 n m \<noteq> None \<longleftrightarrow> (\<exists>e. get_edge db m n = Some e \<and> \<not> ed_virtual e)" for m
  proof (cases "m \<in> set ?ms")
    case True with v1 show ?thesis by blast
  next
    case False
    then have none: "get_edge db n m = None" using ms(1) by simp
    have "get_edge db m n = None" using tc_inv_edges [OF inv, of m n] none by (cases "get_edge db m n") auto
    with o1 False none show ?thesis by simp
  qed
  have nodes: "tc_nodes_ok (X - {n}) db'"
    unfolding tc_nodes_ok_def
  proof (intro allI impI)
    fix k nd' assume k: "olsrv2_tc_node_get db' k = Some nd'" "k \<notin> X - {n}" "nd_validity nd' = None"
    show "(\<forall>m e. get_edge db' k m = Some e \<longrightarrow> ed_virtual e) \<and> (\<forall>p. get_attachment db' k p = None) \<and>
        ((\<exists>m. get_edge db' k m \<noteq> None) \<or> nd_direct_neighbor nd')"
    proof (cases "k = n")
      case True
      with k(1) n2 have "(\<exists>m. get_edge d1 n m \<noteq> None) \<or> nd_direct_neighbor nd'" by (auto split: if_splits)
      with virt show ?thesis unfolding True by (simp add: e2 a2)
    next
      case False
      then have "olsrv2_tc_node_get d1 k = Some nd'" "k \<notin> X" using k k2 by auto
      with i1 k(3) have "(\<forall>m e. get_edge d1 k m = Some e \<longrightarrow> ed_virtual e) \<and> (\<forall>p. get_attachment d1 k p = None) \<and>
        ((\<exists>m. get_edge d1 k m \<noteq> None) \<or> nd_direct_neighbor nd')" unfolding tc_inv_def tc_nodes_ok_def by blast
      with False show ?thesis by (simp add: e2 a2)
    qed
  qed
  have "olsrv2_tc_node_remove n db = Inr db'"
    unfolding olsrv2_tc_node_remove_def node_remove_unfold by (simp add: nd r1 r2)
  moreover have "node_gone n db db'"
    unfolding node_gone_def
  proof (intro conjI)
    show "\<forall>nd nd'. olsrv2_tc_node_get db n = Some nd \<longrightarrow> olsrv2_tc_node_get db' n = Some nd' \<longrightarrow>
        nd_validity nd' = None \<and> nd_direct_neighbor nd' = nd_direct_neighbor nd"
      using nd n2 by (auto split: if_splits)
    show "olsrv2_tc_node_get db' n \<noteq> None \<longleftrightarrow> (\<exists>nd. olsrv2_tc_node_get db n = Some nd \<and> nd_direct_neighbor nd) \<or>
        (\<exists>m e. get_edge db m n = Some e \<and> \<not> ed_virtual e)"
      using n2 some nd by (auto split: if_splits)
  qed (use virt b1 k1 in \<open>simp_all add: e2\<close>)
  ultimately show ?thesis using f2 nodes by (auto simp: tc_inv_def)
qed

end
