(* ===== verification/Olsrv2_Tc_Safety.thy ===== *)
theory Olsrv2_Tc_Safety
  imports Olsrv2_Tc
begin

section \<open>The operations of the topology database keep its invariant\<close>

text \<open>
  Specifications of the additions, timeouts and neighbor events of \<^verbatim>\<open>src/src/olsrv2/olsrv2/olsrv2_tc.c\<close>, the
  databases reachable by valid calls, and the properties of the database.
\<close>

subsection \<open>Additions\<close>

lemma tc_nodes_ok_mono: "tc_nodes_ok X db \<Longrightarrow> X \<subseteq> Y \<Longrightarrow> tc_nodes_ok Y db"
  unfolding tc_nodes_ok_def by blast

lemma tc_inv_mono: "tc_inv X db \<Longrightarrow> X \<subseteq> Y \<Longrightarrow> tc_inv Y db"
  unfolding tc_inv_def using tc_nodes_ok_mono by blast

text \<open>An update of one node that keeps its edges and attachments.\<close>

lemma tc_inv_upd_node:
  assumes inv: "tc_inv (insert n X) db"
    and keep: "\<And>nd. nd_edges (f nd) = nd_edges nd" "\<And>nd. nd_attached (f nd) = nd_attached nd"
    and node: "n \<in> X \<or> (\<forall>nd. olsrv2_tc_node_get db n = Some nd \<longrightarrow> nd_validity (f nd) \<noteq> None)"
  shows "tc_inv X (upd_node n f db)"
proof -
  have g: "get_edge (upd_node n f db) k m = get_edge db k m" for k m
    using keep(1) by (rule get_upd_node)
  have a: "get_attachment (upd_node n f db) k p = get_attachment db k p" for k p
    using keep(2) by (rule get_upd_node)
  have "tc_nodes_ok X (upd_node n f db)"
    unfolding tc_nodes_ok_def g a
  proof (intro allI impI)
    fix k nd assume k: "olsrv2_tc_node_get (upd_node n f db) k = Some nd" "k \<notin> X" "nd_validity nd = None"
    have "k \<noteq> n" using k node by (auto simp: get_tree)
    then have "olsrv2_tc_node_get db k = Some nd" "k \<notin> insert n X" using k by (simp_all add: get_tree)
    with inv k(3) show "(\<forall>m e. get_edge db k m = Some e \<longrightarrow> ed_virtual e) \<and> (\<forall>p. get_attachment db k p = None) \<and>
        ((\<exists>m. get_edge db k m \<noteq> None) \<or> nd_direct_neighbor nd)"
      unfolding tc_inv_def tc_nodes_ok_def by blast
  qed
  moreover have "tc_finite (upd_node n f db)"
    using inv by (intro tc_finite_upd_node) (simp_all add: keep tc_inv_def)
  moreover have "tc_edges_ok (upd_node n f db)" "tc_attached_ok (upd_node n f db)"
    using inv tc_edges_ok_cong [of "upd_node n f db" db] tc_attached_ok_cong [of "upd_node n f db" db]
    by (simp_all add: g a get_tree tc_inv_def)
  ultimately show ?thesis by (simp add: tc_inv_def)
qed

lemma tc_inv_upd_active:
  assumes "tc_inv X db" "\<And>nd. nd_edges (f nd) = nd_edges nd" "\<And>nd. nd_attached (f nd) = nd_attached nd"
    "\<And>nd. olsrv2_tc_node_get db n = Some nd \<Longrightarrow> nd_validity (f nd) \<noteq> None"
  shows "tc_inv X (upd_node n f db)"
  using assms by (intro tc_inv_upd_node tc_inv_mono [OF assms(1)]) auto

text \<open>A new node without edges and attachments.\<close>

lemma insert_node_simps [tc_simps]:
  "olsrv2_tc_node_get (db\<lparr>tc_tree := Mapping.update n nd (tc_tree db)\<rparr>) k =
     (if k = n then Some nd else olsrv2_tc_node_get db k)"
  by (simp add: olsrv2_tc_node_get_def lookup_tc)

lemma insert_node_inv:
  assumes inv: "tc_inv X db" and new: "olsrv2_tc_node_get db n = None"
    and empty: "nd_edges nd = Mapping.empty" "nd_attached nd = Mapping.empty"
  shows "tc_inv (insert n X) (db\<lparr>tc_tree := Mapping.update n nd (tc_tree db)\<rparr>)" (is "tc_inv _ ?d")
    and "get_edge (db\<lparr>tc_tree := Mapping.update n nd (tc_tree db)\<rparr>) k m = get_edge db k m"
    and "get_attachment (db\<lparr>tc_tree := Mapping.update n nd (tc_tree db)\<rparr>) k p = get_attachment db k p"
proof -
  have g: "get_edge ?d k m = get_edge db k m" for k m
    using new empty by (cases "k = n") (simp_all add: get_edge_def insert_node_simps)
  have a: "get_attachment ?d k p = get_attachment db k p" for k p
    using new empty by (cases "k = n") (simp_all add: get_attachment_def insert_node_simps)
  have "tc_edges_ok ?d" "tc_attached_ok ?d"
    using inv tc_edges_ok_cong [of ?d db] tc_attached_ok_cong [of ?d db]
    by (simp_all add: g a delete_node_simps tc_inv_def)
  moreover have "tc_nodes_ok (insert n X) ?d"
    using inv unfolding tc_inv_def tc_nodes_ok_def g a by (simp add: insert_node_simps)
  moreover have "tc_finite ?d"
    using inv unfolding tc_inv_def tc_finite_def by (simp add: insert_node_simps delete_node_simps empty)
  ultimately show "tc_inv (insert n X) ?d" by (simp add: tc_inv_def)
  show "get_edge ?d k m = get_edge db k m" "get_attachment ?d k p = get_attachment db k p" by (fact g a)+
qed

text \<open>\<open>olsrv2_tc_node_add\<close>: with a validity time the node becomes active; with 0 it is virtual.\<close>

definition node_set :: "'a \<Rightarrow> u64 \<Rightarrow> ('a, 'p) tc_db \<Rightarrow> ('a, 'p) tc_db \<Rightarrow> bool" where
  "node_set n vtime db db' \<longleftrightarrow>
     (\<exists>nd. olsrv2_tc_node_get db' n = Some nd \<and> nd_validity nd = (if vtime = 0 then None else Some vtime)) \<and>
     (\<forall>k. k \<noteq> n \<longrightarrow> olsrv2_tc_node_get db' k = olsrv2_tc_node_get db k) \<and>
     (\<forall>k m. get_edge db' k m = get_edge db k m) \<and> (\<forall>k p. get_attachment db' k p = get_attachment db k p) \<and>
     (\<forall>p. olsrv2_tc_endpoint_get db' p = olsrv2_tc_endpoint_get db p)"

lemma node_add_fails: "olsrv2_tc_node_add ok n vtime ansn db = (False, db') \<Longrightarrow> db' = db"
  by (auto simp: olsrv2_tc_node_add_def Let_def split: option.splits if_splits)

lemma node_add_spec:
  assumes inv: "tc_inv (insert n X) db" and r: "olsrv2_tc_node_add ok n vtime ansn db = (True, db')"
  shows "tc_inv (if vtime = 0 then insert n X else X) db' \<and> node_set n vtime db db'"
proof -
  let ?f = "\<lambda>nd. nd\<lparr>nd_validity := (if vtime = 0 then None else Some vtime)\<rparr>"
  have upd: "tc_inv (if vtime = 0 then insert n X else X) (upd_node n ?f d)" if "tc_inv (insert n X) d" for d :: "('a, 'b) tc_db"
    using that by (intro tc_inv_upd_node) (auto simp: insert_absorb2)
  have ge: "get_edge (upd_node n ?f d) k m = get_edge d k m" "get_attachment (upd_node n ?f d) k p = get_attachment d k p"
    for d :: "('a, 'b) tc_db" and k m p by (simp_all add: get_upd_node)
  show ?thesis
  proof (cases "olsrv2_tc_node_get db n")
    case None
    let ?nd = "tc_node_empty\<lparr>nd_ansn := ansn\<rparr>"
    let ?d = "db\<lparr>tc_tree := Mapping.update n ?nd (tc_tree db)\<rparr>"
    have e: "nd_edges ?nd = Mapping.empty" "nd_attached ?nd = Mapping.empty" by (simp_all add: tc_node_empty_def)
    note new = insert_node_inv [OF inv None e, unfolded insert_absorb2]
    have d: "db' = upd_node n ?f (tc_event (Node_Added n) ?d)"
      using r by (auto simp: olsrv2_tc_node_add_def None Let_def split: if_splits)
    have "tc_inv (insert n X) (tc_event (Node_Added n) ?d)" using new(1) by (simp add: tc_inv_event)
    from upd [OF this] show ?thesis
      unfolding d node_set_def by (simp add: ge get_tree get_edge_simps get_attachment_simps new(2,3) insert_node_simps delete_node_simps)
  next
    case (Some nd)
    let ?g = "\<lambda>nd. nd\<lparr>nd_ansn := ansn\<rparr>"
    have gg: "get_edge (upd_node n ?g d) k m = get_edge d k m" "get_attachment (upd_node n ?g d) k p = get_attachment d k p"
      for d :: "('a, 'b) tc_db" and k m p by (simp_all add: get_upd_node)
    show ?thesis
    proof (cases "olsrv2_tc_is_node_virtual nd")
      case True
      have d: "db' = upd_node n ?f (tc_event (Node_Added n) (upd_node n ?g db))"
        using r by (simp add: olsrv2_tc_node_add_def Some True Let_def)
      have "tc_inv (insert n X) (tc_event (Node_Added n) (upd_node n ?g db))"
        unfolding tc_inv_event using inv by (intro tc_inv_upd_node) (auto simp: insert_absorb2)
      from upd [OF this] show ?thesis
        unfolding d node_set_def by (simp add: ge gg get_tree get_edge_simps get_attachment_simps Some)
    next
      case False
      have d: "db' = upd_node n ?f db"
        using r by (simp add: olsrv2_tc_node_add_def Some False Let_def)
      from upd [OF inv] show ?thesis
        unfolding d node_set_def by (simp add: ge get_tree Some)
    qed
  qed
qed

lemma node_add_True:
  "ok \<or> olsrv2_tc_node_get db n \<noteq> None \<Longrightarrow> \<exists>db'. olsrv2_tc_node_add ok n vtime ansn db = (True, db')"
  by (cases "olsrv2_tc_node_get db n") (auto simp: olsrv2_tc_node_add_def Let_def)

text \<open>An announced edge whose inverse is in the tree of its destination.\<close>

lemma put_edge_inv:
  assumes inv: "tc_inv X db" and e: "get_edge db s d = Some e0" and e': "\<not> ed_virtual e"
    and act: "s \<in> X \<or> (\<exists>nd. olsrv2_tc_node_get db s = Some nd \<and> nd_validity nd \<noteq> None)"
  shows "tc_inv X (put_edge s d e db)"
proof -
  from get_edge_node_ex [OF e] obtain nd where nd: "olsrv2_tc_node_get db s = Some nd" by blast
  from tc_inv_edges [OF inv e] have ne: "s \<noteq> d" and i: "get_edge db d s \<noteq> None" by auto
  let ?d = "put_edge s d e db"
  have g: "get_edge ?d n m = (if n = s \<and> m = d then Some e else get_edge db n m)" for n m
    using get_put_marked [of "db" s nd d e _ n m] nd by (simp add: get_edge_simps)
  have a: "get_attachment ?d n p = get_attachment db n p" for n p by (rule get_attachment_simps)
  have "tc_edges_ok ?d"
    unfolding tc_edges_ok_def
  proof (intro allI impI)
    fix n m x assume x: "get_edge ?d n m = Some x"
    show "n \<noteq> m \<and> (\<exists>e'. get_edge ?d m n = Some e' \<and> \<not> (ed_virtual x \<and> ed_virtual e'))"
    proof (cases "n = s \<and> m = d")
      case True with x e' ne i show ?thesis unfolding g by auto
    next
      case False
      then have "get_edge db n m = Some x" using x g by auto
      from tc_inv_edges [OF inv this] e' ne show ?thesis unfolding g by auto
    qed
  qed
  moreover have "tc_attached_ok ?d"
    using inv tc_attached_ok_cong [of ?d db] by (simp add: tc_inv_def a edge_update_nodes)
  moreover have "tc_nodes_ok X ?d"
  proof (rule tc_nodes_ok_edges)
    show "tc_nodes_ok X db" using inv by (simp add: tc_inv_def)
    fix n nd' assume n: "olsrv2_tc_node_get ?d n = Some nd'" "n \<notin> X" "nd_validity nd' = None"
    have "n \<noteq> s" using n act by (auto simp: edge_update_nodes)
    then show "n \<notin> X \<and> (\<exists>nd. olsrv2_tc_node_get db n = Some nd \<and> nd_validity nd = None \<and>
        nd_direct_neighbor nd' = nd_direct_neighbor nd) \<and>
      (\<forall>p. get_attachment ?d n p = get_attachment db n p) \<and> (\<forall>m. get_edge ?d n m = get_edge db n m)"
      using n by (simp add: g a edge_update_nodes)
  qed
  moreover have "tc_finite ?d" using inv by (intro tc_finite_edge) (simp add: tc_inv_def)
  ultimately show ?thesis by (simp add: tc_inv_def)
qed

text \<open>A new pair of an announced edge and its virtual inverse.\<close>

lemma put_pair_inv:
  assumes inv: "tc_inv (insert d X) db" and ne: "s \<noteq> d"
    and nodes: "olsrv2_tc_node_get db s = Some nds" "olsrv2_tc_node_get db d = Some ndd"
    and none: "get_edge db s d = None"
    and act: "s \<in> X \<or> nd_validity nds \<noteq> None"
    and dst: "d \<notin> X \<Longrightarrow> nd_validity ndd = None \<Longrightarrow>
      (\<forall>m e. get_edge db d m = Some e \<longrightarrow> ed_virtual e) \<and> (\<forall>p. get_attachment db d p = None)"
  shows "tc_inv X (put_edge d s (new_edge True) (put_edge s d (new_edge False) db))" (is "tc_inv X ?d")
    and "get_edge (put_edge d s (new_edge True) (put_edge s d (new_edge False) db)) n m =
      (if n = s \<and> m = d then Some (new_edge False) else if n = d \<and> m = s then Some (new_edge True) else get_edge db n m)"
proof -
  have g: "get_edge ?d n m =
      (if n = s \<and> m = d then Some (new_edge False) else if n = d \<and> m = s then Some (new_edge True) else get_edge db n m)" for n m
    using nodes ne by (cases "n = s"; cases "m = d"; cases "n = d"; cases "m = s")
      (simp_all add: get_edge_simps edge_update_nodes)
  show "get_edge ?d n m =
      (if n = s \<and> m = d then Some (new_edge False) else if n = d \<and> m = s then Some (new_edge True) else get_edge db n m)" by (rule g)
  have a: "get_attachment ?d n p = get_attachment db n p" for n p by (simp add: get_attachment_simps)
  have none': "get_edge db d s = None"
    using tc_inv_edges [OF inv, of d s] none by (cases "get_edge db d s") auto
  have v: "ed_virtual (new_edge b) = b" for b by (simp add: new_edge_def)
  have "tc_edges_ok ?d"
    unfolding tc_edges_ok_def
  proof (intro allI impI)
    fix n m x assume x: "get_edge ?d n m = Some x"
    consider "n = s" "m = d" | "n = d" "m = s" | "\<not> (n = s \<and> m = d)" "\<not> (n = d \<and> m = s)" by blast
    then show "n \<noteq> m \<and> (\<exists>e'. get_edge ?d m n = Some e' \<and> \<not> (ed_virtual x \<and> ed_virtual e'))"
    proof cases
      case 1 with x ne show ?thesis unfolding g by (auto simp: v)
    next
      case 2 with x ne show ?thesis unfolding g by (auto simp: v)
    next
      case 3
      then have "get_edge db n m = Some x" using x g by auto
      from tc_inv_edges [OF inv this] 3 show ?thesis unfolding g by auto
    qed
  qed
  moreover have "tc_attached_ok ?d"
    using inv tc_attached_ok_cong [of ?d db] by (simp add: tc_inv_def a edge_update_nodes)
  moreover have "tc_nodes_ok X ?d"
    unfolding tc_nodes_ok_def
  proof (intro allI impI)
    fix n nd' assume n: "olsrv2_tc_node_get ?d n = Some nd'" "n \<notin> X" "nd_validity nd' = None"
    have ns: "n \<noteq> s" using n act nodes ne by (auto simp: edge_update_nodes)
    show "(\<forall>m e. get_edge ?d n m = Some e \<longrightarrow> ed_virtual e) \<and> (\<forall>p. get_attachment ?d n p = None) \<and>
       ((\<exists>m. get_edge ?d n m \<noteq> None) \<or> nd_direct_neighbor nd')"
    proof (cases "n = d")
      case True
      have "nd_validity ndd = None" using n(1,3) True ne nodes by (auto simp: edge_update_nodes)
      with n(2) have ok: "(\<forall>m e. get_edge db n m = Some e \<longrightarrow> ed_virtual e) \<and> (\<forall>p. get_attachment db n p = None)"
        unfolding True by (intro dst)
      have "get_edge ?d n s \<noteq> None" using True ne unfolding g by simp
      moreover have "\<forall>m e. get_edge ?d n m = Some e \<longrightarrow> ed_virtual e"
        using ok ns True unfolding g by (auto simp: v split: if_splits)
      ultimately show ?thesis using ok by (auto simp: a)
    next
      case False
      then have "olsrv2_tc_node_get db n = Some nd'" using n(1) ns by (simp add: edge_update_nodes)
      with inv n False have "(\<forall>m e. get_edge db n m = Some e \<longrightarrow> ed_virtual e) \<and> (\<forall>p. get_attachment db n p = None) \<and>
         ((\<exists>m. get_edge db n m \<noteq> None) \<or> nd_direct_neighbor nd')" unfolding tc_inv_def tc_nodes_ok_def by blast
      with ns False show ?thesis by (simp add: g a)
    qed
  qed
  moreover have "tc_finite ?d" using inv by (intro tc_finite_edge) (simp add: tc_inv_def)
  ultimately show "tc_inv X ?d" by (simp add: tc_inv_def)
qed

text \<open>\<open>olsrv2_tc_edge_add\<close>: afterwards the edge is announced and no other edge has changed; a
  failed allocation changes nothing.\<close>

definition edge_new :: "'a \<Rightarrow> 'a \<Rightarrow> ('a, 'p) tc_db \<Rightarrow> ('a, 'p) tc_db \<Rightarrow> bool" where
  "edge_new s d db db' \<longleftrightarrow>
     (\<exists>e. get_edge db' s d = Some e \<and> \<not> ed_virtual e \<and> ed_cost e = (\<lambda>_. RFC7181_METRIC_INFINITE)) \<and>
     (\<forall>e. get_edge db d s = Some e \<longrightarrow> get_edge db' d s = Some e) \<and>
     (\<forall>k m. \<not> (k = s \<and> m = d) \<longrightarrow> \<not> (k = d \<and> m = s) \<longrightarrow> get_edge db' k m = get_edge db k m) \<and>
     (\<forall>k nd. olsrv2_tc_node_get db k = Some nd \<longrightarrow> (\<exists>nd'. olsrv2_tc_node_get db' k = Some nd' \<and>
        nd_validity nd' = nd_validity nd \<and> nd_ansn nd' = nd_ansn nd \<and> nd_attached nd' = nd_attached nd))"

lemma edge_add_fails: "olsrv2_tc_edge_add o1 o2 o3 s d db = (False, db') \<Longrightarrow> db' = db"
  by (auto simp: olsrv2_tc_edge_add_def Let_def node_add_fails split: option.splits if_splits prod.splits bool.splits)

lemma edge_add_spec:
  assumes inv: "tc_inv X db" and nd: "olsrv2_tc_node_get db s = Some nds" and act: "s \<in> X \<or> nd_validity nds \<noteq> None"
    and ne: "s \<noteq> d" and r: "olsrv2_tc_edge_add o1 o2 o3 s d db = (True, db')"
  shows "tc_inv X db' \<and> edge_new s d db db'"
proof (cases "get_edge db s d")
  case (Some e)
  let ?e = "e\<lparr>ed_virtual := False, ed_cost := (\<lambda>_. RFC7181_METRIC_INFINITE)\<rparr>"
  let ?d = "put_edge s d ?e db"
  have d: "db' = tc_event (Edge_Added s d) ?d" using r by (simp add: olsrv2_tc_edge_add_def Some)
  have "tc_inv X ?d" using nd act by (intro put_edge_inv [OF inv Some]) auto
  moreover have g: "get_edge ?d n m = (if n = s \<and> m = d then Some ?e else get_edge db n m)" for n m
    using get_put_marked [of db s nds d ?e _ n m] nd by (simp add: get_edge_simps)
  moreover have "\<exists>nd'. olsrv2_tc_node_get ?d k = Some nd' \<and> nd_validity nd' = nd_validity ndk \<and>
      nd_ansn nd' = nd_ansn ndk \<and> nd_attached nd' = nd_attached ndk"
    if "olsrv2_tc_node_get db k = Some ndk" for k ndk
    using that by (cases "k = s") (simp_all add: edge_update_nodes)
  ultimately show ?thesis
    unfolding d edge_new_def tc_inv_event get_edge_simps(1) get_tree(1) g using ne by simp
next
  case None
  have dst_ok: "(\<forall>m e. get_edge db d m = Some e \<longrightarrow> ed_virtual e) \<and> (\<forall>p. get_attachment db d p = None)"
    if "d \<notin> X" "olsrv2_tc_node_get db d = Some ndd" "nd_validity ndd = None" for ndd
    using inv that unfolding tc_inv_def tc_nodes_ok_def by blast
  have "\<exists>d1. db' = tc_event (Edge_Added s d) (put_edge d s (new_edge True) (put_edge s d (new_edge False) d1)) \<and>
     (\<exists>ndd. olsrv2_tc_node_get d1 d = Some ndd \<and> (d \<notin> X \<longrightarrow> nd_validity ndd = None \<longrightarrow>
        (\<forall>m e. get_edge db d m = Some e \<longrightarrow> ed_virtual e) \<and> (\<forall>p. get_attachment db d p = None))) \<and>
     tc_inv (insert d X) d1 \<and> (\<forall>k. k \<noteq> d \<longrightarrow> olsrv2_tc_node_get d1 k = olsrv2_tc_node_get db k) \<and>
     (\<forall>k ndk. olsrv2_tc_node_get db k = Some ndk \<longrightarrow> olsrv2_tc_node_get d1 k = Some ndk) \<and>
     (\<forall>k m. get_edge d1 k m = get_edge db k m) \<and> (\<forall>k p. get_attachment d1 k p = get_attachment db k p)"
  proof (cases "olsrv2_tc_node_get db d")
    case Nd: None
    obtain b d1 where add: "olsrv2_tc_node_add o3 d 0 0 db = (b, d1)" by (cases "olsrv2_tc_node_add o3 d 0 0 db") simp
    with r None Nd have b: "b" and d: "db' = tc_event (Edge_Added s d) (put_edge d s (new_edge True) (put_edge s d (new_edge False) d1))"
      by (auto simp: olsrv2_tc_edge_add_def ne Let_def split: if_splits bool.splits)
    from node_add_spec [OF tc_inv_mono [OF inv, of "insert d X"], of o3 0 0 d1] add b
    have s: "tc_inv (insert d X) d1" "node_set d 0 db d1" by auto
    have n: "get_edge db d m = None" "get_attachment db d p = None" for m p
      using Nd by (simp_all add: get_edge_def get_attachment_def)
    from s(2) have "\<exists>ndd. olsrv2_tc_node_get d1 d = Some ndd" unfolding node_set_def by blast
    moreover have "\<forall>k. k \<noteq> d \<longrightarrow> olsrv2_tc_node_get d1 k = olsrv2_tc_node_get db k" using s(2) unfolding node_set_def by blast
    moreover have "\<forall>k ndk. olsrv2_tc_node_get db k = Some ndk \<longrightarrow> olsrv2_tc_node_get d1 k = Some ndk"
    proof (intro allI impI)
      fix k ndk assume "olsrv2_tc_node_get db k = Some ndk"
      then show "olsrv2_tc_node_get d1 k = Some ndk" using calculation(2) Nd by (cases "k = d") simp_all
    qed
    moreover have "\<forall>k m. get_edge d1 k m = get_edge db k m" "\<forall>k p. get_attachment d1 k p = get_attachment db k p"
      using s(2) unfolding node_set_def by blast+
    ultimately show ?thesis using d s(1) n by auto
  next
    case Nd: (Some ndd)
    have "db' = tc_event (Edge_Added s d) (put_edge d s (new_edge True) (put_edge s d (new_edge False) db))"
      using r None Nd by (auto simp: olsrv2_tc_edge_add_def ne Let_def split: if_splits)
    moreover have "tc_inv (insert d X) db" using inv by (rule tc_inv_mono) auto
    ultimately show ?thesis using dst_ok [OF _ Nd] Nd by (intro exI [of _ db]) simp
  qed
  then obtain d1 ndd where d: "db' = tc_event (Edge_Added s d) (put_edge d s (new_edge True) (put_edge s d (new_edge False) d1))"
    and i: "tc_inv (insert d X) d1" and nk: "\<forall>k. k \<noteq> d \<longrightarrow> olsrv2_tc_node_get d1 k = olsrv2_tc_node_get db k"
    and nn: "\<forall>k ndk. olsrv2_tc_node_get db k = Some ndk \<longrightarrow> olsrv2_tc_node_get d1 k = Some ndk"
    and ndd: "olsrv2_tc_node_get d1 d = Some ndd"
    and ok: "d \<notin> X \<longrightarrow> nd_validity ndd = None \<longrightarrow>
        (\<forall>m e. get_edge db d m = Some e \<longrightarrow> ed_virtual e) \<and> (\<forall>p. get_attachment db d p = None)"
    and g: "\<forall>k m. get_edge d1 k m = get_edge db k m" and a: "\<forall>k p. get_attachment d1 k p = get_attachment db k p"
    by (elim exE conjE) (rule that)
  have none: "get_edge d1 s d = None" using g None by simp
  have nds: "olsrv2_tc_node_get d1 s = Some nds" using nn nd by blast
  have dst: "(\<forall>m e. get_edge d1 d m = Some e \<longrightarrow> ed_virtual e) \<and> (\<forall>p. get_attachment d1 d p = None)"
    if "d \<notin> X" "nd_validity ndd = None" using ok that by (simp add: g a)
  let ?d = "put_edge d s (new_edge True) (put_edge s d (new_edge False) d1)"
  have pair: "tc_inv X ?d" using dst by (rule put_pair_inv [OF i ne nds ndd none act])
  have pair_get: "get_edge ?d n m =
      (if n = s \<and> m = d then Some (new_edge False) else if n = d \<and> m = s then Some (new_edge True) else get_edge d1 n m)" for n m
    using dst by (rule put_pair_inv [OF i ne nds ndd none act])
  have "tc_inv X db'" unfolding d tc_inv_event by (rule pair)
  moreover have "\<exists>nd'. olsrv2_tc_node_get db' k = Some nd' \<and> nd_validity nd' = nd_validity ndk \<and>
      nd_ansn nd' = nd_ansn ndk \<and> nd_attached nd' = nd_attached ndk"
    if "olsrv2_tc_node_get db k = Some ndk" for k ndk
    using that nn ne unfolding d by (cases "k = s"; cases "k = d") (simp_all add: edge_update_nodes get_tree)
  moreover have "get_edge db d s = None"
    using tc_inv_edges [OF inv, of d s] None by (cases "get_edge db d s") auto
  moreover have "get_edge db' s d = Some (new_edge False)" unfolding d get_edge_simps(1) pair_get by simp
  then have "\<exists>e. get_edge db' s d = Some e \<and> \<not> ed_virtual e \<and> ed_cost e = (\<lambda>_. RFC7181_METRIC_INFINITE)"
    by (simp add: new_edge_def)
  moreover have "\<forall>k m. \<not> (k = s \<and> m = d) \<longrightarrow> \<not> (k = d \<and> m = s) \<longrightarrow> get_edge db' k m = get_edge db k m"
  proof (intro allI impI)
    fix k m assume "\<not> (k = s \<and> m = d)" "\<not> (k = d \<and> m = s)"
    then show "get_edge db' k m = get_edge db k m"
      unfolding d get_edge_simps(1) pair_get g [rule_format] by (simp only: if_False)
  qed
  ultimately show ?thesis unfolding edge_new_def by (intro conjI) (blast | simp)+
qed

text \<open>\<open>olsrv2_tc_endpoint_add\<close>: the attachment is in the tree of the node and in that of the endpoint.\<close>

lemma endpoint_add_fails: "olsrv2_tc_endpoint_add o1 o2 n p mesh db = (False, db') \<Longrightarrow> db' = db"
  by (auto simp: olsrv2_tc_endpoint_add_def Let_def split: if_splits)


definition endpoint_link :: "'a \<Rightarrow> 'p \<Rightarrow> bool \<Rightarrow> ('a, 'p) tc_db \<Rightarrow> ('a, 'p) tc_db" where
  "endpoint_link n p mesh db =
     (let db = (if olsrv2_tc_endpoint_get db p = None
                then tc_event (Endpoint_Added p) (db\<lparr>tc_endpoint_tree := Mapping.update p
                       \<lparr>ep_type = (if mesh then OLSRV2_ADDRESS_TARGET else OLSRV2_NETWORK_TARGET),
                        ep_originator = n, ep_attached = Mapping.empty\<rparr> (tc_endpoint_tree db)\<rparr>)
                else db);
          db = upd_node n (\<lambda>nd. nd\<lparr>nd_attached := Mapping.update p
                 \<lparr>at_cost = (\<lambda>_. RFC7181_METRIC_INFINITE), at_distance = (\<lambda>_. 0), at_ansn = 0\<rparr> (nd_attached nd)\<rparr>) db
      in db\<lparr>tc_endpoint_tree := Mapping.map_entry p
           (\<lambda>ep. ep\<lparr>ep_attached := Mapping.update n () (ep_attached ep), ep_originator := n\<rparr>) (tc_endpoint_tree db)\<rparr>)"

lemma endpoint_link_nodes [tc_simps]:
  "olsrv2_tc_node_get (endpoint_link n p mesh db) k =
     (if k = n then map_option (\<lambda>nd. nd\<lparr>nd_attached := Mapping.update p
        \<lparr>at_cost = (\<lambda>_. RFC7181_METRIC_INFINITE), at_distance = (\<lambda>_. 0), at_ansn = 0\<rparr> (nd_attached nd)\<rparr>) (olsrv2_tc_node_get db k)
      else olsrv2_tc_node_get db k)"
  by (simp add: endpoint_link_def Let_def olsrv2_tc_node_get_def upd_node_def lookup_map_entry')

lemma endpoint_link_endpoints [tc_simps]:
  "olsrv2_tc_endpoint_get (endpoint_link n p mesh db) q =
     (if q = p then Some (case olsrv2_tc_endpoint_get db p of
        None \<Rightarrow> \<lparr>ep_type = (if mesh then OLSRV2_ADDRESS_TARGET else OLSRV2_NETWORK_TARGET),
                ep_originator = n, ep_attached = Mapping.update n () Mapping.empty\<rparr>
      | Some ep \<Rightarrow> ep\<lparr>ep_attached := Mapping.update n () (ep_attached ep), ep_originator := n\<rparr>)
      else olsrv2_tc_endpoint_get db q)"
  by (auto simp: endpoint_link_def Let_def olsrv2_tc_endpoint_get_def upd_node_trees lookup_map_entry' lookup_tc)

lemma endpoint_link_trees:
  "Mapping.keys (tc_tree (endpoint_link n p mesh db)) = Mapping.keys (tc_tree db)"
  "Mapping.keys (tc_endpoint_tree (endpoint_link n p mesh db)) \<subseteq> insert p (Mapping.keys (tc_endpoint_tree db))"
  by (auto simp: endpoint_link_def Let_def keys_set upd_node_trees)

lemma endpoint_link_edges: "get_edge (endpoint_link n p mesh db) k m = get_edge db k m"
  by (cases "k = n"; cases "olsrv2_tc_node_get db k") (simp_all add: get_edge_def endpoint_link_nodes)

lemma endpoint_link_attachments:
  "olsrv2_tc_node_get db n = Some nd \<Longrightarrow>
   get_attachment (endpoint_link n p mesh db) k q =
     (if k = n \<and> q = p then Some \<lparr>at_cost = (\<lambda>_. RFC7181_METRIC_INFINITE), at_distance = (\<lambda>_. 0), at_ansn = 0\<rparr>
      else get_attachment db k q)"
  by (cases "k = n"; cases "q = p") (simp_all add: get_attachment_def endpoint_link_nodes lookup_tc)

lemma endpoint_add_True:
  "olsrv2_tc_endpoint_add o1 o2 n p mesh db = (True, db') \<Longrightarrow>
   (get_attachment db n p \<noteq> None \<and> db' = db) \<or>
   (get_attachment db n p = None \<and> db' = tc_event (Attached_Added n p) (endpoint_link n p mesh db))"
  by (auto simp: olsrv2_tc_endpoint_add_def endpoint_link_def Let_def split: if_splits)

lemma endpoint_add_spec:
  assumes inv: "tc_inv X db" and nd: "olsrv2_tc_node_get db n = Some nd" and act: "n \<in> X \<or> nd_validity nd \<noteq> None"
    and r: "olsrv2_tc_endpoint_add o1 o2 n p mesh db = (True, db')"
  shows "tc_inv X db' \<and> get_attachment db' n p \<noteq> None \<and>
    (\<forall>k q. \<not> (k = n \<and> q = p) \<longrightarrow> get_attachment db' k q = get_attachment db k q) \<and>
    (\<forall>k m. get_edge db' k m = get_edge db k m)"
proof (cases "get_attachment db n p")
  case Some with endpoint_add_True [OF r] inv show ?thesis by auto
next
  case None
  let ?d = "endpoint_link n p mesh db"
  have d: "db' = tc_event (Attached_Added n p) ?d" using endpoint_add_True [OF r] None by auto
  note a = endpoint_link_attachments [OF nd, of p mesh]
  have ao: "tc_attached_ok db" and fin: "tc_finite db" and no: "tc_nodes_ok X db" using inv by (simp_all add: tc_inv_def)
  have "tc_attached_ok ?d"
    unfolding tc_attached_ok_def
  proof (intro conjI allI impI)
    fix k q
    show "get_attachment ?d k q \<noteq> None \<longleftrightarrow>
        (\<exists>ep. olsrv2_tc_endpoint_get ?d q = Some ep \<and> Mapping.lookup (ep_attached ep) k \<noteq> None)"
    proof (cases "q = p")
      case False with ao show ?thesis unfolding tc_attached_ok_def by (simp add: a endpoint_link_endpoints)
    next
      case True
      have "get_attachment db k p \<noteq> None \<longleftrightarrow>
        (\<exists>ep. olsrv2_tc_endpoint_get db p = Some ep \<and> Mapping.lookup (ep_attached ep) k \<noteq> None)"
        using ao unfolding tc_attached_ok_def by blast
      then show ?thesis unfolding True a endpoint_link_endpoints
        by (cases "olsrv2_tc_endpoint_get db p") (auto simp: lookup_tc)
    qed
  next
    fix q ep assume "olsrv2_tc_endpoint_get ?d q = Some ep"
    then show "\<exists>k. Mapping.lookup (ep_attached ep) k \<noteq> None"
      using ao unfolding tc_attached_ok_def endpoint_link_endpoints
      by (auto simp: lookup_tc intro!: exI [of _ n] split: if_splits option.splits)
  qed
  moreover have "tc_edges_ok ?d" using inv tc_edges_ok_cong [of ?d db] by (simp add: tc_inv_def endpoint_link_edges)
  moreover have "tc_nodes_ok X ?d"
    unfolding tc_nodes_ok_def endpoint_link_edges
  proof (intro allI impI)
    fix k nd' assume k: "olsrv2_tc_node_get ?d k = Some nd'" "k \<notin> X" "nd_validity nd' = None"
    have "k \<noteq> n" using k nd act by (auto simp: endpoint_link_nodes)
    with k no show "(\<forall>m e. get_edge db k m = Some e \<longrightarrow> ed_virtual e) \<and> (\<forall>p. get_attachment ?d k p = None) \<and>
        ((\<exists>m. get_edge db k m \<noteq> None) \<or> nd_direct_neighbor nd')"
      unfolding tc_nodes_ok_def by (simp add: endpoint_link_nodes a)
  qed
  moreover have "tc_finite ?d"
    using fin endpoint_link_trees [of n p mesh db] unfolding tc_finite_def
    by (auto simp: endpoint_link_nodes endpoint_link_endpoints elim: finite_subset split: if_splits option.splits)
  ultimately show ?thesis unfolding d by (simp add: tc_inv_def tc_inv_event [unfolded tc_inv_def] get_edge_simps(1)
      get_attachment_simps(1) a endpoint_link_edges)
qed

lemma endpoint_remove_spec:
  assumes inv: "tc_inv X db"
  shows "tc_inv X (olsrv2_tc_endpoint_remove n p db)"
proof -
  let ?d = "olsrv2_tc_endpoint_remove n p db"
  have "tc_finite ?d" "tc_attached_ok ?d"
    using inv by (simp_all add: tc_inv_def endpoint_remove_finite endpoint_remove_attached_ok)
  moreover have "tc_edges_ok ?d" using inv tc_edges_ok_cong [of ?d db] by (simp add: tc_inv_def endpoint_remove_edges)
  moreover have "tc_nodes_ok X ?d"
    unfolding tc_nodes_ok_def endpoint_remove_edges endpoint_remove_attachments
  proof (intro allI impI)
    fix k nd' assume k: "olsrv2_tc_node_get ?d k = Some nd'" "k \<notin> X" "nd_validity nd' = None"
    then obtain nd where "olsrv2_tc_node_get db k = Some nd" "nd_validity nd = None"
        "nd_direct_neighbor nd = nd_direct_neighbor nd'"
      by (cases "olsrv2_tc_node_get db k") (auto simp: endpoint_remove_simps split: if_splits)
    with inv k(2) show "(\<forall>m e. get_edge db k m = Some e \<longrightarrow> ed_virtual e) \<and>
        (\<forall>q. (if k = n \<and> q = p then None else get_attachment db k q) = None) \<and>
        ((\<exists>m. get_edge db k m \<noteq> None) \<or> nd_direct_neighbor nd')"
      unfolding tc_inv_def tc_nodes_ok_def by auto
  qed
  ultimately show ?thesis by (simp add: tc_inv_def)
qed

subsection \<open>Timeouts and neighbors\<close>

lemma node_remove_after:
  assumes inv: "tc_inv (insert n X) db" and n: "n \<notin> X" and nd: "olsrv2_tc_node_get db n = Some nd"
  shows "\<exists>db'. olsrv2_tc_node_remove n db = Inr db' \<and> tc_inv X db' \<and> node_gone n db db'"
  using node_remove_spec [OF inv nd] n by (simp add: insert_Diff_if)

lemma tc_node_timeout_spec:
  assumes inv: "tc_ok db" and nd: "olsrv2_tc_node_get db n = Some nd"
  shows "\<exists>db'. cb_tc_node_timeout n db = Inr db' \<and> tc_ok db' \<and>
    node_gone n (upd_node n (\<lambda>nd. nd\<lparr>nd_validity := None\<rparr>) db) db'"
proof -
  let ?d = "upd_node n (\<lambda>nd. nd\<lparr>nd_validity := None\<rparr>) db"
  have "tc_inv {n} ?d" using inv by (intro tc_inv_upd_node tc_inv_mono [OF inv]) auto
  moreover have "olsrv2_tc_node_get ?d n = Some (nd\<lparr>nd_validity := None\<rparr>)" using nd by (simp add: get_tree)
  ultimately obtain db' where "olsrv2_tc_node_remove n ?d = Inr db'" "tc_ok db'" "node_gone n ?d db'"
    using node_remove_after [of n "{}" ?d] by auto
  moreover have "tc_ok (db'\<lparr>tc_triggered := True\<rparr>) = tc_ok db'" "node_gone n ?d (db'\<lparr>tc_triggered := True\<rparr>) = node_gone n ?d db'"
    by (simp_all add: tc_inv_def tc_finite_def tc_edges_ok_def tc_attached_ok_def tc_nodes_ok_def node_gone_def
        olsrv2_tc_node_get_def olsrv2_tc_endpoint_get_def get_edge_def get_attachment_def)
  ultimately show ?thesis by (auto simp: cb_tc_node_timeout_def)
qed

lemma neighbor_remove_spec:
  assumes inv: "tc_ok db"
  shows "\<exists>db'. cb_neighbor_remove originator db = Inr db' \<and> tc_ok db'"
proof (cases originator)
  case None with inv show ?thesis by (simp add: cb_neighbor_remove_def)
next
  case (Some n)
  show ?thesis
  proof (cases "olsrv2_tc_node_get db n")
    case None with Some inv show ?thesis by (simp add: cb_neighbor_remove_def)
  next
    case nd: (Some nd)
    let ?d = "upd_node n (\<lambda>nd. nd\<lparr>nd_direct_neighbor := False\<rparr>) db"
    show ?thesis
    proof (cases "olsrv2_tc_is_node_virtual nd")
      case True
      have "tc_inv {n} ?d" using inv by (intro tc_inv_upd_node tc_inv_mono [OF inv]) auto
      moreover have "olsrv2_tc_node_get ?d n = Some (nd\<lparr>nd_direct_neighbor := False\<rparr>)" using nd by (simp add: get_tree)
      ultimately obtain db' where "olsrv2_tc_node_remove n ?d = Inr db'" "tc_ok db'"
        using node_remove_after [of n "{}" ?d] by auto
      then show ?thesis using Some nd True by (simp add: cb_neighbor_remove_def Let_def)
    next
      case False
      then have "tc_ok ?d"
        using nd by (intro tc_inv_upd_active inv) (auto simp: olsrv2_tc_is_node_virtual_def)
      then show ?thesis using Some nd False by (simp add: cb_neighbor_remove_def Let_def)
    qed
  qed
qed

lemma upd_direct_inv:
  assumes inv: "tc_inv {n} db"
    and ok: "\<And>nd. olsrv2_tc_node_get db n = Some nd \<Longrightarrow> nd_validity nd = None \<Longrightarrow>
      (\<forall>m e. get_edge db n m = Some e \<longrightarrow> ed_virtual e) \<and> (\<forall>p. get_attachment db n p = None)"
  shows "tc_ok (upd_node n (\<lambda>nd. nd\<lparr>nd_direct_neighbor := True\<rparr>) db)" (is "tc_ok ?d")
proof -
  have i: "tc_inv {n} ?d" using inv by (intro tc_inv_upd_node) auto
  have g: "get_edge ?d k m = get_edge db k m" "get_attachment ?d k p = get_attachment db k p" for k m p
    by (simp_all add: get_upd_node)
  have "tc_nodes_ok {} ?d"
    unfolding tc_nodes_ok_def g
  proof (intro allI impI)
    fix k nd assume k: "olsrv2_tc_node_get ?d k = Some nd" "nd_validity nd = None"
    show "(\<forall>m e. get_edge db k m = Some e \<longrightarrow> ed_virtual e) \<and> (\<forall>p. get_attachment db k p = None) \<and>
        ((\<exists>m. get_edge db k m \<noteq> None) \<or> nd_direct_neighbor nd)"
    proof (cases "k = n")
      case True
      with k obtain nd' where nd': "olsrv2_tc_node_get db n = Some nd'" "nd_validity nd' = None" "nd_direct_neighbor nd"
        by (auto simp: get_tree)
      from ok [OF nd'(1,2)] nd'(3) True show ?thesis by simp
    next
      case False
      with k i show ?thesis unfolding tc_inv_def tc_nodes_ok_def g by blast
    qed
  qed
  with i show ?thesis by (simp add: tc_inv_def)
qed

lemma neighbor_change_spec:
  assumes inv: "tc_ok db"
  shows "\<exists>db'. cb_neighbor_change ok originator old db = Inr db' \<and> tc_ok db'"
proof -
  from neighbor_remove_spec [OF inv] obtain d1 where d1: "cb_neighbor_remove originator db = Inr d1" "tc_ok d1" by blast
  show ?thesis
  proof (cases "originator = old \<or> originator = None")
    case True with d1 inv show ?thesis by (auto simp: cb_neighbor_change_def)
  next
    case False
    then obtain n where n: "originator = Some n" "originator \<noteq> old" by auto
    let ?f = "upd_node n (\<lambda>nd. nd\<lparr>nd_direct_neighbor := True\<rparr>)"
    show ?thesis
    proof (cases "olsrv2_tc_node_get d1 n")
      case (Some nd)
      have "(\<forall>m e. get_edge d1 n m = Some e \<longrightarrow> ed_virtual e) \<and> (\<forall>p. get_attachment d1 n p = None)" if "nd_validity nd = None"
        using d1(2) Some that unfolding tc_inv_def tc_nodes_ok_def by blast
      then have "tc_ok (?f d1)" using Some by (intro upd_direct_inv tc_inv_mono [OF d1(2)]) auto
      then show ?thesis using n d1(1) Some by (simp add: cb_neighbor_change_def)
    next
      case None
      obtain b d2 where a: "olsrv2_tc_node_add ok n 0 0 d1 = (b, d2)" by (cases "olsrv2_tc_node_add ok n 0 0 d1") simp
      have r: "cb_neighbor_change ok originator old db = Inr (if b then ?f d2 else d2)"
        using n d1(1) None a by (simp add: cb_neighbor_change_def split: bool.splits)
      show ?thesis
      proof (cases b)
        case False with a d1(2) node_add_fails [of ok n 0 0 d1 d2] show ?thesis unfolding r by auto
      next
        case True
        from node_add_spec [of n "{}" d1 ok 0 0 d2] a True tc_inv_mono [OF d1(2), of "{n}"]
        have s: "tc_inv {n} d2" "node_set n 0 d1 d2" by auto
        have "get_edge d1 n m = None" "get_attachment d1 n p = None" for m p
          using None by (simp_all add: get_edge_def get_attachment_def)
        with s(2) have "get_edge d2 n m = None" "get_attachment d2 n p = None" for m p
          unfolding node_set_def by simp_all
        then have "tc_ok (?f d2)" by (intro upd_direct_inv s(1)) simp
        with True show ?thesis unfolding r by simp
      qed
    qed
  qed
qed


subsection \<open>Reachable databases\<close>

text \<open>
  The operations the other parts of the daemon call. \<open>tc_op_ok\<close> says when: nodes, edges and attachments are given by
  pointers, so they are in the trees; edges and attachments are added to the active node of a TC message; the destination is
  another node; the validity time is not 0. \<open>Set_Node\<close> stands for the assignments of the reader to the
  fields of a node that the database itself does not read.
\<close>

datatype ('a, 'p) tc_op =
  Add_Node bool 'a u64 u16 | Remove_Node 'a
| Add_Edge bool bool bool 'a 'a | Remove_Edge 'a 'a
| Add_Endpoint bool bool 'a 'p bool | Remove_Endpoint 'a 'p
| Trigger_Change 'a | Node_Timeout 'a
| Neighbor_Remove "'a option" | Neighbor_Change bool "'a option" "'a option"
| Set_Node 'a u16 u64 bool "nat \<Rightarrow> bool"

fun tc_apply :: "('a::linorder, 'p::linorder) tc_op \<Rightarrow> ('a, 'p) tc_db \<Rightarrow> fault + ('a, 'p) tc_db" where
  "tc_apply (Add_Node ok n vtime ansn) db = Inr (snd (olsrv2_tc_node_add ok n vtime ansn db))"
| "tc_apply (Remove_Node n) db = olsrv2_tc_node_remove n db"
| "tc_apply (Add_Edge o1 o2 o3 s d) db = Inr (snd (olsrv2_tc_edge_add o1 o2 o3 s d db))"
| "tc_apply (Remove_Edge s d) db = bind_f (olsrv2_tc_edge_remove s d db) (\<lambda>(b, db). Inr db)"
| "tc_apply (Add_Endpoint o1 o2 n p mesh) db = Inr (snd (olsrv2_tc_endpoint_add o1 o2 n p mesh db))"
| "tc_apply (Remove_Endpoint n p) db = Inr (olsrv2_tc_endpoint_remove n p db)"
| "tc_apply (Trigger_Change n) db = Inr (olsrv2_tc_trigger_change n db)"
| "tc_apply (Node_Timeout n) db = cb_tc_node_timeout n db"
| "tc_apply (Neighbor_Remove originator) db = cb_neighbor_remove originator db"
| "tc_apply (Neighbor_Change ok originator old) db = cb_neighbor_change ok originator old db"
| "tc_apply (Set_Node n ansn itime ss nets) db = Inr (upd_node n (\<lambda>nd. nd\<lparr>nd_ansn := ansn, nd_interval_time := itime,
     nd_source_specific := ss, nd_ss_attached_networks := nets\<rparr>) db)"

definition tc_active :: "('a, 'p) tc_db \<Rightarrow> 'a \<Rightarrow> bool" where
  "tc_active db n \<longleftrightarrow> (case olsrv2_tc_node_get db n of None \<Rightarrow> False | Some nd \<Rightarrow> \<not> olsrv2_tc_is_node_virtual nd)"

fun tc_op_ok :: "('a, 'p) tc_op \<Rightarrow> ('a, 'p) tc_db \<Rightarrow> bool" where
  "tc_op_ok (Add_Node ok n vtime ansn) db = (vtime \<noteq> 0)"
| "tc_op_ok (Remove_Node n) db = (olsrv2_tc_node_get db n \<noteq> None)"
| "tc_op_ok (Add_Edge o1 o2 o3 s d) db = (tc_active db s \<and> s \<noteq> d)"
| "tc_op_ok (Remove_Edge s d) db = (get_edge db s d \<noteq> None)"
| "tc_op_ok (Add_Endpoint o1 o2 n p mesh) db = tc_active db n"
| "tc_op_ok (Remove_Endpoint n p) db = (get_attachment db n p \<noteq> None)"
| "tc_op_ok (Node_Timeout n) db = tc_active db n"
| "tc_op_ok _ db = True"

inductive tc_reachable :: "('a::linorder, 'p::linorder) tc_db \<Rightarrow> bool" where
  init: "tc_reachable olsrv2_tc_init"
| step: "tc_reachable db \<Longrightarrow> tc_op_ok op db \<Longrightarrow> tc_apply op db = Inr db' \<Longrightarrow> tc_reachable db'"

lemma tc_activeE: "tc_active db n \<Longrightarrow> (\<And>nd. olsrv2_tc_node_get db n = Some nd \<Longrightarrow> nd_validity nd \<noteq> None \<Longrightarrow> thesis) \<Longrightarrow> thesis"
  by (auto simp: tc_active_def olsrv2_tc_is_node_virtual_def split: option.splits)

lemma tc_inv_set_node:
  assumes "tc_inv X db" "\<And>nd. nd_edges (f nd) = nd_edges nd" "\<And>nd. nd_attached (f nd) = nd_attached nd"
    "\<And>nd. nd_validity (f nd) = nd_validity nd" "\<And>nd. nd_direct_neighbor (f nd) = nd_direct_neighbor nd"
  shows "tc_inv X (upd_node n f db)"
proof -
  have g: "get_edge (upd_node n f db) k m = get_edge db k m" for k m using assms(2) by (rule get_upd_node)
  have a: "get_attachment (upd_node n f db) k p = get_attachment db k p" for k p using assms(3) by (rule get_upd_node)
  have i: "tc_inv (insert n X) (upd_node n f db)"
    using assms(2,3) by (intro tc_inv_upd_node tc_inv_mono [OF assms(1)]) auto
  have "tc_nodes_ok X (upd_node n f db)"
  proof (rule tc_nodes_ok_edges)
    show "tc_nodes_ok X db" using assms(1) by (simp add: tc_inv_def)
    fix k nd assume k: "olsrv2_tc_node_get (upd_node n f db) k = Some nd" "k \<notin> X" "nd_validity nd = None"
    then show "k \<notin> X \<and> (\<exists>nd'. olsrv2_tc_node_get db k = Some nd' \<and> nd_validity nd' = None \<and>
        nd_direct_neighbor nd = nd_direct_neighbor nd') \<and>
      (\<forall>p. get_attachment (upd_node n f db) k p = get_attachment db k p) \<and>
      (\<forall>m. get_edge (upd_node n f db) k m = get_edge db k m)"
      using assms(4,5) by (auto simp: g a get_tree split: if_splits)
  qed
  with i show ?thesis by (simp add: tc_inv_def)
qed

text \<open>An update of the values of edges and attachments: the invariant depends on \<open>virtual\<close> and the keys only.\<close>

lemma tc_inv_set_values:
  assumes inv: "tc_inv X db"
    and e: "\<And>nd m. map_option ed_virtual (Mapping.lookup (nd_edges (f nd)) m) = map_option ed_virtual (Mapping.lookup (nd_edges nd) m)"
    and a: "\<And>nd p. Mapping.lookup (nd_attached (f nd)) p = None \<longleftrightarrow> Mapping.lookup (nd_attached nd) p = None"
    and v: "\<And>nd. nd_validity (f nd) = nd_validity nd" "\<And>nd. nd_direct_neighbor (f nd) = nd_direct_neighbor nd"
  shows "tc_inv X (upd_node n f db)"
proof -
  let ?d = "upd_node n f db"
  have ge: "map_option ed_virtual (get_edge ?d k m) = map_option ed_virtual (get_edge db k m)" for k m
    by (cases "k = n"; cases "olsrv2_tc_node_get db k") (simp_all add: get_edge_def get_tree e)
  have ga: "get_attachment ?d k p = None \<longleftrightarrow> get_attachment db k p = None" for k p
    by (cases "k = n"; cases "olsrv2_tc_node_get db k") (simp_all add: get_attachment_def get_tree a)
  have en: "get_edge ?d k m = None \<longleftrightarrow> get_edge db k m = None" for k m
    using ge [of k m] by (cases "get_edge ?d k m"; cases "get_edge db k m") simp_all
  have ev: "\<exists>y. get_edge db k m = Some y \<and> ed_virtual y = ed_virtual x" if "get_edge ?d k m = Some x" for k m x
    using ge [of k m] that by (cases "get_edge db k m") simp_all
  have ev': "\<exists>y. get_edge ?d k m = Some y \<and> ed_virtual y = ed_virtual x" if "get_edge db k m = Some x" for k m x
    using ge [of k m] that by (cases "get_edge ?d k m") simp_all
  have "tc_edges_ok ?d"
    unfolding tc_edges_ok_def
  proof (intro allI impI)
    fix k m x assume "get_edge ?d k m = Some x"
    from ev [OF this] obtain y where y: "get_edge db k m = Some y" "ed_virtual y = ed_virtual x" by blast
    from tc_inv_edges [OF inv y(1)] obtain z where z: "k \<noteq> m" "get_edge db m k = Some z" "\<not> (ed_virtual y \<and> ed_virtual z)" by blast
    from ev' [OF z(2)] z y show "k \<noteq> m \<and> (\<exists>e'. get_edge ?d m k = Some e' \<and> \<not> (ed_virtual x \<and> ed_virtual e'))" by auto
  qed
  moreover have "tc_attached_ok ?d"
  proof -
    have "tc_attached_ok ?d = tc_attached_ok db" by (simp only: tc_attached_ok_def ga get_tree)
    then show ?thesis using inv by (simp add: tc_inv_def)
  qed
  moreover have "tc_nodes_ok X ?d"
    unfolding tc_nodes_ok_def
  proof (intro allI impI)
    fix k nd' assume k: "olsrv2_tc_node_get ?d k = Some nd'" "k \<notin> X" "nd_validity nd' = None"
    then obtain nd where "olsrv2_tc_node_get db k = Some nd" "nd_validity nd = None" "nd_direct_neighbor nd = nd_direct_neighbor nd'"
      using v by (cases "olsrv2_tc_node_get db k") (auto simp: get_tree split: if_splits)
    then have ok: "(\<forall>m e. get_edge db k m = Some e \<longrightarrow> ed_virtual e) \<and> (\<forall>p. get_attachment db k p = None) \<and>
        ((\<exists>m. get_edge db k m \<noteq> None) \<or> nd_direct_neighbor nd')"
      using inv k(2) unfolding tc_inv_def tc_nodes_ok_def by metis
    show "(\<forall>m e. get_edge ?d k m = Some e \<longrightarrow> ed_virtual e) \<and> (\<forall>p. get_attachment ?d k p = None) \<and>
        ((\<exists>m. get_edge ?d k m \<noteq> None) \<or> nd_direct_neighbor nd')"
      using ok ev unfolding ga en by blast
  qed
  moreover have "tc_finite ?d"
  proof (rule tc_finite_upd_node)
    show "tc_finite db" using inv by (simp add: tc_inv_def)
    have "Mapping.keys (nd_edges (f nd)) = Mapping.keys (nd_edges nd)" for nd
    proof (rule set_eqI)
      fix m show "m \<in> Mapping.keys (nd_edges (f nd)) \<longleftrightarrow> m \<in> Mapping.keys (nd_edges nd)"
        using e [of nd m] unfolding keys_lookup
        by (cases "Mapping.lookup (nd_edges (f nd)) m"; cases "Mapping.lookup (nd_edges nd) m") simp_all
    qed
    then show "finite (Mapping.keys (nd_edges nd)) \<Longrightarrow> finite (Mapping.keys (nd_edges (f nd)))" for nd by simp
    have "Mapping.keys (nd_attached (f nd)) = Mapping.keys (nd_attached nd)" for nd by (rule set_eqI) (simp only: keys_lookup a)
    then show "finite (Mapping.keys (nd_attached nd)) \<Longrightarrow> finite (Mapping.keys (nd_attached (f nd)))" for nd by simp
  qed
  ultimately show ?thesis by (simp add: tc_inv_def)
qed

lemma tc_apply_ok:
  assumes inv: "tc_ok db" and ok: "tc_op_ok op db"
  shows "\<exists>db'. tc_apply op db = Inr db' \<and> tc_ok db'"
proof (cases op)
  case (Add_Node b n vtime ansn)
  obtain r db' where a: "olsrv2_tc_node_add b n vtime ansn db = (r, db')" by (cases "olsrv2_tc_node_add b n vtime ansn db") simp
  have "tc_ok db'"
  proof (cases r)
    case True
    with node_add_spec [OF tc_inv_mono [OF inv], of n "{}" b vtime ansn db'] a ok Add_Node show ?thesis by simp
  next
    case False with a node_add_fails [of b n vtime ansn db db'] inv show ?thesis by auto
  qed
  with a Add_Node show ?thesis by simp
next
  case (Remove_Node n)
  with ok obtain nd where "olsrv2_tc_node_get db n = Some nd" by auto
  from node_remove_spec [OF inv this] Remove_Node show ?thesis by auto
next
  case (Add_Edge o1 o2 o3 s d)
  obtain r db' where a: "olsrv2_tc_edge_add o1 o2 o3 s d db = (r, db')" by (cases "olsrv2_tc_edge_add o1 o2 o3 s d db") simp
  from ok Add_Edge have ne: "s \<noteq> d" and "tc_active db s" by simp_all
  from this(2) obtain nd where nd: "olsrv2_tc_node_get db s = Some nd" "nd_validity nd \<noteq> None" by (rule tc_activeE)
  have "tc_ok db'"
  proof (cases r)
    case True
    with edge_add_spec [OF inv nd(1) disjI2 [OF nd(2)] ne, of o1 o2 o3 db'] a show ?thesis by simp
  next
    case False with a edge_add_fails [of o1 o2 o3 s d db db'] inv show ?thesis by auto
  qed
  with a Add_Edge show ?thesis by simp
next
  case (Remove_Edge s d)
  with ok obtain e where "get_edge db s d = Some e" by auto
  from edges_removed.er [OF inv this] Remove_Edge show ?thesis by auto
next
  case (Add_Endpoint o1 o2 n p mesh)
  obtain r db' where a: "olsrv2_tc_endpoint_add o1 o2 n p mesh db = (r, db')"
    by (cases "olsrv2_tc_endpoint_add o1 o2 n p mesh db") simp
  from ok Add_Endpoint have "tc_active db n" by simp
  then obtain nd where nd: "olsrv2_tc_node_get db n = Some nd" "nd_validity nd \<noteq> None" by (rule tc_activeE)
  have "tc_ok db'"
  proof (cases r)
    case True
    with endpoint_add_spec [OF inv nd(1) disjI2 [OF nd(2)], of o1 o2 p mesh db'] a show ?thesis by simp
  next
    case False with a endpoint_add_fails [of o1 o2 n p mesh db db'] inv show ?thesis by auto
  qed
  with a Add_Endpoint show ?thesis by simp
next
  case (Node_Timeout n)
  with ok have "tc_active db n" by simp
  then obtain nd where "olsrv2_tc_node_get db n = Some nd" by (rule tc_activeE)
  from tc_node_timeout_spec [OF inv this] Node_Timeout show ?thesis by auto
next
  case (Set_Node n ansn itime ss nets)
  have "tc_ok (upd_node n (\<lambda>nd. nd\<lparr>nd_ansn := ansn, nd_interval_time := itime, nd_source_specific := ss,
      nd_ss_attached_networks := nets\<rparr>) db)"
    by (rule tc_inv_set_node [OF inv]) simp_all
  with Set_Node show ?thesis by simp
qed (use inv endpoint_remove_spec neighbor_remove_spec neighbor_change_spec in
    \<open>simp_all add: olsrv2_tc_trigger_change_def tc_inv_event\<close>)

text \<open>
  C28: The topology database is memory safe: in every state reached from the empty database by
  operations with valid arguments no further one dereferences a null pointer or
  works on a removed object, and the state satisfies the invariant of the database: edges come in pairs of inverse edges of which
  at least one was announced, attachments and endpoints agree, and virtual nodes are kept only while they are needed.
\<close>

theorem tc_reachable_safe:
  "tc_reachable db \<Longrightarrow> tc_ok db \<and> (\<forall>op. tc_op_ok op db \<longrightarrow> (\<exists>db'. tc_apply op db = Inr db'))"
proof (induction rule: tc_reachable.induct)
  case init
  have "tc_ok (olsrv2_tc_init :: ('a, 'b) tc_db)" by (rule tc_ok_init)
  with tc_apply_ok show ?case by blast
next
  case (step db op db')
  then have "tc_ok db" by blast
  from tc_apply_ok [OF this step.hyps(2)] step.hyps(3) have "tc_ok db'" by auto
  with tc_apply_ok show ?case by blast
qed

lemma tc_reachable_step:
  "tc_reachable db \<Longrightarrow> tc_op_ok op db \<Longrightarrow> tc_apply op db = Inr db' \<Longrightarrow> tc_reachable db'"
  by (rule tc_reachable.step)

lemma tc_reachable_ok: "tc_reachable db \<Longrightarrow> tc_ok db"
proof (induction rule: tc_reachable.induct)
  case init then show ?case by (rule tc_ok_init)
next
  case (step db op db')
  from tc_apply_ok [OF step.IH step.hyps(2)] step.hyps(3) show ?case by auto
qed

text \<open>A small network: node 1 announces node 2.\<close>

definition demo_1 :: "(nat, nat) tc_db" where
  "demo_1 = snd (olsrv2_tc_node_add True 1 100 7 olsrv2_tc_init)"

definition demo_2 :: "(nat, nat) tc_db" where
  "demo_2 = snd (olsrv2_tc_edge_add True True True 1 2 demo_1)"

lemma demo_1_node: "\<exists>nd. olsrv2_tc_node_get demo_1 1 = Some nd \<and> nd_validity nd = Some 100"
  by (simp add: demo_1_def olsrv2_tc_node_add_def olsrv2_tc_init_def olsrv2_tc_node_get_def tc_event_def upd_node_def
      tc_node_empty_def tc_simps Let_def)

lemma demo_1_edge: "get_edge demo_1 1 2 = None"
  by (simp add: demo_1_def olsrv2_tc_node_add_def olsrv2_tc_init_def olsrv2_tc_node_get_def tc_event_def upd_node_def
      tc_node_empty_def get_edge_def tc_simps Let_def)

lemma demo_reachable: "tc_reachable demo_1" "tc_reachable demo_2"
proof -
  show r: "tc_reachable demo_1"
    unfolding demo_1_def by (rule tc_reachable.step [OF tc_reachable.init, of "Add_Node True 1 100 7"]) simp_all
  have "tc_active demo_1 1"
    using demo_1_node by (auto simp: tc_active_def olsrv2_tc_is_node_virtual_def)
  then show "tc_reachable demo_2"
    unfolding demo_2_def by (intro tc_reachable.step [OF r, of "Add_Edge True True True 1 2"]) simp_all
qed

lemma demo_2_edges: "edge_new 1 2 demo_1 demo_2"
proof -
  from demo_1_node obtain nd where nd: "olsrv2_tc_node_get demo_1 1 = Some nd" "nd_validity nd = Some 100" by blast
  obtain b where r: "olsrv2_tc_edge_add True True True 1 2 demo_1 = (b, demo_2)"
    unfolding demo_2_def by (cases "olsrv2_tc_edge_add True True True 1 2 demo_1") simp
  obtain d1 where "olsrv2_tc_node_add True 2 0 0 demo_1 = (True, d1)" using node_add_True [of True demo_1 2 0 0] by blast
  then have "fst (olsrv2_tc_edge_add True True True 1 2 demo_1)"
    by (simp add: olsrv2_tc_edge_add_def demo_1_edge Let_def split: option.splits)
  with r have "b" by simp
  with r edge_add_spec [OF tc_reachable_ok [OF demo_reachable(1)] nd(1), of 2 True True True demo_2] nd(2)
  show ?thesis by simp
qed

lemma demo_2_active: "tc_active demo_2 1"
proof -
  from demo_1_node obtain nd where "olsrv2_tc_node_get demo_1 1 = Some nd" "nd_validity nd = Some 100" by blast
  with demo_2_edges show ?thesis
    unfolding edge_new_def by (fastforce simp: tc_active_def olsrv2_tc_is_node_virtual_def)
qed

text \<open>A network with an announced edge is reachable, and the theorem applies to it.\<close>

lemma tc_reachable_safe_witness:
  "tc_reachable demo_2 \<and> get_edge demo_2 1 2 \<noteq> None \<and> (\<exists>db'. tc_apply (Node_Timeout 1) demo_2 = Inr db')"
  using tc_reachable_safe [OF demo_reachable(2)] demo_2_edges demo_2_active demo_reachable(2)
  unfolding edge_new_def by (metis option.distinct(1) tc_op_ok.simps(7))

text \<open>
  C29: When the validity time of a node ends, \<open>cb_tc_node_timeout\<close> removes what the node announced: every edge that is left in
  its tree is virtual, and its attachments are gone. The edges other nodes announce to it stay as they are, as do all edges between other
  nodes. The node itself is kept, as a virtual node, if and only if another node announces an edge to it or it is a direct neighbor.
\<close>

theorem node_timeout_keeps_announced:
  assumes "tc_reachable db" and n: "olsrv2_tc_node_get db n = Some nd"
  shows "\<exists>db'. cb_tc_node_timeout n db = Inr db' \<and>
    (\<forall>m e. get_edge db' n m = Some e \<longrightarrow> ed_virtual e) \<and> (\<forall>p. get_attachment db' n p = None) \<and>
    (\<forall>m e. get_edge db m n = Some e \<longrightarrow> \<not> ed_virtual e \<longrightarrow> get_edge db' m n = Some e) \<and>
    (\<forall>k m. k \<noteq> n \<longrightarrow> m \<noteq> n \<longrightarrow> get_edge db' k m = get_edge db k m) \<and>
    (olsrv2_tc_node_get db' n \<noteq> None \<longleftrightarrow>
       nd_direct_neighbor nd \<or> (\<exists>m e. get_edge db m n = Some e \<and> \<not> ed_virtual e)) \<and>
    (\<forall>nd'. olsrv2_tc_node_get db' n = Some nd' \<longrightarrow> olsrv2_tc_is_node_virtual nd')"
proof -
  let ?d = "upd_node n (\<lambda>nd. nd\<lparr>nd_validity := None\<rparr>) db"
  from tc_node_timeout_spec [OF tc_reachable_ok [OF assms(1)] n]
  obtain db' where r: "cb_tc_node_timeout n db = Inr db'" and ok: "tc_ok db'" and g: "node_gone n ?d db'" by blast
  have e: "get_edge ?d k m = get_edge db k m" for k m by (simp add: get_upd_node)
  have nd: "olsrv2_tc_node_get ?d n = Some (nd\<lparr>nd_validity := None\<rparr>)" using n by (simp add: get_tree)
  note g' = g [unfolded node_gone_def e nd]
  have att: "get_attachment db' n p = None" for p
  proof (cases "olsrv2_tc_node_get db' n")
    case None then show ?thesis by (simp add: get_attachment_def)
  next
    case (Some nd')
    with g' have "nd_validity nd' = None" by blast
    with ok Some show ?thesis unfolding tc_inv_def tc_nodes_ok_def by blast
  qed
  have kept: "olsrv2_tc_node_get db' n \<noteq> None \<longleftrightarrow> nd_direct_neighbor nd \<or> (\<exists>m e. get_edge db m n = Some e \<and> \<not> ed_virtual e)"
    using g' by (elim conjE) simp
  have virt: "\<forall>nd'. olsrv2_tc_node_get db' n = Some nd' \<longrightarrow> olsrv2_tc_is_node_virtual nd'"
    using g' by (auto simp: olsrv2_tc_is_node_virtual_def)
  have "\<forall>m e. get_edge db' n m = Some e \<longrightarrow> ed_virtual e" using g' by (elim conjE)
  moreover have "\<forall>m e. get_edge db m n = Some e \<longrightarrow> \<not> ed_virtual e \<longrightarrow> get_edge db' m n = Some e"
    using g' by (elim conjE)
  moreover have "\<forall>k m. k \<noteq> n \<longrightarrow> m \<noteq> n \<longrightarrow> get_edge db' k m = get_edge db k m" using g' by (elim conjE)
  moreover have "\<forall>p. get_attachment db' n p = None" using att by simp
  ultimately show ?thesis using r kept virt by (intro exI [of _ db'] conjI)
qed

lemma node_timeout_keeps_announced_witness:
  "\<exists>db'. cb_tc_node_timeout 1 demo_2 = Inr db' \<and> (\<forall>e. get_edge db' 1 2 = Some e \<longrightarrow> ed_virtual e)"
proof -
  from demo_2_active obtain nd where "olsrv2_tc_node_get demo_2 1 = Some nd" by (rule tc_activeE)
  from node_timeout_keeps_announced [OF demo_reachable(2) this]
  obtain db' where "cb_tc_node_timeout 1 demo_2 = Inr db'" "\<forall>m e. get_edge db' 1 m = Some e \<longrightarrow> ed_virtual e"
    by (elim exE conjE) (rule that)
  then show ?thesis by blast
qed

text \<open>
  C30: \<open>olsrv2_tc_edge_add\<close> does not refuse an edge from a node to itself, which a TC message that lists its own originator
  leads to. The inverse of such an edge is not inserted into the tree, because its key is there already, and the removal of the edge
  takes the inverse out of a tree it was never linked into: it dereferences null pointers.
\<close>

theorem self_edge_removal_faults:
  assumes "tc_active db n" "get_edge db n n = None"
  shows "\<exists>db'. olsrv2_tc_edge_add True True True n n db = (True, db') \<and> olsrv2_tc_edge_remove n n db' = Inl Null_Deref"
proof -
  from assms(1) obtain nd where nd: "olsrv2_tc_node_get db n = Some nd" by (rule tc_activeE)
  let ?d = "tc_event (Edge_Added n n) (put_edge n n (new_edge False) db)"
  have "olsrv2_tc_edge_add True True True n n db = (True, ?d)"
    using assms(2) nd by (simp add: olsrv2_tc_edge_add_def Let_def)
  moreover have "olsrv2_tc_edge_remove n n ?d = Inl Null_Deref"
    by (simp add: olsrv2_tc_edge_remove_def remove_edge_def remove_edge_with_def inverse_virtual_def get_edge_simps nd new_edge_def Let_def)
  ultimately show ?thesis by blast
qed

lemma self_edge_removal_faults_witness:
  "\<exists>db'. olsrv2_tc_edge_add True True True 1 1 demo_1 = (True, db') \<and> olsrv2_tc_edge_remove 1 1 db' = Inl Null_Deref"
proof (rule self_edge_removal_faults)
  show "tc_active demo_1 1" using demo_1_node by (auto simp: tc_active_def olsrv2_tc_is_node_virtual_def)
  show "get_edge demo_1 1 1 = None"
    using tc_inv_edges [OF tc_reachable_ok [OF demo_reachable(1)], of 1 1] by (cases "get_edge demo_1 1 1") auto
qed

text \<open>
  When the originator of a neighbor changes, \<open>cb_neighbor_change\<close> looks for the node of the new originator to remove it,
  not for that of the old one. The node of the old originator stays a direct neighbor, so it is never removed, and the new one is marked too.
\<close>

theorem neighbor_change_keeps_old_originator:
  assumes old: "olsrv2_tc_node_get db old = Some nd" "nd_direct_neighbor nd"
    and new: "olsrv2_tc_node_get db n = None"
  shows "\<exists>db' nd'. cb_neighbor_change True (Some n) (Some old) db = Inr db' \<and>
    olsrv2_tc_node_get db' old = Some nd \<and> olsrv2_tc_node_get db' n = Some nd' \<and>
    nd_direct_neighbor nd \<and> nd_direct_neighbor nd'"
proof -
  have ne: "n \<noteq> old" using old new by auto
  let ?add = "db\<lparr>tc_tree := Mapping.update n (tc_node_empty\<lparr>nd_ansn := 0\<rparr>) (tc_tree db)\<rparr>"
  let ?d = "upd_node n (\<lambda>nd. nd\<lparr>nd_direct_neighbor := True\<rparr>) (upd_node n (\<lambda>nd. nd\<lparr>nd_validity := None\<rparr>) (tc_event (Node_Added n) ?add))"
  have "cb_neighbor_change True (Some n) (Some old) db = Inr ?d"
    using ne new by (simp add: cb_neighbor_change_def cb_neighbor_remove_def olsrv2_tc_node_add_def Let_def)
  then show ?thesis using ne old by (simp add: get_tree insert_node_simps)
qed

lemma node_get_init: "olsrv2_tc_node_get olsrv2_tc_init k = None"
  by (simp add: olsrv2_tc_init_def olsrv2_tc_node_get_def)

lemma neighbor_change_keeps_old_originator_witness:
  "\<exists>d1 d2 nd. cb_neighbor_change True (Some (1::nat)) None (olsrv2_tc_init :: (nat, nat) tc_db) = Inr d1 \<and>
     cb_neighbor_change True (Some 2) (Some 1) d1 = Inr d2 \<and> olsrv2_tc_node_get d2 1 = Some nd \<and> nd_direct_neighbor nd"
proof -
  obtain d1 :: "(nat, nat) tc_db" and nd where d1: "cb_neighbor_change True (Some 1) None olsrv2_tc_init = Inr d1"
      "olsrv2_tc_node_get d1 1 = Some nd" "nd_direct_neighbor nd" "olsrv2_tc_node_get d1 2 = None"
    by (simp add: cb_neighbor_change_def cb_neighbor_remove_def olsrv2_tc_node_add_def Let_def get_tree insert_node_simps
        node_get_init)
  from neighbor_change_keeps_old_originator [OF d1(2,3,4)] d1(1) show ?thesis by blast
qed

lemma endpoints_remove_keeps:
  assumes "tc_finite db" "olsrv2_tc_endpoint_get db p = Some ep" "Mapping.lookup (ep_attached ep) m \<noteq> None" "m \<noteq> n"
  shows "\<exists>ep'. olsrv2_tc_endpoint_get (fold (olsrv2_tc_endpoint_remove n) ps db) p = Some ep' \<and>
    ep_originator ep' = ep_originator ep \<and> Mapping.lookup (ep_attached ep') m \<noteq> None"
  using assms
proof (induction ps arbitrary: db ep)
  case Nil then show ?case by simp
next
  case (Cons q ps)
  let ?d = "olsrv2_tc_endpoint_remove n q db"
  have fin: "finite (Mapping.keys (ep_attached ep))" using Cons.prems(1,2) unfolding tc_finite_def by blast
  have "Mapping.size (Mapping.delete n (ep_attached ep)) \<noteq> 0"
    using Cons.prems(3,4) fin by (subst size_zero) (auto simp: lookup_tc)
  then have "\<exists>ep1. olsrv2_tc_endpoint_get ?d p = Some ep1 \<and> ep_originator ep1 = ep_originator ep \<and>
      Mapping.lookup (ep_attached ep1) m \<noteq> None"
    using Cons.prems(2,3,4) by (auto simp: endpoint_remove_simps Let_def lookup_tc)
  then obtain ep1 where e: "olsrv2_tc_endpoint_get ?d p = Some ep1" "ep_originator ep1 = ep_originator ep"
      "Mapping.lookup (ep_attached ep1) m \<noteq> None" by blast
  from Cons.IH [OF endpoint_remove_finite [OF Cons.prems(1)] e(1,3) Cons.prems(4)] e(2) show ?case by simp
qed

text \<open>
  C31: An endpoint keeps a pointer to the originator address inside the node that was attached last. When this node is
  removed while another node is still attached, the endpoint stays in the database and its pointer refers to the removed node;
  the routing code reads through it.
\<close>

theorem endpoint_originator_dangles:
  assumes reach: "tc_reachable db" and nd: "olsrv2_tc_node_get db n = Some nd" "\<not> nd_direct_neighbor nd"
    and none: "\<forall>m. get_edge db n m = None"
    and ep: "olsrv2_tc_endpoint_get db p = Some ep" "ep_originator ep = n"
    and other: "get_attachment db m p \<noteq> None" "m \<noteq> n"
  shows "\<exists>db' ep'. olsrv2_tc_node_remove n db = Inr db' \<and> olsrv2_tc_node_get db' n = None \<and>
    olsrv2_tc_endpoint_get db' p = Some ep' \<and> ep_originator ep' = n"
proof -
  have inv: "tc_ok db" using reach by (rule tc_reachable_ok)
  let ?d = "tc_event (Node_Removed n) db"
  have fin: "tc_finite ?d" "tc_attached_ok ?d" "tc_edges_ok ?d"
    using inv tc_attached_ok_cong [of ?d db] tc_edges_ok_cong [of ?d db]
    by (simp_all add: tc_inv_def tc_finite_event get_edge_simps get_attachment_simps get_tree)
  have "Mapping.lookup (ep_attached ep) m \<noteq> None"
    using inv other(1) ep(1) unfolding tc_inv_def tc_attached_ok_def by force
  then obtain ep' where ep': "olsrv2_tc_endpoint_get (fold (olsrv2_tc_endpoint_remove n) (Mapping.ordered_keys (nd_attached nd)) ?d) p = Some ep'"
      "ep_originator ep' = n"
    using endpoints_remove_keeps [OF fin(1), of p ep m n] ep other(2) by (auto simp: get_tree)
  have keys: "Mapping.ordered_keys (nd_edges nd) = []"
    using node_edge_keys [OF nd(1)] none by (simp add: ordered_keys_def)
  have r: "olsrv2_tc_node_remove n db = drop_node n nd ?d"
    unfolding olsrv2_tc_node_remove_def node_remove_unfold by (simp add: nd(1) keys)
  have nd': "olsrv2_tc_node_get ?d n = Some nd" using nd(1) by (simp add: get_tree)
  from drop_node_spec [OF nd' refl fin, unfolded get_tree get_edge_simps]
  obtain db' where db': "drop_node n nd ?d = Inr db'" "olsrv2_tc_node_get db' n =
      (if (\<forall>m. get_edge db n m = None) \<and> \<not> nd_direct_neighbor nd then None
       else Some (nd\<lparr>nd_validity := None, nd_attached := Mapping.empty\<rparr>))" by blast
  have "olsrv2_tc_endpoint_get db' p = Some ep'"
    using db'(1) ep'(1) by (auto simp: drop_node_def Let_def get_tree delete_node_simps split: option.splits if_splits)
  with r db' none nd(2) ep'(2) show ?thesis by auto
qed

definition demo_3 :: "(nat, nat) tc_db" where
  "demo_3 = snd (olsrv2_tc_endpoint_add True True 1 9 False (snd (olsrv2_tc_node_add True 2 100 7 demo_1)))"

definition demo_4 :: "(nat, nat) tc_db" where
  "demo_4 = snd (olsrv2_tc_endpoint_add True True 2 9 False demo_3)"

lemmas demo_eval = demo_4_def demo_3_def demo_1_def olsrv2_tc_endpoint_add_def olsrv2_tc_node_add_def olsrv2_tc_init_def
  olsrv2_tc_node_get_def olsrv2_tc_endpoint_get_def tc_event_def upd_node_def tc_node_empty_def get_attachment_def
  get_edge_def lookup_map_entry' lookup_tc Let_def tc_active_def olsrv2_tc_is_node_virtual_def

lemma demo_4_reachable: "tc_reachable demo_4"
proof -
  have 2: "tc_reachable (snd (olsrv2_tc_node_add True 2 100 7 demo_1))"
    by (rule tc_reachable.step [OF demo_reachable(1), of "Add_Node True 2 100 7"]) simp_all
  have 3: "tc_reachable demo_3"
    unfolding demo_3_def by (rule tc_reachable.step [OF 2, of "Add_Endpoint True True 1 9 False"]) (simp_all add: demo_eval)
  show ?thesis
    unfolding demo_4_def by (rule tc_reachable.step [OF 3, of "Add_Endpoint True True 2 9 False"]) (simp_all add: demo_eval)
qed

lemma endpoint_originator_dangles_witness:
  "\<exists>db' ep'. olsrv2_tc_node_remove 2 demo_4 = Inr db' \<and> olsrv2_tc_node_get db' 2 = None \<and>
     olsrv2_tc_endpoint_get db' 9 = Some ep' \<and> ep_originator ep' = 2"
proof -
  obtain nd where nd: "olsrv2_tc_node_get demo_4 2 = Some nd" "\<not> nd_direct_neighbor nd"
    by (simp add: demo_eval)
  obtain ep where ep: "olsrv2_tc_endpoint_get demo_4 9 = Some ep" "ep_originator ep = 2"
    by (simp add: demo_eval)
  have "\<forall>m. get_edge demo_4 2 m = None" "get_attachment demo_4 1 9 \<noteq> None" by (simp_all add: demo_eval)
  with endpoint_originator_dangles [OF demo_4_reachable nd _ ep, of 1] show ?thesis by simp
qed

end
