(* ===== verification/Olsrv2_Dijkstra.thy ===== *)
theory Olsrv2_Dijkstra
  imports Olsrv2_Local Olsrv2_Tc_Safety
begin

section \<open>Shortest paths (olsrv2/olsrv2_routing)\<close>

text \<open>
  The Dijkstra part of \<^verbatim>\<open>src/src/olsrv2/olsrv2/olsrv2_routing.c\<close>: the working tree of targets, the queue, the source-specific
  split and the routing entries that result. The other databases are in a \<open>routing_env\<close>: the topology, the
  originators, the attached networks, the symmetric neighbors of NHDP with the data of one domain, and the results
  of the address filters and allocations. A pointer to the originator address of a node is the address. A null pointer
  that the code would follow sets \<open>dj_fault\<close>.
\<close>

datatype tc_target = Node_Target netaddr | Endpoint_Target os_route_key

datatype os_route_type = OS_ROUTE_UNDEFINED | OS_ROUTE_UNICAST | OS_ROUTE_LOCAL | OS_ROUTE_BROADCAST | OS_ROUTE_MULTICAST
  | OS_ROUTE_THROW | OS_ROUTE_UNREACHABLE | OS_ROUTE_PROHIBIT | OS_ROUTE_BLACKHOLE | OS_ROUTE_NAT

record os_route_parameter =
  rp_family :: u8
  rp_type :: os_route_type
  rp_key :: os_route_key
  rp_gw :: netaddr
  rp_src_ip :: netaddr
  rp_metric :: int
  rp_table :: u8
  rp_protocol :: u8
  rp_if_index :: u32

text \<open>What routing reads of a neighbor, its data for one domain included; \<open>rn_2hop\<close> has a list of two-hop neighbors
  per link: address, whether it is lost, and outgoing metric.\<close>

record routing_neighbor =
  rn_originator :: netaddr
  rn_symmetric :: int
  rn_metric_in :: u32
  rn_metric_out :: u32
  rn_best_link_ifindex :: u32
  rn_best_out_link :: "netaddr option"
  rn_addresses :: "netaddr list"
  rn_2hop :: "(netaddr \<times> bool \<times> u32) list list"

record olsrv2_dijkstra_node =
  dn_path_cost :: u32
  dn_path_hops :: u8
  dn_distance :: u8
  dn_first_hop :: "routing_neighbor option"
  dn_last_originator :: "netaddr option"
  dn_single_hop :: bool
  dn_local :: bool
  dn_done :: bool

record olsrv2_routing_entry =
  rt_route :: os_route_parameter
  rt_path_cost :: u32
  rt_path_hops :: u8
  rt_originator :: netaddr
  rt_next_originator :: netaddr
  rt_last_originator :: netaddr
  rt_set :: bool
  rt_in_processing :: bool
  rt_old :: os_route_parameter

record routing_env =
  env_domain :: nat
  env_tc :: "(netaddr, os_route_key) tc_db"
  env_originators :: originator_db
  env_lan :: lan_tree
  env_neighbors :: "routing_neighbor list"
  env_own_address :: "netaddr \<Rightarrow> bool"
  env_routable :: "netaddr \<Rightarrow> bool"
  env_nhdp_routable :: "netaddr \<Rightarrow> bool"
  env_alloc :: "os_route_key \<Rightarrow> bool"

record dijkstra =
  dj_nodes :: "tc_target \<Rightarrow> olsrv2_dijkstra_node"
  dj_tree :: "(u32 \<times> tc_target) list"
  dj_routes :: "(os_route_key, olsrv2_routing_entry) mapping"
  dj_fault :: "fault option"

definition dj_set_fault :: "fault \<Rightarrow> dijkstra \<Rightarrow> dijkstra" where
  "dj_set_fault f st = (if dj_fault st = None then st\<lparr>dj_fault := Some f\<rparr> else st)"

subsection \<open>The working tree\<close>

definition working_comp :: "u32 \<times> tc_target \<Rightarrow> u32 \<times> tc_target \<Rightarrow> int" where
  "working_comp a b = avl_comp_uint32 (fst a) (fst b)"

definition insert_into_working_tree ::
    "tc_target \<Rightarrow> routing_neighbor option \<Rightarrow> u32 \<Rightarrow> u32 \<Rightarrow> u8 \<Rightarrow> u8 \<Rightarrow> bool \<Rightarrow> netaddr option \<Rightarrow> dijkstra \<Rightarrow> dijkstra" where
  "insert_into_working_tree target neigh link_cost path_cost path_hops distance single_hop last_originator st =
     (let node = dj_nodes st target
      in if link_cost > RFC7181_METRIC_MAX then st
         else if dn_local node \<or> dn_done node then st
         else let path_cost = path_cost + link_cost; path_hops = path_hops + 1
         in if target \<in> set (map snd (dj_tree st)) \<and> dn_path_cost node \<le> path_cost then st
         else let tree = filter (\<lambda>x. snd x \<noteq> target) (dj_tree st);
                  node = node\<lparr>dn_path_cost := path_cost, dn_path_hops := path_hops, dn_first_hop := neigh,
                    dn_distance := distance, dn_single_hop := single_hop, dn_last_originator := last_originator\<rparr>
              in st\<lparr>dj_nodes := (dj_nodes st)(target := node),
                    dj_tree := tree_insert_dup working_comp tree (path_cost, target)\<rparr>)"

subsection \<open>Routing entries\<close>

definition route_parameter_zero :: os_route_parameter where
  "route_parameter_zero = \<lparr>rp_family = 0, rp_type = OS_ROUTE_UNDEFINED,
     rp_key = \<lparr>rk_dst = netaddr_invalidate, rk_src = netaddr_invalidate\<rparr>, rp_gw = netaddr_invalidate,
     rp_src_ip = netaddr_invalidate, rp_metric = 0, rp_table = 0, rp_protocol = 0, rp_if_index = 0\<rparr>"

definition new_entry :: "os_route_key \<Rightarrow> olsrv2_routing_entry" where
  "new_entry prefix =
     \<lparr>rt_route = route_parameter_zero\<lparr>rp_key := prefix, rp_family := na_type (rk_dst prefix), rp_type := OS_ROUTE_UNICAST\<rparr>,
      rt_path_cost = RFC7181_METRIC_INFINITE_PATH, rt_path_hops = 255, rt_originator = netaddr_invalidate,
      rt_next_originator = netaddr_invalidate, rt_last_originator = netaddr_invalidate, rt_set = False,
      rt_in_processing = False, rt_old = route_parameter_zero\<rparr>"

text \<open>\<open>ok\<close>: the allocation succeeds. Returns the entry now in the tree.\<close>

definition add_entry :: "bool \<Rightarrow> os_route_key \<Rightarrow> (os_route_key, olsrv2_routing_entry) mapping \<Rightarrow>
    (olsrv2_routing_entry \<times> (os_route_key, olsrv2_routing_entry) mapping) option" where
  "add_entry ok prefix t =
     (case Mapping.lookup t prefix of
        Some rtentry \<Rightarrow> Some (rtentry, t)
      | None \<Rightarrow> if \<not> ok then None
                else let rtentry = new_entry prefix in Some (rtentry, Mapping.update prefix rtentry t))"

text \<open>A locally attached network with a metric better than \<open>cost\<close>.\<close>

definition lan_is_better :: "routing_env \<Rightarrow> os_route_key \<Rightarrow> u32 \<Rightarrow> bool" where
  "lan_is_better env prefix cost \<longleftrightarrow>
     (case olsrv2_lan_get (env_lan env) prefix of
        None \<Rightarrow> False
      | Some lan \<Rightarrow> (let landata = lan_domaindata lan ! env_domain env
                    in ld_active landata \<and> ld_outgoing_metric landata < cost))"

definition update_routing_entry ::
    "routing_env \<Rightarrow> os_route_key \<Rightarrow> netaddr \<Rightarrow> routing_neighbor option \<Rightarrow> u8 \<Rightarrow> u32 \<Rightarrow> u8 \<Rightarrow> bool \<Rightarrow> netaddr option \<Rightarrow>
     dijkstra \<Rightarrow> dijkstra" where
  "update_routing_entry env dst_prefix dst_originator first_hop distance pathcost path_hops single_hop last_originator st =
     (case olsrv2_originator_get (env_originators env) (na_type (rk_dst dst_prefix)) of
        None \<Rightarrow> dj_set_fault Null_Deref st
      | Some originator \<Rightarrow>
          if netaddr_cmp originator (rk_dst dst_prefix) = 0 then st
          else if env_own_address env (rk_dst dst_prefix) then st
          else if lan_is_better env dst_prefix pathcost then st
          else if \<not> env_routable env (rk_dst dst_prefix) then st
          else case add_entry (env_alloc env dst_prefix) dst_prefix (dj_routes st) of
                 None \<Rightarrow> st
               | Some (rtentry, t) \<Rightarrow>
                   let st = st\<lparr>dj_routes := t\<rparr>
                   in if rt_set rtentry \<and> rt_path_cost rtentry < pathcost then st
                   else case (first_hop, last_originator) of
                          (Some neigh, Some lastorig) \<Rightarrow>
                            (case rn_best_out_link neigh of
                               None \<Rightarrow> dj_set_fault Null_Deref st
                             | Some if_addr \<Rightarrow>
                                 let route = (rt_route rtentry)\<lparr>rp_if_index := rn_best_link_ifindex neigh,
                                       rp_metric := int (unat distance),
                                       rp_gw := (if single_hop \<and> netaddr_cmp if_addr (rk_dst (rp_key (rt_route rtentry))) = 0
                                                 then netaddr_invalidate else if_addr)\<rparr>
                                 in st\<lparr>dj_routes := Mapping.update dst_prefix
                                      (rtentry\<lparr>rt_route := route, rt_path_cost := pathcost, rt_path_hops := path_hops,
                                        rt_originator := dst_originator, rt_next_originator := rn_originator neigh,
                                        rt_last_originator := lastorig, rt_set := True\<rparr>) (dj_routes st)\<rparr>)
                        | _ \<Rightarrow> dj_set_fault Null_Deref st)"

subsection \<open>Preparation\<close>

definition prepare_routes :: "dijkstra \<Rightarrow> dijkstra" where
  "prepare_routes st = st\<lparr>dj_routes := Mapping.map_values (\<lambda>_ e. e\<lparr>rt_set := False, rt_old := rt_route e\<rparr>) (dj_routes st)\<rparr>"

definition prepare_nodes :: "routing_env \<Rightarrow> dijkstra \<Rightarrow> dijkstra" where
  "prepare_nodes env st = st\<lparr>dj_nodes := (\<lambda>t.
     let node = dj_nodes st t;
         reset = node\<lparr>dn_first_hop := None, dn_path_cost := RFC7181_METRIC_INFINITE_PATH, dn_path_hops := 255\<rparr>
     in case t of
          Node_Target n \<Rightarrow>
            (if olsrv2_tc_node_get (env_tc env) n = None then node
             else reset\<lparr>dn_local := olsrv2_originator_is_local (env_originators env) n, dn_done := False\<rparr>)
        | Endpoint_Target p \<Rightarrow>
            (if olsrv2_tc_endpoint_get (env_tc env) p = None then node else reset\<lparr>dn_done := False\<rparr>))\<rparr>"

text \<open>The counters of the nodes and of the source-specific nodes of an address family.\<close>

definition check_ssnode_split :: "routing_env \<Rightarrow> u8 \<Rightarrow> bool" where
  "check_ssnode_split env af_family =
     (let nodes = map (\<lambda>n. (n, the (olsrv2_tc_node_get (env_tc env) n))) (Mapping.ordered_keys (tc_tree (env_tc env)));
          count = (\<lambda>P. fold (\<lambda>x c. if na_type (fst x) = af_family \<and> P (snd x) then c + 1 else c) nodes (0 :: u32));
          full_count = count (\<lambda>nd. True);
          ssnode_count = count nd_source_specific;
          ssnode_prefix = (\<exists>x\<in>set nodes. nd_ss_attached_networks (snd x) (env_domain env))
      in ssnode_count \<noteq> 0 \<and> ssnode_count \<noteq> full_count \<and> ssnode_prefix)"

subsection \<open>The algorithm\<close>

definition add_one_hop_node :: "routing_env \<Rightarrow> u8 \<Rightarrow> bool \<Rightarrow> bool \<Rightarrow> routing_neighbor \<Rightarrow> dijkstra \<Rightarrow> dijkstra" where
  "add_one_hop_node env af_family use_non_ss use_ss neigh st =
     (if na_type (rn_originator neigh) \<noteq> af_family then st
      else if rn_symmetric neigh = 0 then st
      else case olsrv2_tc_node_get (env_tc env) (rn_originator neigh) of
             None \<Rightarrow> st
           | Some node \<Rightarrow>
               if \<not> use_non_ss \<and> \<not> (nd_source_specific node \<and> use_ss) then st
               else if rn_metric_in neigh > RFC7181_METRIC_MAX \<or> rn_metric_out neigh > RFC7181_METRIC_MAX then st
               else insert_into_working_tree (Node_Target (rn_originator neigh)) (Some neigh) (rn_metric_out neigh) 0 0 0 True
                      (olsrv2_originator_get (env_originators env) af_family) st)"

definition add_one_hop_nodes :: "routing_env \<Rightarrow> u8 \<Rightarrow> bool \<Rightarrow> bool \<Rightarrow> dijkstra \<Rightarrow> dijkstra" where
  "add_one_hop_nodes env af_family use_non_ss use_ss =
     fold (add_one_hop_node env af_family use_non_ss use_ss) (env_neighbors env)"

definition handle_edge :: "routing_env \<Rightarrow> bool \<Rightarrow> netaddr \<Rightarrow> (netaddr, os_route_key) olsrv2_tc_node \<Rightarrow>
    olsrv2_dijkstra_node \<Rightarrow> netaddr \<Rightarrow> dijkstra \<Rightarrow> dijkstra" where
  "handle_edge env use_non_ss n tc_node node dst st =
     (case Mapping.lookup (nd_edges tc_node) dst of
        None \<Rightarrow> st
      | Some tc_edge \<Rightarrow>
          if \<not> ed_virtual tc_edge \<and> ed_cost tc_edge (env_domain env) \<le> RFC7181_METRIC_MAX
          then if \<not> use_non_ss \<and> \<not> nd_source_specific tc_node then st
               else insert_into_working_tree (Node_Target dst) (dn_first_hop node) (ed_cost tc_edge (env_domain env))
                      (dn_path_cost node) (dn_path_hops node) 0 False (Some n) st
          else st)"

definition handle_attachment :: "routing_env \<Rightarrow> bool \<Rightarrow> bool \<Rightarrow> netaddr \<Rightarrow> (netaddr, os_route_key) olsrv2_tc_node \<Rightarrow>
    olsrv2_dijkstra_node \<Rightarrow> os_route_key \<Rightarrow> dijkstra \<Rightarrow> dijkstra" where
  "handle_attachment env use_non_ss use_ss n tc_node node p st =
     (case (Mapping.lookup (nd_attached tc_node) p, olsrv2_tc_endpoint_get (env_tc env) p) of
        (Some tc_attached, Some tc_endpoint) \<Rightarrow>
          if at_cost tc_attached (env_domain env) \<le> RFC7181_METRIC_MAX
          then if \<not> (if na_prefix_len (rk_src p) > 0 then use_ss else use_non_ss) then st
               else if Mapping.size (ep_attached tc_endpoint) > 1
               then insert_into_working_tree (Endpoint_Target p) (dn_first_hop node) (at_cost tc_attached (env_domain env))
                      (dn_path_cost node) (dn_path_hops node) (at_distance tc_attached (env_domain env)) False (Some n) st
               else update_routing_entry env p n (dn_first_hop node) (at_distance tc_attached (env_domain env))
                      (dn_path_cost node + at_cost tc_attached (env_domain env)) (dn_path_hops node + 1) False (Some n)
                      (st\<lparr>dj_nodes := (dj_nodes st)(Endpoint_Target p := (dj_nodes st (Endpoint_Target p))\<lparr>dn_done := True\<rparr>)\<rparr>)
          else st
      | _ \<Rightarrow> st)"

definition target_prefix :: "tc_target \<Rightarrow> os_route_key" where
  "target_prefix t = (case t of Node_Target n \<Rightarrow> os_routing_init_sourcespec_prefix n | Endpoint_Target p \<Rightarrow> p)"

text \<open>\<open>_dijkstra.originator\<close>: of a node its own address, of an endpoint the node attached last.\<close>

definition target_originator :: "routing_env \<Rightarrow> tc_target \<Rightarrow> netaddr" where
  "target_originator env t = (case t of
     Node_Target n \<Rightarrow> n
   | Endpoint_Target p \<Rightarrow> (case olsrv2_tc_endpoint_get (env_tc env) p of None \<Rightarrow> NETADDR_UNSPEC | Some ep \<Rightarrow> ep_originator ep))"

definition handle_working_queue :: "routing_env \<Rightarrow> bool \<Rightarrow> bool \<Rightarrow> dijkstra \<Rightarrow> dijkstra" where
  "handle_working_queue env use_non_ss use_ss st =
     (case dj_tree st of
        [] \<Rightarrow> st
      | (k, target) # rest \<Rightarrow>
          let node = (dj_nodes st target)\<lparr>dn_done := True\<rparr>;
              st = st\<lparr>dj_tree := rest, dj_nodes := (dj_nodes st)(target := node)\<rparr>;
              st = (if use_non_ss
                    then update_routing_entry env (target_prefix target) (target_originator env target) (dn_first_hop node)
                           (dn_distance node) (dn_path_cost node) (dn_path_hops node) (dn_single_hop node)
                           (dn_last_originator node) st
                    else st)
          in case target of
               Endpoint_Target _ \<Rightarrow> st
             | Node_Target n \<Rightarrow>
                 (case olsrv2_tc_node_get (env_tc env) n of
                    None \<Rightarrow> dj_set_fault Null_Deref st
                  | Some tc_node \<Rightarrow>
                      fold (handle_attachment env use_non_ss use_ss n tc_node node) (Mapping.ordered_keys (nd_attached tc_node))
                        (fold (handle_edge env use_non_ss n tc_node node) (Mapping.ordered_keys (nd_edges tc_node)) st)))"

text \<open>The loop may not end for an arbitrary state; that it does is a theorem.\<close>

partial_function (option) working_queue_loop :: "routing_env \<Rightarrow> bool \<Rightarrow> bool \<Rightarrow> dijkstra \<Rightarrow> dijkstra option" where
  "working_queue_loop env use_non_ss use_ss st =
     (if dj_tree st = [] then Some st
      else working_queue_loop env use_non_ss use_ss (handle_working_queue env use_non_ss use_ss st))"

definition run_dijkstra :: "routing_env \<Rightarrow> u8 \<Rightarrow> bool \<Rightarrow> bool \<Rightarrow> dijkstra \<Rightarrow> dijkstra option" where
  "run_dijkstra env af_family use_non_ss use_ss st =
     working_queue_loop env use_non_ss use_ss (add_one_hop_nodes env af_family use_non_ss use_ss st)"

subsection \<open>Relaxation\<close>

text \<open>
  The working tree is sorted by path cost, holds a target once under its current cost, and only targets of \<open>B\<close> that
  are neither done nor local.
\<close>

definition in_tree :: "dijkstra \<Rightarrow> tc_target \<Rightarrow> bool" where
  "in_tree st t \<longleftrightarrow> t \<in> set (map snd (dj_tree st))"

definition cost_of :: "dijkstra \<Rightarrow> tc_target \<Rightarrow> nat" where
  "cost_of st t = unat (dn_path_cost (dj_nodes st t))"

definition is_done :: "dijkstra \<Rightarrow> tc_target \<Rightarrow> bool" where
  "is_done st t \<longleftrightarrow> dn_done (dj_nodes st t)"

definition is_local :: "dijkstra \<Rightarrow> tc_target \<Rightarrow> bool" where
  "is_local st t \<longleftrightarrow> dn_local (dj_nodes st t)"

definition hop_of :: "dijkstra \<Rightarrow> tc_target \<Rightarrow> routing_neighbor option" where
  "hop_of st t = dn_first_hop (dj_nodes st t)"

lemmas target_views = in_tree_def cost_of_def is_done_def is_local_def hop_of_def

definition working_tree_ok :: "tc_target set \<Rightarrow> dijkstra \<Rightarrow> bool" where
  "working_tree_ok B st \<longleftrightarrow> tree_sorted working_comp (dj_tree st) \<and> distinct (map snd (dj_tree st)) \<and>
     (\<forall>x\<in>set (dj_tree st). fst x = dn_path_cost (dj_nodes st (snd x)) \<and> \<not> is_done st (snd x) \<and> \<not> is_local st (snd x) \<and>
       snd x \<in> B)"

interpretation working_order: avl_comparator "\<lambda>_. True" working_comp
  by unfold_locales (auto simp: working_comp_def avl_comp_uint32_def split: if_splits)

lemma tree_sorted_filter: "tree_sorted cmp xs \<Longrightarrow> tree_sorted cmp (filter P xs)"
  by (simp add: tree_sorted_def sorted_wrt_filter)

lemma distinct_insert_dup:
  "distinct (map f (tree_insert_dup cmp xs x)) \<longleftrightarrow> f x \<notin> set (map f xs) \<and> distinct (map f xs)"
  by (induction xs) auto

lemma working_comp_le: "working_comp a b \<le> 0 \<longleftrightarrow> fst a \<le> fst b"
  by (auto simp: working_comp_def avl_comp_uint32_def)

lemma sorted_head_least:
  assumes "working_tree_ok B st" "dj_tree st = (k, t) # rest" "in_tree st x"
  shows "cost_of st t \<le> cost_of st x"
proof -
  from assms(3) obtain y where "y \<in> set (dj_tree st)" "snd y = x" unfolding in_tree_def set_map by blast
  then have "(fst y, x) \<in> set (dj_tree st)" by force
  then have "(fst y, x) \<in> set ((k, t) # rest)" unfolding assms(2) .
  then obtain k' where "(k', x) \<in> set ((k, t) # rest)" by blast
  then have "k \<le> k'"
    using assms(1,2) by (auto simp: working_tree_ok_def tree_sorted_def working_comp_le)
  moreover have "k = dn_path_cost (dj_nodes st t)" "k' = dn_path_cost (dj_nodes st x)"
    using assms(1,2) \<open>(k', x) \<in> set ((k, t) # rest)\<close> by (auto simp: working_tree_ok_def)
  ultimately show ?thesis by (simp add: cost_of_def word_le_nat_alt)
qed

text \<open>
  \<open>relaxes B Ls st st'\<close>: from \<open>st\<close> to \<open>st'\<close> the candidates \<open>Ls\<close> were offered to the working tree, each a target, its cost, and the
  first hop. \<open>B\<close> is the set of targets the statement is about.
\<close>

definition relaxes :: "tc_target set \<Rightarrow> (tc_target \<times> nat \<times> routing_neighbor option) set \<Rightarrow> dijkstra \<Rightarrow> dijkstra \<Rightarrow> bool" where
  "relaxes B Ls st st' \<longleftrightarrow>
     (working_tree_ok B st \<longrightarrow> working_tree_ok B st') \<and>
     (\<forall>x\<in>B. is_done st' x = is_done st x) \<and> (\<forall>x. is_local st' x = is_local st x) \<and>
     (\<forall>x. in_tree st x \<longrightarrow> in_tree st' x \<and> cost_of st' x \<le> cost_of st x) \<and>
     (\<forall>x. in_tree st' x \<longrightarrow> (in_tree st x \<and> cost_of st' x = cost_of st x \<and> hop_of st' x = hop_of st x) \<or>
        (x, cost_of st' x, hop_of st' x) \<in> Ls \<and> \<not> is_done st x \<and> \<not> is_local st x) \<and>
     (\<forall>(x, c, h)\<in>Ls. x \<in> B \<longrightarrow> \<not> is_done st x \<longrightarrow> \<not> is_local st x \<longrightarrow> in_tree st' x \<and> cost_of st' x \<le> c) \<and>
     (\<forall>x\<in>B. is_done st x \<longrightarrow> cost_of st' x = cost_of st x \<and> hop_of st' x = hop_of st x)"

lemma relaxes_refl: "relaxes B {} st st"
  by (simp add: relaxes_def)

lemma insert_relaxes:
  assumes c: "unat link_cost + unat path_cost < 2 ^ 32" "link_cost \<le> RFC7181_METRIC_MAX" and t: "t \<in> B"
  shows "relaxes B {(t, unat path_cost + unat link_cost, h)} st
    (insert_into_working_tree t h link_cost path_cost hops dist single lastorig st)" (is "relaxes B ?L st ?st'")
proof -
  let ?node = "dj_nodes st t" and ?c = "path_cost + link_cost"
  have "unat path_cost + unat link_cost < 2 ^ LENGTH(32)" using c(1) by simp
  then have uc: "unat ?c = unat path_cost + unat link_cost" by (rule unat_add_lem [THEN iffD1])
  consider (blocked) "dn_local ?node \<or> dn_done ?node"
    | (worse) "\<not> dn_local ?node" "\<not> dn_done ?node" "in_tree st t" "dn_path_cost ?node \<le> ?c"
    | (better) "\<not> dn_local ?node" "\<not> dn_done ?node" "\<not> (in_tree st t \<and> dn_path_cost ?node \<le> ?c)" by blast
  then show ?thesis
  proof cases
    case blocked
    then have "?st' = st" by (simp add: insert_into_working_tree_def Let_def)
    then show ?thesis using blocked by (auto simp: relaxes_def is_done_def is_local_def)
  next
    case worse
    then have "?st' = st" by (simp add: insert_into_working_tree_def Let_def in_tree_def)
    moreover have "cost_of st t \<le> unat path_cost + unat link_cost"
      using worse(4) by (simp add: cost_of_def word_le_nat_alt uc)
    ultimately show ?thesis using worse by (auto simp: relaxes_def)
  next
    case better
    let ?new = "?node\<lparr>dn_path_cost := ?c, dn_path_hops := hops + 1, dn_first_hop := h, dn_distance := dist,
      dn_single_hop := single, dn_last_originator := lastorig\<rparr>"
    let ?tree = "filter (\<lambda>x. snd x \<noteq> t) (dj_tree st)"
    have n: "\<not> link_cost > RFC7181_METRIC_MAX" "\<not> (dn_local ?node \<or> dn_done ?node)"
        "\<not> (t \<in> set (map snd (dj_tree st)) \<and> dn_path_cost ?node \<le> ?c)"
      using better c(2) unfolding in_tree_def by (simp_all only: not_less de_Morgan_disj de_Morgan_conj simp_thms)
    have eq: "?st' = st\<lparr>dj_nodes := (dj_nodes st)(t := ?new), dj_tree := tree_insert_dup working_comp ?tree (?c, t)\<rparr>"
      by (simp only: insert_into_working_tree_def Let_def n if_False)
    have nodes: "dj_nodes ?st' = (dj_nodes st)(t := ?new)" and tree: "dj_tree ?st' = tree_insert_dup working_comp ?tree (?c, t)"
      by (simp_all add: eq)
    have it: "in_tree ?st' x \<longleftrightarrow> x = t \<or> in_tree st x" for x
      by (auto simp: in_tree_def tree)
    have same: "is_done ?st' x = is_done st x" "is_local ?st' x = is_local st x" for x
      by (simp_all add: is_done_def is_local_def nodes)
    have ct: "cost_of ?st' x = (if x = t then unat path_cost + unat link_cost else cost_of st x)" for x
      by (simp add: cost_of_def nodes uc)
    have ho: "hop_of ?st' x = (if x = t then h else hop_of st x)" for x
      by (simp add: hop_of_def nodes)
    have le: "in_tree st t \<Longrightarrow> unat path_cost + unat link_cost \<le> cost_of st t"
      using better(3) by (simp add: cost_of_def word_le_nat_alt uc)
    have ok: "working_tree_ok B ?st'" if w: "working_tree_ok B st"
    proof -
      have "tree_sorted working_comp (dj_tree ?st')"
        using w unfolding tree by (intro working_order.insert_dup_sorted tree_sorted_filter) (simp_all add: working_tree_ok_def)
      moreover have "distinct (map snd (dj_tree ?st'))"
        using w unfolding tree distinct_insert_dup by (auto simp: working_tree_ok_def distinct_map_filter)
      moreover have "\<forall>x\<in>set (dj_tree ?st'). fst x = dn_path_cost (dj_nodes ?st' (snd x)) \<and>
          \<not> is_done ?st' (snd x) \<and> \<not> is_local ?st' (snd x) \<and> snd x \<in> B"
        using w t better(1,2) unfolding tree by (auto simp: working_tree_ok_def nodes is_done_def is_local_def)
      ultimately show ?thesis by (simp add: working_tree_ok_def)
    qed
    show ?thesis
      unfolding relaxes_def
    proof (intro conjI)
      show "\<forall>x. in_tree ?st' x \<longrightarrow> (in_tree st x \<and> cost_of ?st' x = cost_of st x \<and> hop_of ?st' x = hop_of st x) \<or>
        (x, cost_of ?st' x, hop_of ?st' x) \<in> ?L \<and> \<not> is_done st x \<and> \<not> is_local st x"
        using better(1,2) by (auto simp: it ct ho is_done_def is_local_def)
    qed (use ok better(2) le in \<open>auto simp: it ct ho same is_done_def [of st t]\<close>)
  qed
qed

lemma relaxes_trans:
  assumes a: "relaxes B Ls st st1" and b: "relaxes B Ms st1 st2" and sub: "fst ` Ms \<subseteq> B"
  shows "relaxes B (Ls \<union> Ms) st st2"
proof -
  have a': "working_tree_ok B st \<longrightarrow> working_tree_ok B st1" "\<And>x. x \<in> B \<Longrightarrow> is_done st1 x = is_done st x" "\<And>x. is_local st1 x = is_local st x"
     "\<And>x. in_tree st x \<Longrightarrow> in_tree st1 x \<and> cost_of st1 x \<le> cost_of st x"
     "\<And>x. in_tree st1 x \<Longrightarrow> (in_tree st x \<and> cost_of st1 x = cost_of st x \<and> hop_of st1 x = hop_of st x) \<or>
        (x, cost_of st1 x, hop_of st1 x) \<in> Ls \<and> \<not> is_done st x \<and> \<not> is_local st x"
     "\<And>x c h. (x, c, h) \<in> Ls \<Longrightarrow> x \<in> B \<Longrightarrow> \<not> is_done st x \<Longrightarrow> \<not> is_local st x \<Longrightarrow> in_tree st1 x \<and> cost_of st1 x \<le> c"
     "\<And>x. x \<in> B \<Longrightarrow> is_done st x \<Longrightarrow> cost_of st1 x = cost_of st x \<and> hop_of st1 x = hop_of st x"
    using a unfolding relaxes_def by blast+
  have b': "working_tree_ok B st1 \<longrightarrow> working_tree_ok B st2" "\<And>x. x \<in> B \<Longrightarrow> is_done st2 x = is_done st1 x" "\<And>x. is_local st2 x = is_local st1 x"
     "\<And>x. in_tree st1 x \<Longrightarrow> in_tree st2 x \<and> cost_of st2 x \<le> cost_of st1 x"
     "\<And>x. in_tree st2 x \<Longrightarrow> (in_tree st1 x \<and> cost_of st2 x = cost_of st1 x \<and> hop_of st2 x = hop_of st1 x) \<or>
        (x, cost_of st2 x, hop_of st2 x) \<in> Ms \<and> \<not> is_done st1 x \<and> \<not> is_local st1 x"
     "\<And>x c h. (x, c, h) \<in> Ms \<Longrightarrow> x \<in> B \<Longrightarrow> \<not> is_done st1 x \<Longrightarrow> \<not> is_local st1 x \<Longrightarrow> in_tree st2 x \<and> cost_of st2 x \<le> c"
     "\<And>x. x \<in> B \<Longrightarrow> is_done st1 x \<Longrightarrow> cost_of st2 x = cost_of st1 x \<and> hop_of st2 x = hop_of st1 x"
    using b unfolding relaxes_def by blast+
  show ?thesis
    unfolding relaxes_def
  proof (intro conjI allI ballI impI)
    fix x assume "in_tree st x"
    then show "in_tree st2 x" "cost_of st2 x \<le> cost_of st x" using a'(4) b'(4) by (blast intro: le_trans)+
  next
    fix x assume x: "in_tree st2 x"
    show "(in_tree st x \<and> cost_of st2 x = cost_of st x \<and> hop_of st2 x = hop_of st x) \<or>
        (x, cost_of st2 x, hop_of st2 x) \<in> Ls \<union> Ms \<and> \<not> is_done st x \<and> \<not> is_local st x"
    proof (cases "in_tree st1 x \<and> cost_of st2 x = cost_of st1 x \<and> hop_of st2 x = hop_of st1 x")
      case True with a'(5) [of x] show ?thesis by auto
    next
      case False
      with b'(5) [OF x] have m: "(x, cost_of st2 x, hop_of st2 x) \<in> Ms" "\<not> is_done st1 x" "\<not> is_local st1 x" by blast+
      from m(1) sub have "x \<in> B" by force
      with m a'(2,3) show ?thesis by blast
    qed
  next
    fix l assume l: "l \<in> Ls \<union> Ms"
    obtain x c h where lx: "l = (x, c, h)" by (cases l)
    have "in_tree st2 x \<and> cost_of st2 x \<le> c" if "x \<in> B" "\<not> is_done st x" "\<not> is_local st x"
    proof (cases "l \<in> Ls")
      case True
      with lx that a'(6) b'(4) show ?thesis by (blast intro: le_trans)
    next
      case False
      with l lx that a'(2,3) b'(6) show ?thesis by blast
    qed
    then show "case l of (x, c, h) \<Rightarrow> x \<in> B \<longrightarrow> \<not> is_done st x \<longrightarrow> \<not> is_local st x \<longrightarrow> in_tree st2 x \<and> cost_of st2 x \<le> c"
      by (simp add: lx)
  next
    fix x assume x: "x \<in> B" "is_done st x"
    then have "is_done st1 x" using a'(2) by blast
    with x a'(7) b'(7) show "cost_of st2 x = cost_of st x" "hop_of st2 x = hop_of st x" by metis+
  qed (use a'(1,2,3) b'(1,2,3) in auto)
qed

text \<open>A loop of relaxations.\<close>

lemma relaxes_fold:
  assumes "\<And>x st. x \<in> set xs \<Longrightarrow> relaxes B (L x) st (f x st)" "\<And>x. x \<in> set xs \<Longrightarrow> fst ` L x \<subseteq> B"
  shows "relaxes B (\<Union>x\<in>set xs. L x) st (fold f xs st)"
  using assms
proof (induction xs arbitrary: st)
  case Nil then show ?case by (simp add: relaxes_refl)
next
  case (Cons x xs)
  have "relaxes B (L x \<union> (\<Union>x\<in>set xs. L x)) st (fold f xs (f x st))"
    using Cons.prems(2)
    by (intro relaxes_trans [OF Cons.prems(1) Cons.IH [OF Cons.prems]]) (simp_all add: image_UN UN_subset_iff)
  then show ?case by simp
qed

subsection \<open>Paths in the topology\<close>

text \<open>
  What the algorithm is to compute. \<open>queue_targets\<close> are the targets that can be on the working tree: the nodes, and the
  endpoints with more than one attachment. \<open>one_hop\<close> are the direct neighbors with a usable metric, \<open>tc_link\<close> the announced
  edges and attachments. \<open>tc_path h t c\<close>: there is a path of cost \<open>c\<close> to \<open>t\<close> whose first hop is the neighbor \<open>h\<close>.
\<close>

definition queue_targets :: "routing_env \<Rightarrow> tc_target set" where
  "queue_targets env =
     {Node_Target n |n. olsrv2_tc_node_get (env_tc env) n \<noteq> None} \<union>
     {Endpoint_Target p |p. \<exists>ep. olsrv2_tc_endpoint_get (env_tc env) p = Some ep \<and> Mapping.size (ep_attached ep) > 1}"

definition one_hop :: "routing_env \<Rightarrow> u8 \<Rightarrow> bool \<Rightarrow> bool \<Rightarrow> routing_neighbor \<Rightarrow> tc_target \<Rightarrow> nat \<Rightarrow> bool" where
  "one_hop env af nss ss h t c \<longleftrightarrow>
     h \<in> set (env_neighbors env) \<and> na_type (rn_originator h) = af \<and> rn_symmetric h \<noteq> 0 \<and>
     t = Node_Target (rn_originator h) \<and> c = unat (rn_metric_out h) \<and>
     rn_metric_in h \<le> RFC7181_METRIC_MAX \<and> rn_metric_out h \<le> RFC7181_METRIC_MAX \<and>
     (\<exists>node. olsrv2_tc_node_get (env_tc env) (rn_originator h) = Some node \<and> (nss \<or> nd_source_specific node \<and> ss))"

fun tc_link :: "routing_env \<Rightarrow> bool \<Rightarrow> bool \<Rightarrow> netaddr \<Rightarrow> tc_target \<Rightarrow> nat \<Rightarrow> bool" where
  "tc_link env nss ss n (Node_Target m) c \<longleftrightarrow>
     (\<exists>node e. olsrv2_tc_node_get (env_tc env) n = Some node \<and> get_edge (env_tc env) n m = Some e \<and> \<not> ed_virtual e \<and>
        ed_cost e (env_domain env) \<le> RFC7181_METRIC_MAX \<and> c = unat (ed_cost e (env_domain env)) \<and>
        (nss \<or> nd_source_specific node))"
| "tc_link env nss ss n (Endpoint_Target p) c \<longleftrightarrow>
     (\<exists>a ep. get_attachment (env_tc env) n p = Some a \<and> olsrv2_tc_endpoint_get (env_tc env) p = Some ep \<and>
        at_cost a (env_domain env) \<le> RFC7181_METRIC_MAX \<and> c = unat (at_cost a (env_domain env)) \<and>
        (if na_prefix_len (rk_src p) > 0 then ss else nss) \<and> Mapping.size (ep_attached ep) > 1)"

inductive tc_path :: "routing_env \<Rightarrow> u8 \<Rightarrow> bool \<Rightarrow> bool \<Rightarrow> (tc_target \<Rightarrow> bool) \<Rightarrow> routing_neighbor \<Rightarrow> tc_target \<Rightarrow> nat \<Rightarrow> bool"
  for env af nss ss loc where
  start: "one_hop env af nss ss h t c \<Longrightarrow> \<not> loc t \<Longrightarrow> tc_path env af nss ss loc h t c"
| step: "tc_path env af nss ss loc h (Node_Target n) k \<Longrightarrow> tc_link env nss ss n t c \<Longrightarrow> \<not> loc t \<Longrightarrow>
    tc_path env af nss ss loc h t (k + c)"

text \<open>The hypotheses of the correctness proof: the topology satisfies its invariant and no sum of metrics can wrap.\<close>

definition env_ok :: "routing_env \<Rightarrow> bool" where
  "env_ok env \<longleftrightarrow> tc_ok (env_tc env) \<and> card (queue_targets env) \<le> 255"

lemma queue_targets_finite: "env_ok env \<Longrightarrow> finite (queue_targets env)"
proof -
  assume ok: "env_ok env"
  have "{Node_Target n |n. olsrv2_tc_node_get (env_tc env) n \<noteq> None} = Node_Target ` Mapping.keys (tc_tree (env_tc env))"
    by (auto simp: olsrv2_tc_node_get_def keys_lookup)
  moreover have "{Endpoint_Target p |p. \<exists>ep. olsrv2_tc_endpoint_get (env_tc env) p = Some ep \<and> Mapping.size (ep_attached ep) > 1}
      \<subseteq> Endpoint_Target ` Mapping.keys (tc_endpoint_tree (env_tc env))"
    by (auto simp: olsrv2_tc_endpoint_get_def keys_lookup)
  ultimately show ?thesis
    using ok unfolding queue_targets_def env_ok_def tc_inv_def tc_finite_def
    by (metis (no_types, lifting) finite_Un finite_imageI finite_subset)
qed

lemma tc_link_target: "env_ok env \<Longrightarrow> tc_link env nss ss n t c \<Longrightarrow> t \<in> queue_targets env \<and> c \<le> unat RFC7181_METRIC_MAX"
proof (cases t)
  case (Node_Target m)
  assume ok: "env_ok env" and l: "tc_link env nss ss n t c"
  from l Node_Target obtain e where e: "get_edge (env_tc env) n m = Some e" "c = unat (ed_cost e (env_domain env))"
    "ed_cost e (env_domain env) \<le> RFC7181_METRIC_MAX" by auto
  from ok have "tc_ok (env_tc env)" by (simp add: env_ok_def)
  from tc_inv_edges [OF this e(1)] obtain e' where "get_edge (env_tc env) m n = Some e'" by blast
  from get_edge_node_ex [OF this] e Node_Target show ?thesis by (auto simp: queue_targets_def word_le_nat_alt)
qed (auto simp: queue_targets_def word_le_nat_alt)

lemma one_hop_target: "one_hop env af nss ss h t c \<Longrightarrow> t \<in> queue_targets env \<and> c \<le> unat RFC7181_METRIC_MAX"
  by (auto simp: one_hop_def queue_targets_def word_le_nat_alt)

subsection \<open>The steps of the algorithm as relaxations\<close>

lemma update_routing_entry_nodes [simp]:
  "dj_nodes (update_routing_entry env p orig fh dist pc hops single lastorig st) = dj_nodes st"
  "dj_tree (update_routing_entry env p orig fh dist pc hops single lastorig st) = dj_tree st"
  by (auto simp: update_routing_entry_def dj_set_fault_def Let_def split: option.splits prod.splits)

lemma relaxes_same_nodes:
  assumes "relaxes B Ls st st'" "dj_nodes st'' = dj_nodes st'" "dj_tree st'' = dj_tree st'"
  shows "relaxes B Ls st st''"
proof -
  have "in_tree st'' = in_tree st'" "cost_of st'' = cost_of st'" "is_done st'' = is_done st'" "is_local st'' = is_local st'"
      "hop_of st'' = hop_of st'"
    by (rule ext, simp add: target_views assms(2,3))+
  note v = this
  have w: "working_tree_ok B st'' = working_tree_ok B st'" by (simp only: working_tree_ok_def v assms(2,3))
  show ?thesis using assms(1) unfolding relaxes_def v w .
qed

lemma relaxes_none: "dj_nodes st' = dj_nodes st \<Longrightarrow> dj_tree st' = dj_tree st \<Longrightarrow> relaxes B {} st st'"
  by (rule relaxes_same_nodes [OF relaxes_refl])

lemma relaxes_mark_other:
  assumes "t \<notin> B"
  shows "relaxes B {} st (st\<lparr>dj_nodes := (dj_nodes st)(t := (dj_nodes st t)\<lparr>dn_done := True\<rparr>)\<rparr>)" (is "relaxes B {} st ?st'")
proof -
  have v: "is_done ?st' x = (x = t \<or> is_done st x)" "is_local ?st' x = is_local st x" "in_tree ?st' x = in_tree st x"
    "cost_of ?st' x = cost_of st x" "hop_of ?st' x = hop_of st x" for x
    by (simp_all add: target_views)
  have "working_tree_ok B ?st'" if w: "working_tree_ok B st"
  proof -
    have "fst x = dn_path_cost (dj_nodes ?st' (snd x)) \<and> \<not> is_done ?st' (snd x) \<and> \<not> is_local ?st' (snd x) \<and> snd x \<in> B"
      if "x \<in> set (dj_tree st)" for x
    proof -
      from w that have x: "fst x = dn_path_cost (dj_nodes st (snd x))" "\<not> is_done st (snd x)" "\<not> is_local st (snd x)" "snd x \<in> B"
        unfolding working_tree_ok_def by blast+
      then have "snd x \<noteq> t" using assms by blast
      with x show ?thesis unfolding v by simp
    qed
    with w show ?thesis by (simp add: working_tree_ok_def)
  qed
  moreover have "\<forall>x\<in>B. is_done ?st' x = is_done st x" unfolding v using assms by blast
  ultimately show ?thesis unfolding relaxes_def by (simp add: v(2-5))
qed

definition links_from :: "routing_env \<Rightarrow> bool \<Rightarrow> bool \<Rightarrow> netaddr \<Rightarrow> olsrv2_dijkstra_node \<Rightarrow> (tc_target \<times> nat \<times> routing_neighbor option) set" where
  "links_from env nss ss n node = {(t, unat (dn_path_cost node) + c, dn_first_hop node) |t c. tc_link env nss ss n t c}"

lemma handle_edge_relaxes:
  assumes ok: "env_ok env" and nd: "olsrv2_tc_node_get (env_tc env) n = Some tc_node"
    and sum: "unat (dn_path_cost node) + unat RFC7181_METRIC_MAX < 2 ^ 32"
  shows "relaxes (queue_targets env) {l \<in> links_from env nss ss n node. fst l = Node_Target dst} st
    (handle_edge env nss n tc_node node dst st)"
proof (cases "\<exists>c. tc_link env nss ss n (Node_Target dst) c")
  case False
  then have "{l \<in> links_from env nss ss n node. fst l = Node_Target dst} = {}" by (auto simp: links_from_def)
  moreover have "handle_edge env nss n tc_node node dst st = st"
    using False nd by (auto simp: handle_edge_def get_edge_node [OF nd] split: option.splits)
  ultimately show ?thesis by (simp only: relaxes_refl)
next
  case True
  then obtain c e where c: "tc_link env nss ss n (Node_Target dst) c" and e: "get_edge (env_tc env) n dst = Some e" "\<not> ed_virtual e"
    "ed_cost e (env_domain env) \<le> RFC7181_METRIC_MAX" "c = unat (ed_cost e (env_domain env))" "nss \<or> nd_source_specific tc_node"
    using nd by auto
  have l: "{l \<in> links_from env nss ss n node. fst l = Node_Target dst} =
      {(Node_Target dst, unat (dn_path_cost node) + unat (ed_cost e (env_domain env)), dn_first_hop node)}"
    using c e nd by (auto simp: links_from_def)
  have h: "handle_edge env nss n tc_node node dst st = insert_into_working_tree (Node_Target dst) (dn_first_hop node)
      (ed_cost e (env_domain env)) (dn_path_cost node) (dn_path_hops node) 0 False (Some n) st"
    using e by (auto simp: handle_edge_def get_edge_node [OF nd])
  have "unat (ed_cost e (env_domain env)) + unat (dn_path_cost node) < 2 ^ 32"
    using sum e(3) by (simp add: word_le_nat_alt)
  then show ?thesis
    unfolding l h using tc_link_target [OF ok c] e(3) by (intro insert_relaxes) auto
qed

lemma handle_attachment_relaxes:
  assumes ok: "env_ok env" and nd: "olsrv2_tc_node_get (env_tc env) n = Some tc_node"
    and sum: "unat (dn_path_cost node) + unat RFC7181_METRIC_MAX < 2 ^ 32"
  shows "relaxes (queue_targets env) {l \<in> links_from env nss ss n node. fst l = Endpoint_Target p} st
    (handle_attachment env nss ss n tc_node node p st)"
proof (cases "\<exists>c. tc_link env nss ss n (Endpoint_Target p) c")
  case False
  then have l: "{l \<in> links_from env nss ss n node. fst l = Endpoint_Target p} = {}"
    by (auto simp: links_from_def simp del: tc_link.simps)
  show ?thesis
  proof (cases "\<exists>ep. olsrv2_tc_endpoint_get (env_tc env) p = Some ep \<and> \<not> Mapping.size (ep_attached ep) > 1")
    case True
    then have "Endpoint_Target p \<notin> queue_targets env" by (auto simp: queue_targets_def)
    from relaxes_mark_other [OF this, of st] show ?thesis
      unfolding l using True by (auto simp: handle_attachment_def intro: relaxes_same_nodes relaxes_refl split: option.splits)
  next
    case size: False
    have "handle_attachment env nss ss n tc_node node p st = st"
    proof (cases "Mapping.lookup (nd_attached tc_node) p"; cases "olsrv2_tc_endpoint_get (env_tc env) p")
      fix a ep assume a: "Mapping.lookup (nd_attached tc_node) p = Some a" "olsrv2_tc_endpoint_get (env_tc env) p = Some ep"
      with size have "Mapping.size (ep_attached ep) > 1" by blast
      with False a have "\<not> (at_cost a (env_domain env) \<le> RFC7181_METRIC_MAX \<and> (if na_prefix_len (rk_src p) > 0 then ss else nss))"
        by (simp add: get_attachment_node [OF nd])
      then show ?thesis by (simp add: handle_attachment_def a)
    qed (simp_all add: handle_attachment_def)
    then show ?thesis unfolding l by (simp only: relaxes_refl)
  qed
next
  case True
  then obtain c where c: "tc_link env nss ss n (Endpoint_Target p) c" by blast
  then obtain a ep where e: "get_attachment (env_tc env) n p = Some a"
    "olsrv2_tc_endpoint_get (env_tc env) p = Some ep" "at_cost a (env_domain env) \<le> RFC7181_METRIC_MAX"
    "c = unat (at_cost a (env_domain env))" "if na_prefix_len (rk_src p) > 0 then ss else nss" "Mapping.size (ep_attached ep) > 1"
    unfolding tc_link.simps by blast
  have l: "{l \<in> links_from env nss ss n node. fst l = Endpoint_Target p} =
      {(Endpoint_Target p, unat (dn_path_cost node) + unat (at_cost a (env_domain env)), dn_first_hop node)}"
    using c e by (auto simp: links_from_def)
  have h: "handle_attachment env nss ss n tc_node node p st = insert_into_working_tree (Endpoint_Target p) (dn_first_hop node)
      (at_cost a (env_domain env)) (dn_path_cost node) (dn_path_hops node) (at_distance a (env_domain env)) False (Some n) st"
    using e by (simp add: handle_attachment_def get_attachment_node [OF nd, symmetric])
  have "unat (at_cost a (env_domain env)) + unat (dn_path_cost node) < 2 ^ 32"
    using sum e(3) by (simp add: word_le_nat_alt)
  then show ?thesis
    unfolding l h using tc_link_target [OF ok c] e(3) by (intro insert_relaxes) auto
qed

lemma add_one_hop_node_relaxes:
  assumes ok: "env_ok env" and h: "h \<in> set (env_neighbors env)"
  shows "relaxes (queue_targets env) {(t, c, Some h) |t c. one_hop env af nss ss h t c} st
    (add_one_hop_node env af nss ss h st)"
proof (cases "\<exists>t c. one_hop env af nss ss h t c")
  case False
  then have "{(t, c, Some h) |t c. one_hop env af nss ss h t c} = {}" by auto
  moreover have "add_one_hop_node env af nss ss h st = st"
    using False h by (auto simp: add_one_hop_node_def one_hop_def not_less split: option.splits)
  ultimately show ?thesis by (simp only: relaxes_refl)
next
  case True
  then obtain t c where o: "one_hop env af nss ss h t c" by blast
  then have l: "{(t, c, Some h) |t c. one_hop env af nss ss h t c} = {(Node_Target (rn_originator h), unat (0 :: u32) + unat (rn_metric_out h), Some h)}"
    by (auto simp: one_hop_def)
  have s: "add_one_hop_node env af nss ss h st = insert_into_working_tree (Node_Target (rn_originator h)) (Some h) (rn_metric_out h) 0 0 0 True
      (olsrv2_originator_get (env_originators env) af) st"
    using o by (auto simp: add_one_hop_node_def one_hop_def not_less)
  have "unat (rn_metric_out h) + unat (0 :: u32) < 2 ^ 32" using unsigned_less [of "rn_metric_out h"] by simp
  then show ?thesis
    unfolding l s using one_hop_target [OF o] o by (intro insert_relaxes) (auto simp: one_hop_def)
qed

subsection \<open>The invariant of the loop\<close>

definition done_targets :: "routing_env \<Rightarrow> dijkstra \<Rightarrow> tc_target set" where
  "done_targets env st = {t \<in> queue_targets env. is_done st t}"

text \<open>The bound on the costs: every target done adds one metric at most.\<close>

definition cost_bound :: "routing_env \<Rightarrow> dijkstra \<Rightarrow> nat" where
  "cost_bound env st = unat RFC7181_METRIC_MAX * (card (done_targets env st) + 1)"

definition dijkstra_inv :: "routing_env \<Rightarrow> u8 \<Rightarrow> bool \<Rightarrow> bool \<Rightarrow> (tc_target \<Rightarrow> bool) \<Rightarrow> dijkstra \<Rightarrow> bool" where
  "dijkstra_inv env af nss ss loc st \<longleftrightarrow>
     working_tree_ok (queue_targets env) st \<and> (\<forall>x. is_local st x = loc x) \<and>
     (\<forall>x. in_tree st x \<longrightarrow> (\<exists>h. hop_of st x = Some h \<and> tc_path env af nss ss loc h x (cost_of st x)) \<and> cost_of st x \<le> cost_bound env st) \<and>
     (\<forall>x\<in>done_targets env st. (\<exists>h. hop_of st x = Some h \<and> tc_path env af nss ss loc h x (cost_of st x)) \<and>
        (\<forall>h c. tc_path env af nss ss loc h x c \<longrightarrow> cost_of st x \<le> c)) \<and>
     (\<forall>h t c. one_hop env af nss ss h t c \<longrightarrow> \<not> loc t \<longrightarrow> is_done st t \<or> in_tree st t \<and> cost_of st t \<le> c) \<and>
     (\<forall>n t c. Node_Target n \<in> done_targets env st \<longrightarrow> tc_link env nss ss n t c \<longrightarrow> \<not> loc t \<longrightarrow>
        is_done st t \<or> in_tree st t \<and> cost_of st t \<le> cost_of st (Node_Target n) + c)"

lemma dijkstra_invD:
  assumes "dijkstra_inv env af nss ss loc st"
  shows "working_tree_ok (queue_targets env) st" "is_local st x = loc x"
    "in_tree st x \<Longrightarrow> \<exists>h. hop_of st x = Some h \<and> tc_path env af nss ss loc h x (cost_of st x)"
    "in_tree st x \<Longrightarrow> cost_of st x \<le> cost_bound env st"
    "x \<in> done_targets env st \<Longrightarrow> \<exists>h. hop_of st x = Some h \<and> tc_path env af nss ss loc h x (cost_of st x)"
    "x \<in> done_targets env st \<Longrightarrow> tc_path env af nss ss loc h x c \<Longrightarrow> cost_of st x \<le> c"
    "one_hop env af nss ss h t c \<Longrightarrow> \<not> loc t \<Longrightarrow> is_done st t \<or> in_tree st t \<and> cost_of st t \<le> c"
    "Node_Target n \<in> done_targets env st \<Longrightarrow> tc_link env nss ss n t c \<Longrightarrow> \<not> loc t \<Longrightarrow>
        is_done st t \<or> in_tree st t \<and> cost_of st t \<le> cost_of st (Node_Target n) + c"
  using assms unfolding dijkstra_inv_def by blast+

lemma tc_path_target: "env_ok env \<Longrightarrow> tc_path env af nss ss loc h x c \<Longrightarrow> x \<in> queue_targets env"
  by (erule tc_path.cases) (use one_hop_target tc_link_target in blast)+

text \<open>Every path to a target that is not done leaves the done targets through the working tree.\<close>

lemma path_frontier:
  assumes ok: "env_ok env" and inv: "dijkstra_inv env af nss ss loc st"
  shows "tc_path env af nss ss loc h x c \<Longrightarrow> x \<in> done_targets env st \<or> (\<exists>y. in_tree st y \<and> cost_of st y \<le> c)"
proof (induction rule: tc_path.induct)
  case (start h t c)
  with dijkstra_invD(7) [OF inv start(1,2)] one_hop_target [OF start(1)] show ?case by (auto simp: done_targets_def)
next
  case (step h n k t c)
  show ?case
  proof (cases "Node_Target n \<in> done_targets env st")
    case True
    from dijkstra_invD(6) [OF inv True step(1)] have k: "cost_of st (Node_Target n) \<le> k" .
    from dijkstra_invD(8) [OF inv True step(2,3)] tc_link_target [OF ok step(2)] k show ?thesis
      by (force simp: done_targets_def)
  next
    case False
    with step.IH show ?thesis by (force simp: trans_le_add1)
  qed
qed

lemma pop_tree:
  assumes w: "working_tree_ok B st" and tree: "dj_tree st = (k, t) # rest"
    and st': "dj_tree st' = rest" "dj_nodes st' = (dj_nodes st)(t := (dj_nodes st t)\<lparr>dn_done := True\<rparr>)"
  shows "working_tree_ok B st'" "in_tree st' x \<longleftrightarrow> in_tree st x \<and> x \<noteq> t" "cost_of st' x = cost_of st x" "hop_of st' x = hop_of st x"
    "is_local st' x = is_local st x" "is_done st' x \<longleftrightarrow> x = t \<or> is_done st x" "t \<in> B" "\<not> is_done st t" "in_tree st t" "\<not> is_local st t"
proof -
  have t: "t \<notin> snd ` set rest" "distinct (map snd rest)" using w tree by (auto simp: working_tree_ok_def)
  show v: "cost_of st' x = cost_of st x" "hop_of st' x = hop_of st x"
    "is_local st' x = is_local st x" "is_done st' x \<longleftrightarrow> x = t \<or> is_done st x" for x
    by (simp_all add: target_views st')
  show it: "in_tree st' x \<longleftrightarrow> in_tree st x \<and> x \<noteq> t" for x
    using t by (auto simp: in_tree_def tree st')
  show "t \<in> B" "\<not> is_done st t" "in_tree st t" "\<not> is_local st t" using w tree by (auto simp: working_tree_ok_def in_tree_def)
  have "tree_sorted working_comp rest" using w tree by (simp add: working_tree_ok_def tree_sorted_def)
  moreover have "fst y = dn_path_cost (dj_nodes st' (snd y)) \<and> \<not> is_done st' (snd y) \<and> \<not> is_local st' (snd y) \<and> snd y \<in> B"
    if y: "y \<in> set rest" for y
  proof -
    have "snd y \<noteq> t" using t(1) y by blast
    moreover have "fst y = dn_path_cost (dj_nodes st (snd y)) \<and> \<not> is_done st (snd y) \<and> \<not> is_local st (snd y) \<and> snd y \<in> B"
      using w tree y unfolding working_tree_ok_def by simp
    ultimately show ?thesis by (simp add: v st'(2))
  qed
  ultimately show "working_tree_ok B st'" using t(2) by (simp add: working_tree_ok_def st'(1))
qed

lemma metric_max_nat: "unat RFC7181_METRIC_MAX = 16776960"
  by (simp add: RFC7181_METRIC_MAX_def)

text \<open>The links a popped target offers.\<close>

definition popped_links :: "routing_env \<Rightarrow> bool \<Rightarrow> bool \<Rightarrow> tc_target \<Rightarrow> olsrv2_dijkstra_node \<Rightarrow> (tc_target \<times> nat \<times> routing_neighbor option) set" where
  "popped_links env nss ss t node = (case t of Node_Target n \<Rightarrow> links_from env nss ss n node | Endpoint_Target p \<Rightarrow> {})"

lemma links_union:
  assumes nd: "olsrv2_tc_node_get (env_tc env) n = Some tc_node" and ok: "env_ok env"
  shows "(\<Union>m\<in>set (Mapping.ordered_keys (nd_edges tc_node)). {l \<in> links_from env nss ss n node. fst l = Node_Target m}) \<union>
    (\<Union>p\<in>set (Mapping.ordered_keys (nd_attached tc_node)). {l \<in> links_from env nss ss n node. fst l = Endpoint_Target p})
    = links_from env nss ss n node" (is "?E \<union> ?A = ?L")
proof (rule subset_antisym)
  have fin: "finite (Mapping.keys (nd_edges tc_node))" "finite (Mapping.keys (nd_attached tc_node))"
    using ok nd unfolding env_ok_def tc_inv_def tc_finite_def by blast+
  show "?L \<subseteq> ?E \<union> ?A"
  proof
    fix l assume l: "l \<in> ?L"
    then obtain t c where t: "tc_link env nss ss n t c" "fst l = t" by (auto simp: links_from_def simp del: tc_link.simps)
    show "l \<in> ?E \<union> ?A"
    proof (cases t)
      case (Node_Target m)
      with t(1) have "get_edge (env_tc env) n m \<noteq> None" by auto
      then have "m \<in> set (Mapping.ordered_keys (nd_edges tc_node))"
        using ordered_keys_finite [OF fin(1)] node_edge_keys [OF nd] by simp
      with l t(2) Node_Target show ?thesis by blast
    next
      case (Endpoint_Target p)
      with t(1) have "get_attachment (env_tc env) n p \<noteq> None" by auto
      then have "p \<in> set (Mapping.ordered_keys (nd_attached tc_node))"
        using ordered_keys_finite [OF fin(2)] by (simp add: get_attachment_node [OF nd] keys_lookup)
      with l t(2) Endpoint_Target show ?thesis by blast
    qed
  qed
qed blast

lemma handle_working_queue_relaxes:
  assumes ok: "env_ok env" and w: "working_tree_ok (queue_targets env) st" and tree: "dj_tree st = (k, t) # rest"
    and sum: "cost_of st t + unat RFC7181_METRIC_MAX < 2 ^ 32"
  shows "\<exists>st1. dj_tree st1 = rest \<and> dj_nodes st1 = (dj_nodes st)(t := (dj_nodes st t)\<lparr>dn_done := True\<rparr>) \<and>
    relaxes (queue_targets env) (popped_links env nss ss t (dj_nodes st t)) st1 (handle_working_queue env nss ss st)"
proof -
  let ?node = "(dj_nodes st t)\<lparr>dn_done := True\<rparr>"
  let ?st1 = "st\<lparr>dj_tree := rest, dj_nodes := (dj_nodes st)(t := ?node)\<rparr>"
  let ?st2 = "if nss then update_routing_entry env (target_prefix t) (target_originator env t) (dn_first_hop ?node) (dn_distance ?node)
    (dn_path_cost ?node) (dn_path_hops ?node) (dn_single_hop ?node) (dn_last_originator ?node) ?st1 else ?st1"
  have st2: "dj_tree ?st2 = rest" "dj_nodes ?st2 = (dj_nodes st)(t := ?node)" by simp_all
  have "relaxes (queue_targets env) (popped_links env nss ss t (dj_nodes st t)) ?st2 (handle_working_queue env nss ss st)"
  proof (cases t)
    case (Endpoint_Target p)
    then have "handle_working_queue env nss ss st = ?st2" by (simp add: handle_working_queue_def tree Let_def)
    then show ?thesis using Endpoint_Target by (simp only: popped_links_def tc_target.case relaxes_refl)
  next
    case (Node_Target n)
    have "t \<in> queue_targets env" using pop_tree(7) [OF w tree, of ?st1] by simp
    then obtain tc_node where nd: "olsrv2_tc_node_get (env_tc env) n = Some tc_node" using Node_Target by (auto simp: queue_targets_def)
    let ?es = "Mapping.ordered_keys (nd_edges tc_node)" and ?as = "Mapping.ordered_keys (nd_attached tc_node)"
    have q: "handle_working_queue env nss ss st = fold (handle_attachment env nss ss n tc_node ?node) ?as
        (fold (handle_edge env nss n tc_node ?node) ?es ?st2)"
      using Node_Target nd by (simp add: handle_working_queue_def tree Let_def)
    have s: "unat (dn_path_cost ?node) + unat RFC7181_METRIC_MAX < 2 ^ 32" using sum by (simp add: cost_of_def)
    have sub: "fst ` {l \<in> links_from env nss ss n ?node. P l} \<subseteq> queue_targets env" for P
      using tc_link_target [OF ok] by (auto simp: links_from_def simp del: tc_link.simps)
    let ?Es = "\<Union>m\<in>set ?es. {l \<in> links_from env nss ss n ?node. fst l = Node_Target m}"
    let ?As = "\<Union>p\<in>set ?as. {l \<in> links_from env nss ss n ?node. fst l = Endpoint_Target p}"
    have "relaxes (queue_targets env) (?Es \<union> ?As) ?st2 (handle_working_queue env nss ss st)"
      unfolding q
    proof (rule relaxes_trans)
      show "relaxes (queue_targets env) ?Es ?st2 (fold (handle_edge env nss n tc_node ?node) ?es ?st2)"
        by (rule relaxes_fold [OF handle_edge_relaxes [OF ok nd s] sub])
      show "relaxes (queue_targets env) ?As (fold (handle_edge env nss n tc_node ?node) ?es ?st2)
          (fold (handle_attachment env nss ss n tc_node ?node) ?as (fold (handle_edge env nss n tc_node ?node) ?es ?st2))"
        by (rule relaxes_fold [OF handle_attachment_relaxes [OF ok nd s] sub])
      show "fst ` ?As \<subseteq> queue_targets env" using sub by blast
    qed
    then have "relaxes (queue_targets env) (links_from env nss ss n ?node) ?st2 (handle_working_queue env nss ss st)"
      by (simp only: links_union [OF nd ok])
    moreover have "links_from env nss ss n ?node = links_from env nss ss n (dj_nodes st t)" by (simp add: links_from_def)
    ultimately show ?thesis using Node_Target by (simp only: popped_links_def tc_target.case)
  qed
  with st2 show ?thesis by blast
qed

subsection \<open>The invariant is kept, and the loop ends\<close>

lemma relaxesD:
  assumes "relaxes B Ls st st'"
  shows "working_tree_ok B st \<Longrightarrow> working_tree_ok B st'"
    "x \<in> B \<Longrightarrow> is_done st' x = is_done st x" "is_local st' x = is_local st x"
    "in_tree st x \<Longrightarrow> in_tree st' x \<and> cost_of st' x \<le> cost_of st x"
    "in_tree st' x \<Longrightarrow> (in_tree st x \<and> cost_of st' x = cost_of st x \<and> hop_of st' x = hop_of st x) \<or>
       (x, cost_of st' x, hop_of st' x) \<in> Ls \<and> \<not> is_done st x \<and> \<not> is_local st x"
    "(x, c, h) \<in> Ls \<Longrightarrow> x \<in> B \<Longrightarrow> \<not> is_done st x \<Longrightarrow> \<not> is_local st x \<Longrightarrow> in_tree st' x \<and> cost_of st' x \<le> c"
    "x \<in> B \<Longrightarrow> is_done st x \<Longrightarrow> cost_of st' x = cost_of st x \<and> hop_of st' x = hop_of st x"
  using assms unfolding relaxes_def by blast+

lemma cost_room:
  assumes c: "c \<le> cost_bound env st" and small: "card (done_targets env st) \<le> 254"
  shows "c + unat RFC7181_METRIC_MAX < 2 ^ 32"
proof -
  have "cost_bound env st \<le> 16776960 * 255"
    unfolding cost_bound_def metric_max_nat using small by (intro mult_le_mono2) simp
  with c show ?thesis by (simp add: metric_max_nat)
qed

lemma working_queue_inv:
  assumes ok: "env_ok env" and inv: "dijkstra_inv env af nss ss loc st" and tree: "dj_tree st = (k, t) # rest"
  shows "dijkstra_inv env af nss ss loc (handle_working_queue env nss ss st) \<and>
    card (queue_targets env - done_targets env (handle_working_queue env nss ss st)) < card (queue_targets env - done_targets env st)"
proof -
  let ?st' = "handle_working_queue env nss ss st" and ?B = "queue_targets env"
  note D = dijkstra_invD [OF inv]
  have finB: "finite ?B" by (rule queue_targets_finite [OF ok])
  have tt: "t \<in> ?B" "\<not> is_done st t" "in_tree st t" "\<not> is_local st t"
    using pop_tree [OF D(1) tree, of "st\<lparr>dj_tree := rest, dj_nodes := (dj_nodes st)(t := (dj_nodes st t)\<lparr>dn_done := True\<rparr>)\<rparr>"] by simp_all
  have "done_targets env st \<subset> ?B" using tt by (auto simp: done_targets_def)
  then have "card (done_targets env st) < card ?B" using finB by (rule psubset_card_mono [rotated])
  then have c254: "card (done_targets env st) \<le> 254" using ok by (simp add: env_ok_def)
  obtain st1 where st1: "dj_tree st1 = rest" "dj_nodes st1 = (dj_nodes st)(t := (dj_nodes st t)\<lparr>dn_done := True\<rparr>)"
    and rel: "relaxes ?B (popped_links env nss ss t (dj_nodes st t)) st1 ?st'"
    using handle_working_queue_relaxes [OF ok D(1) tree cost_room [OF D(4) [OF tt(3)] c254]] by blast
  note P = pop_tree [OF D(1) tree st1]
  note R = relaxesD [OF rel]
  have loc: "is_local ?st' x = loc x" "is_local st1 x = loc x" for x using R(3) P(5) D(2) by simp_all
  have dn: "is_done ?st' x \<longleftrightarrow> x = t \<or> is_done st x" if "x \<in> ?B" for x using R(2) [OF that] P(6) by simp
  have dt: "done_targets env ?st' = insert t (done_targets env st)"
    using dn tt(1) by (auto simp: done_targets_def)
  have fin: "finite (done_targets env st)" using finB by (rule finite_subset [rotated]) (auto simp: done_targets_def)
  have "t \<notin> done_targets env st" using tt(2) by (simp add: done_targets_def)
  then have cb: "cost_bound env ?st' = cost_bound env st + unat RFC7181_METRIC_MAX"
    using fin by (simp add: cost_bound_def dt)
  have same: "cost_of ?st' x = cost_of st x" "hop_of ?st' x = hop_of st x" if "x \<in> done_targets env ?st'" for x
  proof -
    have "x \<in> ?B" "is_done st1 x" using that dn P(6) by (auto simp: done_targets_def)
    from R(7) [OF this] show "cost_of ?st' x = cost_of st x" "hop_of ?st' x = hop_of st x" using P(3,4) by simp_all
  qed
  obtain h0 where h0: "hop_of st t = Some h0" "tc_path env af nss ss loc h0 t (cost_of st t)" using D(3) [OF tt(3)] by blast
  have link: "\<exists>n d. t = Node_Target n \<and> tc_link env nss ss n x d \<and> c = cost_of st t + d \<and> h = Some h0"
    if "(x, c, h) \<in> popped_links env nss ss t (dj_nodes st t)" for x c h
    using that h0(1) by (auto simp: popped_links_def links_from_def cost_of_def hop_of_def simp del: tc_link.simps split: tc_target.splits)
  have kept: "is_done ?st' x \<or> in_tree ?st' x \<and> cost_of ?st' x \<le> c"
    if "x \<in> ?B" "is_done st x \<or> in_tree st x \<and> cost_of st x \<le> c" for x c
  proof (cases "is_done st1 x")
    case True then show ?thesis using dn [OF that(1)] P(6) by simp
  next
    case False
    then have "in_tree st1 x" "cost_of st1 x \<le> c" using that(2) P(2,3,6) by auto
    with R(4) show ?thesis by (blast intro: le_trans)
  qed
  have tree': "(\<exists>h. hop_of ?st' x = Some h \<and> tc_path env af nss ss loc h x (cost_of ?st' x)) \<and> cost_of ?st' x \<le> cost_bound env ?st'"
    if x: "in_tree ?st' x" for x
    using R(5) [OF x]
  proof (elim disjE conjE)
    assume a: "in_tree st1 x" "cost_of ?st' x = cost_of st1 x" "hop_of ?st' x = hop_of st1 x"
    then have "in_tree st x" using P(2) by blast
    from D(3) [OF this] D(4) [OF this] a P(3,4) cb show ?thesis by (simp add: trans_le_add1)
  next
    assume a: "(x, cost_of ?st' x, hop_of ?st' x) \<in> popped_links env nss ss t (dj_nodes st t)" "\<not> is_local st1 x"
    from link [OF a(1)] obtain n d where l: "t = Node_Target n" "tc_link env nss ss n x d" "cost_of ?st' x = cost_of st t + d"
      "hop_of ?st' x = Some h0" by blast
    have "tc_path env af nss ss loc h0 x (cost_of st t + d)"
      using h0(2) l(1,2) a(2) loc(2) by (intro tc_path.step [of env af nss ss loc h0 n]) simp_all
    moreover have "d \<le> unat RFC7181_METRIC_MAX" using tc_link_target [OF ok l(2)] by simp
    ultimately show ?thesis using l D(4) [OF tt(3)] cb by simp
  qed
  have least: "cost_of st t \<le> c" if "tc_path env af nss ss loc h t c" for h c
    using path_frontier [OF ok inv that] \<open>t \<notin> done_targets env st\<close> sorted_head_least [OF D(1) tree] by (blast intro: le_trans)
  have done': "(\<exists>h. hop_of ?st' x = Some h \<and> tc_path env af nss ss loc h x (cost_of ?st' x)) \<and>
      (\<forall>h c. tc_path env af nss ss loc h x c \<longrightarrow> cost_of ?st' x \<le> c)" if x: "x \<in> done_targets env ?st'" for x
  proof (cases "x = t")
    case True with h0 least same [OF x] show ?thesis by simp
  next
    case False
    then have "x \<in> done_targets env st" using x dt by blast
    from D(5) [OF this] D(6) [OF this] same [OF x] show ?thesis by auto
  qed
  have one: "is_done ?st' x \<or> in_tree ?st' x \<and> cost_of ?st' x \<le> c" if "one_hop env af nss ss h x c" "\<not> loc x" for h x c
    using D(7) [OF that] one_hop_target [OF that(1)] by (intro kept) simp_all
  have lnk: "is_done ?st' x \<or> in_tree ?st' x \<and> cost_of ?st' x \<le> cost_of ?st' (Node_Target n) + c"
    if n: "Node_Target n \<in> done_targets env ?st'" and l: "tc_link env nss ss n x c" and x: "\<not> loc x" for n x c
  proof (cases "Node_Target n = t")
    case True
    have "(x, cost_of st t + c, hop_of st t) \<in> popped_links env nss ss t (dj_nodes st t)"
      unfolding True [symmetric] using l by (auto simp: popped_links_def links_from_def cost_of_def hop_of_def simp del: tc_link.simps)
    from R(6) [OF this] tc_link_target [OF ok l] x loc(2) R(2) show ?thesis using same(1) [OF n] True by auto
  next
    case False
    then have "Node_Target n \<in> done_targets env st" using n dt by blast
    from D(8) [OF this l x] tc_link_target [OF ok l] show ?thesis
      unfolding same(1) [OF n] by (intro kept) simp_all
  qed
  have "dijkstra_inv env af nss ss loc ?st'"
    unfolding dijkstra_inv_def using R(1) [OF P(1)] loc(1) tree' done' one lnk by blast
  moreover have "card (?B - done_targets env ?st') < card (?B - done_targets env st)"
    using finB tt(1) \<open>t \<notin> done_targets env st\<close> unfolding dt by (intro psubset_card_mono) auto
  ultimately show ?thesis by blast
qed

lemma working_queue_loop_ends:
  assumes ok: "env_ok env" and inv: "dijkstra_inv env af nss ss loc st"
  shows "\<exists>st'. working_queue_loop env nss ss st = Some st' \<and> dijkstra_inv env af nss ss loc st' \<and> dj_tree st' = []"
  using inv
proof (induction "card (queue_targets env - done_targets env st)" arbitrary: st rule: less_induct)
  case less
  show ?case
  proof (cases "dj_tree st")
    case Nil
    with less.prems show ?thesis by (subst working_queue_loop.simps) simp
  next
    case (Cons a rest)
    obtain k t where "a = (k, t)" by (cases a)
    with Cons have tree: "dj_tree st = (k, t) # rest" by simp
    from working_queue_inv [OF ok less.prems tree]
    have step: "dijkstra_inv env af nss ss loc (handle_working_queue env nss ss st)"
      "card (queue_targets env - done_targets env (handle_working_queue env nss ss st)) < card (queue_targets env - done_targets env st)"
      by blast+
    from less.hyps [OF step(2,1)] show ?thesis
      using Cons by (subst working_queue_loop.simps) simp
  qed
qed

lemma one_hop_inv:
  assumes ok: "env_ok env" and tree: "dj_tree st = []" and fresh: "\<forall>x\<in>queue_targets env. \<not> is_done st x"
  shows "dijkstra_inv env af nss ss (is_local st) (add_one_hop_nodes env af nss ss st)"
proof -
  let ?B = "queue_targets env" and ?st' = "add_one_hop_nodes env af nss ss st"
  let ?L = "\<Union>h\<in>set (env_neighbors env). {(t, c, Some h) |t c. one_hop env af nss ss h t c}"
  have sub: "fst ` {(t, c, Some h) |t c. one_hop env af nss ss h t c} \<subseteq> ?B" for h using one_hop_target by auto
  have rel: "relaxes ?B ?L st ?st'"
    unfolding add_one_hop_nodes_def by (rule relaxes_fold [OF add_one_hop_node_relaxes [OF ok] sub])
  note R = relaxesD [OF rel]
  have none: "\<not> in_tree st x" for x by (simp add: in_tree_def tree)
  have w: "working_tree_ok ?B st" by (simp add: working_tree_ok_def tree tree_sorted_def)
  have dn: "done_targets env ?st' = {}" using R(2) fresh by (auto simp: done_targets_def)
  have it: "\<exists>h. one_hop env af nss ss h x (cost_of ?st' x) \<and> hop_of ?st' x = Some h \<and> \<not> is_local st x" if "in_tree ?st' x" for x
    using R(5) [OF that] none by auto
  have 1: "(\<exists>h. hop_of ?st' x = Some h \<and> tc_path env af nss ss (is_local st) h x (cost_of ?st' x)) \<and> cost_of ?st' x \<le> cost_bound env ?st'"
    if x: "in_tree ?st' x" for x
  proof -
    from it [OF x] obtain h where h: "one_hop env af nss ss h x (cost_of ?st' x)" "hop_of ?st' x = Some h" "\<not> is_local st x" by blast
    from one_hop_target [OF h(1)] have "cost_of ?st' x \<le> cost_bound env ?st'" by (simp add: cost_bound_def dn)
    with h show ?thesis by (blast intro: tc_path.start)
  qed
  have 2: "is_done ?st' t \<or> in_tree ?st' t \<and> cost_of ?st' t \<le> c" if o: "one_hop env af nss ss h t c" "\<not> is_local st t" for h t c
  proof -
    have "(t, c, Some h) \<in> ?L" using o(1) by (auto simp: one_hop_def)
    from R(6) [OF this] one_hop_target [OF o(1)] fresh o(2) show ?thesis by blast
  qed
  show ?thesis
    unfolding dijkstra_inv_def dn using R(1) [OF w] R(3) 1 2 by simp
qed

lemma prepare_nodes_fresh: "\<forall>x\<in>queue_targets env. \<not> is_done (prepare_nodes env st) x"
  by (auto simp: queue_targets_def is_done_def prepare_nodes_def Let_def)

lemma run_dijkstra_inv:
  assumes ok: "env_ok env" and tree: "dj_tree st = []"
  shows "\<exists>st'. run_dijkstra env af nss ss (prepare_nodes env st) = Some st' \<and> dj_tree st' = [] \<and>
    dijkstra_inv env af nss ss (is_local (prepare_nodes env st)) st'"
proof -
  have "dj_tree (prepare_nodes env st) = []" using tree by (simp add: prepare_nodes_def)
  from working_queue_loop_ends [OF ok one_hop_inv [OF ok this prepare_nodes_fresh]] show ?thesis
    unfolding run_dijkstra_def by blast
qed

lemma run_dijkstra_done:
  assumes ok: "env_ok env" and inv: "dijkstra_inv env af nss ss loc st'" and tree: "dj_tree st' = []" and t: "t \<in> queue_targets env"
  shows "is_done st' t \<longleftrightarrow> (\<exists>h c. tc_path env af nss ss loc h t c)"
proof
  assume "is_done st' t"
  then have "t \<in> done_targets env st'" using t by (simp add: done_targets_def)
  from dijkstra_invD(5) [OF inv this] show "\<exists>h c. tc_path env af nss ss loc h t c" by blast
next
  assume "\<exists>h c. tc_path env af nss ss loc h t c"
  then obtain h c where "tc_path env af nss ss loc h t c" by blast
  from path_frontier [OF ok inv this] show "is_done st' t" by (simp add: in_tree_def tree done_targets_def)
qed

text \<open>
  C2: The Dijkstra loop ends and computes shortest paths: for a topology database that satisfies its invariant and has at
  most 255 targets (so that no sum of metrics wraps around in 32 bits), exactly the targets that some path
  reaches are marked done, and each of them carries the least cost of all its paths and, as first hop, a neighbor from which a path of that cost starts. Nodes
  that are the router itself are never entered.
\<close>

theorem dijkstra_shortest_paths:
  assumes ok: "env_ok env" and tree: "dj_tree st = []"
  shows "\<exists>st'. run_dijkstra env af nss ss (prepare_nodes env st) = Some st' \<and> dj_tree st' = [] \<and>
    (\<forall>t\<in>queue_targets env.
       (dn_done (dj_nodes st' t) \<longleftrightarrow> (\<exists>h c. tc_path env af nss ss (is_local (prepare_nodes env st)) h t c)) \<and>
       (dn_done (dj_nodes st' t) \<longrightarrow>
          (\<exists>h. dn_first_hop (dj_nodes st' t) = Some h \<and>
             tc_path env af nss ss (is_local (prepare_nodes env st)) h t (unat (dn_path_cost (dj_nodes st' t)))) \<and>
          (\<forall>h c. tc_path env af nss ss (is_local (prepare_nodes env st)) h t c \<longrightarrow> unat (dn_path_cost (dj_nodes st' t)) \<le> c)))"
proof -
  let ?loc = "is_local (prepare_nodes env st)"
  from run_dijkstra_inv [OF ok tree] obtain st' where st': "run_dijkstra env af nss ss (prepare_nodes env st) = Some st'"
    "dijkstra_inv env af nss ss ?loc st'" "dj_tree st' = []" by blast
  have "(is_done st' t \<longleftrightarrow> (\<exists>h c. tc_path env af nss ss ?loc h t c)) \<and>
      (is_done st' t \<longrightarrow> (\<exists>h. hop_of st' t = Some h \<and> tc_path env af nss ss ?loc h t (cost_of st' t)) \<and>
        (\<forall>h c. tc_path env af nss ss ?loc h t c \<longrightarrow> cost_of st' t \<le> c))" if t: "t \<in> queue_targets env" for t
    using run_dijkstra_done [OF ok st'(2,3) t] dijkstra_invD(5,6) [OF st'(2), of t] t by (auto simp: done_targets_def)
  with st'(1,3) show ?thesis unfolding target_views by blast
qed

text \<open>A router with one neighbor.\<close>

definition demo_addr :: netaddr where
  "demo_addr = \<lparr>na_addr = replicate 16 1, na_type = AF_INET, na_prefix_len = 32\<rparr>"

definition demo_neighbor :: routing_neighbor where
  "demo_neighbor = \<lparr>rn_originator = demo_addr, rn_symmetric = 1, rn_metric_in = 10, rn_metric_out = 20, rn_best_link_ifindex = 1,
     rn_best_out_link = Some demo_addr, rn_addresses = [], rn_2hop = []\<rparr>"

definition demo_env :: routing_env where
  "demo_env = \<lparr>env_domain = 0, env_tc = snd (olsrv2_tc_node_add True demo_addr 100 7 olsrv2_tc_init),
     env_originators = \<lparr>originator_v4 = NETADDR_UNSPEC, originator_v6 = NETADDR_UNSPEC, originator_set = Mapping.empty, or_nhdp = []\<rparr>,
     env_lan = Mapping.empty, env_neighbors = [demo_neighbor], env_own_address = (\<lambda>_. False), env_routable = (\<lambda>_. True),
     env_nhdp_routable = (\<lambda>_. True), env_alloc = (\<lambda>_. True)\<rparr>"

definition demo_dijkstra :: dijkstra where
  "demo_dijkstra = \<lparr>dj_nodes = (\<lambda>_. \<lparr>dn_path_cost = 0, dn_path_hops = 0, dn_distance = 0, dn_first_hop = None,
     dn_last_originator = None, dn_single_hop = False, dn_local = False, dn_done = False\<rparr>), dj_tree = [],
     dj_routes = Mapping.empty, dj_fault = None\<rparr>"

lemma demo_env_tc: "env_tc demo_env = snd (olsrv2_tc_node_add True demo_addr 100 7 olsrv2_tc_init)"
  by (simp add: demo_env_def)

lemma demo_env_reachable: "tc_reachable (env_tc demo_env)"
  unfolding demo_env_tc by (rule tc_reachable.step [OF tc_reachable.init, of "Add_Node True demo_addr 100 7"]) simp_all

lemma demo_env_node: "olsrv2_tc_node_get (env_tc demo_env) n = None \<longleftrightarrow> n \<noteq> demo_addr"
  unfolding demo_env_tc by (simp add: olsrv2_tc_node_add_def Let_def node_get_init get_tree insert_node_simps)

lemma demo_env_endpoint: "olsrv2_tc_endpoint_get (env_tc demo_env) p = None"
  unfolding demo_env_tc
  by (simp add: olsrv2_tc_node_add_def Let_def node_get_init get_tree delete_node_simps)
     (simp add: olsrv2_tc_init_def olsrv2_tc_endpoint_get_def)

lemma demo_env_ok: "env_ok demo_env" and demo_env_targets: "queue_targets demo_env = {Node_Target demo_addr}"
proof -
  show q: "queue_targets demo_env = {Node_Target demo_addr}"
    by (auto simp: queue_targets_def demo_env_node demo_env_endpoint)
  show "env_ok demo_env" using tc_reachable_ok [OF demo_env_reachable] by (simp add: env_ok_def q)
qed

lemma demo_env_path: "tc_path demo_env AF_INET True False (is_local (prepare_nodes demo_env demo_dijkstra)) demo_neighbor (Node_Target demo_addr) 20"
proof (rule tc_path.start)
  obtain node where "olsrv2_tc_node_get (env_tc demo_env) demo_addr = Some node"
    using demo_env_node [of demo_addr] by auto
  then show "one_hop demo_env AF_INET True False demo_neighbor (Node_Target demo_addr) 20"
    by (simp add: one_hop_def demo_neighbor_def RFC7181_METRIC_MAX_def demo_addr_def) (simp add: demo_env_def demo_neighbor_def demo_addr_def)
  have "\<not> olsrv2_originator_is_local (env_originators demo_env) demo_addr"
    by (simp add: olsrv2_originator_is_local_def demo_env_def netaddr_cmp_zero netaddr_wf_def NETADDR_UNSPEC_def demo_addr_def af_defs)
  then show "\<not> is_local (prepare_nodes demo_env demo_dijkstra) (Node_Target demo_addr)"
    by (simp add: is_local_def prepare_nodes_def Let_def demo_env_node)
qed

lemma dijkstra_shortest_paths_witness:
  "\<exists>st'. run_dijkstra demo_env AF_INET True False (prepare_nodes demo_env demo_dijkstra) = Some st' \<and>
     dn_done (dj_nodes st' (Node_Target demo_addr)) \<and> unat (dn_path_cost (dj_nodes st' (Node_Target demo_addr))) \<le> 20"
proof -
  have "dj_tree demo_dijkstra = []" by (simp add: demo_dijkstra_def)
  from dijkstra_shortest_paths [OF demo_env_ok this, of AF_INET True False] demo_env_path
  show ?thesis unfolding demo_env_targets by blast
qed

subsection \<open>Multi-homed source-specific prefixes\<close>

lemma working_queue_loop_keeps:
  assumes step: "\<And>st. I st \<Longrightarrow> dj_tree st \<noteq> [] \<Longrightarrow> I (handle_working_queue env nss ss st)"
    and loop: "working_queue_loop env nss ss st = Some st'" and st: "I st"
  shows "I st'"
proof -
  have "env = env \<longrightarrow> nss = nss \<longrightarrow> ss = ss \<longrightarrow> I st \<longrightarrow> I st'"
  proof (rule working_queue_loop.raw_induct [of "\<lambda>e n s st st'. e = env \<longrightarrow> n = nss \<longrightarrow> s = ss \<longrightarrow> I st \<longrightarrow> I st'", OF _ loop])
    fix loop :: "routing_env \<Rightarrow> bool \<Rightarrow> bool \<Rightarrow> dijkstra \<Rightarrow> dijkstra option" and e n s st st'
    assume ih: "\<And>e n s st st'. loop e n s st = Some st' \<Longrightarrow> e = env \<longrightarrow> n = nss \<longrightarrow> s = ss \<longrightarrow> I st \<longrightarrow> I st'"
      and r: "(if dj_tree st = [] then Some st else loop e n s (handle_working_queue e n s st)) = Some st'"
    show "e = env \<longrightarrow> n = nss \<longrightarrow> s = ss \<longrightarrow> I st \<longrightarrow> I st'"
    proof (cases "dj_tree st = []")
      case True with r show ?thesis by simp
    next
      case False
      with r have "loop e n s (handle_working_queue e n s st) = Some st'" by simp
      from ih [OF this] step False show ?thesis by blast
    qed
  qed
  with st show ?thesis by blast
qed

text \<open>What the two kinds of runs leave of the route to \<open>p\<close>.\<close>

definition route_kept :: "os_route_key \<Rightarrow> dijkstra \<Rightarrow> dijkstra \<Rightarrow> bool" where
  "route_kept p st st' \<longleftrightarrow> Mapping.lookup (dj_routes st') p = Mapping.lookup (dj_routes st) p"

lemma update_other_route:
  "q \<noteq> p \<Longrightarrow> route_kept p st (update_routing_entry env q orig fh dist pc hops single lastorig st)"
  by (auto simp: route_kept_def update_routing_entry_def dj_set_fault_def add_entry_def Let_def lookup_update'
      split: option.splits if_splits)

lemma insert_routes [simp]: "dj_routes (insert_into_working_tree t h l pc hops d s lo st) = dj_routes st"
  by (simp add: insert_into_working_tree_def Let_def)

lemma insert_tree_targets: "in_tree (insert_into_working_tree t h l pc hops d s lo st) x \<Longrightarrow> x = t \<or> in_tree st x"
  by (auto simp: insert_into_working_tree_def Let_def in_tree_def split: if_splits)

lemma handle_edge_route:
  "route_kept p st (handle_edge env nss n tc_node node dst st) \<and>
   (in_tree (handle_edge env nss n tc_node node dst st) (Endpoint_Target p) \<longrightarrow> in_tree st (Endpoint_Target p))"
  by (auto simp: handle_edge_def route_kept_def dest!: insert_tree_targets split: option.splits)

text \<open>The endpoint is attached to several nodes and has a source prefix.\<close>

definition multihomed_source_prefix :: "routing_env \<Rightarrow> os_route_key \<Rightarrow> bool" where
  "multihomed_source_prefix env p \<longleftrightarrow> na_prefix_len (rk_src p) > 0 \<and>
     (\<exists>ep. olsrv2_tc_endpoint_get (env_tc env) p = Some ep \<and> Mapping.size (ep_attached ep) > 1)"

lemma handle_attachment_route:
  assumes p: "multihomed_source_prefix env p"
  shows "route_kept p st (handle_attachment env nss ss n tc_node node q st) \<and>
    (\<not> ss \<longrightarrow> in_tree (handle_attachment env nss ss n tc_node node q st) (Endpoint_Target p) \<longrightarrow> in_tree st (Endpoint_Target p))"
proof (cases "q = p")
  case True
  from p obtain ep where ep: "na_prefix_len (rk_src p) > 0" "olsrv2_tc_endpoint_get (env_tc env) p = Some ep" "Mapping.size (ep_attached ep) > 1"
    by (auto simp: multihomed_source_prefix_def)
  then show ?thesis unfolding True by (auto simp: handle_attachment_def route_kept_def split: option.splits)
next
  case False
  let ?mark = "\<lambda>st. st\<lparr>dj_nodes := (dj_nodes st)(Endpoint_Target q := (dj_nodes st (Endpoint_Target q))\<lparr>dn_done := True\<rparr>)\<rparr>"
  have u: "route_kept p st (update_routing_entry env q orig fh dist pc hops single lastorig (?mark st))"
    for orig fh dist pc hops single lastorig
    using update_other_route [OF False, of "?mark st"] by (simp add: route_kept_def)
  have t: "in_tree (update_routing_entry env q orig fh dist pc hops single lastorig (?mark st)) x = in_tree st x"
    for orig fh dist pc hops single lastorig x
    by (simp add: in_tree_def)
  show ?thesis
    using False by (auto simp: handle_attachment_def u t route_kept_def [of p st st] route_kept_def [of p st "insert_into_working_tree _ _ _ _ _ _ _ _ st"]
        dest!: insert_tree_targets split: option.splits)
qed

lemma fold_route:
  assumes "\<And>x st. route_kept p st (f x st) \<and> (P \<longrightarrow> in_tree (f x st) t \<longrightarrow> in_tree st t)"
  shows "route_kept p st (fold f xs st) \<and> (P \<longrightarrow> in_tree (fold f xs st) t \<longrightarrow> in_tree st t)"
proof (induction xs arbitrary: st)
  case (Cons x xs)
  from Cons [of "f x st"] assms [of st x] show ?case by (auto simp: route_kept_def)
qed (simp add: route_kept_def)

lemma working_queue_route:
  assumes p: "multihomed_source_prefix env p" and t: "nss \<longrightarrow> \<not> ss \<and> \<not> in_tree st (Endpoint_Target p)" and ne: "dj_tree st \<noteq> []"
  shows "route_kept p st (handle_working_queue env nss ss st) \<and>
    (nss \<longrightarrow> \<not> in_tree (handle_working_queue env nss ss st) (Endpoint_Target p))"
proof -
  obtain k target rest where tree: "dj_tree st = (k, target) # rest" using ne by (cases "dj_tree st") auto
  let ?node = "(dj_nodes st target)\<lparr>dn_done := True\<rparr>"
  let ?st1 = "st\<lparr>dj_tree := rest, dj_nodes := (dj_nodes st)(target := ?node)\<rparr>"
  obtain st2 where st2: "st2 = (if nss then update_routing_entry env (target_prefix target) (target_originator env target)
    (dn_first_hop ?node) (dn_distance ?node) (dn_path_cost ?node) (dn_path_hops ?node) (dn_single_hop ?node) (dn_last_originator ?node) ?st1
    else ?st1)" by blast
  have pos: "na_prefix_len (rk_src p) > 0" using p by (simp add: multihomed_source_prefix_def)
  have "target_prefix target \<noteq> p" if nss
  proof (cases target)
    case (Node_Target n)
    have "na_prefix_len (rk_src (os_routing_init_sourcespec_prefix n)) = 0"
      by (simp add: os_routing_init_sourcespec_prefix_def init_half_os_route_key_def NETADDR_IPV4_ANY_def NETADDR_IPV6_ANY_def netaddr_invalidate_def)
    with pos show ?thesis by (auto simp: target_prefix_def Node_Target)
  next
    case (Endpoint_Target q)
    have "in_tree st target" by (simp add: in_tree_def tree)
    with t that show ?thesis by (auto simp: target_prefix_def Endpoint_Target)
  qed
  then have k2: "route_kept p st st2"
    using update_other_route [of "target_prefix target" p ?st1] unfolding st2 by (auto simp: route_kept_def)
  have "dj_tree st2 = rest" by (simp add: st2)
  then have t2: "in_tree st2 x \<Longrightarrow> in_tree st x" for x by (auto simp: in_tree_def tree)
  show ?thesis
  proof (cases target)
    case (Endpoint_Target q)
    then have "handle_working_queue env nss ss st = st2" by (simp only: handle_working_queue_def tree Let_def list.case prod.case tc_target.case st2)
    with k2 t2 t show ?thesis by auto
  next
    case (Node_Target n)
    show ?thesis
    proof (cases "olsrv2_tc_node_get (env_tc env) n")
      case None
      then have "handle_working_queue env nss ss st = dj_set_fault Null_Deref st2"
        using Node_Target by (simp only: handle_working_queue_def tree Let_def list.case prod.case tc_target.case option.case st2)
      moreover have "route_kept p st (dj_set_fault Null_Deref st2) = route_kept p st st2"
          "in_tree (dj_set_fault Null_Deref st2) x = in_tree st2 x" for x
        by (simp_all add: dj_set_fault_def route_kept_def in_tree_def)
      ultimately show ?thesis using k2 t2 t by auto
    next
      case (Some tc_node)
      let ?e = "fold (handle_edge env nss n tc_node ?node) (Mapping.ordered_keys (nd_edges tc_node)) st2"
      have q: "handle_working_queue env nss ss st = fold (handle_attachment env nss ss n tc_node ?node) (Mapping.ordered_keys (nd_attached tc_node)) ?e"
        using Node_Target Some by (simp only: handle_working_queue_def tree Let_def list.case prod.case tc_target.case option.case st2)
      have 1: "route_kept p st2 ?e \<and> (True \<longrightarrow> in_tree ?e (Endpoint_Target p) \<longrightarrow> in_tree st2 (Endpoint_Target p))"
        by (rule fold_route) (simp add: handle_edge_route)
      have 2: "route_kept p ?e (handle_working_queue env nss ss st) \<and>
          (\<not> ss \<longrightarrow> in_tree (handle_working_queue env nss ss st) (Endpoint_Target p) \<longrightarrow> in_tree ?e (Endpoint_Target p))"
        unfolding q by (rule fold_route) (rule handle_attachment_route [OF p])
      from 1 2 k2 t t2 show ?thesis by (auto simp: route_kept_def)
    qed
  qed
qed


lemma one_hop_route:
  "route_kept p st (add_one_hop_nodes env af nss ss st) \<and>
   (True \<longrightarrow> in_tree (add_one_hop_nodes env af nss ss st) (Endpoint_Target p) \<longrightarrow> in_tree st (Endpoint_Target p))"
  unfolding add_one_hop_nodes_def
  by (rule fold_route) (auto simp: add_one_hop_node_def route_kept_def dest!: insert_tree_targets split: option.splits)

lemma run_dijkstra_route:
  assumes p: "multihomed_source_prefix env p" and t: "nss \<longrightarrow> \<not> ss" and tree: "dj_tree st = []"
    and run: "run_dijkstra env af nss ss st = Some st'"
  shows "Mapping.lookup (dj_routes st') p = Mapping.lookup (dj_routes st) p"
proof -
  let ?I = "\<lambda>x. route_kept p st x \<and> (nss \<longrightarrow> \<not> in_tree x (Endpoint_Target p))"
  have "?I st'"
  proof (rule working_queue_loop_keeps [of ?I])
    show "working_queue_loop env nss ss (add_one_hop_nodes env af nss ss st) = Some st'" using run by (simp add: run_dijkstra_def)
    show "?I (add_one_hop_nodes env af nss ss st)"
      using one_hop_route [of p st env af nss ss] by (auto simp: in_tree_def tree)
  next
    fix x assume "?I x" "dj_tree x \<noteq> []"
    with working_queue_route [OF p, of nss ss x] t show "?I (handle_working_queue env nss ss x)" by (auto simp: route_kept_def)
  qed
  then show ?thesis by (simp add: route_kept_def)
qed

lemma prepare_local:
  assumes "\<And>x. is_local st1 x = is_local (prepare_nodes env st) x"
  shows "is_local (prepare_nodes env st1) = is_local (prepare_nodes env st)"
proof
  fix x show "is_local (prepare_nodes env st1) x = is_local (prepare_nodes env st) x"
    using assms [of x] by (cases x) (auto simp: is_local_def prepare_nodes_def Let_def split: if_splits)
qed

text \<open>
  C39: When source-specific nodes are routed in a run of their own, a source-specific prefix that more than one node is attached to
  never gets a route: the first run leaves it out, and the second one reaches it, marks it done and does not write the result into the
  routing table, because \<open>_handle_working_queue\<close> writes routes only when non-source-specific nodes are included.
\<close>

theorem multihomed_source_prefix_gets_no_route:
  assumes ok: "env_ok env" and tree: "dj_tree st = []" and p: "multihomed_source_prefix env p"
    and path: "tc_path env af False True (is_local (prepare_nodes env st)) h (Endpoint_Target p) c"
  shows "\<exists>st1 st2. run_dijkstra env af True False (prepare_nodes env st) = Some st1 \<and>
    run_dijkstra env af False True (prepare_nodes env st1) = Some st2 \<and>
    dn_done (dj_nodes st2 (Endpoint_Target p)) \<and> Mapping.lookup (dj_routes st2) p = Mapping.lookup (dj_routes st) p"
proof -
  from run_dijkstra_inv [OF ok tree] obtain st1 where 1: "run_dijkstra env af True False (prepare_nodes env st) = Some st1" "dj_tree st1 = []"
    "dijkstra_inv env af True False (is_local (prepare_nodes env st)) st1" by blast
  from run_dijkstra_inv [OF ok 1(2)] obtain st2 where 2: "run_dijkstra env af False True (prepare_nodes env st1) = Some st2"
    "dj_tree st2 = []" "dijkstra_inv env af False True (is_local (prepare_nodes env st1)) st2" by blast
  have t: "Endpoint_Target p \<in> queue_targets env" using p by (auto simp: multihomed_source_prefix_def queue_targets_def)
  have "is_done st2 (Endpoint_Target p)"
    using run_dijkstra_done [OF ok 2(3,2) t] path prepare_local [of st1 env st] dijkstra_invD(2) [OF 1(3)] by auto
  moreover have "dj_tree (prepare_nodes env st) = []" "dj_tree (prepare_nodes env st1) = []"
    using tree 1(2) by (simp_all add: prepare_nodes_def)
  then have "Mapping.lookup (dj_routes st2) p = Mapping.lookup (dj_routes st) p"
    using run_dijkstra_route [OF p _ _ 1(1)] run_dijkstra_route [OF p _ _ 2(1)] by (simp add: prepare_nodes_def)
  ultimately show ?thesis using 1(1) 2(1) unfolding is_done_def by blast
qed


text \<open>Two source-specific nodes with the same source-specific prefix.\<close>

definition demo_addr2 :: netaddr where
  "demo_addr2 = \<lparr>na_addr = replicate 16 2, na_type = AF_INET, na_prefix_len = 32\<rparr>"

definition demo_prefix :: os_route_key where
  "demo_prefix = \<lparr>rk_dst = NETADDR_IPV4_ANY, rk_src = \<lparr>na_addr = replicate 16 7, na_type = AF_INET, na_prefix_len = 8\<rparr>\<rparr>"

definition demo_ss :: "(netaddr, os_route_key) olsrv2_tc_node \<Rightarrow> (netaddr, os_route_key) olsrv2_tc_node" where
  "demo_ss nd = nd\<lparr>nd_source_specific := True, nd_attached := Mapping.map_values (\<lambda>_ x. x\<lparr>at_cost := (\<lambda>_. 1)\<rparr>) (nd_attached nd)\<rparr>"

definition demo_db :: "(netaddr, os_route_key) tc_db" where
  "demo_db = snd (olsrv2_tc_endpoint_add True True demo_addr2 demo_prefix False
     (snd (olsrv2_tc_endpoint_add True True demo_addr demo_prefix False
       (snd (olsrv2_tc_node_add True demo_addr2 100 7 (snd (olsrv2_tc_node_add True demo_addr 100 7 olsrv2_tc_init)))))))"

definition demo_ss_env :: routing_env where
  "demo_ss_env = demo_env\<lparr>env_tc := upd_node demo_addr2 demo_ss (upd_node demo_addr demo_ss demo_db)\<rparr>"

lemma demo_addr_ne [simp]: "demo_addr \<noteq> demo_addr2" "demo_addr2 \<noteq> demo_addr"
  by (simp_all add: demo_addr_def demo_addr2_def)

lemmas demo_db_eval = olsrv2_tc_endpoint_add_def olsrv2_tc_node_add_def olsrv2_tc_init_def
  olsrv2_tc_node_get_def olsrv2_tc_endpoint_get_def tc_event_def upd_node_def tc_node_empty_def get_attachment_def
  get_edge_def lookup_map_entry' lookup_tc Let_def tc_active_def olsrv2_tc_is_node_virtual_def lookup_map_values

lemma demo_db_reachable: "tc_reachable demo_db"
proof -
  let ?d1 = "snd (olsrv2_tc_node_add True demo_addr 100 7 olsrv2_tc_init) :: (netaddr, os_route_key) tc_db"
  let ?d2 = "snd (olsrv2_tc_node_add True demo_addr2 100 7 ?d1)"
  let ?d3 = "snd (olsrv2_tc_endpoint_add True True demo_addr demo_prefix False ?d2)"
  have 1: "tc_reachable ?d1" by (rule tc_reachable.step [OF tc_reachable.init, of "Add_Node True demo_addr 100 7"]) simp_all
  have 2: "tc_reachable ?d2" by (rule tc_reachable.step [OF 1, of "Add_Node True demo_addr2 100 7"]) simp_all
  have 3: "tc_reachable ?d3"
    by (rule tc_reachable.step [OF 2, of "Add_Endpoint True True demo_addr demo_prefix False"]) (simp_all add: demo_db_eval)
  show ?thesis
    unfolding demo_db_def
    by (rule tc_reachable.step [OF 3, of "Add_Endpoint True True demo_addr2 demo_prefix False"]) (simp_all add: demo_db_eval)
qed

lemma demo_ss_nodes: "olsrv2_tc_node_get (env_tc demo_ss_env) n \<noteq> None \<longleftrightarrow> n \<in> {demo_addr, demo_addr2}"
  by (simp add: demo_ss_env_def demo_db_def demo_db_eval demo_ss_def)

lemma demo_ss_node: "\<exists>nd a. olsrv2_tc_node_get (env_tc demo_ss_env) demo_addr = Some nd \<and> nd_source_specific nd \<and>
    get_attachment (env_tc demo_ss_env) demo_addr demo_prefix = Some a \<and> at_cost a 0 = 1"
  by (simp add: demo_ss_env_def demo_db_def demo_db_eval demo_ss_def)

lemma demo_ss_endpoints: "olsrv2_tc_endpoint_get (env_tc demo_ss_env) p \<noteq> None \<longleftrightarrow> p = demo_prefix"
  by (simp add: demo_ss_env_def demo_db_def demo_db_eval demo_ss_def)

lemma demo_ss_endpoint: "\<exists>ep. olsrv2_tc_endpoint_get (env_tc demo_ss_env) demo_prefix = Some ep \<and> Mapping.size (ep_attached ep) > 1"
  by (simp add: demo_ss_env_def demo_db_def demo_db_eval demo_ss_def Mapping.size_def)

lemma demo_ss_ok: "env_ok demo_ss_env"
proof -
  have "queue_targets demo_ss_env \<subseteq> {Node_Target demo_addr, Node_Target demo_addr2, Endpoint_Target demo_prefix}"
    using demo_ss_nodes demo_ss_endpoints by (fastforce simp: queue_targets_def)
  then have "card (queue_targets demo_ss_env) \<le> card {Node_Target demo_addr, Node_Target demo_addr2, Endpoint_Target demo_prefix}"
    by (intro card_mono) simp_all
  also have "\<dots> \<le> 255" by (simp add: card_insert_if)
  finally have c: "card (queue_targets demo_ss_env) \<le> 255" .
  have "tc_ok (upd_node demo_addr2 demo_ss (upd_node demo_addr demo_ss demo_db))"
    by (intro tc_inv_set_values tc_reachable_ok [OF demo_db_reachable]) (simp_all add: demo_ss_def lookup_map_values)
  then have "tc_ok (env_tc demo_ss_env)" by (simp add: demo_ss_env_def)
  with c show ?thesis by (simp add: env_ok_def)
qed

lemma demo_ss_path:
  "tc_path demo_ss_env AF_INET False True (is_local (prepare_nodes demo_ss_env demo_dijkstra)) demo_neighbor (Endpoint_Target demo_prefix) (20 + 1)"
proof (rule tc_path.step)
  obtain nd a where nd: "olsrv2_tc_node_get (env_tc demo_ss_env) demo_addr = Some nd" "nd_source_specific nd"
    "get_attachment (env_tc demo_ss_env) demo_addr demo_prefix = Some a" "at_cost a 0 = 1" using demo_ss_node by blast
  obtain ep where ep: "olsrv2_tc_endpoint_get (env_tc demo_ss_env) demo_prefix = Some ep" "Mapping.size (ep_attached ep) > 1"
    using demo_ss_endpoint by blast
  have d: "env_domain demo_ss_env = 0" "env_neighbors demo_ss_env = [demo_neighbor]" "env_originators demo_ss_env = env_originators demo_env"
    by (simp_all add: demo_ss_env_def demo_env_def)
  show "tc_path demo_ss_env AF_INET False True (is_local (prepare_nodes demo_ss_env demo_dijkstra)) demo_neighbor (Node_Target demo_addr) 20"
  proof (rule tc_path.start)
    show "one_hop demo_ss_env AF_INET False True demo_neighbor (Node_Target demo_addr) 20"
      using nd(1,2) by (simp add: one_hop_def d demo_neighbor_def RFC7181_METRIC_MAX_def demo_addr_def [THEN arg_cong [of _ _ na_type]])
    have "\<not> olsrv2_originator_is_local (env_originators demo_env) demo_addr"
      by (simp add: olsrv2_originator_is_local_def demo_env_def netaddr_cmp_zero netaddr_wf_def NETADDR_UNSPEC_def demo_addr_def af_defs)
    then show "\<not> is_local (prepare_nodes demo_ss_env demo_dijkstra) (Node_Target demo_addr)"
      using nd(1) by (simp add: is_local_def prepare_nodes_def Let_def d)
  qed
  show "tc_link demo_ss_env False True demo_addr (Endpoint_Target demo_prefix) 1"
    using nd(3,4) ep by (simp add: d RFC7181_METRIC_MAX_def demo_prefix_def [THEN arg_cong [of _ _ rk_src]])
  show "\<not> is_local (prepare_nodes demo_ss_env demo_dijkstra) (Endpoint_Target demo_prefix)"
    by (simp add: is_local_def prepare_nodes_def Let_def demo_dijkstra_def)
qed

lemma multihomed_source_prefix_gets_no_route_witness:
  "\<exists>st1 st2. run_dijkstra demo_ss_env AF_INET True False (prepare_nodes demo_ss_env demo_dijkstra) = Some st1 \<and>
     run_dijkstra demo_ss_env AF_INET False True (prepare_nodes demo_ss_env st1) = Some st2 \<and>
     dn_done (dj_nodes st2 (Endpoint_Target demo_prefix)) \<and> Mapping.lookup (dj_routes st2) demo_prefix = None"
proof -
  have "dj_tree demo_dijkstra = []" "Mapping.lookup (dj_routes demo_dijkstra) demo_prefix = None" by (simp_all add: demo_dijkstra_def)
  moreover have "multihomed_source_prefix demo_ss_env demo_prefix"
    using demo_ss_endpoint by (simp add: multihomed_source_prefix_def demo_prefix_def [THEN arg_cong [of _ _ rk_src]])
  ultimately show ?thesis
    using multihomed_source_prefix_gets_no_route [OF demo_ss_ok _ _ demo_ss_path] by metis
qed

end
