(* ===== verification/Mpr.thy ===== *)
theory Mpr
  imports Nhdp_Data "HOL-Library.Multiset"
begin

section \<open>MPR selection (nhdp/mpr)\<close>

text \<open>
  The selection of multipoint relays of RFC 7181: \<^verbatim>\<open>src/src/nhdp/mpr/neighbor-graph.c\<close> (the sets N1, N2, N and M and
  the cached costs), \<^verbatim>\<open>neighbor-graph-flooding.c\<close> and \<^verbatim>\<open>neighbor-graph-routing.c\<close> (the two ways to build the graph),
  \<^verbatim>\<open>selection-rfc7181.c\<close> (the algorithm) and \<^verbatim>\<open>mpr.c\<close>
  (the callbacks of the domain and the check of the result). The sets are lists in the order of the addresses. \<open>struct neighbor_graph_interface\<close>,
  the table of functions the algorithm calls, is a record of functions; a domain is its index. The code does
  not check its \<open>calloc\<close>s, which succeed here. The working flag \<open>selection_is_mpr\<close> is in the neighbors, so the algorithm changes
  the database, too.
\<close>

subsection \<open>The neighbor graph (neighbor-graph.c)\<close>

record n1_node =
  n1_addr :: netaddr
  n1_link :: "nat option"
  n1_neigh :: nat
  n1_table_offset :: u32

record addr_node =
  an_addr :: netaddr
  an_table_offset :: u32
  an_min_d_z_y :: u32

record neighbor_graph =
  set_n1 :: "n1_node list"
  set_n2 :: "addr_node list"
  set_n :: "addr_node list"
  set_mpr :: "n1_node list"
  set_mpr_candidates :: "n1_node list"
  d_x_y_cache :: "u32 list option"

record neighbor_graph_interface =
  calculate_d1_x_of_n2_addr :: "nat \<Rightarrow> nhdp_db \<Rightarrow> neighbor_graph \<Rightarrow> addr_node \<Rightarrow> fault + u32"
  calculate_d_x_y :: "nat \<Rightarrow> nhdp_db \<Rightarrow> neighbor_graph \<Rightarrow> n1_node \<Rightarrow> addr_node \<Rightarrow> fault + u32 \<times> neighbor_graph"
  calculate_d2_x_y :: "nat \<Rightarrow> nhdp_db \<Rightarrow> n1_node \<Rightarrow> addr_node \<Rightarrow> fault + u32"
  get_willingness_n1 :: "nat \<Rightarrow> nhdp_db \<Rightarrow> n1_node \<Rightarrow> fault + u8"

definition mpr_add_n1_node_to_set ::
    "nhdp_db \<Rightarrow> n1_node list \<Rightarrow> nat \<Rightarrow> nat option \<Rightarrow> u32 \<Rightarrow> fault + n1_node list" where
  "mpr_add_n1_node_to_set db s neigh lnk offset =
     bind_f (get_neigh db neigh) (\<lambda>nb.
       if nb_originator nb \<in> set (map n1_addr s) then Inr s
       else Inr (insort_key n1_addr
              \<lparr>n1_addr = nb_originator nb, n1_link = lnk, n1_neigh = neigh, n1_table_offset = offset\<rparr> s))"

definition mpr_add_addr_node_to_set :: "addr_node list \<Rightarrow> netaddr \<Rightarrow> u32 \<Rightarrow> addr_node list" where
  "mpr_add_addr_node_to_set s addr offset =
     (if addr \<in> set (map an_addr s) then s
      else insort_key an_addr \<lparr>an_addr = addr, an_table_offset = offset, an_min_d_z_y = 0\<rparr> s)"

definition mpr_init_neighbor_graph :: neighbor_graph where
  "mpr_init_neighbor_graph = \<lparr>set_n1 = [], set_n2 = [], set_n = [], set_mpr = [], set_mpr_candidates = [], d_x_y_cache = None\<rparr>"

definition mpr_is_mpr :: "neighbor_graph \<Rightarrow> netaddr \<Rightarrow> bool" where
  "mpr_is_mpr graph addr \<longleftrightarrow> addr \<in> set (map n1_addr (set_mpr graph))"

fun minimal_loop :: "neighbor_graph_interface \<Rightarrow> nat \<Rightarrow> nhdp_db \<Rightarrow> neighbor_graph \<Rightarrow> addr_node \<Rightarrow> n1_node list \<Rightarrow> u32 \<Rightarrow>
    fault + u32 \<times> neighbor_graph" where
  "minimal_loop m d db graph y [] min_cost = Inr (min_cost, graph)"
| "minimal_loop m d db graph y (z # zs) min_cost =
     bind_f (calculate_d_x_y m d db graph z y) (\<lambda>(d_z_y, graph).
       minimal_loop m d db graph y zs (if d_z_y < min_cost then d_z_y else min_cost))"

text \<open>\<open>y\<close> is a node of \<open>set_n\<close>, which keeps the result.\<close>

definition mpr_calculate_minimal_d_z_y ::
    "neighbor_graph_interface \<Rightarrow> nat \<Rightarrow> nhdp_db \<Rightarrow> neighbor_graph \<Rightarrow> addr_node \<Rightarrow> fault + u32 \<times> neighbor_graph" where
  "mpr_calculate_minimal_d_z_y m d db graph y =
     (if an_min_d_z_y y \<noteq> 0 then Inr (an_min_d_z_y y, graph)
      else bind_f (minimal_loop m d db graph y (set_n1 graph) RFC7181_METRIC_INFINITE_PATH) (\<lambda>(min_d_z_y, graph).
           Inr (min_d_z_y, graph\<lparr>set_n :=
             map (\<lambda>a. if an_addr a = an_addr y then a\<lparr>an_min_d_z_y := min_d_z_y\<rparr> else a) (set_n graph)\<rparr>)))"

definition mpr_calculate_d_of_y_s ::
    "neighbor_graph_interface \<Rightarrow> nat \<Rightarrow> nhdp_db \<Rightarrow> neighbor_graph \<Rightarrow> addr_node \<Rightarrow> n1_node list \<Rightarrow> fault + u32 \<times> neighbor_graph" where
  "mpr_calculate_d_of_y_s m d db graph y subset_s =
     bind_f (calculate_d1_x_of_n2_addr m d db graph y) (\<lambda>min_cost.
       minimal_loop m d db graph y subset_s (if min_cost > RFC7181_METRIC_MAX then RFC7181_METRIC_INFINITE_PATH else min_cost))"

subsection \<open>The algorithm (selection-rfc7181.c)\<close>

fun cheaper_loop :: "neighbor_graph_interface \<Rightarrow> nat \<Rightarrow> nhdp_db \<Rightarrow> neighbor_graph \<Rightarrow> addr_node \<Rightarrow> u32 \<Rightarrow> n1_node list \<Rightarrow>
    fault + bool \<times> neighbor_graph" where
  "cheaper_loop m d db graph y d1_y [] = Inr (False, graph)"
| "cheaper_loop m d db graph y d1_y (x # xs) =
     bind_f (calculate_d_x_y m d db graph x y) (\<lambda>(d_x_y, graph).
       if d_x_y < d1_y then Inr (True, graph) else cheaper_loop m d db graph y d1_y xs)"

fun calculate_n_loop :: "neighbor_graph_interface \<Rightarrow> nat \<Rightarrow> nhdp_db \<Rightarrow> neighbor_graph \<Rightarrow> addr_node list \<Rightarrow> fault + neighbor_graph" where
  "calculate_n_loop m d db graph [] = Inr graph"
| "calculate_n_loop m d db graph (y # ys) =
     bind_f (calculate_d1_x_of_n2_addr m d db graph y) (\<lambda>d1_y.
     bind_f (if d1_y = RFC7181_METRIC_INFINITE then Inr (True, graph)
             else cheaper_loop m d db graph y d1_y (set_n1 graph)) (\<lambda>(add_to_n, graph).
     calculate_n_loop m d db
       (if add_to_n then graph\<lparr>set_n := mpr_add_addr_node_to_set (set_n graph) (an_addr y) (an_table_offset y)\<rparr> else graph) ys))"

definition calculate_n :: "neighbor_graph_interface \<Rightarrow> nat \<Rightarrow> nhdp_db \<Rightarrow> neighbor_graph \<Rightarrow> fault + neighbor_graph" where
  "calculate_n m d db graph = calculate_n_loop m d db graph (set_n2 graph)"

fun covered_loop :: "neighbor_graph_interface \<Rightarrow> nat \<Rightarrow> nhdp_db \<Rightarrow> neighbor_graph \<Rightarrow> addr_node \<Rightarrow> u32 \<Rightarrow> n1_node list \<Rightarrow>
    fault + bool \<times> neighbor_graph" where
  "covered_loop m d db graph y min_d_z_y [] = Inr (False, graph)"
| "covered_loop m d db graph y min_d_z_y (z # zs) =
     bind_f (calculate_d_x_y m d db graph z y) (\<lambda>(d_z_y, graph).
       if d_z_y = min_d_z_y
       then bind_f (get_neigh db (n1_neigh z)) (\<lambda>nb.
              if nb_selection_is_mpr nb then Inr (True, graph) else covered_loop m d db graph y min_d_z_y zs)
       else covered_loop m d db graph y min_d_z_y zs)"

fun r_loop :: "neighbor_graph_interface \<Rightarrow> nat \<Rightarrow> nhdp_db \<Rightarrow> neighbor_graph \<Rightarrow> n1_node \<Rightarrow> addr_node list \<Rightarrow> u32 \<Rightarrow>
    fault + u32 \<times> neighbor_graph" where
  "r_loop m d db graph x [] r = Inr (r, graph)"
| "r_loop m d db graph x (y # ys) r =
     bind_f (calculate_d_x_y m d db graph x y) (\<lambda>(d_x_y, graph).
     bind_f (mpr_calculate_minimal_d_z_y m d db graph y) (\<lambda>(min_d_z_y, graph).
       if d_x_y > min_d_z_y then r_loop m d db graph x ys r
       else bind_f (covered_loop m d db graph y min_d_z_y (set_n1 graph)) (\<lambda>(already_covered, graph).
              r_loop m d db graph x ys (if already_covered then r else r + 1))))"

definition calculate_r :: "neighbor_graph_interface \<Rightarrow> nat \<Rightarrow> nhdp_db \<Rightarrow> neighbor_graph \<Rightarrow> n1_node \<Rightarrow> fault + u32 \<times> neighbor_graph" where
  "calculate_r m d db graph x =
     bind_f (get_neigh db (n1_neigh x)) (\<lambda>nb.
       if nb_selection_is_mpr nb then Inr (0, graph) else r_loop m d db graph x (set_n graph) 0)"

fun will_always_loop :: "neighbor_graph_interface \<Rightarrow> nat \<Rightarrow> nhdp_db \<Rightarrow> neighbor_graph \<Rightarrow> n1_node list \<Rightarrow> fault + neighbor_graph" where
  "will_always_loop m d db graph [] = Inr graph"
| "will_always_loop m d db graph (x # xs) =
     bind_f (get_willingness_n1 m d db x) (\<lambda>w.
       if w = RFC7181_WILLINGNESS_ALWAYS
       then (case n1_link x of
               None \<Rightarrow> Inl Null_Deref
             | Some l \<Rightarrow>
                 bind_f (get_link db l) (\<lambda>lnk.
                 bind_f (mpr_add_n1_node_to_set db (set_mpr graph) (lk_neigh lnk) (Some l) (n1_table_offset x)) (\<lambda>s.
                   will_always_loop m d db (graph\<lparr>set_mpr := s\<rparr>) xs)))
       else will_always_loop m d db graph xs)"

definition process_will_always :: "neighbor_graph_interface \<Rightarrow> nat \<Rightarrow> nhdp_db \<Rightarrow> neighbor_graph \<Rightarrow> fault + neighbor_graph" where
  "process_will_always m d db graph = will_always_loop m d db graph (set_n1 graph)"

text \<open>\<open>neigh->selection_is_mpr = true\<close>\<close>

definition select_mpr :: "nat \<Rightarrow> nhdp_db \<Rightarrow> nhdp_db" where
  "select_mpr n = upd_neigh n (\<lambda>nb. nb\<lparr>nb_selection_is_mpr := True\<rparr>)"

fun possible_mprs_loop :: "neighbor_graph_interface \<Rightarrow> nat \<Rightarrow> nhdp_db \<Rightarrow> addr_node \<Rightarrow> n1_node list \<Rightarrow> u32 \<Rightarrow> n1_node option \<Rightarrow>
    fault + u32 \<times> n1_node option" where
  "possible_mprs_loop m d db y [] possible_mprs node = Inr (possible_mprs, node)"
| "possible_mprs_loop m d db y (x # xs) possible_mprs node =
     bind_f (calculate_d2_x_y m d db x y) (\<lambda>d2.
       if d2 \<le> RFC7181_METRIC_MAX then possible_mprs_loop m d db y xs (possible_mprs + 1) (Some x)
       else possible_mprs_loop m d db y xs possible_mprs node)"

fun unique_loop :: "neighbor_graph_interface \<Rightarrow> nat \<Rightarrow> nhdp_db \<Rightarrow> neighbor_graph \<Rightarrow> addr_node list \<Rightarrow>
    fault + nhdp_db \<times> neighbor_graph" where
  "unique_loop m d db graph [] = Inr (db, graph)"
| "unique_loop m d db graph (y # ys) =
     bind_f (possible_mprs_loop m d db y (set_n1 graph) 0 None) (\<lambda>(possible_mprs, node).
       if \<not> possible_mprs > 0 then Inl Assert_Failed
       else if possible_mprs = 1
       then (case node of
               None \<Rightarrow> Inl Null_Deref
             | Some x \<Rightarrow>
                 bind_f (mpr_add_n1_node_to_set db (set_mpr graph) (n1_neigh x) (n1_link x) (n1_table_offset x)) (\<lambda>s.
                   unique_loop m d (select_mpr (n1_neigh x) db) (graph\<lparr>set_mpr := s\<rparr>) ys))
       else unique_loop m d db graph ys)"

definition process_unique_mprs :: "neighbor_graph_interface \<Rightarrow> nat \<Rightarrow> nhdp_db \<Rightarrow> neighbor_graph \<Rightarrow> fault + nhdp_db \<times> neighbor_graph" where
  "process_unique_mprs m d db graph = unique_loop m d db graph (set_n graph)"

text \<open>\<open>_select_greatest_by_property\<close> with its only property, \<open>_calculate_r\<close>; the accumulator is whether
  \<open>greatest_prop_node\<close> is set, the greatest value and the temporary candidates.\<close>

fun greatest_loop :: "neighbor_graph_interface \<Rightarrow> nat \<Rightarrow> nhdp_db \<Rightarrow> neighbor_graph \<Rightarrow> n1_node list \<Rightarrow> bool \<Rightarrow> u32 \<Rightarrow> n1_node list \<Rightarrow>
    fault + n1_node list \<times> neighbor_graph" where
  "greatest_loop m d db graph [] found greatest_prop tmp = Inr (tmp, graph)"
| "greatest_loop m d db graph (x # xs) found greatest_prop tmp =
     bind_f (calculate_r m d db graph x) (\<lambda>(current_prop, graph).
       if current_prop > 0
       then if \<not> found \<or> current_prop > greatest_prop
            then bind_f (mpr_add_n1_node_to_set db [] (n1_neigh x) (n1_link x) (n1_table_offset x)) (\<lambda>tmp.
                   greatest_loop m d db graph xs True current_prop tmp)
            else if current_prop = greatest_prop
            then bind_f (mpr_add_n1_node_to_set db tmp (n1_neigh x) (n1_link x) (n1_table_offset x)) (\<lambda>tmp.
                   greatest_loop m d db graph xs found greatest_prop tmp)
            else greatest_loop m d db graph xs found greatest_prop tmp
       else greatest_loop m d db graph xs found greatest_prop tmp)"

fun add_n1_nodes :: "nhdp_db \<Rightarrow> n1_node list \<Rightarrow> n1_node list \<Rightarrow> fault + n1_node list" where
  "add_n1_nodes db s [] = Inr s"
| "add_n1_nodes db s (x # xs) =
     bind_f (mpr_add_n1_node_to_set db s (n1_neigh x) (n1_link x) (n1_table_offset x)) (\<lambda>s. add_n1_nodes db s xs)"

definition select_greatest_by_property :: "neighbor_graph_interface \<Rightarrow> nat \<Rightarrow> nhdp_db \<Rightarrow> neighbor_graph \<Rightarrow> fault + neighbor_graph" where
  "select_greatest_by_property m d db graph =
     bind_f (greatest_loop m d db graph (set_n1 graph) False 0 []) (\<lambda>(tmp, graph).
     bind_f (add_n1_nodes db [] tmp) (\<lambda>s. Inr (graph\<lparr>set_mpr_candidates := s\<rparr>)))"

text \<open>The body of the loop: the first candidate becomes an MPR, the flag is \<open>done\<close>.\<close>

definition remaining_step :: "neighbor_graph_interface \<Rightarrow> nat \<Rightarrow> nhdp_db \<Rightarrow> neighbor_graph \<Rightarrow> fault + bool \<times> nhdp_db \<times> neighbor_graph" where
  "remaining_step m d db graph =
     bind_f (select_greatest_by_property m d db graph) (\<lambda>graph.
       case set_mpr_candidates graph of
         [] \<Rightarrow> Inr (True, db, graph)
       | x # rest \<Rightarrow>
           bind_f (mpr_add_n1_node_to_set db (set_mpr graph) (n1_neigh x) (n1_link x) (n1_table_offset x)) (\<lambda>s.
             Inr (False, select_mpr (n1_neigh x) db, graph\<lparr>set_mpr := s, set_mpr_candidates := rest\<rparr>)))"

text \<open>The loop may not end for arbitrary functions in the table; that it does for both graphs is a theorem.\<close>

partial_function (option) process_remaining ::
    "neighbor_graph_interface \<Rightarrow> nat \<Rightarrow> nhdp_db \<Rightarrow> neighbor_graph \<Rightarrow> (fault + nhdp_db \<times> neighbor_graph) option" where
  "process_remaining m d db graph =
     (case remaining_step m d db graph of
        Inl e \<Rightarrow> Some (Inl e)
      | Inr (fin, db, graph) \<Rightarrow> if fin then Some (Inr (db, graph)) else process_remaining m d db graph)"

fun number_n1 :: "u32 \<Rightarrow> n1_node list \<Rightarrow> n1_node list" where
  "number_n1 i [] = []"
| "number_n1 i (x # xs) = x\<lparr>n1_table_offset := i\<rparr> # number_n1 (i + 1) xs"

fun number_n2 :: "u32 \<Rightarrow> u32 \<Rightarrow> addr_node list \<Rightarrow> addr_node list" where
  "number_n2 n i [] = []"
| "number_n2 n i (y # ys) = y\<lparr>an_table_offset := i\<rparr> # number_n2 n (i + n) ys"

definition init_cache :: "neighbor_graph \<Rightarrow> neighbor_graph" where
  "init_cache graph =
     (let n1_count = of_nat (length (set_n1 graph)); n2_count = of_nat (length (set_n2 graph))
      in graph\<lparr>d_x_y_cache := Some (replicate (unat (n1_count * n2_count :: u32)) 0),
               set_n1 := number_n1 0 (set_n1 graph), set_n2 := number_n2 n1_count 0 (set_n2 graph)\<rparr>)"

definition mpr_calculate_mpr_rfc7181 ::
    "neighbor_graph_interface \<Rightarrow> nat \<Rightarrow> nhdp_db \<Rightarrow> neighbor_graph \<Rightarrow> (fault + nhdp_db \<times> neighbor_graph) option" where
  "mpr_calculate_mpr_rfc7181 m d db graph =
     (case bind_f (calculate_n m d db (init_cache graph)) (\<lambda>graph.
           bind_f (process_will_always m d db graph) (process_unique_mprs m d db)) of
        Inl e \<Rightarrow> Some (Inl e)
      | Inr (db, graph) \<Rightarrow> process_remaining m d db graph)"

subsection \<open>The costs of both graphs\<close>

text \<open>\<open>_calculate_d_x_y\<close> is the same text in both files, around the costs of its own file.\<close>

definition calculate_d_x_y_with :: "fault + u32 \<Rightarrow> fault + u32 \<Rightarrow> neighbor_graph \<Rightarrow> n1_node \<Rightarrow> addr_node \<Rightarrow> fault + u32 \<times> neighbor_graph" where
  "calculate_d_x_y_with d1 d2 graph x y =
     (case d_x_y_cache graph of
        None \<Rightarrow> Inl Assert_Failed
      | Some cache \<Rightarrow>
          let idx = unat (n1_table_offset x + an_table_offset y)
          in bind_f (rd cache idx) (\<lambda>cost.
             if cost = 0
             then bind_f d1 (\<lambda>cost1. bind_f d2 (\<lambda>cost2.
                    let cost = (if cost1 > RFC7181_METRIC_MAX \<or> cost2 > RFC7181_METRIC_MAX
                                then RFC7181_METRIC_INFINITE_PATH else cost1 + cost2)
                    in Inr (cost, graph\<lparr>d_x_y_cache := Some (cache[idx := cost])\<rparr>)))
             else Inr (cost, graph)))"

definition link_metric :: "nat \<Rightarrow> nhdp_link \<Rightarrow> nhdp_metric" where
  "link_metric d lnk = ldd_metric (nhdp_domain_get_linkdata d lnk)"

definition neighbor_metric :: "nat \<Rightarrow> nhdp_neighbor \<Rightarrow> nhdp_metric" where
  "neighbor_metric d nb = ndd_metric (nhdp_domain_get_neighbordata d nb)"

definition l2hop_metric :: "nat \<Rightarrow> nhdp_l2hop \<Rightarrow> nhdp_metric" where
  "l2hop_metric d l2hop = l2d_metric (nhdp_domain_get_l2hopdata d l2hop)"

text \<open>\<open>x->link\<close>, which has to point to a link.\<close>

definition n1_node_link :: "nhdp_db \<Rightarrow> n1_node \<Rightarrow> fault + nhdp_link" where
  "n1_node_link db x = (case n1_link x of None \<Rightarrow> Inl Null_Deref | Some l \<Rightarrow> get_link db l)"

subsection \<open>Flooding (neighbor-graph-flooding.c)\<close>

definition flooding_is_reachable_link_tuple :: "nat \<Rightarrow> nat \<Rightarrow> nhdp_link \<Rightarrow> bool" where
  "flooding_is_reachable_link_tuple d current_interface lnk \<longleftrightarrow>
     lk_local_if lnk = current_interface \<and> mt_out (link_metric d lnk) \<le> RFC7181_METRIC_MAX \<and> lk_status lnk = NHDP_LINK_SYMMETRIC"

definition flooding_is_allowed_link_tuple :: "nat \<Rightarrow> nat \<Rightarrow> nhdp_link \<Rightarrow> bool" where
  "flooding_is_allowed_link_tuple d current_interface lnk \<longleftrightarrow>
     flooding_is_reachable_link_tuple d current_interface lnk \<and> lk_flooding_willingness lnk > RFC7181_WILLINGNESS_NEVER"

text \<open>The two-hop neighbor of link \<open>lnk\<close>.\<close>

definition flooding_is_allowed_2hop_tuple :: "nat \<Rightarrow> nat \<Rightarrow> nhdp_link \<Rightarrow> nhdp_l2hop \<Rightarrow> bool" where
  "flooding_is_allowed_2hop_tuple d current_interface lnk two_hop \<longleftrightarrow>
     lk_local_if lnk = current_interface \<and> mt_out (l2hop_metric d two_hop) \<le> RFC7181_METRIC_MAX"

definition flooding_calculate_d1_x :: "nat \<Rightarrow> nhdp_db \<Rightarrow> n1_node \<Rightarrow> fault + u32" where
  "flooding_calculate_d1_x d db x = bind_f (n1_node_link db x) (\<lambda>lnk. Inr (mt_out (link_metric d lnk)))"

definition flooding_calculate_d2_x_y :: "nat \<Rightarrow> nhdp_db \<Rightarrow> n1_node \<Rightarrow> addr_node \<Rightarrow> fault + u32" where
  "flooding_calculate_d2_x_y d db x y =
     bind_f (n1_node_link db x) (\<lambda>lnk.
       case Mapping.lookup (lk_2hop lnk) (an_addr y) of
         Some l2hop \<Rightarrow> Inr (mt_out (l2hop_metric d l2hop))
       | None \<Rightarrow> Inr RFC7181_METRIC_INFINITE)"

fun flooding_d1_loop :: "nat \<Rightarrow> nhdp_db \<Rightarrow> addr_node \<Rightarrow> n1_node list \<Rightarrow> fault + u32" where
  "flooding_d1_loop d db addr [] = Inr RFC7181_METRIC_INFINITE"
| "flooding_d1_loop d db addr (x # xs) =
     (if has_neigh_address db (n1_neigh x) (an_addr addr)
      then bind_f (n1_node_link db x) (\<lambda>lnk. Inr (mt_out (link_metric d lnk)))
      else flooding_d1_loop d db addr xs)"

definition flooding_calculate_d1_x_of_n2_addr :: "nat \<Rightarrow> nhdp_db \<Rightarrow> neighbor_graph \<Rightarrow> addr_node \<Rightarrow> fault + u32" where
  "flooding_calculate_d1_x_of_n2_addr d db graph addr = flooding_d1_loop d db addr (set_n1 graph)"

definition flooding_get_willingness_n1 :: "nat \<Rightarrow> nhdp_db \<Rightarrow> n1_node \<Rightarrow> fault + u8" where
  "flooding_get_willingness_n1 d db x = bind_f (n1_node_link db x) (\<lambda>lnk. Inr (lk_flooding_willingness lnk))"

definition flooding_interface :: neighbor_graph_interface where
  "flooding_interface = \<lparr>calculate_d1_x_of_n2_addr = flooding_calculate_d1_x_of_n2_addr,
     calculate_d_x_y = (\<lambda>d db graph x y.
       calculate_d_x_y_with (flooding_calculate_d1_x d db x) (flooding_calculate_d2_x_y d db x y) graph x y),
     calculate_d2_x_y = flooding_calculate_d2_x_y, get_willingness_n1 = flooding_get_willingness_n1\<rparr>"

definition unselect_mpr :: "nat \<Rightarrow> nhdp_db \<Rightarrow> nhdp_db" where
  "unselect_mpr n = upd_neigh n (\<lambda>nb. nb\<lparr>nb_selection_is_mpr := False\<rparr>)"

fun flooding_n1_loop :: "nat \<Rightarrow> nat \<Rightarrow> nhdp_db \<Rightarrow> neighbor_graph \<Rightarrow> nat list \<Rightarrow> fault + nhdp_db \<times> neighbor_graph" where
  "flooding_n1_loop d current_interface db graph [] = Inr (db, graph)"
| "flooding_n1_loop d current_interface db graph (l # ls) =
     bind_f (get_link db l) (\<lambda>lnk.
     bind_f (get_neigh db (lk_neigh lnk)) (\<lambda>_.
     let db = unselect_mpr (lk_neigh lnk) db
     in if flooding_is_allowed_link_tuple d current_interface lnk
        then bind_f (mpr_add_n1_node_to_set db (set_n1 graph) (lk_neigh lnk) (Some l) 0) (\<lambda>s.
               flooding_n1_loop d current_interface db (graph\<lparr>set_n1 := s\<rparr>) ls)
        else flooding_n1_loop d current_interface db graph ls))"

definition flooding_calculate_n1 :: "nat \<Rightarrow> nat \<Rightarrow> nhdp_db \<Rightarrow> neighbor_graph \<Rightarrow> fault + nhdp_db \<times> neighbor_graph" where
  "flooding_calculate_n1 d current_interface db graph = flooding_n1_loop d current_interface db graph (db_link_list db)"

text \<open>The two-hop neighbors of a link that \<open>allowed\<close> accepts join a set.\<close>

definition add_2hops :: "(nhdp_l2hop \<Rightarrow> bool) \<Rightarrow> nhdp_link \<Rightarrow> addr_node list \<Rightarrow> addr_node list" where
  "add_2hops allowed lnk s = fold (\<lambda>addr s.
     case Mapping.lookup (lk_2hop lnk) addr of
       Some l2hop \<Rightarrow> if allowed l2hop then mpr_add_addr_node_to_set s addr 0 else s
     | None \<Rightarrow> s) (Mapping.ordered_keys (lk_2hop lnk)) s"

fun flooding_n2_loop :: "nat \<Rightarrow> nat \<Rightarrow> nhdp_db \<Rightarrow> neighbor_graph \<Rightarrow> n1_node list \<Rightarrow> fault + neighbor_graph" where
  "flooding_n2_loop d current_interface db graph [] = Inr graph"
| "flooding_n2_loop d current_interface db graph (x # xs) =
     bind_f (n1_node_link db x) (\<lambda>lnk.
       flooding_n2_loop d current_interface db
         (graph\<lparr>set_n2 := add_2hops (flooding_is_allowed_2hop_tuple d current_interface lnk) lnk (set_n2 graph)\<rparr>) xs)"

definition flooding_calculate_n2 :: "nat \<Rightarrow> nat \<Rightarrow> nhdp_db \<Rightarrow> neighbor_graph \<Rightarrow> fault + neighbor_graph" where
  "flooding_calculate_n2 d current_interface db graph = flooding_n2_loop d current_interface db graph (set_n1 graph)"

definition mpr_calculate_neighbor_graph_flooding :: "nat \<Rightarrow> nat \<Rightarrow> nhdp_db \<Rightarrow> fault + nhdp_db \<times> neighbor_graph" where
  "mpr_calculate_neighbor_graph_flooding d current_interface db =
     bind_f (flooding_calculate_n1 d current_interface db mpr_init_neighbor_graph) (\<lambda>(db, graph).
     bind_f (flooding_calculate_n2 d current_interface db graph) (\<lambda>graph. Inr (db, graph)))"

subsection \<open>Routing (neighbor-graph-routing.c)\<close>

definition routing_is_reachable_neighbor_tuple :: "nat \<Rightarrow> nhdp_neighbor \<Rightarrow> bool" where
  "routing_is_reachable_neighbor_tuple d neigh \<longleftrightarrow> mt_in (neighbor_metric d neigh) \<le> RFC7181_METRIC_MAX \<and> nb_symmetric neigh > 0"

definition routing_is_allowed_neighbor_tuple :: "nat \<Rightarrow> nhdp_neighbor \<Rightarrow> bool" where
  "routing_is_allowed_neighbor_tuple d neigh \<longleftrightarrow>
     routing_is_reachable_neighbor_tuple d neigh \<and> ndd_willingness (nhdp_domain_get_neighbordata d neigh) > RFC7181_WILLINGNESS_NEVER"

definition routing_is_allowed_2hop_tuple :: "nat \<Rightarrow> nhdp_l2hop \<Rightarrow> bool" where
  "routing_is_allowed_2hop_tuple d two_hop \<longleftrightarrow> mt_in (l2hop_metric d two_hop) \<le> RFC7181_METRIC_MAX"

definition routing_calculate_d1_x :: "nat \<Rightarrow> nhdp_db \<Rightarrow> n1_node \<Rightarrow> fault + u32" where
  "routing_calculate_d1_x d db x = bind_f (get_neigh db (n1_neigh x)) (\<lambda>nb. Inr (mt_in (neighbor_metric d nb)))"

fun routing_d2_loop :: "nat \<Rightarrow> nhdp_db \<Rightarrow> addr_node \<Rightarrow> nat list \<Rightarrow> fault + u32" where
  "routing_d2_loop d db y [] = Inr RFC7181_METRIC_INFINITE"
| "routing_d2_loop d db y (l # ls) =
     bind_f (get_link db l) (\<lambda>lnk.
       case Mapping.lookup (lk_2hop lnk) (an_addr y) of
         Some l2hop \<Rightarrow> Inr (mt_in (l2hop_metric d l2hop))
       | None \<Rightarrow> routing_d2_loop d db y ls)"

definition routing_calculate_d2_x_y :: "nat \<Rightarrow> nhdp_db \<Rightarrow> n1_node \<Rightarrow> addr_node \<Rightarrow> fault + u32" where
  "routing_calculate_d2_x_y d db x y = bind_f (get_neigh db (n1_neigh x)) (\<lambda>nb. routing_d2_loop d db y (nb_links nb))"

fun routing_d1_loop :: "nat \<Rightarrow> nhdp_db \<Rightarrow> addr_node \<Rightarrow> n1_node list \<Rightarrow> fault + u32" where
  "routing_d1_loop d db y [] = Inr RFC7181_METRIC_INFINITE"
| "routing_d1_loop d db y (x # xs) =
     (if has_neigh_address db (n1_neigh x) (an_addr y)
      then bind_f (get_neigh db (n1_neigh x)) (\<lambda>nb. Inr (mt_in (neighbor_metric d nb)))
      else routing_d1_loop d db y xs)"

definition routing_calculate_d1_x_of_n2_addr :: "nat \<Rightarrow> nhdp_db \<Rightarrow> neighbor_graph \<Rightarrow> addr_node \<Rightarrow> fault + u32" where
  "routing_calculate_d1_x_of_n2_addr d db graph addr = routing_d1_loop d db addr (set_n1 graph)"

definition routing_get_willingness_n1 :: "nat \<Rightarrow> nhdp_db \<Rightarrow> n1_node \<Rightarrow> fault + u8" where
  "routing_get_willingness_n1 d db x =
     bind_f (get_neigh db (n1_neigh x)) (\<lambda>nb. Inr (ndd_willingness (nhdp_domain_get_neighbordata d nb)))"

definition routing_interface :: neighbor_graph_interface where
  "routing_interface = \<lparr>calculate_d1_x_of_n2_addr = routing_calculate_d1_x_of_n2_addr,
     calculate_d_x_y = (\<lambda>d db graph x y.
       calculate_d_x_y_with (routing_calculate_d1_x d db x) (routing_calculate_d2_x_y d db x y) graph x y),
     calculate_d2_x_y = routing_calculate_d2_x_y, get_willingness_n1 = routing_get_willingness_n1\<rparr>"

fun routing_n1_loop :: "nat \<Rightarrow> nhdp_db \<Rightarrow> neighbor_graph \<Rightarrow> nat list \<Rightarrow> fault + nhdp_db \<times> neighbor_graph" where
  "routing_n1_loop d db graph [] = Inr (db, graph)"
| "routing_n1_loop d db graph (n # ns) =
     bind_f (get_neigh db n) (\<lambda>neigh.
     let db = unselect_mpr n db
     in if routing_is_allowed_neighbor_tuple d neigh
        then bind_f (mpr_add_n1_node_to_set db (set_n1 graph) n None 0) (\<lambda>s. routing_n1_loop d db (graph\<lparr>set_n1 := s\<rparr>) ns)
        else routing_n1_loop d db graph ns)"

definition routing_calculate_n1 :: "nat \<Rightarrow> nhdp_db \<Rightarrow> neighbor_graph \<Rightarrow> fault + nhdp_db \<times> neighbor_graph" where
  "routing_calculate_n1 d db graph = routing_n1_loop d db graph (db_neigh_list db)"

fun routing_n2_links :: "nat \<Rightarrow> nhdp_db \<Rightarrow> addr_node list \<Rightarrow> nat list \<Rightarrow> fault + addr_node list" where
  "routing_n2_links d db s [] = Inr s"
| "routing_n2_links d db s (l # ls) =
     bind_f (get_link db l) (\<lambda>lnk. routing_n2_links d db (add_2hops (routing_is_allowed_2hop_tuple d) lnk s) ls)"

fun routing_n2_loop :: "nat \<Rightarrow> nhdp_db \<Rightarrow> neighbor_graph \<Rightarrow> n1_node list \<Rightarrow> fault + neighbor_graph" where
  "routing_n2_loop d db graph [] = Inr graph"
| "routing_n2_loop d db graph (x # xs) =
     bind_f (get_neigh db (n1_neigh x)) (\<lambda>nb.
     bind_f (routing_n2_links d db (set_n2 graph) (nb_links nb)) (\<lambda>s.
       routing_n2_loop d db (graph\<lparr>set_n2 := s\<rparr>) xs))"

definition routing_calculate_n2 :: "nat \<Rightarrow> nhdp_db \<Rightarrow> neighbor_graph \<Rightarrow> fault + neighbor_graph" where
  "routing_calculate_n2 d db graph = routing_n2_loop d db graph (set_n1 graph)"

definition mpr_calculate_neighbor_graph_routing :: "nat \<Rightarrow> nhdp_db \<Rightarrow> fault + nhdp_db \<times> neighbor_graph" where
  "mpr_calculate_neighbor_graph_routing d db =
     bind_f (routing_calculate_n1 d db mpr_init_neighbor_graph) (\<lambda>(db, graph).
     bind_f (routing_calculate_n2 d db graph) (\<lambda>graph. Inr (db, graph)))"

subsection \<open>The callbacks and the check of the result (mpr.c)\<close>

text \<open>\<open>_validate_mpr_set\<close>, which is compiled in unless \<open>NDEBUG\<close> is set; \<open>flooding\<close>: the domain is the flooding domain.\<close>

fun validate_always_loop :: "bool \<Rightarrow> nat \<Rightarrow> nhdp_db \<Rightarrow> neighbor_graph \<Rightarrow> n1_node list \<Rightarrow> fault + unit" where
  "validate_always_loop flooding d db graph [] = Inr ()"
| "validate_always_loop flooding d db graph (x # xs) =
     bind_f (if flooding then flooding_get_willingness_n1 d db x else routing_get_willingness_n1 d db x) (\<lambda>w.
       if w = RFC7181_WILLINGNESS_ALWAYS \<and> \<not> mpr_is_mpr graph (n1_addr x) then Inl Assert_Failed
       else validate_always_loop flooding d db graph xs)"

fun validate_n2_loop :: "neighbor_graph_interface \<Rightarrow> nat \<Rightarrow> nhdp_db \<Rightarrow> neighbor_graph \<Rightarrow> addr_node list \<Rightarrow> fault + neighbor_graph" where
  "validate_n2_loop m d db graph [] = Inr graph"
| "validate_n2_loop m d db graph (y # ys) =
     bind_f (mpr_calculate_d_of_y_s m d db graph y (set_n1 graph)) (\<lambda>(d_y_n1, graph).
     bind_f (mpr_calculate_d_of_y_s m d db graph y (set_mpr graph)) (\<lambda>(d_y_mpr, graph).
       if \<not> d_y_mpr < RFC7181_METRIC_INFINITE_PATH \<or> d_y_mpr \<noteq> d_y_n1 then Inl Assert_Failed
       else validate_n2_loop m d db graph ys))"

definition validate_mpr_set :: "bool \<Rightarrow> neighbor_graph_interface \<Rightarrow> nat \<Rightarrow> nhdp_db \<Rightarrow> neighbor_graph \<Rightarrow> fault + neighbor_graph" where
  "validate_mpr_set flooding m d db graph =
     bind_f (validate_always_loop flooding d db graph (set_n1 graph)) (\<lambda>_. validate_n2_loop m d db graph (set_n2 graph))"

fun update_nhdp_routing :: "nat \<Rightarrow> neighbor_graph \<Rightarrow> nat list \<Rightarrow> nhdp_db \<Rightarrow> fault + nhdp_db" where
  "update_nhdp_routing d graph [] db = Inr db"
| "update_nhdp_routing d graph (l # ls) db =
     bind_f (get_link db l) (\<lambda>lnk.
     bind_f (get_neigh db (lk_neigh lnk)) (\<lambda>nb.
       update_nhdp_routing d graph ls
         (upd_neigh (lk_neigh lnk) (\<lambda>nb. nb\<lparr>nb_domaindata := (nb_domaindata nb)[d :=
            (nb_domaindata nb ! d)\<lparr>ndd_neigh_is_mpr := mpr_is_mpr graph (nb_originator nb)\<rparr>]\<rparr>) db)))"

fun update_nhdp_flooding :: "neighbor_graph \<Rightarrow> nat list \<Rightarrow> nhdp_db \<Rightarrow> fault + nhdp_db" where
  "update_nhdp_flooding graph [] db = Inr db"
| "update_nhdp_flooding graph (l # ls) db =
     bind_f (get_link db l) (\<lambda>lnk.
     bind_f (get_neigh db (lk_neigh lnk)) (\<lambda>nb.
       update_nhdp_flooding graph ls
         (upd_link l (\<lambda>lnk. lnk\<lparr>lk_neigh_is_flooding_mpr := mpr_is_mpr graph (nb_originator nb)\<rparr>) db)))"

definition clear_nhdp_flooding :: "nhdp_db \<Rightarrow> nhdp_db" where
  "clear_nhdp_flooding db = fold (\<lambda>l. upd_link l (\<lambda>lnk. lnk\<lparr>lk_neigh_is_flooding_mpr := False\<rparr>)) (db_link_list db) db"

text \<open>The flooding MPRs of one interface.\<close>

definition update_flooding_interface :: "nat \<Rightarrow> nat \<Rightarrow> nhdp_db \<Rightarrow> (fault + nhdp_db) option" where
  "update_flooding_interface d i db =
     (case mpr_calculate_neighbor_graph_flooding d i db of
        Inl e \<Rightarrow> Some (Inl e)
      | Inr (db, graph) \<Rightarrow>
          map_option (\<lambda>r. bind_f r (\<lambda>(db, graph).
            bind_f (validate_mpr_set True flooding_interface d db graph) (\<lambda>graph.
              case Mapping.lookup (db_interfaces db) i of
                None \<Rightarrow> Inl Null_Deref
              | Some nhdp_if \<Rightarrow> update_nhdp_flooding graph (nif_links nhdp_if) db)))
            (mpr_calculate_mpr_rfc7181 flooding_interface d db graph))"

fun update_flooding_interfaces :: "nat \<Rightarrow> nat list \<Rightarrow> nhdp_db \<Rightarrow> (fault + nhdp_db) option" where
  "update_flooding_interfaces d [] db = Some (Inr db)"
| "update_flooding_interfaces d (i # is) db =
     (case update_flooding_interface d i db of
        None \<Rightarrow> None
      | Some (Inl e) \<Rightarrow> Some (Inl e)
      | Some (Inr db) \<Rightarrow> update_flooding_interfaces d is db)"

definition cb_update_flooding_mpr :: "nat \<Rightarrow> nhdp_db \<Rightarrow> (fault + nhdp_db) option" where
  "cb_update_flooding_mpr d db =
     update_flooding_interfaces d (Mapping.ordered_keys (db_interfaces db)) (clear_nhdp_flooding db)"

text \<open>\<open>is_handler\<close>: the MPR algorithm of the domain is this one.\<close>

definition cb_update_routing_mpr :: "bool \<Rightarrow> nat \<Rightarrow> nhdp_db \<Rightarrow> (fault + nhdp_db) option" where
  "cb_update_routing_mpr is_handler d db =
     (if \<not> is_handler then Some (Inr db)
      else case mpr_calculate_neighbor_graph_routing d db of
        Inl e \<Rightarrow> Some (Inl e)
      | Inr (db, graph) \<Rightarrow>
          map_option (\<lambda>r. bind_f r (\<lambda>(db, graph).
            bind_f (validate_mpr_set False routing_interface d db graph) (\<lambda>graph.
              update_nhdp_routing d graph (db_link_list db) db)))
            (mpr_calculate_mpr_rfc7181 routing_interface d db graph))"

subsection \<open>The graph and its cache\<close>

text \<open>Databases that differ only in the working flag of the selection; \<open>db_rest\<close> are the fields the selection never looks at.\<close>

definition db_rest where
  "db_rest db = (db_domains db, db_flooding_domain db, db_neighbor_set_id db, db_originator_v4 db, db_originator_v6 db,
     db_now db, db_next db, db_events db)"

definition same_graph :: "nhdp_db \<Rightarrow> nhdp_db \<Rightarrow> bool" where
  "same_graph db db' \<longleftrightarrow> (\<forall>l. get_link db' l = get_link db l) \<and> db_naddrs db' = db_naddrs db \<and>
     (\<forall>n. map_sum id (\<lambda>nb. nb\<lparr>nb_selection_is_mpr := False\<rparr>) (get_neigh db' n) =
          map_sum id (\<lambda>nb. nb\<lparr>nb_selection_is_mpr := False\<rparr>) (get_neigh db n)) \<and>
     db_link_list db' = db_link_list db \<and> db_neigh_list db' = db_neigh_list db \<and> db_interfaces db' = db_interfaces db \<and>
     db_rest db' = db_rest db"

text \<open>The neighbor of a node is selected.\<close>

definition selected :: "nhdp_db \<Rightarrow> n1_node \<Rightarrow> bool" where
  "selected db x \<longleftrightarrow> (\<exists>nb. get_neigh db (n1_neigh x) = Inr nb \<and> nb_selection_is_mpr nb)"

text \<open>The cost of a path of two hops.\<close>

definition path_cost :: "u32 \<Rightarrow> u32 \<Rightarrow> u32" where
  "path_cost a b = (if b > RFC7181_METRIC_MAX then RFC7181_METRIC_INFINITE_PATH else a + b)"

definition numbered :: "n1_node list \<Rightarrow> addr_node list \<Rightarrow> bool" where
  "numbered N1 N2 \<longleftrightarrow> length N1 * length N2 < 2 ^ 32 \<and> length N1 < 2 ^ 32 \<and> length N2 < 2 ^ 32 \<and>
     (\<forall>i<length N1. n1_table_offset (N1 ! i) = of_nat i) \<and>
     (\<forall>j<length N2. an_table_offset (N2 ! j) = of_nat (j * length N1))"

definition graph_nodes :: "nhdp_db \<Rightarrow> n1_node list \<Rightarrow> addr_node list \<Rightarrow> bool" where
  "graph_nodes db N1 N2 \<longleftrightarrow> distinct (map n1_addr N1) \<and> distinct (map an_addr N2) \<and> numbered N1 N2 \<and>
     (\<forall>x\<in>set N1. \<exists>nb. get_neigh db (n1_neigh x) = Inr nb \<and> nb_originator nb = n1_addr x)"

definition cache_ok :: "(n1_node \<Rightarrow> netaddr \<Rightarrow> u32) \<Rightarrow> n1_node list \<Rightarrow> addr_node list \<Rightarrow> u32 list option \<Rightarrow> bool" where
  "cache_ok cost N1 N2 c \<longleftrightarrow> (\<exists>cache. c = Some cache \<and> length cache = length N1 * length N2 \<and>
     (\<forall>i<length N1. \<forall>j<length N2. cache ! (i + j * length N1) \<in> {0, cost (N1 ! i) (an_addr (N2 ! j))}))"

definition in_n2 :: "addr_node list \<Rightarrow> addr_node \<Rightarrow> bool" where
  "in_n2 N2 y \<longleftrightarrow> (\<exists>y'\<in>set N2. an_addr y' = an_addr y \<and> an_table_offset y' = an_table_offset y)"

lemma same_graph_refl [simp]: "same_graph db db"
  by (simp add: same_graph_def)

lemma same_graphD:
  assumes "same_graph db db'"
  shows "get_link db' l = get_link db l" "has_neigh_address db' n a = has_neigh_address db n a"
    "db_link_list db' = db_link_list db" "db_neigh_list db' = db_neigh_list db" "db_interfaces db' = db_interfaces db"
  using assms by (simp_all add: same_graph_def has_neigh_address_def nhdp_db_neighbor_addr_get_def)

lemma same_graph_neigh:
  assumes "same_graph db db'" "get_neigh db n = Inr nb"
  shows "\<exists>s. get_neigh db' n = Inr (nb\<lparr>nb_selection_is_mpr := s\<rparr>)"
proof -
  have "map_sum id (\<lambda>nb. nb\<lparr>nb_selection_is_mpr := False\<rparr>) (get_neigh db' n) = Inr (nb\<lparr>nb_selection_is_mpr := False\<rparr>)"
    using assms by (simp add: same_graph_def)
  then obtain nb' where nb': "get_neigh db' n = Inr nb'" "nb'\<lparr>nb_selection_is_mpr := False\<rparr> = nb\<lparr>nb_selection_is_mpr := False\<rparr>"
    by (cases "get_neigh db' n") auto
  have "nb' = nb'\<lparr>nb_selection_is_mpr := False\<rparr>\<lparr>nb_selection_is_mpr := nb_selection_is_mpr nb'\<rparr>" by simp
  also have "\<dots> = nb\<lparr>nb_selection_is_mpr := nb_selection_is_mpr nb'\<rparr>" unfolding nb'(2) by simp
  finally show ?thesis using nb'(1) by metis
qed

lemma same_graph_update:
  "same_graph db db' \<Longrightarrow> same_graph db (upd_neigh n (\<lambda>nb. nb\<lparr>nb_selection_is_mpr := b\<rparr>) db')"
  by (simp add: same_graph_def get_neigh_upd_neigh sum.map_comp comp_def id_def)
    (auto simp: upd_neigh_def id_def db_rest_def)

lemma same_graph_select: "same_graph db db' \<Longrightarrow> same_graph db (select_mpr n db')"
  unfolding select_mpr_def by (rule same_graph_update)

lemma selected_select_mpr:
  assumes "get_neigh db n = Inr nb"
  shows "selected (select_mpr n db) x \<longleftrightarrow> n1_neigh x = n \<or> selected db x"
  using assms by (auto simp: selected_def select_mpr_def get_neigh_upd_neigh)

lemma numbered_index:
  assumes "numbered N1 N2" "i < length N1" "j < length N2"
  shows "unat (n1_table_offset (N1 ! i) + an_table_offset (N2 ! j)) = i + j * length N1"
    "i + j * length N1 < length N1 * length N2"
proof -
  have "i + j * length N1 < length N1 + j * length N1" using assms(2) by simp
  also have "\<dots> = length N1 * Suc j" by simp
  also have "\<dots> \<le> length N1 * length N2" using assms(3) by (intro mult_le_mono) simp_all
  finally show l: "i + j * length N1 < length N1 * length N2" .
  have "n1_table_offset (N1 ! i) + an_table_offset (N2 ! j) = of_nat (i + j * length N1)"
    using assms by (simp add: numbered_def)
  moreover have "i + j * length N1 < 2 ^ 32" using l assms(1) by (simp add: numbered_def)
  ultimately show "unat (n1_table_offset (N1 ! i) + an_table_offset (N2 ! j)) = i + j * length N1"
    using unat_of_nat_small [of "i + j * length N1", where 'a = 32] by simp
qed

lemma cell_inj:
  assumes "i + j * n = i' + j' * n" "i < n" "i' < (n :: nat)"
  shows "i = i' \<and> j = j'"
proof -
  have "i = (i + j * n) mod n" "i' = (i' + j' * n) mod n" using assms(2,3) by simp_all
  then have "i = i'" using assms(1) by metis
  with assms show ?thesis by simp
qed

text \<open>Cached or not, the result is the cost of the path, and the cache stays correct.\<close>

lemma cached_cost:
  assumes n: "numbered N1 N2" and c: "cache_ok cost N1 N2 (d_x_y_cache g)" and x: "x \<in> set N1" and y: "in_n2 N2 y"
    and a: "a \<le> RFC7181_METRIC_MAX" and cost: "\<And>y' :: addr_node. an_addr y' = an_addr y \<Longrightarrow> cost x (an_addr y') = path_cost a b"
  shows "wp (calculate_d_x_y_with (Inr a) (Inr b) g x y) (\<lambda>_. False)
    (\<lambda>(r, g'). r = path_cost a b \<and> (\<exists>cache. cache_ok cost N1 N2 cache \<and> g' = g\<lparr>d_x_y_cache := cache\<rparr>))"
proof -
  obtain i where i: "i < length N1" "N1 ! i = x" using x by (auto simp: in_set_conv_nth)
  obtain j where j: "j < length N2" "an_addr (N2 ! j) = an_addr y" "an_table_offset (N2 ! j) = an_table_offset y"
    using y by (auto simp: in_n2_def in_set_conv_nth)
  obtain cache where cache: "d_x_y_cache g = Some cache" "length cache = length N1 * length N2"
    "\<forall>i<length N1. \<forall>j<length N2. cache ! (i + j * length N1) \<in> {0, cost (N1 ! i) (an_addr (N2 ! j))}"
    using c by (auto simp: cache_ok_def)
  let ?k = "i + j * length N1"
  have k: "unat (n1_table_offset x + an_table_offset y) = ?k" "?k < length cache"
    using numbered_index [OF n i(1) j(1)] i j cache(2) by simp_all
  have v: "(if a > RFC7181_METRIC_MAX \<or> b > RFC7181_METRIC_MAX then RFC7181_METRIC_INFINITE_PATH else a + b) = path_cost a b"
    using a by (auto simp: path_cost_def)
  have hit: "cache ! ?k \<noteq> 0 \<Longrightarrow> cache ! ?k = path_cost a b"
    using cache(3) [rule_format, OF i(1) j(1)] i(2) j(2) cost [of "N2 ! j"] by simp
  have upd: "cache_ok cost N1 N2 (Some (cache[?k := path_cost a b]))"
  proof -
    have "cache[?k := path_cost a b] ! (i' + j' * length N1) \<in> {0, cost (N1 ! i') (an_addr (N2 ! j'))}"
      if "i' < length N1" "j' < length N2" for i' j'
    proof (cases "i' + j' * length N1 = ?k")
      case True
      then have "i' = i \<and> j' = j" using cell_inj that(1) i(1) by blast
      then show ?thesis using cost [of "N2 ! j"] i j k(2) by simp
    next
      case False then show ?thesis using cache(3) that by (simp add: nth_list_update)
    qed
    then show ?thesis using cache(2) by (simp add: cache_ok_def)
  qed
  show ?thesis
  proof (cases "cache ! ?k = 0")
    case True
    then show ?thesis
      unfolding calculate_d_x_y_with_def cache(1) option.case Let_def k(1) rd_Inr [OF k(2)] bind_f_Inr v
      using upd by auto
  next
    case False
    have "g = g\<lparr>d_x_y_cache := Some cache\<rparr>" using cache(1) by simp
    then show ?thesis
      unfolding calculate_d_x_y_with_def cache(1) option.case Let_def k(1) rd_Inr [OF k(2)] bind_f_Inr v
      using False hit c cache(1) by auto
  qed
qed

lemma insort_key_set: "set (insort_key f x xs) = insert x (set xs)"
  by (induction xs) auto

lemma add_addr_node_addrs: "set (map an_addr (mpr_add_addr_node_to_set s a off)) = insert a (set (map an_addr s))"
  by (auto simp: mpr_add_addr_node_to_set_def insort_key_set)

lemma add_n1_node:
  fixes x :: n1_node
  assumes "same_graph db db'" "\<exists>nb. get_neigh db (n1_neigh x) = Inr nb \<and> nb_originator nb = n1_addr x"
  shows "mpr_add_n1_node_to_set db' s (n1_neigh x) (n1_link x) (n1_table_offset x) =
    Inr (if n1_addr x \<in> set (map n1_addr s) then s else insort_key n1_addr x s)"
proof -
  obtain nb b where "get_neigh db' (n1_neigh x) = Inr (nb\<lparr>nb_selection_is_mpr := b\<rparr>)" "nb_originator nb = n1_addr x"
    using assms same_graph_neigh by blast
  moreover have e: "\<lparr>n1_addr = n1_addr x, n1_link = n1_link x, n1_neigh = n1_neigh x, n1_table_offset = n1_table_offset x\<rparr> = x"
    by simp
  ultimately show ?thesis by (simp add: mpr_add_n1_node_to_set_def e)
qed

end
