(* ===== verification/Mpr_Selection.thy ===== *)
theory Mpr_Selection
  imports Mpr
begin

section \<open>Correctness of the MPR selection\<close>

text \<open>
  The interface between the algorithm of \<^verbatim>\<open>selection-rfc7181.c\<close> and the two graphs it works on is a locale; the invariant of the
  algorithm, its termination and the conditions of RFC 7181 on its result are proved in it.
\<close>

subsection \<open>The contract of the table of functions\<close>

text \<open>
  What the algorithm relies on: for a graph \<open>built\<close> for a domain of a database, the functions of the table compute costs that depend on the
  database only (\<open>d1\<close>, \<open>d2\<close>, \<open>dy\<close> and \<open>w\<close>) and not on the working flags; a node of N1 has a finite cost
  and every address of N2 is a two-hop neighbor of a node of N1.
\<close>

locale mpr_costs =
  fixes m :: neighbor_graph_interface
    and built :: "nat \<Rightarrow> nhdp_db \<Rightarrow> n1_node list \<Rightarrow> addr_node list \<Rightarrow> bool"
    and d1 :: "nat \<Rightarrow> nhdp_db \<Rightarrow> n1_node \<Rightarrow> u32"
    and d2 :: "nat \<Rightarrow> nhdp_db \<Rightarrow> n1_node \<Rightarrow> netaddr \<Rightarrow> u32"
    and dy :: "nat \<Rightarrow> nhdp_db \<Rightarrow> n1_node list \<Rightarrow> netaddr \<Rightarrow> u32"
    and w :: "nat \<Rightarrow> nhdp_db \<Rightarrow> n1_node \<Rightarrow> u8"
  assumes nodes: "built d db N1 N2 \<Longrightarrow> graph_nodes db N1 N2"
    and d1_finite: "built d db N1 N2 \<Longrightarrow> x \<in> set N1 \<Longrightarrow> d1 d db x \<le> RFC7181_METRIC_MAX"
    and d2_finite: "built d db N1 N2 \<Longrightarrow> y \<in> set N2 \<Longrightarrow> \<exists>x\<in>set N1. d2 d db x (an_addr y) \<le> RFC7181_METRIC_MAX"
    and dy_range: "built d db N1 N2 \<Longrightarrow> y \<in> set N2 \<Longrightarrow>
      dy d db N1 (an_addr y) \<le> RFC7181_METRIC_MAX \<or> dy d db N1 (an_addr y) = RFC7181_METRIC_INFINITE"
    and m_d_x_y: "built d db N1 N2 \<Longrightarrow> same_graph db db' \<Longrightarrow> x \<in> set N1 \<Longrightarrow>
      calculate_d_x_y m d db' g x y = calculate_d_x_y_with (Inr (d1 d db x)) (Inr (d2 d db x (an_addr y))) g x y"
    and m_d2: "built d db N1 N2 \<Longrightarrow> same_graph db db' \<Longrightarrow> x \<in> set N1 \<Longrightarrow>
      calculate_d2_x_y m d db' x y = Inr (d2 d db x (an_addr y))"
    and m_dy: "built d db N1 N2 \<Longrightarrow> same_graph db db' \<Longrightarrow> set_n1 g = N1 \<Longrightarrow>
      calculate_d1_x_of_n2_addr m d db' g y = Inr (dy d db N1 (an_addr y))"
    and m_w: "built d db N1 N2 \<Longrightarrow> same_graph db db' \<Longrightarrow> x \<in> set N1 \<Longrightarrow> get_willingness_n1 m d db' x = Inr (w d db x)"
begin

abbreviation cost :: "nat \<Rightarrow> nhdp_db \<Rightarrow> n1_node \<Rightarrow> netaddr \<Rightarrow> u32" where
  "cost d db x a \<equiv> path_cost (d1 d db x) (d2 d db x a)"

text \<open>The least cost over a list of nodes, starting from a bound.\<close>

abbreviation least :: "nat \<Rightarrow> nhdp_db \<Rightarrow> netaddr \<Rightarrow> n1_node list \<Rightarrow> u32 \<Rightarrow> u32" where
  "least d db a xs c \<equiv> fold (\<lambda>z c. min (cost d db z a) c) xs c"

abbreviation min_cost :: "nat \<Rightarrow> nhdp_db \<Rightarrow> n1_node list \<Rightarrow> netaddr \<Rightarrow> u32" where
  "min_cost d db N1 a \<equiv> least d db a N1 RFC7181_METRIC_INFINITE_PATH"

text \<open>The invariant of the algorithm, for the database it started with and the current one.\<close>

definition inv :: "nat \<Rightarrow> nhdp_db \<Rightarrow> nhdp_db \<Rightarrow> neighbor_graph \<Rightarrow> bool" where
  "inv d db0 db g \<longleftrightarrow> built d db0 (set_n1 g) (set_n2 g) \<and> same_graph db0 db \<and>
     cache_ok (cost d db0) (set_n1 g) (set_n2 g) (d_x_y_cache g) \<and>
     (\<forall>y\<in>set (set_n g). in_n2 (set_n2 g) y \<and> an_min_d_z_y y \<in> {0, min_cost d db0 (set_n1 g) (an_addr y)}) \<and>
     distinct (map an_addr (set_n g)) \<and> set (set_mpr g) \<subseteq> set (set_n1 g)"

text \<open>What the evaluation of costs may change: the caches.\<close>

definition keeps :: "neighbor_graph \<Rightarrow> neighbor_graph \<Rightarrow> bool" where
  "keeps g g' \<longleftrightarrow> set_n1 g' = set_n1 g \<and> set_n2 g' = set_n2 g \<and> set_mpr g' = set_mpr g \<and>
     map an_addr (set_n g') = map an_addr (set_n g)"

lemma keeps_refl [simp]: "keeps g g"
  by (simp add: keeps_def)

lemma keeps_trans: "keeps g h \<Longrightarrow> keeps h k \<Longrightarrow> keeps g k"
  by (simp add: keeps_def)

lemma least_bound: "least d db a xs c \<le> c"
proof (induction xs arbitrary: c)
  case (Cons z zs)
  from Cons [of "min (cost d db z a) c"] show ?case by simp
qed simp

lemma least_le: "x \<in> set xs \<Longrightarrow> least d db a xs c \<le> cost d db x a"
proof (induction xs arbitrary: c)
  case (Cons z zs)
  show ?case
  proof (cases "x = z")
    case True with least_bound [of d db a zs "min (cost d db z a) c"] show ?thesis by simp
  next
    case False with Cons show ?thesis by simp
  qed
qed simp

lemma least_attained: "least d db a xs c = c \<or> (\<exists>x\<in>set xs. least d db a xs c = cost d db x a)"
proof (induction xs arbitrary: c)
  case (Cons z zs)
  from Cons [of "min (cost d db z a) c"] show ?case by (auto simp: min_def split: if_splits)
qed simp

lemma invD:
  assumes "inv d db0 db g"
  shows "built d db0 (set_n1 g) (set_n2 g)" "same_graph db0 db" "graph_nodes db0 (set_n1 g) (set_n2 g)"
    "distinct (map n1_addr (set_n1 g))" "set (set_mpr g) \<subseteq> set (set_n1 g)"
    "numbered (set_n1 g) (set_n2 g)"
  using assms nodes by (auto simp: inv_def graph_nodes_def)

lemma cost_wp:
  assumes inv: "inv d db0 db g" and x: "x \<in> set (set_n1 g)" and y: "in_n2 (set_n2 g) y"
    and Q: "\<And>g'. inv d db0 db g' \<Longrightarrow> keeps g g' \<Longrightarrow> set_n g' = set_n g \<Longrightarrow> Q (cost d db0 x (an_addr y), g')"
  shows "wp (calculate_d_x_y m d db g x y) (\<lambda>_. False) Q"
proof -
  have "wp (calculate_d_x_y_with (Inr (d1 d db0 x)) (Inr (d2 d db0 x (an_addr y))) g x y) (\<lambda>_. False)
      (\<lambda>(r, g'). r = cost d db0 x (an_addr y) \<and>
        (\<exists>cache. cache_ok (cost d db0) (set_n1 g) (set_n2 g) cache \<and> g' = g\<lparr>d_x_y_cache := cache\<rparr>))"
    using inv by (intro cached_cost [OF invD(6) [OF inv] _ x y d1_finite [OF invD(1) [OF inv] x]])
      (simp_all add: inv_def)
  then show ?thesis
    unfolding m_d_x_y [OF invD(1,2) [OF inv] x]
    by (rule wp_mono) (use inv in \<open>auto intro!: Q simp: inv_def keeps_def\<close>)
qed

lemma minimal_wp:
  assumes "inv d db0 db g" "set zs \<subseteq> set (set_n1 g)" "in_n2 (set_n2 g) y"
    and Q: "\<And>g'. inv d db0 db g' \<Longrightarrow> keeps g g' \<Longrightarrow> set_n g' = set_n g \<Longrightarrow> Q (least d db0 (an_addr y) zs c, g')"
  shows "wp (minimal_loop m d db g y zs c) (\<lambda>_. False) Q"
  using assms
proof (induction zs arbitrary: g c)
  case (Cons z zs)
  show ?case
    unfolding minimal_loop.simps wp_bind
  proof (rule cost_wp [OF Cons.prems(1) _ Cons.prems(3)])
    show "z \<in> set (set_n1 g)" using Cons.prems(2) by simp
    fix g' assume g': "inv d db0 db g'" "keeps g g'" "set_n g' = set_n g"
    have e: "(if cost d db0 z (an_addr y) < c then cost d db0 z (an_addr y) else c) = min (cost d db0 z (an_addr y)) c"
      by (auto simp: min_def)
    have "wp (minimal_loop m d db g' y zs (min (cost d db0 z (an_addr y)) c)) (\<lambda>_. False) Q"
    proof (rule Cons.IH [OF g'(1)])
      show "set zs \<subseteq> set (set_n1 g')" "in_n2 (set_n2 g') y" using g'(2) Cons.prems(2,3) by (simp_all add: keeps_def)
      fix h assume h: "inv d db0 db h" "keeps g' h" "set_n h = set_n g'"
      show "Q (least d db0 (an_addr y) zs (min (cost d db0 z (an_addr y)) c), h)"
        using Cons.prems(4) [OF h(1) keeps_trans [OF g'(2) h(2)]] h(3) g'(3) by simp
    qed
    then show "wp (case (cost d db0 z (an_addr y), g') of (d_z_y, graph) \<Rightarrow>
        minimal_loop m d db graph y zs (if d_z_y < c then d_z_y else c)) (\<lambda>_. False) Q"
      by (simp only: prod.case e)
  qed
qed simp

end

context mpr_costs
begin

text \<open>\<open>same_sets\<close>: what building N changes, too.\<close>

definition same_sets :: "neighbor_graph \<Rightarrow> neighbor_graph \<Rightarrow> bool" where
  "same_sets g g' \<longleftrightarrow> set_n1 g' = set_n1 g \<and> set_n2 g' = set_n2 g \<and> set_mpr g' = set_mpr g"

lemma keeps_same_sets: "keeps g g' \<Longrightarrow> same_sets g g'"
  by (simp add: keeps_def same_sets_def)

lemma same_sets_trans: "same_sets g h \<Longrightarrow> same_sets h k \<Longrightarrow> same_sets g k"
  by (simp add: same_sets_def)

lemma minimum_wp:
  assumes inv: "inv d db0 db g" and y: "in_n2 (set_n2 g) y" "an_min_d_z_y y \<in> {0, min_cost d db0 (set_n1 g) (an_addr y)}"
    and Q: "\<And>g'. inv d db0 db g' \<Longrightarrow> keeps g g' \<Longrightarrow> Q (min_cost d db0 (set_n1 g) (an_addr y), g')"
  shows "wp (mpr_calculate_minimal_d_z_y m d db g y) (\<lambda>_. False) Q"
proof (cases "an_min_d_z_y y = 0")
  case True
  have "wp (minimal_loop m d db g y (set_n1 g) RFC7181_METRIC_INFINITE_PATH) (\<lambda>_. False)
      (\<lambda>(c, g'). Q (c, g'\<lparr>set_n := map (\<lambda>a. if an_addr a = an_addr y then a\<lparr>an_min_d_z_y := c\<rparr> else a) (set_n g')\<rparr>))"
  proof (rule minimal_wp [OF inv subset_refl y(1)], unfold prod.case)
    fix g' assume g': "inv d db0 db g'" "keeps g g'" "set_n g' = set_n g"
    let ?c = "min_cost d db0 (set_n1 g) (an_addr y)"
    let ?h = "g'\<lparr>set_n := map (\<lambda>a. if an_addr a = an_addr y then a\<lparr>an_min_d_z_y := ?c\<rparr> else a) (set_n g')\<rparr>"
    have addrs: "map an_addr (set_n ?h) = map an_addr (set_n g')" by (auto simp: comp_def)
    have mem: "in_n2 (set_n2 ?h) y' \<and> an_min_d_z_y y' \<in> {0, min_cost d db0 (set_n1 ?h) (an_addr y')}" if "y' \<in> set (set_n ?h)" for y'
    proof -
      from that obtain a where a: "a \<in> set (set_n g')" "y' = (if an_addr a = an_addr y then a\<lparr>an_min_d_z_y := ?c\<rparr> else a)" by auto
      from g'(1) a(1) have "in_n2 (set_n2 g') a" "an_min_d_z_y a \<in> {0, min_cost d db0 (set_n1 g') (an_addr a)}"
        by (auto simp: inv_def)
      moreover have "set_n1 g' = set_n1 g" using g'(2) by (simp add: keeps_def)
      ultimately show ?thesis unfolding a(2) by (auto simp: in_n2_def)
    qed
    have "distinct (map an_addr (set_n ?h))" unfolding addrs using g'(1) by (simp add: inv_def)
    then have "inv d db0 db ?h" using g'(1) mem unfolding inv_def by (intro conjI ballI) auto
    moreover have "keeps g ?h" using g'(2) addrs by (simp add: keeps_def)
    ultimately show "Q (?c, ?h)" by (rule Q)
  qed
  with True show ?thesis by (simp add: mpr_calculate_minimal_d_z_y_def case_prod_unfold)
next
  case False
  with y(2) Q [OF inv keeps_refl] show ?thesis by (simp add: mpr_calculate_minimal_d_z_y_def)
qed

lemma cheaper_wp:
  assumes "inv d db0 db g" "set xs \<subseteq> set (set_n1 g)" "in_n2 (set_n2 g) y"
    and "\<And>g'. inv d db0 db g' \<Longrightarrow> keeps g g' \<Longrightarrow> set_n g' = set_n g \<Longrightarrow> Q (\<exists>x\<in>set xs. cost d db0 x (an_addr y) < c, g')"
  shows "wp (cheaper_loop m d db g y c xs) (\<lambda>_. False) Q"
  using assms
proof (induction xs arbitrary: g)
  case (Cons x xs)
  show ?case
    unfolding cheaper_loop.simps wp_bind
  proof (rule cost_wp [OF Cons.prems(1) _ Cons.prems(3)], unfold prod.case)
    show "x \<in> set (set_n1 g)" using Cons.prems(2) by simp
    fix g' assume g': "inv d db0 db g'" "keeps g g'" "set_n g' = set_n g"
    have "wp (cheaper_loop m d db g' y c xs) (\<lambda>_. False) Q" if "\<not> cost d db0 x (an_addr y) < c"
    proof (rule Cons.IH [OF g'(1)])
      show "set xs \<subseteq> set (set_n1 g')" "in_n2 (set_n2 g') y" using g'(2) Cons.prems(2,3) by (simp_all add: keeps_def)
      fix h assume h: "inv d db0 db h" "keeps g' h" "set_n h = set_n g'"
      show "Q (\<exists>x\<in>set xs. cost d db0 x (an_addr y) < c, h)"
        using Cons.prems(4) [OF h(1) keeps_trans [OF g'(2) h(2)]] h(3) g'(3) that by simp
    qed
    then show "wp (if cost d db0 x (an_addr y) < c then Inr (True, g') else cheaper_loop m d db g' y c xs) (\<lambda>_. False) Q"
      using Cons.prems(4) [OF g'] by (cases "cost d db0 x (an_addr y) < c") simp_all
  qed
qed simp

text \<open>N holds the two-hop neighbors that no direct link reaches at the least cost.\<close>

definition needs_mpr :: "nat \<Rightarrow> nhdp_db \<Rightarrow> n1_node list \<Rightarrow> netaddr \<Rightarrow> bool" where
  "needs_mpr d db N1 a \<longleftrightarrow> dy d db N1 a = RFC7181_METRIC_INFINITE \<or> (\<exists>x\<in>set N1. cost d db x a < dy d db N1 a)"

lemma inv_set_n:
  assumes "inv d db0 db g" "distinct (map an_addr ys)"
    "\<forall>y\<in>set ys. in_n2 (set_n2 g) y \<and> an_min_d_z_y y \<in> {0, min_cost d db0 (set_n1 g) (an_addr y)}"
  shows "inv d db0 db (g\<lparr>set_n := ys\<rparr>)"
  using assms unfolding inv_def by (intro conjI) simp_all

lemma inv_add_n:
  assumes inv: "inv d db0 db g" and y: "in_n2 (set_n2 g) y"
  shows "inv d db0 db (g\<lparr>set_n := mpr_add_addr_node_to_set (set_n g) (an_addr y) (an_table_offset y)\<rparr>)"
proof (cases "an_addr y \<in> set (map an_addr (set_n g))")
  case True then show ?thesis using inv by (simp add: mpr_add_addr_node_to_set_def)
next
  case False
  let ?y = "\<lparr>an_addr = an_addr y, an_table_offset = an_table_offset y, an_min_d_z_y = 0\<rparr>"
  have d: "distinct (map an_addr (set_n g))"
    and n: "\<forall>y\<in>set (set_n g). in_n2 (set_n2 g) y \<and> an_min_d_z_y y \<in> {0, min_cost d db0 (set_n1 g) (an_addr y)}"
    using inv by (simp_all add: inv_def)
  have "mset (map an_addr (insort_key an_addr ?y (set_n g))) = mset (map an_addr (?y # set_n g))" by simp
  then have "distinct (map an_addr (insort_key an_addr ?y (set_n g))) = distinct (map an_addr (?y # set_n g))"
    by (rule mset_eq_imp_distinct_iff)
  with False d have "distinct (map an_addr (insort_key an_addr ?y (set_n g)))" by simp
  moreover have "in_n2 (set_n2 g) ?y" using y by (simp add: in_n2_def)
  then have "\<forall>y\<in>set (insort_key an_addr ?y (set_n g)).
      in_n2 (set_n2 g) y \<and> an_min_d_z_y y \<in> {0, min_cost d db0 (set_n1 g) (an_addr y)}"
    using n by (simp add: insort_key_set)
  ultimately show ?thesis
    using False inv_set_n [OF inv] by (simp add: mpr_add_addr_node_to_set_def)
qed

lemma calculate_n_wp:
  assumes "inv d db0 db g" "set ys \<subseteq> set (set_n2 g)"
    and "\<And>g'. inv d db0 db g' \<Longrightarrow> same_sets g g' \<Longrightarrow>
      set (map an_addr (set_n g')) = set (map an_addr (set_n g)) \<union> {a \<in> set (map an_addr ys). needs_mpr d db0 (set_n1 g) a} \<Longrightarrow> Q g'"
  shows "wp (calculate_n_loop m d db g ys) (\<lambda>_. False) Q"
  using assms
proof (induction ys arbitrary: g)
  case Nil then show ?case by (simp add: same_sets_def)
next
  case (Cons y ys)
  note b = invD(1,2) [OF Cons.prems(1)]
  have y: "in_n2 (set_n2 g) y" using Cons.prems(2) by (auto simp: in_n2_def)
  have next_wp: "wp (calculate_n_loop m d db
      (if add then h\<lparr>set_n := mpr_add_addr_node_to_set (set_n h) (an_addr y) (an_table_offset y)\<rparr> else h) ys) (\<lambda>_. False) Q"
    if h: "inv d db0 db h" "keeps g h" "add \<longleftrightarrow> needs_mpr d db0 (set_n1 g) (an_addr y)" for add h
  proof -
    let ?h = "if add then h\<lparr>set_n := mpr_add_addr_node_to_set (set_n h) (an_addr y) (an_table_offset y)\<rparr> else h"
    have e: "set_n1 h = set_n1 g" "set_n2 h = set_n2 g" "set_mpr h = set_mpr g" "map an_addr (set_n h) = map an_addr (set_n g)"
      using h(2) by (simp_all add: keeps_def)
    have "inv d db0 db ?h" using h(1) inv_add_n [OF h(1)] y e by simp
    moreover have "set ys \<subseteq> set (set_n2 ?h)" using Cons.prems(2) e by simp
    ultimately show ?thesis
    proof (rule Cons.IH)
      fix k assume k: "inv d db0 db k" "same_sets ?h k"
        "set (map an_addr (set_n k)) = set (map an_addr (set_n ?h)) \<union> {a \<in> set (map an_addr ys). needs_mpr d db0 (set_n1 ?h) a}"
      have "set (map an_addr (set_n ?h)) = (if add then {an_addr y} else {}) \<union> set (map an_addr (set_n g))"
        using add_addr_node_addrs [of "set_n h" "an_addr y" "an_table_offset y"] arg_cong [OF e(4), of set] by simp
      moreover have "set_n1 ?h = set_n1 g" using e by simp
      ultimately have "set (map an_addr (set_n k)) =
          set (map an_addr (set_n g)) \<union> {a \<in> set (map an_addr (y # ys)). needs_mpr d db0 (set_n1 g) a}"
        using k(3) h(3) by auto
      then show "Q k" using k(1,2) e by (intro Cons.prems(3)) (simp_all add: same_sets_def split: if_splits)
    qed
  qed
  show ?case
    unfolding calculate_n_loop.simps m_dy [OF b refl] bind_f_Inr wp_bind
  proof (cases "dy d db0 (set_n1 g) (an_addr y) = RFC7181_METRIC_INFINITE")
    case True
    then show "wp (if dy d db0 (set_n1 g) (an_addr y) = RFC7181_METRIC_INFINITE then Inr (True, g)
        else cheaper_loop m d db g y (dy d db0 (set_n1 g) (an_addr y)) (set_n1 g)) (\<lambda>_. False)
        (\<lambda>a. wp (case a of (add_to_n, graph) \<Rightarrow> calculate_n_loop m d db
          (if add_to_n then graph\<lparr>set_n := mpr_add_addr_node_to_set (set_n graph) (an_addr y) (an_table_offset y)\<rparr> else graph) ys)
          (\<lambda>_. False) Q)"
      using next_wp [OF Cons.prems(1) keeps_refl, of True] by (simp add: needs_mpr_def)
  next
    case False
    have "wp (cheaper_loop m d db g y (dy d db0 (set_n1 g) (an_addr y)) (set_n1 g)) (\<lambda>_. False)
        (\<lambda>a. wp (case a of (add_to_n, graph) \<Rightarrow> calculate_n_loop m d db
          (if add_to_n then graph\<lparr>set_n := mpr_add_addr_node_to_set (set_n graph) (an_addr y) (an_table_offset y)\<rparr> else graph) ys)
          (\<lambda>_. False) Q)"
      unfolding prod.case
      by (rule cheaper_wp [OF Cons.prems(1) subset_refl y], unfold prod.case, rule next_wp)
        (use False in \<open>auto simp: needs_mpr_def\<close>)
    with False show "wp (if dy d db0 (set_n1 g) (an_addr y) = RFC7181_METRIC_INFINITE then Inr (True, g)
        else cheaper_loop m d db g y (dy d db0 (set_n1 g) (an_addr y)) (set_n1 g)) (\<lambda>_. False)
        (\<lambda>a. wp (case a of (add_to_n, graph) \<Rightarrow> calculate_n_loop m d db
          (if add_to_n then graph\<lparr>set_n := mpr_add_addr_node_to_set (set_n graph) (an_addr y) (an_table_offset y)\<rparr> else graph) ys)
          (\<lambda>_. False) Q)" by simp
  qed
qed

end

context mpr_costs
begin

lemma neigh_wp:
  assumes "inv d db0 db g" "x \<in> set (set_n1 g)"
    and "\<And>nb. get_neigh db (n1_neigh x) = Inr nb \<Longrightarrow> nb_selection_is_mpr nb = selected db x \<Longrightarrow> wp (f nb) (\<lambda>_. False) Q"
  shows "wp (bind_f (get_neigh db (n1_neigh x)) f) (\<lambda>_. False) Q"
proof -
  obtain nb where "get_neigh db0 (n1_neigh x) = Inr nb" using invD(3) [OF assms(1)] assms(2) by (auto simp: graph_nodes_def)
  from same_graph_neigh [OF invD(2) [OF assms(1)] this] obtain s
    where "get_neigh db (n1_neigh x) = Inr (nb\<lparr>nb_selection_is_mpr := s\<rparr>)" by blast
  with assms(3) show ?thesis by (simp add: selected_def)
qed

lemma covered_wp:
  assumes "inv d db0 db g" "set zs \<subseteq> set (set_n1 g)" "in_n2 (set_n2 g) y"
    and "\<And>g'. inv d db0 db g' \<Longrightarrow> keeps g g' \<Longrightarrow> Q (\<exists>z\<in>set zs. cost d db0 z (an_addr y) = c \<and> selected db z, g')"
  shows "wp (covered_loop m d db g y c zs) (\<lambda>_. False) Q"
  using assms
proof (induction zs arbitrary: g)
  case (Cons z zs)
  have z: "z \<in> set (set_n1 g)" using Cons.prems(2) by simp
  show ?case
    unfolding covered_loop.simps wp_bind
  proof (rule cost_wp [OF Cons.prems(1) z Cons.prems(3)], unfold prod.case)
    fix g' assume g': "inv d db0 db g'" "keeps g g'" "set_n g' = set_n g"
    have rest: "wp (covered_loop m d db g' y c zs) (\<lambda>_. False) Q" if "\<not> (cost d db0 z (an_addr y) = c \<and> selected db z)"
    proof (rule Cons.IH [OF g'(1)])
      show "set zs \<subseteq> set (set_n1 g')" "in_n2 (set_n2 g') y" using g'(2) Cons.prems(2,3) by (simp_all add: keeps_def)
      fix h assume h: "inv d db0 db h" "keeps g' h"
      have "(\<exists>z\<in>set (z # zs). cost d db0 z (an_addr y) = c \<and> selected db z) \<longleftrightarrow>
          (\<exists>z\<in>set zs. cost d db0 z (an_addr y) = c \<and> selected db z)" using that by auto
      with Cons.prems(4) [OF h(1) keeps_trans [OF g'(2) h(2)]]
      show "Q (\<exists>z\<in>set zs. cost d db0 z (an_addr y) = c \<and> selected db z, h)" by (simp only:)
    qed
    have hit: "Q (True, g')" if "cost d db0 z (an_addr y) = c" "selected db z"
      using Cons.prems(4) [OF g'(1,2)] that by simp
    have z': "z \<in> set (set_n1 g')" using z g'(2) by (simp add: keeps_def)
    show "wp (if cost d db0 z (an_addr y) = c
        then bind_f (get_neigh db (n1_neigh z)) (\<lambda>nb. if nb_selection_is_mpr nb then Inr (True, g') else covered_loop m d db g' y c zs)
        else covered_loop m d db g' y c zs) (\<lambda>_. False) Q"
    proof (cases "cost d db0 z (an_addr y) = c")
      case True
      have "wp (bind_f (get_neigh db (n1_neigh z)) (\<lambda>nb. if nb_selection_is_mpr nb then Inr (True, g') else covered_loop m d db g' y c zs))
          (\<lambda>_. False) Q"
        using True rest hit by (intro neigh_wp [OF g'(1) z']) simp
      with True show ?thesis by simp
    next
      case False with rest show ?thesis by simp
    qed
  qed
qed simp

text \<open>The addresses \<open>calculate_r\<close> counts.\<close>

definition uncovered :: "nat \<Rightarrow> nhdp_db \<Rightarrow> nhdp_db \<Rightarrow> n1_node list \<Rightarrow> netaddr \<Rightarrow> bool" where
  "uncovered d db0 db N1 a \<longleftrightarrow> \<not> (\<exists>z\<in>set N1. cost d db0 z a = min_cost d db0 N1 a \<and> selected db z)"

definition counted :: "nat \<Rightarrow> nhdp_db \<Rightarrow> nhdp_db \<Rightarrow> n1_node list \<Rightarrow> n1_node \<Rightarrow> netaddr list \<Rightarrow> netaddr list" where
  "counted d db0 db N1 x = filter (\<lambda>a. cost d db0 x a \<le> min_cost d db0 N1 a \<and> uncovered d db0 db N1 a)"

lemma r_loop_wp:
  assumes "inv d db0 db g" "x \<in> set (set_n1 g)"
    "\<forall>y\<in>set ys. in_n2 (set_n2 g) y \<and> an_min_d_z_y y \<in> {0, min_cost d db0 (set_n1 g) (an_addr y)}"
    and "\<And>g'. inv d db0 db g' \<Longrightarrow> keeps g g' \<Longrightarrow>
      Q (r + of_nat (length (counted d db0 db (set_n1 g) x (map an_addr ys))), g')"
  shows "wp (r_loop m d db g x ys r) (\<lambda>_. False) Q"
  using assms
proof (induction ys arbitrary: g r)
  case (Cons y ys)
  let ?N = "set_n1 g" and ?a = "an_addr y"
  have y: "in_n2 (set_n2 g) y" "an_min_d_z_y y \<in> {0, min_cost d db0 ?N ?a}" using Cons.prems(3) by simp_all
  have rest: "wp (r_loop m d db h x ys r') (\<lambda>_. False) Q"
    if h: "inv d db0 db h" "keeps g h"
      "r' = (if cost d db0 x ?a \<le> min_cost d db0 ?N ?a \<and> uncovered d db0 db ?N ?a then r + 1 else r)" for h r'
  proof (rule Cons.IH [OF h(1)])
    have e: "set_n1 h = ?N" "set_n2 h = set_n2 g" using h(2) by (simp_all add: keeps_def)
    show "x \<in> set (set_n1 h)" using Cons.prems(2) e by simp
    show "\<forall>y\<in>set ys. in_n2 (set_n2 h) y \<and> an_min_d_z_y y \<in> {0, min_cost d db0 (set_n1 h) (an_addr y)}"
      using Cons.prems(3) unfolding e by simp
    fix k assume k: "inv d db0 db k" "keeps h k"
    have "r' + of_nat (length (counted d db0 db ?N x (map an_addr ys))) =
        r + of_nat (length (counted d db0 db ?N x (map an_addr (y # ys))))"
      unfolding h(3) counted_def by simp
    with Cons.prems(4) [OF k(1) keeps_trans [OF h(2) k(2)]]
    show "Q (r' + of_nat (length (counted d db0 db (set_n1 h) x (map an_addr ys))), k)" unfolding e by (simp only:)
  qed
  show ?case
    unfolding r_loop.simps wp_bind
  proof (rule cost_wp [OF Cons.prems(1,2) y(1)], unfold prod.case wp_bind)
    fix g1 assume g1: "inv d db0 db g1" "keeps g g1" "set_n g1 = set_n g"
    have e1: "set_n1 g1 = ?N" "set_n2 g1 = set_n2 g" using g1(2) by (simp_all add: keeps_def)
    show "wp (mpr_calculate_minimal_d_z_y m d db g1 y) (\<lambda>_. False) (\<lambda>a. wp (case a of (min_d_z_y, graph) \<Rightarrow>
        if cost d db0 x ?a > min_d_z_y then r_loop m d db graph x ys r
        else bind_f (covered_loop m d db graph y min_d_z_y (set_n1 graph)) (\<lambda>(already_covered, graph).
          r_loop m d db graph x ys (if already_covered then r else r + 1))) (\<lambda>_. False) Q)"
    proof (rule minimum_wp [OF g1(1)], unfold prod.case e1)
      show "in_n2 (set_n2 g) y" "an_min_d_z_y y \<in> {0, min_cost d db0 ?N ?a}" by (rule y)+
      fix g2 assume g2: "inv d db0 db g2" "keeps g1 g2"
      have k2: "keeps g g2" by (rule keeps_trans [OF g1(2) g2(2)])
      then have e2: "set_n1 g2 = ?N" "set_n2 g2 = set_n2 g" by (simp_all add: keeps_def)
      show "wp (if cost d db0 x ?a > min_cost d db0 ?N ?a then r_loop m d db g2 x ys r
          else bind_f (covered_loop m d db g2 y (min_cost d db0 ?N ?a) (set_n1 g2)) (\<lambda>(already_covered, graph).
            r_loop m d db graph x ys (if already_covered then r else r + 1))) (\<lambda>_. False) Q"
      proof (cases "cost d db0 x ?a > min_cost d db0 ?N ?a")
        case True
        then have "wp (r_loop m d db g2 x ys r) (\<lambda>_. False) Q" by (intro rest [OF g2(1) k2]) (simp add: not_le)
        with True show ?thesis by simp
      next
        case False
        have "wp (covered_loop m d db g2 y (min_cost d db0 ?N ?a) ?N) (\<lambda>_. False) (\<lambda>a. wp (case a of (already_covered, graph) \<Rightarrow>
            r_loop m d db graph x ys (if already_covered then r else r + 1)) (\<lambda>_. False) Q)"
        proof (rule covered_wp [OF g2(1)], unfold prod.case e2)
          show "set ?N \<subseteq> set ?N" "in_n2 (set_n2 g) y" using y(1) by simp_all
          fix g3 assume g3: "inv d db0 db g3" "keeps g2 g3"
          show "wp (r_loop m d db g3 x ys
              (if \<exists>z\<in>set ?N. cost d db0 z ?a = min_cost d db0 ?N ?a \<and> selected db z then r else r + 1)) (\<lambda>_. False) Q"
            by (rule rest [OF g3(1) keeps_trans [OF k2 g3(2)]]) (use False in \<open>simp add: uncovered_def\<close>)
        qed
        with False show ?thesis by (simp add: e2)
      qed
    qed
  qed
qed (simp add: counted_def)

definition r_value :: "nat \<Rightarrow> nhdp_db \<Rightarrow> nhdp_db \<Rightarrow> neighbor_graph \<Rightarrow> n1_node \<Rightarrow> u32" where
  "r_value d db0 db g x = (if selected db x then 0
     else of_nat (length (counted d db0 db (set_n1 g) x (map an_addr (set_n g)))))"

lemma r_value_keeps: "keeps g g' \<Longrightarrow> r_value d db0 db g' x = r_value d db0 db g x"
  by (simp add: r_value_def keeps_def)

lemma calculate_r_wp:
  assumes "inv d db0 db g" "x \<in> set (set_n1 g)"
    and "\<And>g'. inv d db0 db g' \<Longrightarrow> keeps g g' \<Longrightarrow> Q (r_value d db0 db g x, g')"
  shows "wp (calculate_r m d db g x) (\<lambda>_. False) Q"
  unfolding calculate_r_def
proof (rule neigh_wp [OF assms(1,2)])
  fix nb assume s: "nb_selection_is_mpr nb = selected db x"
  have "wp (r_loop m d db g x (set_n g) 0) (\<lambda>_. False) Q" if "\<not> selected db x"
    by (rule r_loop_wp [OF assms(1,2)]) (use assms(1,3) that in \<open>simp_all add: inv_def r_value_def\<close>)
  then show "wp (if nb_selection_is_mpr nb then Inr (0, g) else r_loop m d db g x (set_n g) 0) (\<lambda>_. False) Q"
    using s assms(3) [OF assms(1) keeps_refl] by (cases "selected db x") (simp_all add: r_value_def)
qed

text \<open>The counter does not wrap around, so it is 0 only when every address of N is covered.\<close>

lemma r_value_zero:
  assumes inv: "inv d db0 db g" and zero: "r_value d db0 db g x = 0" and a: "a \<in> set (map an_addr (set_n g))"
    and x: "\<not> selected db x" "cost d db0 x a \<le> min_cost d db0 (set_n1 g) a"
  shows "\<not> uncovered d db0 db (set_n1 g) a"
proof -
  let ?c = "counted d db0 db (set_n1 g) x (map an_addr (set_n g))"
  have "set (map an_addr (set_n g)) \<subseteq> set (map an_addr (set_n2 g))"
  proof
    fix a assume "a \<in> set (map an_addr (set_n g))"
    then obtain y where "y \<in> set (set_n g)" "a = an_addr y" by auto
    with inv have "in_n2 (set_n2 g) y" "a = an_addr y" by (simp_all add: inv_def)
    then show "a \<in> set (map an_addr (set_n2 g))" by (auto simp: in_n2_def intro: rev_image_eqI)
  qed
  then have "card (set (map an_addr (set_n g))) \<le> card (set (map an_addr (set_n2 g)))" by (intro card_mono) simp_all
  moreover have "distinct (map an_addr (set_n g))" "distinct (map an_addr (set_n2 g))"
    using inv invD(3) [OF inv] by (simp_all add: inv_def graph_nodes_def)
  ultimately have "length (set_n g) \<le> length (set_n2 g)" by (simp only: distinct_card length_map)
  moreover have "length ?c \<le> length (set_n g)" by (simp add: counted_def le_trans [OF length_filter_le])
  ultimately have "length ?c < 2 ^ 32" using invD(6) [OF inv] by (simp add: numbered_def)
  then have "unat (of_nat (length ?c) :: u32) = length ?c" using unat_of_nat_small [of "length ?c", where 'a = 32] by simp
  with zero x(1) have "?c = []" by (simp add: r_value_def)
  with a x(2) show ?thesis by (auto simp: counted_def filter_empty_conv)
qed

end

context mpr_costs
begin

lemma add_n1:
  assumes "inv d db0 db g" "x \<in> set (set_n1 g)"
  shows "mpr_add_n1_node_to_set db s (n1_neigh x) (n1_link x) (n1_table_offset x) =
    Inr (if n1_addr x \<in> set (map n1_addr s) then s else insort_key n1_addr x s)"
  using add_n1_node [OF invD(2) [OF assms(1)]] invD(3) [OF assms(1)] assms(2) by (simp add: graph_nodes_def)

lemma add_n1_wp:
  assumes "inv d db0 db g" "x \<in> set (set_n1 g)" "set s \<subseteq> set (set_n1 g)"
    and "\<And>s'. set s' = insert x (set s) \<Longrightarrow> wp (f s') (\<lambda>_. False) Q"
  shows "wp (bind_f (mpr_add_n1_node_to_set db s (n1_neigh x) (n1_link x) (n1_table_offset x)) f) (\<lambda>_. False) Q"
proof (cases "n1_addr x \<in> set (map n1_addr s)")
  case True
  then obtain y where "y \<in> set s" "n1_addr y = n1_addr x" by auto
  moreover have "y = x"
    using invD(4) [OF assms(1)] assms(2,3) calculation by (auto simp: distinct_map inj_on_def)
  ultimately have "set s = insert x (set s)" by auto
  with True assms(4) [of s] show ?thesis by (simp add: add_n1 [OF assms(1,2)])
next
  case False
  with assms(4) [of "insort_key n1_addr x s"] show ?thesis by (simp add: add_n1 [OF assms(1,2)] insort_key_set)
qed

lemma greatest_wp:
  assumes "inv d db0 db g" "set xs \<subseteq> set (set_n1 g)" "set tmp \<subseteq> set (set_n1 g)" "found \<longleftrightarrow> tmp \<noteq> []"
    and "\<And>g' tmp'. inv d db0 db g' \<Longrightarrow> keeps g g' \<Longrightarrow> set tmp' \<subseteq> set tmp \<union> {x \<in> set xs. r_value d db0 db g x \<noteq> 0} \<Longrightarrow>
      (tmp' = [] \<longleftrightarrow> tmp = [] \<and> (\<forall>x\<in>set xs. r_value d db0 db g x = 0)) \<Longrightarrow> Q (tmp', g')"
  shows "wp (greatest_loop m d db g xs found c tmp) (\<lambda>_. False) Q"
  using assms
proof (induction xs arbitrary: g found c tmp)
  case (Cons x xs)
  let ?r = "r_value d db0 db g x"
  have x: "x \<in> set (set_n1 g)" using Cons.prems(2) by simp
  show ?case
    unfolding greatest_loop.simps wp_bind
  proof (rule calculate_r_wp [OF Cons.prems(1) x], unfold prod.case)
    fix g' assume g': "inv d db0 db g'" "keeps g g'"
    have e: "set_n1 g' = set_n1 g" using g'(2) by (simp add: keeps_def)
    have rest: "wp (greatest_loop m d db g' xs found' c' tmp') (\<lambda>_. False) Q"
      if t: "set tmp' \<subseteq> set tmp \<union> {y. y = x \<and> ?r \<noteq> 0}" "found' \<longleftrightarrow> tmp' \<noteq> []" "tmp' = [] \<longleftrightarrow> tmp = [] \<and> ?r = 0" for found' c' tmp'
    proof (rule Cons.IH [OF g'(1)])
      show "set xs \<subseteq> set (set_n1 g')" using Cons.prems(2) e by simp
      show "set tmp' \<subseteq> set (set_n1 g')" using t(1) Cons.prems(3) x e by auto
      show "found' \<longleftrightarrow> tmp' \<noteq> []" by (rule t)
      fix h s assume h: "inv d db0 db h" "keeps g' h" "set s \<subseteq> set tmp' \<union> {x \<in> set xs. r_value d db0 db g' x \<noteq> 0}"
        "s = [] \<longleftrightarrow> tmp' = [] \<and> (\<forall>x\<in>set xs. r_value d db0 db g' x = 0)"
      show "Q (s, h)"
      proof (rule Cons.prems(5) [OF h(1) keeps_trans [OF g'(2) h(2)]])
        show "set s \<subseteq> set tmp \<union> {y \<in> set (x # xs). r_value d db0 db g y \<noteq> 0}"
          using h(3) t(1) unfolding r_value_keeps [OF g'(2)] by auto
        show "s = [] \<longleftrightarrow> tmp = [] \<and> (\<forall>y\<in>set (x # xs). r_value d db0 db g y = 0)"
          using h(4) t(3) unfolding r_value_keeps [OF g'(2)] by auto
      qed
    qed
    have x': "x \<in> set (set_n1 g')" using x e by simp
    show "wp (if ?r > 0
       then if \<not> found \<or> ?r > c
            then bind_f (mpr_add_n1_node_to_set db [] (n1_neigh x) (n1_link x) (n1_table_offset x)) (\<lambda>tmp.
                   greatest_loop m d db g' xs True ?r tmp)
            else if ?r = c
            then bind_f (mpr_add_n1_node_to_set db tmp (n1_neigh x) (n1_link x) (n1_table_offset x)) (\<lambda>tmp.
                   greatest_loop m d db g' xs found c tmp)
            else greatest_loop m d db g' xs found c tmp
       else greatest_loop m d db g' xs found c tmp) (\<lambda>_. False) Q"
    proof (cases "?r > 0")
      case False
      then have "wp (greatest_loop m d db g' xs found c tmp) (\<lambda>_. False) Q"
        by (intro rest) (use Cons.prems(4) in \<open>auto simp: word_gt_0\<close>)
      with False show ?thesis by simp
    next
      case True
      then have r: "?r \<noteq> 0" by (simp add: word_gt_0)
      consider "\<not> found \<or> ?r > c" | "found" "\<not> ?r > c" "?r = c" | "found" "\<not> ?r > c" "?r \<noteq> c" by blast
      then show ?thesis
      proof cases
        case 1
        have "wp (bind_f (mpr_add_n1_node_to_set db [] (n1_neigh x) (n1_link x) (n1_table_offset x)) (\<lambda>tmp.
            greatest_loop m d db g' xs True ?r tmp)) (\<lambda>_. False) Q"
        proof (rule add_n1_wp [OF g'(1) x'])
          fix s' assume "set s' = insert x (set [])"
          then show "wp (greatest_loop m d db g' xs True ?r s') (\<lambda>_. False) Q"
            by (intro rest) (use r in \<open>auto\<close>)
        qed simp
        with True 1 show ?thesis by simp
      next
        case 2
        have "wp (bind_f (mpr_add_n1_node_to_set db tmp (n1_neigh x) (n1_link x) (n1_table_offset x)) (\<lambda>tmp.
            greatest_loop m d db g' xs found c tmp)) (\<lambda>_. False) Q"
        proof (rule add_n1_wp [OF g'(1) x'])
          show "set tmp \<subseteq> set (set_n1 g')" using Cons.prems(3) e by simp
          fix s' assume "set s' = insert x (set tmp)"
          then show "wp (greatest_loop m d db g' xs found c s') (\<lambda>_. False) Q"
            by (intro rest) (use r 2(1) in \<open>auto\<close>)
        qed
        with True 2 show ?thesis by simp
      next
        case 3
        have "wp (greatest_loop m d db g' xs found c tmp) (\<lambda>_. False) Q"
          by (intro rest) (use Cons.prems(4) 3(1) in auto)
        with True 3 show ?thesis by simp
      qed
    qed
  qed
qed simp

lemma add_n1_nodes_wp:
  assumes "inv d db0 db g" "set xs \<subseteq> set (set_n1 g)" "set s \<subseteq> set (set_n1 g)"
    and "\<And>s'. set s' = set s \<union> set xs \<Longrightarrow> Q s'"
  shows "wp (add_n1_nodes db s xs) (\<lambda>_. False) Q"
  using assms
proof (induction xs arbitrary: s)
  case (Cons x xs)
  show ?case
    unfolding add_n1_nodes.simps
  proof (rule add_n1_wp [OF Cons.prems(1) _ Cons.prems(3)])
    show "x \<in> set (set_n1 g)" using Cons.prems(2) by simp
    fix s' assume s': "set s' = insert x (set s)"
    show "wp (add_n1_nodes db s' xs) (\<lambda>_. False) Q"
      by (rule Cons.IH [OF Cons.prems(1)]) (use s' Cons.prems in auto)
  qed
qed simp

lemma inv_candidates: "inv d db0 db g \<Longrightarrow> inv d db0 db (g\<lparr>set_mpr_candidates := s\<rparr>)"
  by (simp add: inv_def)

lemma select_greatest_wp:
  assumes inv: "inv d db0 db g"
    and Q: "\<And>g'. inv d db0 db g' \<Longrightarrow> keeps g g' \<Longrightarrow> set (set_mpr_candidates g') \<subseteq> {x \<in> set (set_n1 g). r_value d db0 db g x \<noteq> 0} \<Longrightarrow>
      (set_mpr_candidates g' = [] \<longleftrightarrow> (\<forall>x\<in>set (set_n1 g). r_value d db0 db g x = 0)) \<Longrightarrow> Q g'"
  shows "wp (select_greatest_by_property m d db g) (\<lambda>_. False) Q"
  unfolding select_greatest_by_property_def wp_bind
proof (rule greatest_wp [OF inv subset_refl], unfold prod.case wp_bind)
  show "set [] \<subseteq> set (set_n1 g)" "False \<longleftrightarrow> [] \<noteq> []" by simp_all
  fix g' tmp' assume g': "inv d db0 db g'" "keeps g g'" "set tmp' \<subseteq> set [] \<union> {x \<in> set (set_n1 g). r_value d db0 db g x \<noteq> 0}"
    "tmp' = [] \<longleftrightarrow> [] = [] \<and> (\<forall>x\<in>set (set_n1 g). r_value d db0 db g x = 0)"
  have e: "set_n1 g' = set_n1 g" using g'(2) by (simp add: keeps_def)
  show "wp (add_n1_nodes db [] tmp') (\<lambda>_. False) (\<lambda>a. wp (Inr (g'\<lparr>set_mpr_candidates := a\<rparr>)) (\<lambda>_. False) Q)"
  proof (rule add_n1_nodes_wp [OF g'(1)])
    show "set tmp' \<subseteq> set (set_n1 g')" using g'(3) e by auto
    show "set [] \<subseteq> set (set_n1 g')" by simp
    fix s' assume s': "set s' = set [] \<union> set tmp'"
    have "Q (g'\<lparr>set_mpr_candidates := s'\<rparr>)"
    proof (rule Q [OF inv_candidates [OF g'(1)]])
      show "keeps g (g'\<lparr>set_mpr_candidates := s'\<rparr>)" using g'(2) by (simp add: keeps_def)
      show "set (set_mpr_candidates (g'\<lparr>set_mpr_candidates := s'\<rparr>)) \<subseteq> {x \<in> set (set_n1 g). r_value d db0 db g x \<noteq> 0}"
        using s' g'(3) by simp
      have "s' = [] \<longleftrightarrow> tmp' = []" using s' by (metis set_empty sup_bot_left)
      then show "set_mpr_candidates (g'\<lparr>set_mpr_candidates := s'\<rparr>) = [] \<longleftrightarrow> (\<forall>x\<in>set (set_n1 g). r_value d db0 db g x = 0)"
        using g'(4) by simp
    qed
    then show "wp (Inr (g'\<lparr>set_mpr_candidates := s'\<rparr>)) (\<lambda>_. False) Q" by simp
  qed
qed

end

context mpr_costs
begin

text \<open>A selected node is in the set of MPRs.\<close>

definition marks :: "nhdp_db \<Rightarrow> neighbor_graph \<Rightarrow> bool" where
  "marks db g \<longleftrightarrow> (\<forall>x\<in>set (set_n1 g). selected db x \<longrightarrow> x \<in> set (set_mpr g))"

definition grows :: "neighbor_graph \<Rightarrow> neighbor_graph \<Rightarrow> bool" where
  "grows g g' \<longleftrightarrow> set_n1 g' = set_n1 g \<and> set_n2 g' = set_n2 g \<and> map an_addr (set_n g') = map an_addr (set_n g) \<and>
     set (set_mpr g) \<subseteq> set (set_mpr g')"

lemma grows_refl [simp]: "grows g g"
  by (simp add: grows_def)

lemma grows_trans: "grows g h \<Longrightarrow> grows h k \<Longrightarrow> grows g k"
  by (auto simp: grows_def)

lemma keeps_grows: "keeps g g' \<Longrightarrow> grows g g'"
  by (simp add: keeps_def grows_def)

lemma inv_set_mpr: "inv d db0 db g \<Longrightarrow> set s \<subseteq> set (set_n1 g) \<Longrightarrow> inv d db0 db (g\<lparr>set_mpr := s\<rparr>)"
  by (simp add: inv_def)

lemma inv_select: "inv d db0 db g \<Longrightarrow> inv d db0 (select_mpr n db) g"
  by (simp add: inv_def same_graph_select)

lemma same_neigh:
  assumes "inv d db0 db g" "x \<in> set (set_n1 g)" "y \<in> set (set_n1 g)" "n1_neigh x = n1_neigh y"
  shows "x = y"
proof -
  have o: "\<forall>x\<in>set (set_n1 g). \<exists>nb. get_neigh db0 (n1_neigh x) = Inr nb \<and> nb_originator nb = n1_addr x"
    using invD(3) [OF assms(1)] by (simp add: graph_nodes_def)
  from o [rule_format, OF assms(2)] o [rule_format, OF assms(3)] assms(4) have "n1_addr x = n1_addr y" by auto
  with invD(4) [OF assms(1)] assms(2,3) show ?thesis by (auto simp: distinct_map inj_on_def)
qed

lemma selected_after:
  assumes "inv d db0 db g" "x \<in> set (set_n1 g)" "y \<in> set (set_n1 g)"
  shows "selected (select_mpr (n1_neigh x) db) y \<longleftrightarrow> y = x \<or> selected db y"
proof -
  obtain nb0 where "get_neigh db0 (n1_neigh x) = Inr nb0" using invD(3) [OF assms(1)] assms(2) by (auto simp: graph_nodes_def)
  from same_graph_neigh [OF invD(2) [OF assms(1)] this] obtain nb where "get_neigh db (n1_neigh x) = Inr nb" by blast
  from selected_select_mpr [OF this] same_neigh [OF assms(1,3,2)] show ?thesis by auto
qed

text \<open>A node of N1 becomes an MPR.\<close>

lemma select_node:
  assumes inv: "inv d db0 db g" and m: "marks db g" and x: "x \<in> set (set_n1 g)" and s: "set s = insert x (set (set_mpr g))"
  shows "inv d db0 (select_mpr (n1_neigh x) db) (g\<lparr>set_mpr := s\<rparr>)" "marks (select_mpr (n1_neigh x) db) (g\<lparr>set_mpr := s\<rparr>)"
    "grows g (g\<lparr>set_mpr := s\<rparr>)"
proof -
  have "set s \<subseteq> set (set_n1 g)" using s x invD(5) [OF inv] by simp
  from inv_select [OF inv_set_mpr [OF inv this]]
  show "inv d db0 (select_mpr (n1_neigh x) db) (g\<lparr>set_mpr := s\<rparr>)" .
  show "marks (select_mpr (n1_neigh x) db) (g\<lparr>set_mpr := s\<rparr>)"
    using m s selected_after [OF inv x] by (auto simp: marks_def)
  show "grows g (g\<lparr>set_mpr := s\<rparr>)" using s by (auto simp: grows_def)
qed

lemma marks_keeps: "keeps g g' \<Longrightarrow> marks db g \<Longrightarrow> marks db g'"
  by (simp add: marks_def keeps_def)

lemma remaining_step_wp:
  assumes inv: "inv d db0 db g" and m: "marks db g"
    and fin: "\<And>g'. inv d db0 db g' \<Longrightarrow> keeps g g' \<Longrightarrow> \<forall>x\<in>set (set_n1 g). r_value d db0 db g x = 0 \<Longrightarrow> Q (True, db, g')"
    and step: "\<And>x g'. x \<in> set (set_n1 g) \<Longrightarrow> \<not> selected db x \<Longrightarrow> inv d db0 (select_mpr (n1_neigh x) db) g' \<Longrightarrow>
      marks (select_mpr (n1_neigh x) db) g' \<Longrightarrow> grows g g' \<Longrightarrow> Q (False, select_mpr (n1_neigh x) db, g')"
  shows "wp (remaining_step m d db g) (\<lambda>_. False) Q"
  unfolding remaining_step_def wp_bind
proof (rule select_greatest_wp [OF inv])
  fix g' assume g': "inv d db0 db g'" "keeps g g'" "set (set_mpr_candidates g') \<subseteq> {x \<in> set (set_n1 g). r_value d db0 db g x \<noteq> 0}"
    "set_mpr_candidates g' = [] \<longleftrightarrow> (\<forall>x\<in>set (set_n1 g). r_value d db0 db g x = 0)"
  show "wp (case set_mpr_candidates g' of
         [] \<Rightarrow> Inr (True, db, g')
       | x # rest \<Rightarrow>
           bind_f (mpr_add_n1_node_to_set db (set_mpr g') (n1_neigh x) (n1_link x) (n1_table_offset x)) (\<lambda>s.
             Inr (False, select_mpr (n1_neigh x) db, g'\<lparr>set_mpr := s, set_mpr_candidates := rest\<rparr>))) (\<lambda>_. False) Q"
  proof (cases "set_mpr_candidates g'")
    case Nil with fin [OF g'(1,2)] g'(4) show ?thesis by simp
  next
    case (Cons x rest)
    then have x: "x \<in> set (set_n1 g)" "r_value d db0 db g x \<noteq> 0" using g'(3) by auto
    have x': "x \<in> set (set_n1 g')" using x(1) g'(2) by (simp add: keeps_def)
    have "wp (bind_f (mpr_add_n1_node_to_set db (set_mpr g') (n1_neigh x) (n1_link x) (n1_table_offset x)) (\<lambda>s.
        Inr (False, select_mpr (n1_neigh x) db, g'\<lparr>set_mpr := s, set_mpr_candidates := rest\<rparr>))) (\<lambda>_. False) Q"
    proof (rule add_n1_wp [OF g'(1) x' invD(5) [OF g'(1)]])
      fix s' assume "set s' = insert x (set (set_mpr g'))"
      note sel = select_node [OF g'(1) marks_keeps [OF g'(2) m] x' this]
      have "\<not> selected db x" using x(2) by (auto simp: r_value_def)
      moreover have "inv d db0 (select_mpr (n1_neigh x) db) (g'\<lparr>set_mpr := s', set_mpr_candidates := rest\<rparr>)"
        using inv_candidates [OF sel(1)] by simp
      moreover have "marks (select_mpr (n1_neigh x) db) (g'\<lparr>set_mpr := s', set_mpr_candidates := rest\<rparr>)"
        using sel(2) by (simp add: marks_def)
      moreover have "grows g (g'\<lparr>set_mpr := s', set_mpr_candidates := rest\<rparr>)"
        using grows_trans [OF keeps_grows [OF g'(2)] sel(3)] by (simp add: grows_def)
      ultimately show "wp (Inr (False, select_mpr (n1_neigh x) db, g'\<lparr>set_mpr := s', set_mpr_candidates := rest\<rparr>)) (\<lambda>_. False) Q"
        using step [OF x(1)] by simp
    qed
    then show ?thesis unfolding Cons by simp
  qed
qed

text \<open>Every round selects a node that was not, so the loop ends.\<close>

lemma remaining_ends:
  assumes "inv d db0 db g" "marks db g"
  shows "\<exists>db' g'. process_remaining m d db g = Some (Inr (db', g')) \<and> inv d db0 db' g' \<and> marks db' g' \<and> grows g g' \<and>
    (\<forall>x\<in>set (set_n1 g). r_value d db0 db' g' x = 0)"
  using assms
proof (induction "card {x \<in> set (set_n1 g). \<not> selected db x}" arbitrary: db g rule: less_induct)
  case less
  have "wp (remaining_step m d db g) (\<lambda>_. False) (\<lambda>(fin, db', g').
      if fin then db' = db \<and> inv d db0 db g' \<and> keeps g g' \<and> (\<forall>x\<in>set (set_n1 g). r_value d db0 db g x = 0)
      else \<exists>x\<in>set (set_n1 g). \<not> selected db x \<and> db' = select_mpr (n1_neigh x) db \<and> inv d db0 db' g' \<and> marks db' g' \<and> grows g g')"
    by (rule remaining_step_wp [OF less.prems]) auto
  from wp_False_ex [OF this] obtain fin db' g' where r: "remaining_step m d db g = Inr (fin, db', g')"
    and c: "if fin then db' = db \<and> inv d db0 db g' \<and> keeps g g' \<and> (\<forall>x\<in>set (set_n1 g). r_value d db0 db g x = 0)
      else \<exists>x\<in>set (set_n1 g). \<not> selected db x \<and> db' = select_mpr (n1_neigh x) db \<and> inv d db0 db' g' \<and> marks db' g' \<and> grows g g'"
    by auto
  show ?case
  proof (cases fin)
    case True
    have "process_remaining m d db g = Some (Inr (db', g'))"
      by (subst process_remaining.simps) (simp add: r True)
    moreover have "marks db g'" using marks_keeps less.prems(2) c True by auto
    ultimately show ?thesis using c True keeps_grows [of g g'] r_value_keeps [of g g'] by auto
  next
    case False
    with c obtain x where x: "x \<in> set (set_n1 g)" "\<not> selected db x" "db' = select_mpr (n1_neigh x) db"
      "inv d db0 db' g'" "marks db' g'" "grows g g'" by auto
    have e: "set_n1 g' = set_n1 g" using x(6) by (simp add: grows_def)
    have "{y \<in> set (set_n1 g'). \<not> selected db' y} \<subset> {y \<in> set (set_n1 g). \<not> selected db y}"
      using selected_after [OF less.prems(1) x(1)] x(1,2) unfolding e x(3) by auto
    then have "card {y \<in> set (set_n1 g'). \<not> selected db' y} < card {y \<in> set (set_n1 g). \<not> selected db y}"
      by (intro psubset_card_mono) simp_all
    from less.hyps [OF this x(4,5)] obtain db'' g'' where h: "process_remaining m d db' g' = Some (Inr (db'', g''))"
      "inv d db0 db'' g''" "marks db'' g''" "grows g' g''" "\<forall>x\<in>set (set_n1 g'). r_value d db0 db'' g'' x = 0" by blast
    have "process_remaining m d db g = Some (Inr (db'', g''))"
      by (subst process_remaining.simps) (simp add: r False h(1))
    with h grows_trans [OF x(6) h(4)] e show ?thesis by auto
  qed
qed

end

text \<open>The algorithm follows the link of a node that is always willing, so it needs one.\<close>

locale mpr_graph = mpr_costs +
  assumes always: "built d db N1 N2 \<Longrightarrow> x \<in> set N1 \<Longrightarrow> w d db x = RFC7181_WILLINGNESS_ALWAYS \<Longrightarrow>
      \<exists>l lnk. n1_link x = Some l \<and> get_link db l = Inr lnk \<and> lk_neigh lnk = n1_neigh x"
begin

lemma will_always_wp:
  assumes "inv d db0 db g" "set xs \<subseteq> set (set_n1 g)"
    and "\<And>g'. inv d db0 db g' \<Longrightarrow> grows g g' \<Longrightarrow> {x \<in> set xs. w d db0 x = RFC7181_WILLINGNESS_ALWAYS} \<subseteq> set (set_mpr g') \<Longrightarrow> Q g'"
  shows "wp (will_always_loop m d db g xs) (\<lambda>_. False) Q"
  using assms
proof (induction xs arbitrary: g)
  case (Cons x xs)
  note b = invD(1,2) [OF Cons.prems(1)]
  have x: "x \<in> set (set_n1 g)" using Cons.prems(2) by simp
  have rest: "wp (will_always_loop m d db h xs) (\<lambda>_. False) Q"
    if h: "inv d db0 db h" "grows g h" "w d db0 x = RFC7181_WILLINGNESS_ALWAYS \<longrightarrow> x \<in> set (set_mpr h)" for h
  proof (rule Cons.IH [OF h(1)])
    show "set xs \<subseteq> set (set_n1 h)" using Cons.prems(2) h(2) by (simp add: grows_def)
    fix k assume k: "inv d db0 db k" "grows h k" "{x \<in> set xs. w d db0 x = RFC7181_WILLINGNESS_ALWAYS} \<subseteq> set (set_mpr k)"
    show "Q k"
      by (rule Cons.prems(3) [OF k(1) grows_trans [OF h(2) k(2)]]) (use k(2,3) h(3) in \<open>auto simp: grows_def\<close>)
  qed
  show ?case
  proof (cases "w d db0 x = RFC7181_WILLINGNESS_ALWAYS")
    case True
    obtain l lnk where l: "n1_link x = Some l" "get_link db0 l = Inr lnk" "lk_neigh lnk = n1_neigh x"
      using always [OF b(1) x True] by blast
    have "wp (bind_f (mpr_add_n1_node_to_set db (set_mpr g) (n1_neigh x) (n1_link x) (n1_table_offset x))
        (\<lambda>s. will_always_loop m d db (g\<lparr>set_mpr := s\<rparr>) xs)) (\<lambda>_. False) Q"
    proof (rule add_n1_wp [OF Cons.prems(1) x invD(5) [OF Cons.prems(1)]])
      fix s' assume s': "set s' = insert x (set (set_mpr g))"
      show "wp (will_always_loop m d db (g\<lparr>set_mpr := s'\<rparr>) xs) (\<lambda>_. False) Q"
      proof (rule rest)
        show "inv d db0 db (g\<lparr>set_mpr := s'\<rparr>)"
          using inv_set_mpr [OF Cons.prems(1)] s' x invD(5) [OF Cons.prems(1)] by simp
      qed (use s' in \<open>auto simp: grows_def\<close>)
    qed
    then show ?thesis using True l same_graphD(1) [OF b(2)] by (simp add: m_w [OF b x])
  next
    case False
    with rest [OF Cons.prems(1) grows_refl] show ?thesis by (simp add: m_w [OF b x])
  qed
qed (auto simp: subset_iff)

lemma possible_mprs:
  assumes "inv d db0 db g" "set xs \<subseteq> set (set_n1 g)"
    and P: "P = filter (\<lambda>x. d2 d db0 x (an_addr y) \<le> RFC7181_METRIC_MAX) xs"
  shows "possible_mprs_loop m d db y xs k node =
    Inr (k + of_nat (length P), if P = [] then node else Some (last P))"
  using assms(2) unfolding P
proof (induction xs arbitrary: k node)
  case (Cons x xs)
  have x: "x \<in> set (set_n1 g)" using Cons.prems by simp
  show ?case using Cons by (simp add: m_d2 [OF invD(1,2) [OF assms(1)] x])
qed simp

lemma unique_wp:
  assumes "inv d db0 db g" "marks db g" "\<forall>y\<in>set ys. in_n2 (set_n2 g) y"
    and "\<And>db' g'. inv d db0 db' g' \<Longrightarrow> marks db' g' \<Longrightarrow> grows g g' \<Longrightarrow> Q (db', g')"
  shows "wp (unique_loop m d db g ys) (\<lambda>_. False) Q"
  using assms
proof (induction ys arbitrary: db g)
  case (Cons y ys)
  note inv = Cons.prems(1)
  let ?P = "filter (\<lambda>x. d2 d db0 x (an_addr y) \<le> RFC7181_METRIC_MAX) (set_n1 g)"
  have rest: "wp (unique_loop m d db' h ys) (\<lambda>_. False) Q" if h: "inv d db0 db' h" "marks db' h" "grows g h" for db' h
  proof (rule Cons.IH [OF h(1,2)])
    show "\<forall>y\<in>set ys. in_n2 (set_n2 h) y" using Cons.prems(3) h(3) by (simp add: grows_def)
    fix db'' k assume "inv d db0 db'' k" "marks db'' k" "grows h k"
    then show "Q (db'', k)" using grows_trans [OF h(3)] by (intro Cons.prems(4))
  qed
  obtain y' where "y' \<in> set (set_n2 g)" "an_addr y' = an_addr y" using Cons.prems(3) by (auto simp: in_n2_def)
  then have "\<exists>x\<in>set (set_n1 g). d2 d db0 x (an_addr y) \<le> RFC7181_METRIC_MAX"
    using d2_finite [OF invD(1) [OF inv], of y'] by simp
  then obtain x0 where "x0 \<in> set ?P" by auto
  then have ne: "?P \<noteq> []" by (metis empty_iff empty_set)
  have "length ?P < 2 ^ 32" using invD(6) [OF inv] le_less_trans [OF length_filter_le] by (auto simp: numbered_def)
  then have u: "unat (of_nat (length ?P) :: u32) = length ?P" using unat_of_nat_small [of "length ?P", where 'a = 32] by simp
  have pos: "(0 :: u32) < of_nat (length ?P)"
  proof -
    have "unat (of_nat (length ?P) :: u32) \<noteq> 0" using u ne by simp
    then show ?thesis by (metis word_gt_0 unat_0)
  qed
  have l: "last ?P \<in> set (set_n1 g)" using last_in_set [OF ne] by auto
  have "wp (bind_f (mpr_add_n1_node_to_set db (set_mpr g) (n1_neigh (last ?P)) (n1_link (last ?P)) (n1_table_offset (last ?P)))
      (\<lambda>s. unique_loop m d (select_mpr (n1_neigh (last ?P)) db) (g\<lparr>set_mpr := s\<rparr>) ys)) (\<lambda>_. False) Q"
  proof (rule add_n1_wp [OF inv l invD(5) [OF inv]])
    fix s' assume "set s' = insert (last ?P) (set (set_mpr g))"
    from rest [OF select_node [OF inv Cons.prems(2) l this]]
    show "wp (unique_loop m d (select_mpr (n1_neigh (last ?P)) db) (g\<lparr>set_mpr := s'\<rparr>) ys) (\<lambda>_. False) Q" .
  qed
  moreover have "wp (unique_loop m d db g ys) (\<lambda>_. False) Q" by (rule rest [OF inv Cons.prems(2) grows_refl])
  ultimately show ?case
    unfolding unique_loop.simps possible_mprs [OF inv subset_refl refl] bind_f_Inr prod.case if_not_P [OF ne] option.case
    using pos by simp
qed simp

end

lemma path_cost_finite: "a \<le> RFC7181_METRIC_MAX \<Longrightarrow> b \<le> RFC7181_METRIC_MAX \<Longrightarrow> path_cost a b < RFC7181_METRIC_INFINITE_PATH"
  by (simp add: path_cost_def RFC7181_METRIC_MAX_def RFC7181_METRIC_INFINITE_PATH_def word_less_nat_alt word_le_nat_alt
      unat_word_ariths)

context mpr_graph
begin

text \<open>\<open>d(y, S)\<close> of RFC 7181: the least cost to reach \<open>y\<close> directly or over a node of \<open>S\<close>.\<close>

definition best_cost :: "nat \<Rightarrow> nhdp_db \<Rightarrow> n1_node list \<Rightarrow> netaddr \<Rightarrow> n1_node list \<Rightarrow> u32" where
  "best_cost d db N1 a S = least d db a S
     (if dy d db N1 a > RFC7181_METRIC_MAX then RFC7181_METRIC_INFINITE_PATH else dy d db N1 a)"

lemma best_cost_mono:
  assumes "set S \<subseteq> set N1"
  shows "best_cost d db N1 a N1 \<le> best_cost d db N1 a S"
proof -
  let ?c = "if dy d db N1 a > RFC7181_METRIC_MAX then RFC7181_METRIC_INFINITE_PATH else dy d db N1 a"
  consider "least d db a S ?c = ?c" | x where "x \<in> set S" "least d db a S ?c = cost d db x a"
    using least_attained [of d db a S ?c] by blast
  then show ?thesis
  proof cases
    case 1 show ?thesis unfolding best_cost_def 1 by (rule least_bound)
  next
    case 2
    then have "x \<in> set N1" using assms by blast
    from least_le [OF this, of d db a ?c] show ?thesis unfolding best_cost_def 2(2) .
  qed
qed

text \<open>When \<open>calculate_r\<close> is 0 everywhere, the selected nodes reach every two-hop neighbor at the least cost.\<close>

lemma selection_covers:
  assumes inv: "inv d db0 db g" and m: "marks db g" and n: "set (map an_addr (set_n g)) = {a \<in> set (map an_addr (set_n2 g)). needs_mpr d db0 (set_n1 g) a}"
    and r: "\<forall>x\<in>set (set_n1 g). r_value d db0 db g x = 0" and y: "y \<in> set (set_n2 g)"
  shows "best_cost d db0 (set_n1 g) (an_addr y) (set_mpr g) = best_cost d db0 (set_n1 g) (an_addr y) (set_n1 g)"
    "best_cost d db0 (set_n1 g) (an_addr y) (set_mpr g) < RFC7181_METRIC_INFINITE_PATH"
proof -
  let ?N = "set_n1 g" and ?a = "an_addr y"
  let ?c = "if dy d db0 ?N ?a > RFC7181_METRIC_MAX then RFC7181_METRIC_INFINITE_PATH else dy d db0 ?N ?a"
  have b: "best_cost d db0 ?N ?a ?N \<le> best_cost d db0 ?N ?a (set_mpr g)" by (rule best_cost_mono [OF invD(5) [OF inv]])
  have "best_cost d db0 ?N ?a (set_mpr g) \<le> best_cost d db0 ?N ?a ?N \<and> best_cost d db0 ?N ?a ?N < RFC7181_METRIC_INFINITE_PATH"
  proof (cases "needs_mpr d db0 ?N ?a")
    case True
    obtain x0 where x0: "x0 \<in> set ?N" "cost d db0 x0 ?a < RFC7181_METRIC_INFINITE_PATH"
      using d2_finite [OF invD(1) [OF inv] y] path_cost_finite [OF d1_finite [OF invD(1) [OF inv]]] by blast
    then have lt: "min_cost d db0 ?N ?a < RFC7181_METRIC_INFINITE_PATH"
      using least_le [OF x0(1), of d db0 ?a RFC7181_METRIC_INFINITE_PATH] by simp
    then obtain x where x: "x \<in> set ?N" "cost d db0 x ?a = min_cost d db0 ?N ?a"
      using least_attained [of d db0 ?a ?N RFC7181_METRIC_INFINITE_PATH] by auto
    have "\<exists>z\<in>set ?N. cost d db0 z ?a = min_cost d db0 ?N ?a \<and> selected db z"
    proof (cases "selected db x")
      case True with x show ?thesis by blast
    next
      case False
      have a: "?a \<in> set (map an_addr (set_n g))" unfolding n using y True by simp
      have "\<not> uncovered d db0 db ?N ?a"
        by (rule r_value_zero [OF inv _ a False]) (use r x in simp_all)
      then show ?thesis by (simp add: uncovered_def)
    qed
    then obtain z where z: "z \<in> set (set_mpr g)" "cost d db0 z ?a = min_cost d db0 ?N ?a" using m by (auto simp: marks_def)
    have le: "best_cost d db0 ?N ?a (set_mpr g) \<le> min_cost d db0 ?N ?a"
      using least_le [OF z(1), of d db0 ?a ?c] z(2) by (simp add: best_cost_def)
    have "best_cost d db0 ?N ?a (set_mpr g) \<le> best_cost d db0 ?N ?a ?N"
    proof -
      consider "least d db0 ?a ?N ?c = ?c" | x where "x \<in> set ?N" "least d db0 ?a ?N ?c = cost d db0 x ?a"
        using least_attained [of d db0 ?a ?N ?c] by blast
      then show ?thesis
      proof cases
        case 1 show ?thesis unfolding best_cost_def 1 by (rule least_bound)
      next
        case 2
        from le least_le [OF 2(1), of d db0 ?a RFC7181_METRIC_INFINITE_PATH] show ?thesis
          unfolding best_cost_def 2(2) by (rule order_trans)
      qed
    qed
    moreover have "best_cost d db0 ?N ?a ?N \<le> cost d db0 x0 ?a" unfolding best_cost_def by (rule least_le [OF x0(1)])
    ultimately show ?thesis using x0(2) by simp
  next
    case False
    then have f: "dy d db0 ?N ?a \<noteq> RFC7181_METRIC_INFINITE" "\<forall>x\<in>set ?N. dy d db0 ?N ?a \<le> cost d db0 x ?a"
      by (auto simp: needs_mpr_def not_less)
    then have le: "dy d db0 ?N ?a \<le> RFC7181_METRIC_MAX" using dy_range [OF invD(1) [OF inv] y] by simp
    have c: "?c = dy d db0 ?N ?a" by (rule if_not_P [OF leD [OF le]])
    have "best_cost d db0 ?N ?a ?N = dy d db0 ?N ?a"
    proof -
      consider "least d db0 ?a ?N ?c = ?c" | x where "x \<in> set ?N" "least d db0 ?a ?N ?c = cost d db0 x ?a"
        using least_attained [of d db0 ?a ?N ?c] by blast
      then show ?thesis
      proof cases
        case 1 then show ?thesis unfolding best_cost_def c .
      next
        case 2
        with f(2) least_bound [of d db0 ?a ?N ?c] show ?thesis unfolding best_cost_def c by (metis order_antisym)
      qed
    qed
    moreover have "best_cost d db0 ?N ?a (set_mpr g) \<le> dy d db0 ?N ?a"
      unfolding best_cost_def c by (rule least_bound)
    moreover have "dy d db0 ?N ?a < RFC7181_METRIC_INFINITE_PATH"
      using le by (rule le_less_trans) (simp add: RFC7181_METRIC_MAX_def RFC7181_METRIC_INFINITE_PATH_def)
    ultimately show ?thesis by simp
  qed
  with b show "best_cost d db0 ?N ?a (set_mpr g) = best_cost d db0 ?N ?a ?N"
    "best_cost d db0 ?N ?a (set_mpr g) < RFC7181_METRIC_INFINITE_PATH" by simp_all
qed

text \<open>The conditions of RFC 7181 on a set of MPRs.\<close>

definition mprs_valid :: "nat \<Rightarrow> nhdp_db \<Rightarrow> neighbor_graph \<Rightarrow> bool" where
  "mprs_valid d db g \<longleftrightarrow> set (set_mpr g) \<subseteq> set (set_n1 g) \<and>
     (\<forall>x\<in>set (set_n1 g). w d db x = RFC7181_WILLINGNESS_ALWAYS \<longrightarrow> x \<in> set (set_mpr g)) \<and>
     (\<forall>y\<in>set (set_n2 g). best_cost d db (set_n1 g) (an_addr y) (set_mpr g) = best_cost d db (set_n1 g) (an_addr y) (set_n1 g) \<and>
        best_cost d db (set_n1 g) (an_addr y) (set_mpr g) < RFC7181_METRIC_INFINITE_PATH)"

lemma cache_ok_init: "numbered N1 N2 \<Longrightarrow>
    cache_ok c N1 N2 (Some (replicate (unat (of_nat (length N1) * of_nat (length N2) :: u32)) 0))"
proof -
  assume n: "numbered N1 N2"
  have u: "unat (of_nat (length N1) * of_nat (length N2) :: u32) = length N1 * length N2"
    using unat_of_nat_small [of "length N1 * length N2", where 'a = 32] n by (simp add: numbered_def)
  show ?thesis
    unfolding cache_ok_def u using numbered_index(2) [OF n] by simp
qed

lemma number_lengths [simp]: "length (number_n1 i xs) = length xs" "length (number_n2 n j ys) = length ys"
  by (induction xs arbitrary: i, simp_all) (induction ys arbitrary: j, simp_all)

theorem selection_correct:
  assumes b: "built d db (set_n1 (init_cache g)) (set_n2 (init_cache g))" and e: "set_n g = []" "set_mpr g = []"
    and s: "\<forall>x\<in>set (set_n1 (init_cache g)). \<not> selected db x"
  shows "\<exists>db' g'. mpr_calculate_mpr_rfc7181 m d db g = Some (Inr (db', g')) \<and> inv d db db' g' \<and> mprs_valid d db g' \<and>
    set_n1 g' = set_n1 (init_cache g) \<and> set_n2 g' = set_n2 (init_cache g)"
proof -
  let ?g = "init_cache g"
  have num: "numbered (set_n1 ?g) (set_n2 ?g)" using nodes [OF b] by (simp add: graph_nodes_def)
  have c: "d_x_y_cache ?g = Some (replicate (unat (of_nat (length (set_n1 ?g)) * of_nat (length (set_n2 ?g)) :: u32)) 0)"
    unfolding init_cache_def Let_def by simp
  have g: "set_n ?g = []" "set_mpr ?g = []" using e by (simp_all add: init_cache_def Let_def)
  have inv: "inv d db db ?g"
    unfolding inv_def c g using b cache_ok_init [OF num] by simp
  have "wp (bind_f (calculate_n m d db ?g) (\<lambda>graph. bind_f (process_will_always m d db graph) (process_unique_mprs m d db)))
      (\<lambda>_. False) (\<lambda>(db', g'). inv d db db' g' \<and> marks db' g' \<and> set_n1 g' = set_n1 ?g \<and> set_n2 g' = set_n2 ?g \<and>
        set (map an_addr (set_n g')) = {a \<in> set (map an_addr (set_n2 ?g)). needs_mpr d db (set_n1 ?g) a} \<and>
        {x \<in> set (set_n1 ?g). w d db x = RFC7181_WILLINGNESS_ALWAYS} \<subseteq> set (set_mpr g'))"
    unfolding wp_bind calculate_n_def process_will_always_def process_unique_mprs_def
  proof (rule calculate_n_wp [OF inv subset_refl])
    fix g1 assume g1: "inv d db db g1" "same_sets ?g g1"
      "set (map an_addr (set_n g1)) = set (map an_addr (set_n ?g)) \<union> {a \<in> set (map an_addr (set_n2 ?g)). needs_mpr d db (set_n1 ?g) a}"
    have e1: "set_n1 g1 = set_n1 ?g" "set_n2 g1 = set_n2 ?g" using g1(2) by (simp_all add: same_sets_def)
    show "wp (will_always_loop m d db g1 (set_n1 g1)) (\<lambda>_. False) (\<lambda>a. wp (unique_loop m d db a (set_n a)) (\<lambda>_. False)
        (\<lambda>(db', g'). inv d db db' g' \<and> marks db' g' \<and> set_n1 g' = set_n1 ?g \<and> set_n2 g' = set_n2 ?g \<and>
        set (map an_addr (set_n g')) = {a \<in> set (map an_addr (set_n2 ?g)). needs_mpr d db (set_n1 ?g) a} \<and>
        {x \<in> set (set_n1 ?g). w d db x = RFC7181_WILLINGNESS_ALWAYS} \<subseteq> set (set_mpr g')))"
    proof (rule will_always_wp [OF g1(1) subset_refl])
      fix g2 assume g2: "inv d db db g2" "grows g1 g2" "{x \<in> set (set_n1 g1). w d db x = RFC7181_WILLINGNESS_ALWAYS} \<subseteq> set (set_mpr g2)"
      have e2: "set_n1 g2 = set_n1 ?g" "set_n2 g2 = set_n2 ?g" "map an_addr (set_n g2) = map an_addr (set_n g1)"
        using g2(2) e1 by (simp_all add: grows_def)
      show "wp (unique_loop m d db g2 (set_n g2)) (\<lambda>_. False) (\<lambda>(db', g'). inv d db db' g' \<and> marks db' g' \<and>
          set_n1 g' = set_n1 ?g \<and> set_n2 g' = set_n2 ?g \<and>
          set (map an_addr (set_n g')) = {a \<in> set (map an_addr (set_n2 ?g)). needs_mpr d db (set_n1 ?g) a} \<and>
          {x \<in> set (set_n1 ?g). w d db x = RFC7181_WILLINGNESS_ALWAYS} \<subseteq> set (set_mpr g'))"
      proof (rule unique_wp [OF g2(1)], unfold prod.case)
        show "marks db g2" using s by (simp add: marks_def e2)
        show "\<forall>y\<in>set (set_n g2). in_n2 (set_n2 g2) y" using g2(1) by (simp add: inv_def)
        fix db' g' assume g': "inv d db db' g'" "marks db' g'" "grows g2 g'"
        have n: "set_n1 g' = set_n1 ?g" "set_n2 g' = set_n2 ?g" "map an_addr (set_n g') = map an_addr (set_n g1)"
          using g'(3) e2 by (simp_all add: grows_def)
        have a: "{x \<in> set (set_n1 ?g). w d db x = RFC7181_WILLINGNESS_ALWAYS} \<subseteq> set (set_mpr g')"
          using g2(3) g'(3) e1 by (auto simp: grows_def)
        show "inv d db db' g' \<and> marks db' g' \<and> set_n1 g' = set_n1 ?g \<and> set_n2 g' = set_n2 ?g \<and>
          set (map an_addr (set_n g')) = {a \<in> set (map an_addr (set_n2 ?g)). needs_mpr d db (set_n1 ?g) a} \<and>
          {x \<in> set (set_n1 ?g). w d db x = RFC7181_WILLINGNESS_ALWAYS} \<subseteq> set (set_mpr g')"
          using g'(1,2) n a g1(3) g(1) by (simp only: n) simp
      qed
    qed
  qed
  from wp_False_ex [OF this] obtain db1 g1 where r1: "bind_f (calculate_n m d db ?g) (\<lambda>graph.
      bind_f (process_will_always m d db graph) (process_unique_mprs m d db)) = Inr (db1, g1)" "inv d db db1 g1" "marks db1 g1"
    and s1: "set_n1 g1 = set_n1 ?g" "set_n2 g1 = set_n2 ?g"
      "set (map an_addr (set_n g1)) = {a \<in> set (map an_addr (set_n2 ?g)). needs_mpr d db (set_n1 ?g) a}"
      "{x \<in> set (set_n1 ?g). w d db x = RFC7181_WILLINGNESS_ALWAYS} \<subseteq> set (set_mpr g1)" by auto
  from remaining_ends [OF r1(2,3)] obtain db' g' where r: "process_remaining m d db1 g1 = Some (Inr (db', g'))"
    "inv d db db' g'" "marks db' g'" "grows g1 g'" "\<forall>x\<in>set (set_n1 g1). r_value d db db' g' x = 0" by blast
  have e': "set_n1 g' = set_n1 ?g" "set_n2 g' = set_n2 ?g" "map an_addr (set_n g') = map an_addr (set_n g1)"
    "set (set_mpr g1) \<subseteq> set (set_mpr g')"
    using r(4) s1 by (simp_all add: grows_def)
  have n': "set (map an_addr (set_n g')) = {a \<in> set (map an_addr (set_n2 g')). needs_mpr d db (set_n1 g') a}"
    using s1(3) e' by simp
  have r0: "\<forall>x\<in>set (set_n1 g'). r_value d db db' g' x = 0" using r(5) s1(1) e'(1) by simp
  have "mprs_valid d db g'"
    unfolding mprs_valid_def
    using selection_covers [OF r(2,3) n' r0] invD(5) [OF r(2)] s1(4) e'(1,4) by auto
  with r(2) e' show ?thesis
    by (simp add: mpr_calculate_mpr_rfc7181_def r1(1) r(1))
qed

text \<open>So the check of the code finds nothing wrong.\<close>

lemma d_of_y_wp:
  assumes inv: "inv d db0 db g" and S: "set S \<subseteq> set (set_n1 g)" and y: "y \<in> set (set_n2 g)"
    and Q: "\<And>g'. inv d db0 db g' \<Longrightarrow> keeps g g' \<Longrightarrow> Q (best_cost d db0 (set_n1 g) (an_addr y) S, g')"
  shows "wp (mpr_calculate_d_of_y_s m d db g y S) (\<lambda>_. False) Q"
  unfolding mpr_calculate_d_of_y_s_def m_dy [OF invD(1,2) [OF inv] refl] bind_f_Inr
  by (rule minimal_wp [OF inv S]) (use y Q in \<open>auto simp: in_n2_def best_cost_def\<close>)

lemma validate_n2_wp:
  assumes "inv d db0 db g" "mprs_valid d db0 g" "set ys \<subseteq> set (set_n2 g)"
    and "\<And>g'. keeps g g' \<Longrightarrow> Q g'"
  shows "wp (validate_n2_loop m d db g ys) (\<lambda>_. False) Q"
  using assms
proof (induction ys arbitrary: g)
  case (Cons y ys)
  have y: "y \<in> set (set_n2 g)" using Cons.prems(3) by simp
  show ?case
    unfolding validate_n2_loop.simps wp_bind
  proof (rule d_of_y_wp [OF Cons.prems(1) subset_refl y], unfold prod.case wp_bind)
    fix g1 assume g1: "inv d db0 db g1" "keeps g g1"
    have e1: "set_n1 g1 = set_n1 g" "set_n2 g1 = set_n2 g" "set_mpr g1 = set_mpr g" using g1(2) by (simp_all add: keeps_def)
    show "wp (mpr_calculate_d_of_y_s m d db g1 y (set_mpr g1)) (\<lambda>_. False) (\<lambda>a. wp (case a of (d_y_mpr, graph) \<Rightarrow>
        if \<not> d_y_mpr < RFC7181_METRIC_INFINITE_PATH \<or> d_y_mpr \<noteq> best_cost d db0 (set_n1 g) (an_addr y) (set_n1 g)
        then Inl Assert_Failed else validate_n2_loop m d db graph ys) (\<lambda>_. False) Q)"
    proof (rule d_of_y_wp [OF g1(1) invD(5) [OF g1(1)]], unfold prod.case)
      show "y \<in> set (set_n2 g1)" using y e1 by simp
      fix g2 assume g2: "inv d db0 db g2" "keeps g1 g2"
      have k: "keeps g g2" by (rule keeps_trans [OF g1(2) g2(2)])
      have "wp (validate_n2_loop m d db g2 ys) (\<lambda>_. False) Q"
      proof (rule Cons.IH [OF g2(1)])
        have e2: "set_n1 g2 = set_n1 g" "set_n2 g2 = set_n2 g" "set_mpr g2 = set_mpr g" using k by (simp_all add: keeps_def)
        show "mprs_valid d db0 g2" using Cons.prems(2) unfolding mprs_valid_def e2 .
        show "set ys \<subseteq> set (set_n2 g2)" using Cons.prems(3) k by (simp add: keeps_def)
        fix h assume "keeps g2 h" then show "Q h" using keeps_trans [OF k] by (intro Cons.prems(4))
      qed
      moreover have "best_cost d db0 (set_n1 g1) (an_addr y) (set_mpr g1) = best_cost d db0 (set_n1 g) (an_addr y) (set_n1 g)"
        "best_cost d db0 (set_n1 g1) (an_addr y) (set_mpr g1) < RFC7181_METRIC_INFINITE_PATH"
        using Cons.prems(2) y unfolding mprs_valid_def e1 by blast+
      ultimately show "wp (if \<not> best_cost d db0 (set_n1 g1) (an_addr y) (set_mpr g1) < RFC7181_METRIC_INFINITE_PATH \<or>
          best_cost d db0 (set_n1 g1) (an_addr y) (set_mpr g1) \<noteq> best_cost d db0 (set_n1 g) (an_addr y) (set_n1 g)
        then Inl Assert_Failed else validate_n2_loop m d db g2 ys) (\<lambda>_. False) Q" by simp
    qed
  qed
qed simp

lemma validate_always:
  assumes "inv d db0 db g" "set xs \<subseteq> set (set_n1 g)" "\<forall>x\<in>set xs. w d db0 x = RFC7181_WILLINGNESS_ALWAYS \<longrightarrow> x \<in> set (set_mpr g)"
    and f: "(if flooding then flooding_get_willingness_n1 else routing_get_willingness_n1) = get_willingness_n1 m"
  shows "validate_always_loop flooding d db g xs = Inr ()"
  using assms(2,3)
proof (induction xs)
  case (Cons x xs)
  have x: "x \<in> set (set_n1 g)" using Cons.prems(1) by simp
  have "(if flooding then flooding_get_willingness_n1 d db x else routing_get_willingness_n1 d db x) = Inr (w d db0 x)"
    using f m_w [OF invD(1,2) [OF assms(1)] x] by (cases flooding) simp_all
  then show ?case using Cons by (auto simp: mpr_is_mpr_def)
qed simp

lemma validate_ok:
  assumes "inv d db0 db g" "mprs_valid d db0 g"
    and "(if flooding then flooding_get_willingness_n1 else routing_get_willingness_n1) = get_willingness_n1 m"
  shows "\<exists>g'. validate_mpr_set flooding m d db g = Inr g' \<and> set_mpr g' = set_mpr g"
proof -
  have "wp (validate_mpr_set flooding m d db g) (\<lambda>_. False) (\<lambda>g'. set_mpr g' = set_mpr g)"
    unfolding validate_mpr_set_def
    using validate_always [OF assms(1) subset_refl _ assms(3)] assms(2)
    by (auto intro!: validate_n2_wp [OF assms(1,2)] simp: mprs_valid_def keeps_def)
  from wp_False_ex [OF this] show ?thesis .
qed

end

end
