(* ===== verification/Mpr_Graphs.thy ===== *)
theory Mpr_Graphs
  imports Mpr_Selection
begin

section \<open>The flooding and routing MPRs\<close>

text \<open>
  The functions of \<^verbatim>\<open>neighbor-graph-flooding.c\<close> and \<^verbatim>\<open>neighbor-graph-routing.c\<close> satisfy the contract of the selection, the
  graphs they build are what it expects, and the callbacks of \<^verbatim>\<open>mpr.c\<close> return.
\<close>

subsection \<open>Both graphs satisfy the contract\<close>

text \<open>The result of a computation of costs, and a default where it faults.\<close>

definition result_or :: "'a \<Rightarrow> fault + 'a \<Rightarrow> 'a" where
  "result_or a r = (case r of Inl _ \<Rightarrow> a | Inr b \<Rightarrow> b)"

lemma result_or_Inr [simp]: "result_or a (Inr b) = b"
  by (simp add: result_or_def)

text \<open>A node of the set N with an address, as the costs take it.\<close>

definition addr_only :: "netaddr \<Rightarrow> addr_node" where
  "addr_only a = \<lparr>an_addr = a, an_table_offset = 0, an_min_d_z_y = 0\<rparr>"

definition flooding_d1 :: "nat \<Rightarrow> nhdp_db \<Rightarrow> n1_node \<Rightarrow> u32" where
  "flooding_d1 d db x = result_or 0 (flooding_calculate_d1_x d db x)"

definition flooding_d2 :: "nat \<Rightarrow> nhdp_db \<Rightarrow> n1_node \<Rightarrow> netaddr \<Rightarrow> u32" where
  "flooding_d2 d db x a = result_or 0 (flooding_calculate_d2_x_y d db x (addr_only a))"

definition flooding_dy :: "nat \<Rightarrow> nhdp_db \<Rightarrow> n1_node list \<Rightarrow> netaddr \<Rightarrow> u32" where
  "flooding_dy d db N1 a = result_or 0 (flooding_d1_loop d db (addr_only a) N1)"

definition flooding_w :: "nat \<Rightarrow> nhdp_db \<Rightarrow> n1_node \<Rightarrow> u8" where
  "flooding_w d db x = result_or 0 (flooding_get_willingness_n1 d db x)"

definition n1_with_link :: "nat \<Rightarrow> nhdp_db \<Rightarrow> n1_node \<Rightarrow> bool" where
  "n1_with_link d db x \<longleftrightarrow> (\<exists>l lnk. n1_link x = Some l \<and> l \<in> set (db_link_list db) \<and> get_link db l = Inr lnk \<and>
     lk_neigh lnk = n1_neigh x \<and> mt_out (link_metric d lnk) \<le> RFC7181_METRIC_MAX)"

definition flooding_built :: "nat \<Rightarrow> nhdp_db \<Rightarrow> n1_node list \<Rightarrow> addr_node list \<Rightarrow> bool" where
  "flooding_built d db N1 N2 \<longleftrightarrow> graph_nodes db N1 N2 \<and> (\<forall>x\<in>set N1. n1_with_link d db x) \<and>
     (\<forall>y\<in>set N2. \<exists>x\<in>set N1. flooding_d2 d db x (an_addr y) \<le> RFC7181_METRIC_MAX)"

lemma n1_node_link_same: "same_graph db db' \<Longrightarrow> n1_node_link db' x = n1_node_link db x"
  by (simp add: n1_node_link_def same_graphD split: option.splits)

lemma flooding_d1_same:
  "n1_with_link d db x \<Longrightarrow> same_graph db db' \<Longrightarrow> flooding_calculate_d1_x d db' x = Inr (flooding_d1 d db x)"
  by (auto simp: flooding_calculate_d1_x_def flooding_d1_def n1_node_link_same n1_with_link_def)
    (simp add: n1_node_link_def)

lemma flooding_d1_le: "n1_with_link d db x \<Longrightarrow> flooding_d1 d db x \<le> RFC7181_METRIC_MAX"
  by (auto simp: flooding_calculate_d1_x_def flooding_d1_def n1_with_link_def n1_node_link_def)

lemma flooding_d2_same:
  "n1_with_link d db x \<Longrightarrow> same_graph db db' \<Longrightarrow> flooding_calculate_d2_x_y d db' x y = Inr (flooding_d2 d db x (an_addr y))"
  by (auto simp: flooding_calculate_d2_x_y_def flooding_d2_def n1_with_link_def addr_only_def n1_node_link_def same_graphD
      split: option.splits)

lemma flooding_w_same:
  "n1_with_link d db x \<Longrightarrow> same_graph db db' \<Longrightarrow> flooding_get_willingness_n1 d db' x = Inr (flooding_w d db x)"
  by (auto simp: flooding_get_willingness_n1_def flooding_w_def n1_with_link_def n1_node_link_def same_graphD)

lemma flooding_dy_same:
  assumes "\<forall>x\<in>set xs. n1_with_link d db x" "same_graph db db'"
  shows "flooding_d1_loop d db' y xs = Inr (flooding_dy d db xs (an_addr y)) \<and>
    (flooding_dy d db xs (an_addr y) \<le> RFC7181_METRIC_MAX \<or> flooding_dy d db xs (an_addr y) = RFC7181_METRIC_INFINITE)"
  using assms(1)
proof (induction xs)
  case (Cons x xs)
  have x: "n1_with_link d db x" using Cons.prems by simp
  then obtain lnk where l: "n1_node_link db x = Inr lnk" "mt_out (link_metric d lnk) \<le> RFC7181_METRIC_MAX"
    by (auto simp: n1_with_link_def n1_node_link_def)
  show ?case
    using Cons l same_graphD(2) [OF assms(2)]
    by (auto simp: flooding_dy_def addr_only_def n1_node_link_same [OF assms(2)])
qed (simp add: flooding_dy_def)

interpretation flooding_graph: mpr_graph flooding_interface flooding_built flooding_d1 flooding_d2 flooding_dy flooding_w
proof (unfold_locales, goal_cases)
  case (9 d db N1 N2 x) then show ?case by (force simp: flooding_built_def n1_with_link_def)
next
  case (4 d db N1 N2 y) then show ?case using flooding_dy_same [of N1 d db db] by (simp add: flooding_built_def)
next
  case (5 d db N1 N2 db' x g y)
  then have "n1_with_link d db x" by (simp add: flooding_built_def)
  with 5(2) show ?case by (simp add: flooding_interface_def flooding_d1_same flooding_d2_same)
next
  case (7 d db N1 N2 db' g y) then show ?case using flooding_dy_same [of N1 d db db' y]
    by (simp add: flooding_built_def flooding_interface_def flooding_calculate_d1_x_of_n2_addr_def)
qed (simp_all add: flooding_built_def flooding_d1_le flooding_interface_def flooding_d1_same flooding_d2_same flooding_w_same)

subsection \<open>Building the flooding graph\<close>

lemma insort_key_distinct: "distinct (map f xs) \<Longrightarrow> f x \<notin> f ` set xs \<Longrightarrow> distinct (map f (insort_key f x xs))"
  by (induction xs) (auto simp: set_insort_key)

lemma insort_key_length: "length (insort_key f x xs) = Suc (length xs)"
  by (induction xs) auto

definition n1_nodes :: "nhdp_db \<Rightarrow> n1_node list \<Rightarrow> bool" where
  "n1_nodes db N1 \<longleftrightarrow> distinct (map n1_addr N1) \<and>
     (\<forall>x\<in>set N1. \<exists>nb. get_neigh db (n1_neigh x) = Inr nb \<and> nb_originator nb = n1_addr x)"

lemma mpr_add_n1_wp:
  assumes "get_neigh db n = Inr nb" "n1_nodes db N1"
    and "\<And>s x. n1_nodes db s \<Longrightarrow> n1_neigh x = n \<Longrightarrow> n1_link x = l \<Longrightarrow> set s \<subseteq> insert x (set N1) \<Longrightarrow> length s \<le> Suc (length N1) \<Longrightarrow>
      n1_addr ` set s = insert (nb_originator nb) (n1_addr ` set N1) \<Longrightarrow> Q s"
  shows "wp (mpr_add_n1_node_to_set db N1 n l off) E Q"
proof -
  let ?x = "\<lparr>n1_addr = nb_originator nb, n1_link = l, n1_neigh = n, n1_table_offset = off\<rparr>"
  show ?thesis
  proof (cases "nb_originator nb \<in> set (map n1_addr N1)")
    case True
    then show ?thesis using assms(3) [of N1 ?x] assms(2)
      unfolding mpr_add_n1_node_to_set_def assms(1) bind_f_Inr if_P [OF True] by (auto simp: insert_absorb)
  next
    case False
    have "n1_nodes db (insort_key n1_addr ?x N1)"
      using assms(1,2) False by (auto simp: n1_nodes_def set_insort_key intro!: insort_key_distinct)
    then show ?thesis using assms(3) [of "insort_key n1_addr ?x N1" ?x]
      unfolding mpr_add_n1_node_to_set_def assms(1) bind_f_Inr if_not_P [OF False]
      by (simp add: set_insort_key insort_key_length)
  qed
qed

lemma same_graph_nodes: "same_graph db db' \<Longrightarrow> n1_nodes db N1 \<Longrightarrow> n1_nodes db' N1"
  unfolding n1_nodes_def using same_graph_neigh by fastforce

lemma same_graph_sym: "same_graph db db' \<Longrightarrow> same_graph db' db"
  by (simp add: same_graph_def)

lemma selected_unselect: "selected (unselect_mpr n db) x \<longleftrightarrow> n1_neigh x \<noteq> n \<and> selected db x"
  by (auto simp: selected_def unselect_mpr_def get_neigh_upd_neigh) (cases "get_neigh db n"; auto)

lemma same_graph_unselect: "same_graph db db' \<Longrightarrow> same_graph db (unselect_mpr n db')"
  unfolding unselect_mpr_def by (rule same_graph_update)

text \<open>Every link of the list is there and points to a neighbor.\<close>

definition links_ok :: "nhdp_db \<Rightarrow> nat list \<Rightarrow> bool" where
  "links_ok db ls \<longleftrightarrow> (\<forall>l\<in>set ls. case get_link db l of Inl _ \<Rightarrow> False | Inr lnk \<Rightarrow> \<not> Option.is_none (Mapping.lookup (db_neighs db) (lk_neigh lnk)))"

lemma links_okD:
  assumes "links_ok db ls" "l \<in> set ls"
  shows "\<exists>lnk nb. get_link db l = Inr lnk \<and> get_neigh db (lk_neigh lnk) = Inr nb"
  using bspec [OF assms(1) [unfolded links_ok_def] assms(2)]
  by (auto simp: get_neigh_def Option.is_none_def split: sum.splits option.splits)

text \<open>The originators of the neighbors of the allowed links of the interface, and the allowed two-hop neighbors of nodes.\<close>

definition flooding_neighbors :: "nat \<Rightarrow> nat \<Rightarrow> nhdp_db \<Rightarrow> nat list \<Rightarrow> netaddr set" where
  "flooding_neighbors d i db ls = {a. \<exists>l\<in>set ls. \<exists>lnk nb. get_link db l = Inr lnk \<and> flooding_is_allowed_link_tuple d i lnk \<and>
     get_neigh db (lk_neigh lnk) = Inr nb \<and> a = nb_originator nb}"

definition flooding_two_hops :: "nat \<Rightarrow> nat \<Rightarrow> nhdp_db \<Rightarrow> n1_node list \<Rightarrow> netaddr set" where
  "flooding_two_hops d i db N1 = {a. \<exists>x\<in>set N1. \<exists>lnk l2. n1_node_link db x = Inr lnk \<and> a \<in> set (Mapping.ordered_keys (lk_2hop lnk)) \<and>
     Mapping.lookup (lk_2hop lnk) a = Some l2 \<and> flooding_is_allowed_2hop_tuple d i lnk l2}"

lemma flooding_n1_wp:
  assumes "same_graph db0 db" "links_ok db0 (db_link_list db0)" "set ls \<subseteq> set (db_link_list db0)"
    and "n1_nodes db0 (set_n1 g)" "\<forall>x\<in>set (set_n1 g). n1_with_link d db0 x \<and> \<not> selected db x"
    and "\<And>db' N1. same_graph db0 db' \<Longrightarrow> n1_nodes db0 N1 \<Longrightarrow> \<forall>x\<in>set N1. n1_with_link d db0 x \<and> \<not> selected db' x \<Longrightarrow>
      length N1 \<le> length (set_n1 g) + length ls \<Longrightarrow> n1_addr ` set N1 = n1_addr ` set (set_n1 g) \<union> flooding_neighbors d i db0 ls \<Longrightarrow>
      Q (db', g\<lparr>set_n1 := N1\<rparr>)"
  shows "wp (flooding_n1_loop d i db g ls) (\<lambda>_. False) Q"
  using assms
proof (induction ls arbitrary: db g)
  case Nil
  from Nil.prems(6) [OF Nil.prems(1,4,5)] show ?case by (simp add: flooding_neighbors_def)
next
  case (Cons l ls)
  have "l \<in> set (db_link_list db0)" using Cons.prems(3) by simp
  from links_okD [OF Cons.prems(2) this] obtain lnk nb0
    where l: "get_link db0 l = Inr lnk" and nb0: "get_neigh db0 (lk_neigh lnk) = Inr nb0" by blast
  with same_graph_neigh [OF Cons.prems(1)] obtain b where nb: "get_neigh db (lk_neigh lnk) = Inr (nb0\<lparr>nb_selection_is_mpr := b\<rparr>)" by blast
  have l': "get_link db l = Inr lnk" using l same_graphD(1) [OF Cons.prems(1)] by simp
  let ?db = "unselect_mpr (lk_neigh lnk) db"
  have s: "same_graph db0 ?db" by (rule same_graph_unselect [OF Cons.prems(1)])
  have fn: "flooding_neighbors d i db0 (l # ls) = (if flooding_is_allowed_link_tuple d i lnk then {nb_originator nb0} else {}) \<union>
      flooding_neighbors d i db0 ls"
    using l nb0 by (auto simp: flooding_neighbors_def)
  have rest: "wp (flooding_n1_loop d i ?db (g\<lparr>set_n1 := N1\<rparr>) ls) (\<lambda>_. False) Q"
    if N1: "n1_nodes db0 N1" "\<forall>x\<in>set N1. n1_with_link d db0 x \<and> \<not> selected ?db x" "length N1 \<le> Suc (length (set_n1 g))"
      "n1_addr ` set N1 = n1_addr ` set (set_n1 g) \<union> (if flooding_is_allowed_link_tuple d i lnk then {nb_originator nb0} else {})" for N1
  proof (rule Cons.IH [OF s Cons.prems(2)])
    fix db' N2 assume "same_graph db0 db'" "n1_nodes db0 N2" "\<forall>x\<in>set N2. n1_with_link d db0 x \<and> \<not> selected db' x"
      "length N2 \<le> length (set_n1 (g\<lparr>set_n1 := N1\<rparr>)) + length ls"
      "n1_addr ` set N2 = n1_addr ` set (set_n1 (g\<lparr>set_n1 := N1\<rparr>)) \<union> flooding_neighbors d i db0 ls"
    from Cons.prems(6) [OF this(1-3)] this(4,5) N1(3,4) show "Q (db', g\<lparr>set_n1 := N1\<rparr>\<lparr>set_n1 := N2\<rparr>)" by (simp add: fn Un_assoc)
  qed (use Cons.prems(3) N1 in auto)
  have keep: "wp (flooding_n1_loop d i ?db g ls) (\<lambda>_. False) Q"
    if "\<not> flooding_is_allowed_link_tuple d i lnk"
    using rest [of "set_n1 g"] Cons.prems(4,5) that by (simp add: selected_unselect)
  have "wp (bind_f (mpr_add_n1_node_to_set ?db (set_n1 g) (lk_neigh lnk) (Some l) 0)
      (\<lambda>s. flooding_n1_loop d i ?db (g\<lparr>set_n1 := s\<rparr>) ls)) (\<lambda>_. False) Q" if a: "flooding_is_allowed_link_tuple d i lnk"
  proof -
    obtain nb' where nb': "get_neigh ?db (lk_neigh lnk) = Inr nb'" "nb_originator nb' = nb_originator nb0"
      using nb by (auto simp: unselect_mpr_def get_neigh_upd_neigh)
    show ?thesis
      unfolding wp_bind
    proof (rule mpr_add_n1_wp [OF nb'(1) same_graph_nodes [OF s Cons.prems(4)]])
      fix s' x assume s': "n1_nodes ?db s'" "n1_neigh x = lk_neigh lnk" "n1_link x = Some l" "set s' \<subseteq> insert x (set (set_n1 g))"
        "length s' \<le> Suc (length (set_n1 g))" "n1_addr ` set s' = insert (nb_originator nb') (n1_addr ` set (set_n1 g))"
      have "n1_with_link d db0 x"
        using a l s'(2,3) Cons.prems(3)
        by (auto simp: n1_with_link_def flooding_is_allowed_link_tuple_def flooding_is_reachable_link_tuple_def)
      then have "\<forall>x\<in>set s'. n1_with_link d db0 x \<and> \<not> selected ?db x"
        using s'(2,4) Cons.prems(5) by (auto simp: selected_unselect)
      with same_graph_nodes [OF same_graph_sym [OF s] s'(1)] s'(5,6) nb'(2) a
      show "wp (flooding_n1_loop d i ?db (g\<lparr>set_n1 := s'\<rparr>) ls) (\<lambda>_. False) Q" by (intro rest) simp_all
    qed
  qed
  with keep show ?case by (simp add: l' nb Let_def)
qed

text \<open>The two-hop neighbors of the links, as a bound for the size of N2.\<close>

definition two_hop_addrs :: "nhdp_db \<Rightarrow> netaddr list" where
  "two_hop_addrs db = concat (map (\<lambda>l. case get_link db l of Inl _ \<Rightarrow> [] | Inr lnk \<Rightarrow> Mapping.ordered_keys (lk_2hop lnk)) (db_link_list db))"

lemma add_2hops_step:
  "distinct (map an_addr s) \<Longrightarrow> distinct (map an_addr (mpr_add_addr_node_to_set s a off))"
  by (auto simp: mpr_add_addr_node_to_set_def set_insort_key intro!: insort_key_distinct)

lemma add_2hops_addrs:
  assumes "distinct (map an_addr s)"
  shows "distinct (map an_addr (add_2hops ok lnk s)) \<and> an_addr ` set (add_2hops ok lnk s) = an_addr ` set s \<union>
    {a \<in> set (Mapping.ordered_keys (lk_2hop lnk)). \<exists>l2. Mapping.lookup (lk_2hop lnk) a = Some l2 \<and> ok l2}"
proof -
  let ?f = "\<lambda>addr s. case Mapping.lookup (lk_2hop lnk) addr of Some l2hop \<Rightarrow> if ok l2hop then mpr_add_addr_node_to_set s addr 0 else s
     | None \<Rightarrow> s"
  have "distinct (map an_addr (fold ?f as s)) \<and> an_addr ` set (fold ?f as s) = an_addr ` set s \<union>
    {a \<in> set as. \<exists>l2. Mapping.lookup (lk_2hop lnk) a = Some l2 \<and> ok l2}" if "distinct (map an_addr s)" for as s
    using that
  proof (induction as arbitrary: s)
    case (Cons a as)
    have "distinct (map an_addr (?f a s))" using Cons.prems by (auto split: option.splits intro: add_2hops_step)
    moreover have "an_addr ` set (?f a s) = an_addr ` set s \<union> {b. b = a \<and> (\<exists>l2. Mapping.lookup (lk_2hop lnk) a = Some l2 \<and> ok l2)}"
      using add_addr_node_addrs [of s a 0] by (auto split: option.splits)
    ultimately show ?case using Cons.IH [of "?f a s"] by auto
  qed simp
  from this [OF assms] show ?thesis unfolding add_2hops_def .
qed

definition n2_nodes :: "nhdp_db \<Rightarrow> addr_node list \<Rightarrow> bool" where
  "n2_nodes db N2 \<longleftrightarrow> distinct (map an_addr N2) \<and> an_addr ` set N2 \<subseteq> set (two_hop_addrs db)"

lemma n2_nodes_add:
  assumes "n2_nodes db s" "l \<in> set (db_link_list db)" "get_link db l = Inr lnk"
  shows "n2_nodes db (add_2hops ok lnk s)"
proof -
  have "distinct (map an_addr s)" using assms(1) by (simp add: n2_nodes_def)
  note a = add_2hops_addrs [OF this, of ok lnk]
  have "set (Mapping.ordered_keys (lk_2hop lnk)) \<subseteq> set (two_hop_addrs db)"
    using assms(2,3) by (force simp: two_hop_addrs_def)
  with a assms(1) show ?thesis by (auto simp: n2_nodes_def)
qed

lemma flooding_n2_wp:
  assumes "same_graph db0 db" "\<forall>x\<in>set xs. n1_with_link d db0 x" "n2_nodes db0 (set_n2 g)"
    and "\<And>N2. n2_nodes db0 N2 \<Longrightarrow> \<forall>y\<in>set N2. an_addr y \<in> an_addr ` set (set_n2 g) \<or>
      (\<exists>x\<in>set xs. flooding_d2 d db0 x (an_addr y) \<le> RFC7181_METRIC_MAX) \<Longrightarrow>
      an_addr ` set N2 = an_addr ` set (set_n2 g) \<union> flooding_two_hops d i db0 xs \<Longrightarrow> Q (g\<lparr>set_n2 := N2\<rparr>)"
  shows "wp (flooding_n2_loop d i db g xs) (\<lambda>_. False) Q"
  using assms
proof (induction xs arbitrary: g)
  case Nil
  from Nil.prems(4) [OF Nil.prems(3)] show ?case by (simp add: flooding_two_hops_def)
next
  case (Cons x xs)
  have xl: "n1_with_link d db0 x" using Cons.prems(2) by simp
  then obtain l lnk where l: "n1_link x = Some l" "l \<in> set (db_link_list db0)" "get_link db0 l = Inr lnk"
    by (auto simp: n1_with_link_def)
  have n: "n1_node_link db x = Inr lnk" using l same_graphD(1) [OF Cons.prems(1)] by (simp add: n1_node_link_def)
  let ?s = "add_2hops (flooding_is_allowed_2hop_tuple d i lnk) lnk (set_n2 g)"
  have dist: "distinct (map an_addr (set_n2 g))" using Cons.prems(3) by (simp add: n2_nodes_def)
  have th: "flooding_two_hops d i db0 (x # xs) = {a \<in> set (Mapping.ordered_keys (lk_2hop lnk)).
      \<exists>l2. Mapping.lookup (lk_2hop lnk) a = Some l2 \<and> flooding_is_allowed_2hop_tuple d i lnk l2} \<union> flooding_two_hops d i db0 xs"
    using l(1,3) by (auto simp: flooding_two_hops_def n1_node_link_def)
  have s: "a \<in> an_addr ` set (set_n2 g) \<or> flooding_d2 d db0 x a \<le> RFC7181_METRIC_MAX" if "a \<in> an_addr ` set ?s" for a
    using that add_2hops_addrs [OF dist] l(1,3)
    by (auto simp: flooding_d2_def flooding_calculate_d2_x_y_def n1_node_link_def addr_only_def flooding_is_allowed_2hop_tuple_def)
  have "wp (flooding_n2_loop d i db (g\<lparr>set_n2 := ?s\<rparr>) xs) (\<lambda>_. False) Q"
  proof (rule Cons.IH [OF Cons.prems(1)])
    show "n2_nodes db0 (set_n2 (g\<lparr>set_n2 := ?s\<rparr>))" using n2_nodes_add [OF Cons.prems(3) l(2,3)] by simp
    fix N2 assume N2: "n2_nodes db0 N2" "\<forall>y\<in>set N2. an_addr y \<in> an_addr ` set (set_n2 (g\<lparr>set_n2 := ?s\<rparr>)) \<or>
      (\<exists>x\<in>set xs. flooding_d2 d db0 x (an_addr y) \<le> RFC7181_METRIC_MAX)"
      "an_addr ` set N2 = an_addr ` set (set_n2 (g\<lparr>set_n2 := ?s\<rparr>)) \<union> flooding_two_hops d i db0 xs"
    have "\<forall>y\<in>set N2. an_addr y \<in> an_addr ` set (set_n2 g) \<or>
      (\<exists>x\<in>set (x # xs). flooding_d2 d db0 x (an_addr y) \<le> RFC7181_METRIC_MAX)"
      using N2(2) s by fastforce
    moreover have "an_addr ` set N2 = an_addr ` set (set_n2 g) \<union> flooding_two_hops d i db0 (x # xs)"
      using N2(3) add_2hops_addrs [OF dist, of "flooding_is_allowed_2hop_tuple d i lnk" lnk] unfolding th by auto
    ultimately have "Q (g\<lparr>set_n2 := N2\<rparr>)" by (rule Cons.prems(4) [OF N2(1)])
    then show "Q (g\<lparr>set_n2 := ?s\<rparr>\<lparr>set_n2 := N2\<rparr>)" by simp
  qed (use Cons.prems(2) in simp)
  then show ?case by (simp add: n)
qed

subsection \<open>Numbering the nodes\<close>

lemma number_n1_nth: "k < length xs \<Longrightarrow> number_n1 i xs ! k = (xs ! k)\<lparr>n1_table_offset := i + of_nat k\<rparr>"
  by (induction xs arbitrary: i k) (auto simp: nth_Cons' less_Suc_eq_0_disj)

lemma number_n2_nth: "k < length ys \<Longrightarrow> number_n2 n i ys ! k = (ys ! k)\<lparr>an_table_offset := i + of_nat k * n\<rparr>"
  by (induction ys arbitrary: i k) (auto simp: nth_Cons' less_Suc_eq_0_disj algebra_simps)

lemma number_n1_maps: "map n1_addr (number_n1 i xs) = map n1_addr xs" "map n1_link (number_n1 i xs) = map n1_link xs"
  "map n1_neigh (number_n1 i xs) = map n1_neigh xs"
  by (induction xs arbitrary: i) auto

lemma number_n2_maps: "map an_addr (number_n2 n i ys) = map an_addr ys"
  by (induction ys arbitrary: i) auto

lemma number_n1_set:
  "x \<in> set (number_n1 i xs) \<longleftrightarrow> (\<exists>k<length xs. x = (xs ! k)\<lparr>n1_table_offset := i + of_nat k\<rparr>)"
  by (auto simp: in_set_conv_nth number_n1_nth)

lemma ball_number_n1:
  assumes "\<And>x k. P (x\<lparr>n1_table_offset := k\<rparr>) = P x"
  shows "(\<forall>x\<in>set (number_n1 i xs). P x) \<longleftrightarrow> (\<forall>x\<in>set xs. P x)" "(\<exists>x\<in>set (number_n1 i xs). P x) \<longleftrightarrow> (\<exists>x\<in>set xs. P x)"
  using assms by (induction xs arbitrary: i) auto

text \<open>What the sizes of the tables allow: the offsets are 32 bits wide.\<close>

definition graph_small :: "nhdp_db \<Rightarrow> nat \<Rightarrow> bool" where
  "graph_small db n \<longleftrightarrow> n * length (two_hop_addrs db) < 2 ^ 32 \<and> n < 2 ^ 32 \<and> length (two_hop_addrs db) < 2 ^ 32"

lemma init_cache_nodes:
  assumes "n1_nodes db (set_n1 g)" "n2_nodes db (set_n2 g)" "graph_small db n" "length (set_n1 g) \<le> n"
  shows "graph_nodes db (set_n1 (init_cache g)) (set_n2 (init_cache g))"
proof -
  let ?N1 = "set_n1 g" and ?N2 = "set_n2 g"
  have "length ?N2 = card (an_addr ` set ?N2)" using assms(2) distinct_card [of "map an_addr ?N2"] by (simp add: n2_nodes_def)
  also have "\<dots> \<le> card (set (two_hop_addrs db))" using assms(2) by (intro card_mono) (auto simp: n2_nodes_def)
  also have "\<dots> \<le> length (two_hop_addrs db)" by (rule card_length)
  finally have l: "length ?N2 \<le> length (two_hop_addrs db)" .
  have "length ?N1 * length ?N2 \<le> n * length (two_hop_addrs db)" using l assms(4) by (intro mult_le_mono)
  then have small: "length ?N1 * length ?N2 < 2 ^ 32" "length ?N1 < 2 ^ 32" "length ?N2 < 2 ^ 32"
    using assms(3,4) l by (auto simp: graph_small_def)
  have "numbered (number_n1 0 ?N1) (number_n2 (of_nat (length ?N1)) 0 ?N2)"
    using small by (simp add: numbered_def number_n1_nth number_n2_nth)
  moreover have "\<forall>x\<in>set (number_n1 0 ?N1). \<exists>nb. get_neigh db (n1_neigh x) = Inr nb \<and> nb_originator nb = n1_addr x"
    by (subst ball_number_n1(1)) (use assms(1) in \<open>auto simp: n1_nodes_def\<close>)
  ultimately show ?thesis
    using assms(1,2) by (simp add: graph_nodes_def init_cache_def Let_def number_n1_maps number_n2_maps n1_nodes_def n2_nodes_def)
qed

lemma flooding_ignores_offset [simp]:
  "n1_with_link d db (x\<lparr>n1_table_offset := k\<rparr>) = n1_with_link d db x" "flooding_d2 d db (x\<lparr>n1_table_offset := k\<rparr>) a = flooding_d2 d db x a"
  "selected db (x\<lparr>n1_table_offset := k\<rparr>) = selected db x"
  by (simp_all add: n1_with_link_def flooding_d2_def flooding_calculate_d2_x_y_def n1_node_link_def selected_def)

lemma n1_with_link_same: "same_graph db db' \<Longrightarrow> n1_with_link d db' x = n1_with_link d db x"
  by (simp add: n1_with_link_def same_graphD)

lemma graph_nodes_same: "same_graph db db' \<Longrightarrow> graph_nodes db N1 N2 \<Longrightarrow> graph_nodes db' N1 N2"
  unfolding graph_nodes_def using same_graph_neigh by fastforce

lemma flooding_d2_eq: "same_graph db db' \<Longrightarrow> flooding_d2 d db' x a = flooding_d2 d db x a"
  by (simp add: flooding_d2_def flooding_calculate_d2_x_y_def n1_node_link_same)

lemma flooding_built_same: "same_graph db db' \<Longrightarrow> flooding_built d db N1 N2 \<Longrightarrow> flooding_built d db' N1 N2"
  by (simp add: flooding_built_def n1_with_link_same graph_nodes_same flooding_d2_eq)

text \<open>The graph of an interface satisfies the contract, and no neighbor is selected yet.\<close>

lemma flooding_two_hops_number: "flooding_two_hops d i db (number_n1 k N1) = flooding_two_hops d i db N1"
  unfolding flooding_two_hops_def by (subst ball_number_n1(2)) (simp_all add: n1_node_link_def)

lemma flooding_graph_built:
  assumes "links_ok db (db_link_list db)" "graph_small db (length (db_link_list db))"
  shows "\<exists>db' g. mpr_calculate_neighbor_graph_flooding d i db = Inr (db', g) \<and> same_graph db db' \<and>
    flooding_built d db' (set_n1 (init_cache g)) (set_n2 (init_cache g)) \<and> set_n g = [] \<and> set_mpr g = [] \<and>
    (\<forall>x\<in>set (set_n1 (init_cache g)). \<not> selected db' x) \<and>
    n1_addr ` set (set_n1 (init_cache g)) = flooding_neighbors d i db (db_link_list db) \<and>
    an_addr ` set (set_n2 (init_cache g)) = flooding_two_hops d i db (set_n1 (init_cache g))"
proof -
  have "wp (mpr_calculate_neighbor_graph_flooding d i db) (\<lambda>_. False) (\<lambda>(db', g). same_graph db db' \<and>
    flooding_built d db' (set_n1 (init_cache g)) (set_n2 (init_cache g)) \<and> set_n g = [] \<and> set_mpr g = [] \<and>
    (\<forall>x\<in>set (set_n1 (init_cache g)). \<not> selected db' x) \<and>
    n1_addr ` set (set_n1 (init_cache g)) = flooding_neighbors d i db (db_link_list db) \<and>
    an_addr ` set (set_n2 (init_cache g)) = flooding_two_hops d i db (set_n1 (init_cache g)))"
    unfolding mpr_calculate_neighbor_graph_flooding_def flooding_calculate_n1_def flooding_calculate_n2_def wp_bind
  proof (rule flooding_n1_wp [OF same_graph_refl assms(1) subset_refl], unfold prod.case wp_bind)
    fix db' N1 assume N1: "same_graph db db'" "n1_nodes db N1" "\<forall>x\<in>set N1. n1_with_link d db x \<and> \<not> selected db' x"
      "length N1 \<le> length (set_n1 mpr_init_neighbor_graph) + length (db_link_list db)"
      "n1_addr ` set N1 = n1_addr ` set (set_n1 mpr_init_neighbor_graph) \<union> flooding_neighbors d i db (db_link_list db)"
    let ?g = "mpr_init_neighbor_graph\<lparr>set_n1 := N1\<rparr>"
    show "wp (flooding_n2_loop d i db' ?g (set_n1 ?g)) (\<lambda>_. False) (\<lambda>a. wp (Inr (db', a)) (\<lambda>_. False)
      (\<lambda>(db', g). same_graph db db' \<and> flooding_built d db' (set_n1 (init_cache g)) (set_n2 (init_cache g)) \<and> set_n g = [] \<and>
        set_mpr g = [] \<and> (\<forall>x\<in>set (set_n1 (init_cache g)). \<not> selected db' x) \<and>
        n1_addr ` set (set_n1 (init_cache g)) = flooding_neighbors d i db (db_link_list db) \<and>
        an_addr ` set (set_n2 (init_cache g)) = flooding_two_hops d i db (set_n1 (init_cache g))))"
    proof (rule flooding_n2_wp [OF N1(1)], unfold wp_Inr prod.case)
      fix N2 assume N2: "n2_nodes db N2" "\<forall>y\<in>set N2. an_addr y \<in> an_addr ` set (set_n2 ?g) \<or>
        (\<exists>x\<in>set (set_n1 ?g). flooding_d2 d db x (an_addr y) \<le> RFC7181_METRIC_MAX)"
        "an_addr ` set N2 = an_addr ` set (set_n2 ?g) \<union> flooding_two_hops d i db (set_n1 ?g)"
      let ?h = "?g\<lparr>set_n2 := N2\<rparr>"
      have g: "graph_nodes db (set_n1 (init_cache ?h)) (set_n2 (init_cache ?h))"
        using N1(2,4) N2(1) by (intro init_cache_nodes [OF _ _ assms(2)]) (simp_all add: mpr_init_neighbor_graph_def)
      show "same_graph db db' \<and> flooding_built d db' (set_n1 (init_cache ?h)) (set_n2 (init_cache ?h)) \<and> set_n ?h = [] \<and>
        set_mpr ?h = [] \<and> (\<forall>x\<in>set (set_n1 (init_cache ?h)). \<not> selected db' x) \<and>
        n1_addr ` set (set_n1 (init_cache ?h)) = flooding_neighbors d i db (db_link_list db) \<and>
        an_addr ` set (set_n2 (init_cache ?h)) = flooding_two_hops d i db (set_n1 (init_cache ?h))"
      proof -
        have N: "set_n1 (init_cache ?h) = number_n1 0 N1" "map an_addr (set_n2 (init_cache ?h)) = map an_addr N2"
          by (simp_all add: init_cache_def Let_def number_n2_maps)
        have "\<exists>x\<in>set N1. flooding_d2 d db x (an_addr y) \<le> RFC7181_METRIC_MAX" if "y \<in> set (set_n2 (init_cache ?h))" for y
        proof -
          have "an_addr y \<in> set (map an_addr N2)" using that unfolding N(2) [symmetric] by simp
          with N2(2) show ?thesis by (auto simp: mpr_init_neighbor_graph_def)
        qed
        moreover have "\<forall>x\<in>set N1. n1_with_link d db x" "\<forall>x\<in>set N1. \<not> selected db' x" using N1(3) by simp_all
        ultimately have "flooding_built d db (set_n1 (init_cache ?h)) (set_n2 (init_cache ?h))"
          "\<forall>x\<in>set (set_n1 (init_cache ?h)). \<not> selected db' x"
          using g unfolding flooding_built_def N(1) by (simp_all add: ball_number_n1)
        moreover have "n1_addr ` set (set_n1 (init_cache ?h)) = flooding_neighbors d i db (db_link_list db)"
          using N1(5) unfolding N(1) by (simp add: mpr_init_neighbor_graph_def number_n1_maps flip: set_map)
        moreover have "an_addr ` set (set_n2 (init_cache ?h)) = flooding_two_hops d i db (set_n1 (init_cache ?h))"
        proof -
          have "set (map an_addr (set_n2 (init_cache ?h))) = an_addr ` set N2" unfolding N(2) by simp
          also have "\<dots> = flooding_two_hops d i db N1" using N2(3) by (simp add: mpr_init_neighbor_graph_def)
          finally show ?thesis unfolding N(1) by (simp add: flooding_two_hops_number)
        qed
        ultimately show ?thesis using flooding_built_same [OF N1(1)] N1(1) by (simp add: mpr_init_neighbor_graph_def)
      qed
    qed (use N1 in \<open>auto simp: mpr_init_neighbor_graph_def n2_nodes_def\<close>)
  qed (auto simp: mpr_init_neighbor_graph_def n1_nodes_def)
  from wp_False_ex [OF this] show ?thesis by auto
qed

subsection \<open>The routing graph\<close>

definition routing_d1 :: "nat \<Rightarrow> nhdp_db \<Rightarrow> n1_node \<Rightarrow> u32" where
  "routing_d1 d db x = result_or 0 (routing_calculate_d1_x d db x)"

definition routing_d2 :: "nat \<Rightarrow> nhdp_db \<Rightarrow> n1_node \<Rightarrow> netaddr \<Rightarrow> u32" where
  "routing_d2 d db x a = result_or 0 (routing_calculate_d2_x_y d db x (addr_only a))"

definition routing_dy :: "nat \<Rightarrow> nhdp_db \<Rightarrow> n1_node list \<Rightarrow> netaddr \<Rightarrow> u32" where
  "routing_dy d db N1 a = result_or 0 (routing_d1_loop d db (addr_only a) N1)"

definition routing_w :: "nat \<Rightarrow> nhdp_db \<Rightarrow> n1_node \<Rightarrow> u8" where
  "routing_w d db x = result_or 0 (routing_get_willingness_n1 d db x)"

text \<open>The links of a neighbor are there, and in the list of all links.\<close>

definition neigh_links_ok :: "nhdp_db \<Rightarrow> nhdp_neighbor \<Rightarrow> bool" where
  "neigh_links_ok db nb \<longleftrightarrow> (\<forall>l\<in>set (nb_links nb). l \<in> set (db_link_list db) \<and> (case get_link db l of Inl _ \<Rightarrow> False | Inr _ \<Rightarrow> True))"

text \<open>The first link of a neighbor with an entry for an address decides about the address.\<close>

definition first_link_decides :: "nat \<Rightarrow> nhdp_db \<Rightarrow> nhdp_neighbor \<Rightarrow> bool" where
  "first_link_decides d db nb \<longleftrightarrow> (\<forall>l\<in>set (nb_links nb). case get_link db l of Inl _ \<Rightarrow> False | Inr lnk \<Rightarrow>
     \<forall>a\<in>set (Mapping.ordered_keys (lk_2hop lnk)). case Mapping.lookup (lk_2hop lnk) a of None \<Rightarrow> True | Some l2hop \<Rightarrow>
       routing_is_allowed_2hop_tuple d l2hop \<longrightarrow> result_or 0 (routing_d2_loop d db (addr_only a) (nb_links nb)) \<le> RFC7181_METRIC_MAX)"

definition n1_reachable :: "nat \<Rightarrow> nhdp_db \<Rightarrow> n1_node \<Rightarrow> bool" where
  "n1_reachable d db x \<longleftrightarrow> (\<exists>nb. get_neigh db (n1_neigh x) = Inr nb \<and> mt_in (neighbor_metric d nb) \<le> RFC7181_METRIC_MAX \<and>
     neigh_links_ok db nb)"

definition routing_built :: "nat \<Rightarrow> nhdp_db \<Rightarrow> n1_node list \<Rightarrow> addr_node list \<Rightarrow> bool" where
  "routing_built d db N1 N2 \<longleftrightarrow> graph_nodes db N1 N2 \<and> (\<forall>x\<in>set N1. n1_reachable d db x) \<and>
     (\<forall>y\<in>set N2. \<exists>x\<in>set N1. routing_d2 d db x (an_addr y) \<le> RFC7181_METRIC_MAX)"

lemma routing_d2_loop_ok:
  assumes "\<forall>l\<in>set ls. case get_link db l of Inl _ \<Rightarrow> False | Inr _ \<Rightarrow> True"
  shows "routing_d2_loop d db y ls = Inr (result_or 0 (routing_d2_loop d db (addr_only (an_addr y)) ls))"
  using assms by (induction ls) (auto simp: addr_only_def split: sum.splits option.splits)

lemma routing_d2_loop_same: "same_graph db db' \<Longrightarrow> routing_d2_loop d db' y ls = routing_d2_loop d db y ls"
  by (induction ls) (simp_all add: same_graphD cong: option.case_cong)

lemma neigh_links_ok_same: "same_graph db db' \<Longrightarrow> neigh_links_ok db' nb = neigh_links_ok db nb"
  by (simp add: neigh_links_ok_def same_graphD)

lemma n1_reachableE:
  assumes "n1_reachable d db x" "same_graph db db'"
  obtains nb s where "get_neigh db (n1_neigh x) = Inr nb" "get_neigh db' (n1_neigh x) = Inr (nb\<lparr>nb_selection_is_mpr := s\<rparr>)"
    "mt_in (neighbor_metric d nb) \<le> RFC7181_METRIC_MAX" "neigh_links_ok db nb"
proof -
  from assms(1) obtain nb where nb: "get_neigh db (n1_neigh x) = Inr nb" "mt_in (neighbor_metric d nb) \<le> RFC7181_METRIC_MAX"
    "neigh_links_ok db nb" by (auto simp: n1_reachable_def)
  from same_graph_neigh [OF assms(2) nb(1)] that [OF nb(1) _ nb(2,3)] show thesis by blast
qed

lemma neighbor_data_selection [simp]:
  "neighbor_metric d (nb\<lparr>nb_selection_is_mpr := s\<rparr>) = neighbor_metric d nb"
  "nhdp_domain_get_neighbordata d (nb\<lparr>nb_selection_is_mpr := s\<rparr>) = nhdp_domain_get_neighbordata d nb"
  by (simp_all add: neighbor_metric_def nhdp_domain_get_neighbordata_def)

lemma routing_d1_same:
  assumes "n1_reachable d db x" "same_graph db db'"
  shows "routing_calculate_d1_x d db' x = Inr (routing_d1 d db x)" "routing_d1 d db x \<le> RFC7181_METRIC_MAX"
  by (rule n1_reachableE [OF assms], simp add: routing_calculate_d1_x_def routing_d1_def)+

lemma routing_d2_same:
  assumes "n1_reachable d db x" "same_graph db db'"
  shows "routing_calculate_d2_x_y d db' x y = Inr (routing_d2 d db x (an_addr y))"
proof (rule n1_reachableE [OF assms])
  fix nb s assume nb: "get_neigh db (n1_neigh x) = Inr nb" "get_neigh db' (n1_neigh x) = Inr (nb\<lparr>nb_selection_is_mpr := s\<rparr>)"
    "neigh_links_ok db nb"
  have "routing_d2_loop d db y (nb_links nb) = Inr (result_or 0 (routing_d2_loop d db (addr_only (an_addr y)) (nb_links nb)))"
    by (rule routing_d2_loop_ok) (use nb(3) in \<open>simp add: neigh_links_ok_def\<close>)
  with nb show ?thesis
    by (simp add: routing_calculate_d2_x_y_def routing_d2_def routing_d2_loop_same [OF assms(2)])
qed

lemma routing_w_same:
  assumes "n1_reachable d db x" "same_graph db db'"
  shows "routing_get_willingness_n1 d db' x = Inr (routing_w d db x)"
  by (rule n1_reachableE [OF assms]) (simp add: routing_get_willingness_n1_def routing_w_def)

lemma routing_dy_same:
  assumes "\<forall>x\<in>set xs. n1_reachable d db x" "same_graph db db'"
  shows "routing_d1_loop d db' y xs = Inr (routing_dy d db xs (an_addr y)) \<and>
    (routing_dy d db xs (an_addr y) \<le> RFC7181_METRIC_MAX \<or> routing_dy d db xs (an_addr y) = RFC7181_METRIC_INFINITE)"
  using assms(1)
proof (induction xs)
  case (Cons x xs)
  have "n1_reachable d db x" using Cons.prems by simp
  from this assms(2) show ?case
  proof (rule n1_reachableE)
    fix nb s assume "get_neigh db (n1_neigh x) = Inr nb" "get_neigh db' (n1_neigh x) = Inr (nb\<lparr>nb_selection_is_mpr := s\<rparr>)"
      "mt_in (neighbor_metric d nb) \<le> RFC7181_METRIC_MAX"
    then show ?thesis
      using Cons same_graphD(2) [OF assms(2)] by (auto simp: routing_dy_def addr_only_def)
  qed
qed (simp add: routing_dy_def)

interpretation routing_costs: mpr_costs routing_interface routing_built routing_d1 routing_d2 routing_dy routing_w
proof (unfold_locales, goal_cases)
  case (2 d db N1 N2 x) then show ?case using routing_d1_same(2) [OF _ same_graph_refl] by (simp add: routing_built_def)
next
  case (4 d db N1 N2 y) then show ?case using routing_dy_same [of N1 d db db] by (simp add: routing_built_def)
next
  case (5 d db N1 N2 db' x g y)
  then have "n1_reachable d db x" by (simp add: routing_built_def)
  with 5(2) show ?case by (simp add: routing_interface_def routing_d1_same routing_d2_same)
next
  case (7 d db N1 N2 db' g y) then show ?case using routing_dy_same [of N1 d db db' y]
    by (simp add: routing_built_def routing_interface_def routing_calculate_d1_x_of_n2_addr_def)
qed (simp_all add: routing_built_def routing_interface_def routing_d2_same routing_w_same)

definition routing_built_willing :: "nat \<Rightarrow> nhdp_db \<Rightarrow> n1_node list \<Rightarrow> addr_node list \<Rightarrow> bool" where
  "routing_built_willing d db N1 N2 \<longleftrightarrow> routing_built d db N1 N2 \<and> (\<forall>x\<in>set N1. routing_w d db x \<noteq> RFC7181_WILLINGNESS_ALWAYS)"

interpretation routing_graph: mpr_graph routing_interface routing_built_willing routing_d1 routing_d2 routing_dy routing_w
  by unfold_locales (auto simp: routing_built_willing_def intro: routing_costs.nodes routing_costs.d1_finite
      routing_costs.m_d_x_y routing_costs.m_d2 routing_costs.m_dy routing_costs.m_w
      dest: routing_costs.d2_finite routing_costs.dy_range)

subsection \<open>Building the routing graph\<close>

text \<open>What the routing graph needs of the neighbors.\<close>

definition neighs_ok :: "nat \<Rightarrow> nhdp_db \<Rightarrow> bool" where
  "neighs_ok d db \<longleftrightarrow> (\<forall>n\<in>set (db_neigh_list db). case get_neigh db n of Inl _ \<Rightarrow> False | Inr nb \<Rightarrow>
     neigh_links_ok db nb \<and> first_link_decides d db nb)"

lemma neighs_okD:
  assumes "neighs_ok d db" "n \<in> set (db_neigh_list db)"
  shows "\<exists>nb. get_neigh db n = Inr nb \<and> neigh_links_ok db nb \<and> first_link_decides d db nb"
  using bspec [OF assms(1) [unfolded neighs_ok_def] assms(2)] by (auto split: sum.splits)

definition routing_node :: "nat \<Rightarrow> nhdp_db \<Rightarrow> n1_node \<Rightarrow> bool" where
  "routing_node d db x \<longleftrightarrow> n1_neigh x \<in> set (db_neigh_list db) \<and> n1_link x = None \<and> n1_reachable d db x"

lemma routing_n1_wp:
  assumes "same_graph db0 db" "neighs_ok d db0" "set ns \<subseteq> set (db_neigh_list db0)"
    and "n1_nodes db0 (set_n1 g)" "\<forall>x\<in>set (set_n1 g). routing_node d db0 x \<and> \<not> selected db x"
    and "\<And>db' N1. same_graph db0 db' \<Longrightarrow> n1_nodes db0 N1 \<Longrightarrow> \<forall>x\<in>set N1. routing_node d db0 x \<and> \<not> selected db' x \<Longrightarrow>
      length N1 \<le> length (set_n1 g) + length ns \<Longrightarrow> Q (db', g\<lparr>set_n1 := N1\<rparr>)"
  shows "wp (routing_n1_loop d db g ns) (\<lambda>_. False) Q"
  using assms
proof (induction ns arbitrary: db g)
  case Nil
  from Nil.prems(6) [OF Nil.prems(1,4,5)] show ?case by simp
next
  case (Cons n ns)
  have n: "n \<in> set (db_neigh_list db0)" using Cons.prems(3) by simp
  from neighs_okD [OF Cons.prems(2) n] obtain nb0 where nb0: "get_neigh db0 n = Inr nb0" "neigh_links_ok db0 nb0" by blast
  with same_graph_neigh [OF Cons.prems(1)] obtain b where nb: "get_neigh db n = Inr (nb0\<lparr>nb_selection_is_mpr := b\<rparr>)" by blast
  let ?db = "unselect_mpr n db"
  have s: "same_graph db0 ?db" by (rule same_graph_unselect [OF Cons.prems(1)])
  have rest: "wp (routing_n1_loop d ?db (g\<lparr>set_n1 := N1\<rparr>) ns) (\<lambda>_. False) Q"
    if N1: "n1_nodes db0 N1" "\<forall>x\<in>set N1. routing_node d db0 x \<and> \<not> selected ?db x" "length N1 \<le> Suc (length (set_n1 g))" for N1
  proof (rule Cons.IH [OF s Cons.prems(2)])
    fix db' N2 assume "same_graph db0 db'" "n1_nodes db0 N2" "\<forall>x\<in>set N2. routing_node d db0 x \<and> \<not> selected db' x"
      "length N2 \<le> length (set_n1 (g\<lparr>set_n1 := N1\<rparr>)) + length ns"
    from Cons.prems(6) [OF this(1-3)] this(4) N1(3) show "Q (db', g\<lparr>set_n1 := N1\<rparr>\<lparr>set_n1 := N2\<rparr>)" by simp
  qed (use Cons.prems(3) N1 in auto)
  have keep: "wp (routing_n1_loop d ?db g ns) (\<lambda>_. False) Q"
    using rest [of "set_n1 g"] Cons.prems(4,5) by (simp add: selected_unselect)
  have "wp (bind_f (mpr_add_n1_node_to_set ?db (set_n1 g) n None 0) (\<lambda>s. routing_n1_loop d ?db (g\<lparr>set_n1 := s\<rparr>) ns)) (\<lambda>_. False) Q"
    if a: "mt_in (neighbor_metric d nb0) \<le> RFC7181_METRIC_MAX"
  proof -
    obtain nb' where nb': "get_neigh ?db n = Inr nb'" using nb by (auto simp: unselect_mpr_def get_neigh_upd_neigh)
    show ?thesis
      unfolding wp_bind
    proof (rule mpr_add_n1_wp [OF nb' same_graph_nodes [OF s Cons.prems(4)]])
      fix s' x assume s': "n1_nodes ?db s'" "n1_neigh x = n" "n1_link x = None" "set s' \<subseteq> insert x (set (set_n1 g))"
        "length s' \<le> Suc (length (set_n1 g))"
      have "routing_node d db0 x" using a nb0 s'(2,3) n by (auto simp: routing_node_def n1_reachable_def)
      then have "\<forall>x\<in>set s'. routing_node d db0 x \<and> \<not> selected ?db x"
        using s'(2,4) Cons.prems(5) by (auto simp: selected_unselect)
      with rest same_graph_nodes [OF same_graph_sym [OF s] s'(1)] s'(5)
      show "wp (routing_n1_loop d ?db (g\<lparr>set_n1 := s'\<rparr>) ns) (\<lambda>_. False) Q" by blast
    qed
  qed
  with keep show ?case
    by (simp add: nb Let_def routing_is_allowed_neighbor_tuple_def routing_is_reachable_neighbor_tuple_def)
qed

lemma routing_n2_links_wp:
  assumes "same_graph db0 db" "\<forall>l\<in>set ls. l \<in> set (db_link_list db0) \<and> (case get_link db0 l of Inl _ \<Rightarrow> False | Inr _ \<Rightarrow> True)"
    and "n2_nodes db0 s"
    and "\<And>N2. n2_nodes db0 N2 \<Longrightarrow> \<forall>a\<in>an_addr ` set N2. a \<in> an_addr ` set s \<or>
      (\<exists>l\<in>set ls. \<exists>lnk. get_link db0 l = Inr lnk \<and> a \<in> set (Mapping.ordered_keys (lk_2hop lnk)) \<and>
        (\<exists>l2. Mapping.lookup (lk_2hop lnk) a = Some l2 \<and> routing_is_allowed_2hop_tuple d l2)) \<Longrightarrow> Q N2"
  shows "wp (routing_n2_links d db s ls) (\<lambda>_. False) Q"
  using assms(2-)
proof (induction ls arbitrary: s)
  case (Cons l ls)
  have "l \<in> set (db_link_list db0)" "case get_link db0 l of Inl _ \<Rightarrow> False | Inr _ \<Rightarrow> True" using Cons.prems(1) by simp_all
  then obtain lnk where l: "l \<in> set (db_link_list db0)" "get_link db0 l = Inr lnk" by (auto split: sum.splits)
  let ?s = "add_2hops (routing_is_allowed_2hop_tuple d) lnk s"
  have "distinct (map an_addr s)" using Cons.prems(2) by (simp add: n2_nodes_def)
  note s = add_2hops_addrs [OF this, of "routing_is_allowed_2hop_tuple d" lnk]
  have "wp (routing_n2_links d db ?s ls) (\<lambda>_. False) Q"
  proof (rule Cons.IH [OF _ n2_nodes_add [OF Cons.prems(2) l]])
    show "\<forall>l\<in>set ls. l \<in> set (db_link_list db0) \<and> (case get_link db0 l of Inl _ \<Rightarrow> False | Inr _ \<Rightarrow> True)" using Cons.prems(1) by simp
    fix N2 assume N2: "n2_nodes db0 N2" "\<forall>a\<in>an_addr ` set N2. a \<in> an_addr ` set ?s \<or>
      (\<exists>l\<in>set ls. \<exists>lnk. get_link db0 l = Inr lnk \<and> a \<in> set (Mapping.ordered_keys (lk_2hop lnk)) \<and>
        (\<exists>l2. Mapping.lookup (lk_2hop lnk) a = Some l2 \<and> routing_is_allowed_2hop_tuple d l2))"
    show "Q N2"
    proof (rule Cons.prems(3) [OF N2(1)], rule ballI)
      fix a assume "a \<in> an_addr ` set N2"
      from N2(2) [rule_format, OF this] s l(2)
      show "a \<in> an_addr ` set s \<or> (\<exists>l\<in>set (l # ls). \<exists>lnk. get_link db0 l = Inr lnk \<and> a \<in> set (Mapping.ordered_keys (lk_2hop lnk)) \<and>
        (\<exists>l2. Mapping.lookup (lk_2hop lnk) a = Some l2 \<and> routing_is_allowed_2hop_tuple d l2))" by auto
    qed
  qed
  then show ?case using l(2) same_graphD(1) [OF assms(1)] by simp
qed simp

lemma first_link_decidesD:
  assumes "first_link_decides d db nb" "l \<in> set (nb_links nb)" "get_link db l = Inr lnk" "a \<in> set (Mapping.ordered_keys (lk_2hop lnk))"
    "Mapping.lookup (lk_2hop lnk) a = Some l2" "routing_is_allowed_2hop_tuple d l2"
  shows "result_or 0 (routing_d2_loop d db (addr_only a) (nb_links nb)) \<le> RFC7181_METRIC_MAX"
  using bspec [OF assms(1) [unfolded first_link_decides_def] assms(2)] assms(3-) by auto

lemma routing_n2_wp:
  assumes "same_graph db0 db" "neighs_ok d db0" "\<forall>x\<in>set xs. routing_node d db0 x" "n2_nodes db0 (set_n2 g)"
    and "\<And>N2. n2_nodes db0 N2 \<Longrightarrow> \<forall>a\<in>an_addr ` set N2. a \<in> an_addr ` set (set_n2 g) \<or>
      (\<exists>x\<in>set xs. routing_d2 d db0 x a \<le> RFC7181_METRIC_MAX) \<Longrightarrow> Q (g\<lparr>set_n2 := N2\<rparr>)"
  shows "wp (routing_n2_loop d db g xs) (\<lambda>_. False) Q"
  using assms
proof (induction xs arbitrary: g)
  case Nil
  from Nil.prems(5) [OF Nil.prems(4)] show ?case by simp
next
  case (Cons x xs)
  have x: "n1_neigh x \<in> set (db_neigh_list db0)" using Cons.prems(3) by (simp add: routing_node_def)
  from neighs_okD [OF Cons.prems(2) x] obtain nb where nb: "get_neigh db0 (n1_neigh x) = Inr nb" "neigh_links_ok db0 nb"
    "first_link_decides d db0 nb" by blast
  from same_graph_neigh [OF Cons.prems(1) nb(1)] obtain b where n: "get_neigh db (n1_neigh x) = Inr (nb\<lparr>nb_selection_is_mpr := b\<rparr>)" by blast
  have "wp (bind_f (routing_n2_links d db (set_n2 g) (nb_links nb)) (\<lambda>s. routing_n2_loop d db (g\<lparr>set_n2 := s\<rparr>) xs)) (\<lambda>_. False) Q"
    unfolding wp_bind
  proof (rule routing_n2_links_wp [OF Cons.prems(1) nb(2) [unfolded neigh_links_ok_def] Cons.prems(4)])
    fix N2 assume N2: "n2_nodes db0 N2" "\<forall>a\<in>an_addr ` set N2. a \<in> an_addr ` set (set_n2 g) \<or>
      (\<exists>l\<in>set (nb_links nb). \<exists>lnk. get_link db0 l = Inr lnk \<and> a \<in> set (Mapping.ordered_keys (lk_2hop lnk)) \<and>
        (\<exists>l2. Mapping.lookup (lk_2hop lnk) a = Some l2 \<and> routing_is_allowed_2hop_tuple d l2))"
    have c: "a \<in> an_addr ` set (set_n2 g) \<or> routing_d2 d db0 x a \<le> RFC7181_METRIC_MAX" if "a \<in> an_addr ` set N2" for a
      using N2(2) [rule_format, OF that] first_link_decidesD [OF nb(3)] nb(1) by (auto simp: routing_d2_def routing_calculate_d2_x_y_def)
    show "wp (routing_n2_loop d db (g\<lparr>set_n2 := N2\<rparr>) xs) (\<lambda>_. False) Q"
    proof (rule Cons.IH [OF Cons.prems(1,2)])
      show "\<forall>x\<in>set xs. routing_node d db0 x" "n2_nodes db0 (set_n2 (g\<lparr>set_n2 := N2\<rparr>))" using Cons.prems(3) N2(1) by simp_all
      fix N3 assume N3: "n2_nodes db0 N3" "\<forall>a\<in>an_addr ` set N3. a \<in> an_addr ` set (set_n2 (g\<lparr>set_n2 := N2\<rparr>)) \<or>
        (\<exists>x\<in>set xs. routing_d2 d db0 x a \<le> RFC7181_METRIC_MAX)"
      have "\<forall>a\<in>an_addr ` set N3. a \<in> an_addr ` set (set_n2 g) \<or> (\<exists>x\<in>set (x # xs). routing_d2 d db0 x a \<le> RFC7181_METRIC_MAX)"
      proof
        fix a assume "a \<in> an_addr ` set N3"
        from N3(2) [rule_format, OF this] c [of a]
        show "a \<in> an_addr ` set (set_n2 g) \<or> (\<exists>x\<in>set (x # xs). routing_d2 d db0 x a \<le> RFC7181_METRIC_MAX)" by auto
      qed
      from Cons.prems(5) [OF N3(1) this] show "Q (g\<lparr>set_n2 := N2\<rparr>\<lparr>set_n2 := N3\<rparr>)" by simp
    qed
  qed
  then show ?case by (simp add: n)
qed

lemma routing_ignores_offset [simp]:
  "n1_reachable d db (x\<lparr>n1_table_offset := k\<rparr>) = n1_reachable d db x" "routing_d2 d db (x\<lparr>n1_table_offset := k\<rparr>) a = routing_d2 d db x a"
  "routing_w d db (x\<lparr>n1_table_offset := k\<rparr>) = routing_w d db x" "routing_node d db (x\<lparr>n1_table_offset := k\<rparr>) = routing_node d db x"
  by (simp_all add: n1_reachable_def routing_d2_def routing_calculate_d2_x_y_def routing_w_def routing_get_willingness_n1_def routing_node_def)

lemma routing_built_same:
  assumes "same_graph db db'" "routing_built d db N1 N2"
  shows "routing_built d db' N1 N2"
proof -
  have r: "n1_reachable d db' x" if "n1_reachable d db x" for x
    using that assms(1) by (rule n1_reachableE) (auto simp: n1_reachable_def neigh_links_ok_def same_graphD [OF assms(1)])
  have "routing_d2 d db' x a = routing_d2 d db x a" if "n1_reachable d db x" for x a
    using routing_d2_same [OF that assms(1)] by (simp add: routing_d2_def addr_only_def)
  with r assms graph_nodes_same [OF assms(1)] show ?thesis unfolding routing_built_def by fastforce
qed

lemma routing_graph_built:
  assumes "neighs_ok d db" "graph_small db (length (db_neigh_list db))"
  shows "\<exists>db' g. mpr_calculate_neighbor_graph_routing d db = Inr (db', g) \<and> same_graph db db' \<and>
    routing_built d db' (set_n1 (init_cache g)) (set_n2 (init_cache g)) \<and> set_n g = [] \<and> set_mpr g = [] \<and>
    (\<forall>x\<in>set (set_n1 (init_cache g)). \<not> selected db' x \<and> routing_node d db x)"
proof -
  let ?Q = "\<lambda>(db', g). same_graph db db' \<and> routing_built d db' (set_n1 (init_cache g)) (set_n2 (init_cache g)) \<and>
    set_n g = [] \<and> set_mpr g = [] \<and> (\<forall>x\<in>set (set_n1 (init_cache g)). \<not> selected db' x \<and> routing_node d db x)"
  have "wp (mpr_calculate_neighbor_graph_routing d db) (\<lambda>_. False) ?Q"
    unfolding mpr_calculate_neighbor_graph_routing_def routing_calculate_n1_def routing_calculate_n2_def wp_bind
  proof (rule routing_n1_wp [OF same_graph_refl assms(1) subset_refl], unfold prod.case wp_bind)
    fix db' N1 assume N1: "same_graph db db'" "n1_nodes db N1" "\<forall>x\<in>set N1. routing_node d db x \<and> \<not> selected db' x"
      "length N1 \<le> length (set_n1 mpr_init_neighbor_graph) + length (db_neigh_list db)"
    let ?g = "mpr_init_neighbor_graph\<lparr>set_n1 := N1\<rparr>"
    show "wp (routing_n2_loop d db' ?g (set_n1 ?g)) (\<lambda>_. False) (\<lambda>a. wp (Inr (db', a)) (\<lambda>_. False) ?Q)"
    proof (rule routing_n2_wp [OF N1(1) assms(1)], unfold wp_Inr prod.case)
      fix N2 assume N2: "n2_nodes db N2" "\<forall>a\<in>an_addr ` set N2. a \<in> an_addr ` set (set_n2 ?g) \<or>
        (\<exists>x\<in>set (set_n1 ?g). routing_d2 d db x a \<le> RFC7181_METRIC_MAX)"
      let ?h = "?g\<lparr>set_n2 := N2\<rparr>"
      have g: "graph_nodes db (set_n1 (init_cache ?h)) (set_n2 (init_cache ?h))"
        using N1(2,4) N2(1) by (intro init_cache_nodes [OF _ _ assms(2)]) (simp_all add: mpr_init_neighbor_graph_def)
      have N: "set_n1 (init_cache ?h) = number_n1 0 N1" "map an_addr (set_n2 (init_cache ?h)) = map an_addr N2"
        by (simp_all add: init_cache_def Let_def number_n2_maps)
      have "\<exists>x\<in>set N1. routing_d2 d db x (an_addr y) \<le> RFC7181_METRIC_MAX" if "y \<in> set (set_n2 (init_cache ?h))" for y
      proof -
        have "an_addr y \<in> set (map an_addr N2)" using that unfolding N(2) [symmetric] by simp
        with N2(2) show ?thesis by (auto simp: mpr_init_neighbor_graph_def)
      qed
      moreover have "\<forall>x\<in>set N1. n1_reachable d db x" "\<forall>x\<in>set N1. \<not> selected db' x \<and> routing_node d db x"
        using N1(3) by (simp_all add: routing_node_def)
      ultimately have "routing_built d db (set_n1 (init_cache ?h)) (set_n2 (init_cache ?h))"
        "\<forall>x\<in>set (set_n1 (init_cache ?h)). \<not> selected db' x \<and> routing_node d db x"
        using g unfolding routing_built_def N(1) by (simp_all add: ball_number_n1)
      with routing_built_same [OF N1(1)] N1(1)
      show "same_graph db db' \<and> routing_built d db' (set_n1 (init_cache ?h)) (set_n2 (init_cache ?h)) \<and> set_n ?h = [] \<and>
        set_mpr ?h = [] \<and> (\<forall>x\<in>set (set_n1 (init_cache ?h)). \<not> selected db' x \<and> routing_node d db x)"
        by (simp add: mpr_init_neighbor_graph_def)
    qed (use N1 in \<open>auto simp: mpr_init_neighbor_graph_def n2_nodes_def\<close>)
  qed (auto simp: mpr_init_neighbor_graph_def n1_nodes_def)
  from wp_False_ex [OF this] show ?thesis by auto
qed

subsection \<open>The set of MPRs\<close>

text \<open>\<open>d(y, S)\<close> of RFC 7181: the least cost to reach \<open>y\<close> directly or over a node of \<open>S\<close>.\<close>

definition distance_over :: "u32 \<Rightarrow> (n1_node \<Rightarrow> u32) \<Rightarrow> n1_node list \<Rightarrow> u32" where
  "distance_over direct via S =
     Min (insert (if direct > RFC7181_METRIC_MAX then RFC7181_METRIC_INFINITE_PATH else direct) (via ` set S))"

text \<open>
  The conditions of RFC 7181, section 18.3: the MPRs are in N1, every node of N1 that is always willing is one, and every address of N2 is
  reached over the MPRs, at no more than what it costs over all nodes of N1.
\<close>

definition mpr_set_ok :: "(n1_node \<Rightarrow> u8) \<Rightarrow> (netaddr \<Rightarrow> u32) \<Rightarrow> (n1_node \<Rightarrow> netaddr \<Rightarrow> u32) \<Rightarrow> neighbor_graph \<Rightarrow> bool" where
  "mpr_set_ok will direct via g \<longleftrightarrow> set (set_mpr g) \<subseteq> set (set_n1 g) \<and>
     (\<forall>x\<in>set (set_n1 g). will x = RFC7181_WILLINGNESS_ALWAYS \<longrightarrow> x \<in> set (set_mpr g)) \<and>
     (\<forall>y\<in>set (set_n2 g).
        distance_over (direct (an_addr y)) (\<lambda>x. via x (an_addr y)) (set_mpr g) =
        distance_over (direct (an_addr y)) (\<lambda>x. via x (an_addr y)) (set_n1 g) \<and>
        distance_over (direct (an_addr y)) (\<lambda>x. via x (an_addr y)) (set_mpr g) < RFC7181_METRIC_INFINITE_PATH)"

lemma fold_min_Min: "fold (\<lambda>z c. min (f z) c) xs c = Min (insert c (f ` set xs))" for c :: "'a :: linorder"
proof (induction xs arbitrary: c)
  case (Cons x xs)
  have "Min (insert (min (f x) c) (f ` set xs)) = Min (insert c (insert (f x) (f ` set xs)))"
    by (cases "f ` set xs = {}") (simp_all add: ac_simps)
  with Cons show ?case by simp
qed simp

context mpr_graph
begin

lemma mprs_valid_ok: "mprs_valid d db g = mpr_set_ok (w d db) (dy d db (set_n1 g)) (\<lambda>x a. path_cost (d1 d db x) (d2 d db x a)) g"
  unfolding mprs_valid_def mpr_set_ok_def best_cost_def distance_over_def fold_min_Min ..

end

text \<open>What the callbacks keep of a database.\<close>

definition same_links :: "nhdp_db \<Rightarrow> nhdp_db \<Rightarrow> bool" where
  "same_links db db' \<longleftrightarrow> db_link_list db' = db_link_list db \<and> db_neigh_list db' = db_neigh_list db \<and> db_interfaces db' = db_interfaces db \<and>
     (\<forall>l. map_sum id (\<lambda>lnk. (lk_neigh lnk, lk_2hop lnk)) (get_link db' l) = map_sum id (\<lambda>lnk. (lk_neigh lnk, lk_2hop lnk)) (get_link db l)) \<and>
     (\<forall>n. isl (get_neigh db' n) = isl (get_neigh db n))"

lemma same_links_refl [simp]: "same_links db db"
  by (simp add: same_links_def)

lemma same_links_trans: "same_links db db' \<Longrightarrow> same_links db' db'' \<Longrightarrow> same_links db db''"
  by (simp add: same_links_def)

text \<open>Databases that differ only in the flooding flag of links and in the working flag of the selection.\<close>

definition same_but_flags :: "nhdp_db \<Rightarrow> nhdp_db \<Rightarrow> bool" where
  "same_but_flags db db' \<longleftrightarrow>
     (\<forall>l. map_sum id (\<lambda>lnk. lnk\<lparr>lk_neigh_is_flooding_mpr := False\<rparr>) (get_link db' l) =
          map_sum id (\<lambda>lnk. lnk\<lparr>lk_neigh_is_flooding_mpr := False\<rparr>) (get_link db l)) \<and>
     (\<forall>n. map_sum id (\<lambda>nb. nb\<lparr>nb_selection_is_mpr := False\<rparr>) (get_neigh db' n) =
          map_sum id (\<lambda>nb. nb\<lparr>nb_selection_is_mpr := False\<rparr>) (get_neigh db n)) \<and>
     db_naddrs db' = db_naddrs db \<and> db_link_list db' = db_link_list db \<and> db_neigh_list db' = db_neigh_list db \<and>
     db_interfaces db' = db_interfaces db \<and> db_rest db' = db_rest db"

lemma same_but_flags_refl [simp]: "same_but_flags db db"
  by (simp add: same_but_flags_def)

lemma same_but_flags_trans: "same_but_flags db db' \<Longrightarrow> same_but_flags db' db'' \<Longrightarrow> same_but_flags db db''"
  by (simp add: same_but_flags_def)

lemma same_graph_flags: "same_graph db db' \<Longrightarrow> same_but_flags db db'"
  by (simp add: same_graph_def same_but_flags_def)

lemma upd_flag_same: "same_but_flags db (upd_link l (\<lambda>lnk. lnk\<lparr>lk_neigh_is_flooding_mpr := b\<rparr>) db)"
  by (auto simp: same_but_flags_def get_link_upd_link sum.map_comp comp_def id_def) (simp_all add: upd_link_def db_rest_def)

lemma same_but_flags_links:
  assumes "same_but_flags db db'"
  shows "same_links db db'"
proof -
  let ?f = "map_sum id (\<lambda>lnk. (lk_neigh lnk, lk_2hop lnk))" and ?g = "map_sum id (\<lambda>lnk. lnk\<lparr>lk_neigh_is_flooding_mpr := False\<rparr>)"
  have f: "?f m = ?f (?g m)" for m :: "fault + nhdp_link"
    by (cases m) simp_all
  have "?f (get_link db' l) = ?f (get_link db l)" for l
  proof -
    have "?g (get_link db' l) = ?g (get_link db l)" using assms by (simp add: same_but_flags_def)
    with f [of "get_link db' l"] f [of "get_link db l"] show ?thesis by simp
  qed
  moreover have "isl (get_neigh db' n) = isl (get_neigh db n)" for n
  proof -
    have "map_sum id (\<lambda>nb. nb\<lparr>nb_selection_is_mpr := False\<rparr>) (get_neigh db' n) =
      map_sum id (\<lambda>nb. nb\<lparr>nb_selection_is_mpr := False\<rparr>) (get_neigh db n)" using assms by (simp add: same_but_flags_def)
    then show ?thesis by (metis isl_map_sum)
  qed
  ultimately show ?thesis using assms by (simp add: same_links_def same_but_flags_def)
qed

lemma same_graph_links: "same_graph db db' \<Longrightarrow> same_links db db'"
  by (rule same_but_flags_links [OF same_graph_flags])

lemma same_links_link:
  assumes "same_links db db'" "get_link db l = Inr lnk"
  shows "\<exists>lnk'. get_link db' l = Inr lnk' \<and> lk_neigh lnk' = lk_neigh lnk \<and> lk_2hop lnk' = lk_2hop lnk"
proof -
  have "map_sum id (\<lambda>lnk. (lk_neigh lnk, lk_2hop lnk)) (get_link db' l) = Inr (lk_neigh lnk, lk_2hop lnk)"
    using assms by (simp add: same_links_def)
  then show ?thesis by (cases "get_link db' l") auto
qed

lemma same_links_sym: "same_links db db' \<Longrightarrow> same_links db' db"
  by (simp add: same_links_def)

lemma same_links_no_link: "same_links db db' \<Longrightarrow> get_link db l = Inl e \<Longrightarrow> get_link db' l = Inl e"
  unfolding same_links_def by (metis (no_types, lifting) id_apply map_sum.simps(1) map_sum_sel(2) sum.case_eq_if
      sum.collapse(1) sum.disc(1) sum.sel(1) isl_map_sum map_sum_sel(1))

lemma same_links_two_hops:
  assumes "same_links db db'"
  shows "two_hop_addrs db' = two_hop_addrs db"
proof -
  have "(case get_link db' l of Inl _ \<Rightarrow> [] | Inr lnk \<Rightarrow> Mapping.ordered_keys (lk_2hop lnk)) =
      (case get_link db l of Inl _ \<Rightarrow> [] | Inr lnk \<Rightarrow> Mapping.ordered_keys (lk_2hop lnk))" for l
  proof (cases "get_link db l")
    case (Inl e) then show ?thesis using same_links_no_link [OF assms] by simp
  next
    case (Inr lnk) from same_links_link [OF assms this] Inr show ?thesis by auto
  qed
  moreover have "db_link_list db' = db_link_list db" using assms by (simp add: same_links_def)
  ultimately show ?thesis by (simp add: two_hop_addrs_def)
qed

lemma same_links_ok:
  assumes "same_links db db'" "links_ok db ls"
  shows "links_ok db' ls"
  unfolding links_ok_def
proof
  fix l assume "l \<in> set ls"
  from links_okD [OF assms(2) this] obtain lnk nb where l: "get_link db l = Inr lnk" "get_neigh db (lk_neigh lnk) = Inr nb" by blast
  from same_links_link [OF assms(1) l(1)] obtain lnk' where l': "get_link db' l = Inr lnk'" "lk_neigh lnk' = lk_neigh lnk" by blast
  have "isl (get_neigh db' (lk_neigh lnk)) = isl (get_neigh db (lk_neigh lnk))" using assms(1) by (simp add: same_links_def)
  with l l' show "case get_link db' l of Inl _ \<Rightarrow> False | Inr lnk \<Rightarrow> \<not> Option.is_none (Mapping.lookup (db_neighs db') (lk_neigh lnk))"
    by (auto simp: get_neigh_def Option.is_none_def split: option.splits)
qed

text \<open>What the calculation of the flooding MPRs needs: pointers that lead somewhere, and tables that fit into 32 bits.\<close>

definition flooding_db_ok :: "nhdp_db \<Rightarrow> bool" where
  "flooding_db_ok db \<longleftrightarrow> links_ok db (db_link_list db) \<and> graph_small db (length (db_link_list db)) \<and>
     (\<forall>i\<in>set (Mapping.ordered_keys (db_interfaces db)). case Mapping.lookup (db_interfaces db) i of
        None \<Rightarrow> False | Some nif \<Rightarrow> links_ok db (nif_links nif))"

lemma flooding_db_ok_same:
  assumes "same_links db db'" "flooding_db_ok db"
  shows "flooding_db_ok db'"
proof -
  have e: "db_interfaces db' = db_interfaces db" "db_link_list db' = db_link_list db" using assms(1) by (simp_all add: same_links_def)
  have "case Mapping.lookup (db_interfaces db) i of None \<Rightarrow> False | Some nif \<Rightarrow> links_ok db' (nif_links nif)"
    if "i \<in> set (Mapping.ordered_keys (db_interfaces db))" for i
    using assms(2) that same_links_ok [OF assms(1)] unfolding flooding_db_ok_def by (auto split: option.splits)
  then show ?thesis
    using assms same_links_ok [OF assms(1)] same_links_two_hops [OF assms(1)]
    by (simp add: flooding_db_ok_def e graph_small_def)
qed

lemma update_flooding_same:
  "links_ok db ls \<Longrightarrow> \<exists>db'. update_nhdp_flooding g ls db = Inr db' \<and> same_but_flags db db'"
proof (induction ls arbitrary: db)
  case (Cons l ls)
  have "l \<in> set (l # ls)" by simp
  from links_okD [OF Cons.prems this] obtain lnk nb where l: "get_link db l = Inr lnk" "get_neigh db (lk_neigh lnk) = Inr nb" by blast
  let ?db = "upd_link l (\<lambda>lnk. lnk\<lparr>lk_neigh_is_flooding_mpr := mpr_is_mpr g (nb_originator nb)\<rparr>) db"
  have s: "same_but_flags db ?db" by (rule upd_flag_same)
  have "links_ok db ls" using Cons.prems by (simp add: links_ok_def)
  from Cons.IH [OF same_links_ok [OF same_but_flags_links [OF s] this]] obtain db' where
    "update_nhdp_flooding g ls ?db = Inr db'" "same_but_flags ?db db'" by blast
  with l same_but_flags_trans [OF s] show ?case by simp
qed simp

subsection \<open>Flooding\<close>

lemma flooding_costs_same:
  assumes "same_graph db db'"
  shows "flooding_d1 d db' = flooding_d1 d db" "flooding_d2 d db' = flooding_d2 d db" "flooding_w d db' = flooding_w d db"
    "flooding_dy d db' = flooding_dy d db"
proof -
  note n = n1_node_link_same [OF assms]
  show "flooding_d1 d db' = flooding_d1 d db" by (rule ext) (simp add: flooding_d1_def flooding_calculate_d1_x_def n)
  show "flooding_d2 d db' = flooding_d2 d db" by (intro ext) (simp add: flooding_d2_def flooding_calculate_d2_x_y_def n)
  show "flooding_w d db' = flooding_w d db" by (rule ext) (simp add: flooding_w_def flooding_get_willingness_n1_def n)
  have "flooding_d1_loop d db' y xs = flooding_d1_loop d db y xs" for y xs
    by (induction xs) (simp_all add: n same_graphD(2) [OF assms])
  then show "flooding_dy d db' = flooding_dy d db" by (intro ext) (simp add: flooding_dy_def)
qed

abbreviation flooding_cost :: "nat \<Rightarrow> nhdp_db \<Rightarrow> n1_node \<Rightarrow> netaddr \<Rightarrow> u32" where
  "flooding_cost d db x a \<equiv> path_cost (flooding_d1 d db x) (flooding_d2 d db x a)"

lemma flooding_selection:
  assumes "links_ok db (db_link_list db)" "graph_small db (length (db_link_list db))"
  shows "\<exists>db1 g db2 g2 g3. mpr_calculate_neighbor_graph_flooding d i db = Inr (db1, g) \<and>
    mpr_calculate_mpr_rfc7181 flooding_interface d db1 g = Some (Inr (db2, g2)) \<and> same_graph db db2 \<and>
    validate_mpr_set True flooding_interface d db2 g2 = Inr g3 \<and> set_mpr g3 = set_mpr g2 \<and>
    n1_addr ` set (set_n1 g2) = flooding_neighbors d i db (db_link_list db) \<and>
    an_addr ` set (set_n2 g2) = flooding_two_hops d i db (set_n1 g2) \<and>
    mpr_set_ok (flooding_w d db) (flooding_dy d db (set_n1 g2)) (flooding_cost d db) g2"
proof -
  from flooding_graph_built [OF assms] obtain db1 g where g: "mpr_calculate_neighbor_graph_flooding d i db = Inr (db1, g)"
    "same_graph db db1" "flooding_built d db1 (set_n1 (init_cache g)) (set_n2 (init_cache g))" "set_n g = []" "set_mpr g = []"
    "\<forall>x\<in>set (set_n1 (init_cache g)). \<not> selected db1 x"
    and n: "n1_addr ` set (set_n1 (init_cache g)) = flooding_neighbors d i db (db_link_list db)"
    "an_addr ` set (set_n2 (init_cache g)) = flooding_two_hops d i db (set_n1 (init_cache g))" by blast
  from flooding_graph.selection_correct [OF g(3-6)] obtain db2 g2 where r:
    "mpr_calculate_mpr_rfc7181 flooding_interface d db1 g = Some (Inr (db2, g2))" "flooding_graph.inv d db1 db2 g2"
    "flooding_graph.mprs_valid d db1 g2" "set_n1 g2 = set_n1 (init_cache g)" "set_n2 g2 = set_n2 (init_cache g)" by blast
  have f: "(if True then flooding_get_willingness_n1 else routing_get_willingness_n1) = get_willingness_n1 flooding_interface"
    by (simp add: flooding_interface_def)
  from flooding_graph.validate_ok [OF r(2,3) f] obtain g3 where
    v: "validate_mpr_set True flooding_interface d db2 g2 = Inr g3" "set_mpr g3 = set_mpr g2" by auto
  have "same_graph db db2" using g(2) flooding_graph.invD(2) [OF r(2)] by (simp add: same_graph_def)
  moreover have "mpr_set_ok (flooding_w d db) (flooding_dy d db (set_n1 g2)) (flooding_cost d db) g2"
    using r(3) unfolding flooding_graph.mprs_valid_ok flooding_costs_same [OF g(2)] .
  ultimately show ?thesis using g(1) r(1,4,5) v n by auto
qed

lemma flooding_interface_ok:
  assumes "flooding_db_ok db" "i \<in> set (Mapping.ordered_keys (db_interfaces db))"
  shows "\<exists>db'. update_flooding_interface d i db = Some (Inr db') \<and> same_but_flags db db'"
proof -
  have ok: "links_ok db (db_link_list db)" "graph_small db (length (db_link_list db))"
    using assms(1) by (simp_all add: flooding_db_ok_def)
  from flooding_selection [OF ok, of d i] obtain db1 g db2 g2 g3 where r: "mpr_calculate_neighbor_graph_flooding d i db = Inr (db1, g)"
    "mpr_calculate_mpr_rfc7181 flooding_interface d db1 g = Some (Inr (db2, g2))" "same_graph db db2"
    "validate_mpr_set True flooding_interface d db2 g2 = Inr g3" by (elim exE conjE) (rule that, assumption+)
  have "case Mapping.lookup (db_interfaces db) i of None \<Rightarrow> False | Some nif \<Rightarrow> links_ok db (nif_links nif)"
    using assms(1,2) unfolding flooding_db_ok_def by blast
  then obtain nif where nif: "Mapping.lookup (db_interfaces db) i = Some nif" "links_ok db (nif_links nif)"
    by (cases "Mapping.lookup (db_interfaces db) i") simp_all
  note s = same_graph_flags [OF r(3)]
  from update_flooding_same [OF same_links_ok [OF same_but_flags_links [OF s] nif(2)]] obtain db3 where
    u: "update_nhdp_flooding g3 (nif_links nif) db2 = Inr db3" "same_but_flags db2 db3" by blast
  have "Mapping.lookup (db_interfaces db2) i = Some nif" using s nif(1) by (simp add: same_but_flags_def)
  then have "update_flooding_interface d i db = Some (Inr db3)"
    using r(1,2,4) u(1) by (simp add: update_flooding_interface_def)
  with same_but_flags_trans [OF s u(2)] show ?thesis by blast
qed

lemma flooding_interfaces_ok:
  assumes "flooding_db_ok db" "set is \<subseteq> set (Mapping.ordered_keys (db_interfaces db))"
  shows "\<exists>db'. update_flooding_interfaces d is db = Some (Inr db') \<and> same_but_flags db db'"
  using assms
proof (induction "is" arbitrary: db)
  case (Cons i "is")
  have "i \<in> set (Mapping.ordered_keys (db_interfaces db))" using Cons.prems(2) by simp
  from flooding_interface_ok [OF Cons.prems(1) this] obtain db1 where
    u: "update_flooding_interface d i db = Some (Inr db1)" "same_but_flags db db1" by blast
  have "set is \<subseteq> set (Mapping.ordered_keys (db_interfaces db1))" using Cons.prems(2) u(2) by (simp add: same_but_flags_def)
  from Cons.IH [OF flooding_db_ok_same [OF same_but_flags_links [OF u(2)] Cons.prems(1)] this] obtain db' where
    "update_flooding_interfaces d is db1 = Some (Inr db')" "same_but_flags db1 db'" by blast
  with u same_but_flags_trans [OF u(2)] show ?case by simp
qed simp

lemma clear_flooding_same: "same_but_flags db (clear_nhdp_flooding db)"
proof -
  have "same_but_flags db (fold (\<lambda>l. upd_link l (\<lambda>lnk. lnk\<lparr>lk_neigh_is_flooding_mpr := False\<rparr>)) ls db)" for ls
  proof (induction ls arbitrary: db)
    case (Cons l ls)
    have "same_but_flags db (upd_link l (\<lambda>lnk. lnk\<lparr>lk_neigh_is_flooding_mpr := False\<rparr>) db)" by (rule upd_flag_same)
    from same_but_flags_trans [OF this Cons.IH] show ?case by simp
  qed simp
  then show ?thesis by (simp add: clear_nhdp_flooding_def)
qed

subsection \<open>Routing\<close>

lemma will_always_faults:
  assumes "\<forall>x\<in>set xs. get_willingness_n1 m d db x = Inr (w x) \<and> n1_link x = None" "\<exists>x\<in>set xs. w x = RFC7181_WILLINGNESS_ALWAYS"
  shows "will_always_loop m d db g xs = Inl Null_Deref"
  using assms by (induction xs) auto

lemma routing_costs_same:
  assumes "same_graph db db'" "n1_reachable d db x"
  shows "routing_w d db' x = routing_w d db x"
  using routing_w_same [OF assms(2,1)] by (simp add: routing_w_def)

lemma update_routing_same:
  "links_ok db ls \<Longrightarrow> \<exists>db'. update_nhdp_routing d g ls db = Inr db'"
proof (induction ls arbitrary: db)
  case (Cons l ls)
  have "l \<in> set (l # ls)" by simp
  from links_okD [OF Cons.prems this] obtain lnk nb where l: "get_link db l = Inr lnk" "get_neigh db (lk_neigh lnk) = Inr nb" by blast
  have "isl (get_neigh (upd_neigh (lk_neigh lnk) f db) n) = isl (get_neigh db n)" for f n
    by (simp add: get_neigh_upd_neigh isl_map_sum)
  then have s: "same_links db (upd_neigh (lk_neigh lnk) f db)" for f
    by (auto simp: same_links_def) (simp_all add: upd_neigh_def)
  have "links_ok db ls" using Cons.prems by (simp add: links_ok_def)
  from Cons.IH [OF same_links_ok [OF s this]] l show ?case by simp
qed simp

lemma routing_ok:
  assumes "neighs_ok d db" "graph_small db (length (db_neigh_list db))"
    and will: "\<forall>n\<in>set (db_neigh_list db). \<forall>nb. get_neigh db n = Inr nb \<longrightarrow>
      ndd_willingness (nhdp_domain_get_neighbordata d nb) \<noteq> RFC7181_WILLINGNESS_ALWAYS"
  shows "\<exists>db1 g db2 g2 g3. mpr_calculate_neighbor_graph_routing d db = Inr (db1, g) \<and>
    mpr_calculate_mpr_rfc7181 routing_interface d db1 g = Some (Inr (db2, g2)) \<and> same_graph db db2 \<and>
    validate_mpr_set False routing_interface d db2 g2 = Inr g3 \<and> set_mpr g3 = set_mpr g2"
proof -
  from routing_graph_built [OF assms(1,2)] obtain db1 g where g: "mpr_calculate_neighbor_graph_routing d db = Inr (db1, g)"
    "same_graph db db1" "routing_built d db1 (set_n1 (init_cache g)) (set_n2 (init_cache g))" "set_n g = []" "set_mpr g = []"
    "\<forall>x\<in>set (set_n1 (init_cache g)). \<not> selected db1 x \<and> routing_node d db x" by blast
  have "routing_w d db1 x \<noteq> RFC7181_WILLINGNESS_ALWAYS" if "x \<in> set (set_n1 (init_cache g))" for x
  proof -
    have x: "n1_neigh x \<in> set (db_neigh_list db)" "n1_reachable d db x" using g(6) that by (simp_all add: routing_node_def)
    from neighs_okD [OF assms(1) x(1)] obtain nb where nb: "get_neigh db (n1_neigh x) = Inr nb" by blast
    then have "routing_w d db x \<noteq> RFC7181_WILLINGNESS_ALWAYS"
      using will x(1) by (simp add: routing_w_def routing_get_willingness_n1_def)
    with routing_costs_same [OF g(2) x(2)] show ?thesis by simp
  qed
  then have "routing_built_willing d db1 (set_n1 (init_cache g)) (set_n2 (init_cache g))"
    using g(3) by (simp add: routing_built_willing_def)
  moreover have "\<forall>x\<in>set (set_n1 (init_cache g)). \<not> selected db1 x" using g(6) by blast
  ultimately obtain db2 g2 where r:
    "mpr_calculate_mpr_rfc7181 routing_interface d db1 g = Some (Inr (db2, g2))" "routing_graph.inv d db1 db2 g2"
    "routing_graph.mprs_valid d db1 g2"
    using routing_graph.selection_correct g(4,5) by blast
  have f: "(if False then flooding_get_willingness_n1 else routing_get_willingness_n1) = get_willingness_n1 routing_interface"
    by (simp add: routing_interface_def)
  from routing_graph.validate_ok [OF r(2,3) f] obtain g3 where
    v: "validate_mpr_set False routing_interface d db2 g2 = Inr g3" "set_mpr g3 = set_mpr g2" by auto
  have "same_graph db db2" using g(2) routing_graph.invD(2) [OF r(2)] by (simp add: same_graph_def)
  with g(1) r(1) v show ?thesis by auto
qed

subsection \<open>Properties\<close>

text \<open>
  C3: the set of flooding MPRs of an interface satisfies RFC 7181. For every database whose links point to neighbors and whose tables
  fit into 32 bits, N1 consists of the originators of the neighbors of the allowed links of the interface and N2 of their allowed two-hop
  neighbors, the selection ends without a fault, and its result is a subset of N1 with all nodes that are always willing that reaches
  every address of N2 at the cost at which all of N1 reaches it.
\<close>

theorem flooding_mprs_cover:
  assumes "links_ok db (db_link_list db)" "graph_small db (length (db_link_list db))"
  shows "\<exists>db1 g db2 g2. mpr_calculate_neighbor_graph_flooding d i db = Inr (db1, g) \<and>
    mpr_calculate_mpr_rfc7181 flooding_interface d db1 g = Some (Inr (db2, g2)) \<and>
    n1_addr ` set (set_n1 g2) = flooding_neighbors d i db (db_link_list db) \<and>
    an_addr ` set (set_n2 g2) = flooding_two_hops d i db (set_n1 g2) \<and>
    mpr_set_ok (flooding_w d db) (flooding_dy d db (set_n1 g2))
      (\<lambda>x a. path_cost (flooding_d1 d db x) (flooding_d2 d db x a)) g2"
proof -
  have "\<exists>db1 g db2 g2. P db1 g db2 g2 \<and> Q db1 g db2 g2 \<and> R g2 \<and> S g2 \<and> T g2"
    if "\<exists>db1 g db2 g2 g3. P db1 g db2 g2 \<and> Q db1 g db2 g2 \<and> C db2 \<and> D db2 g2 g3 \<and> E g2 g3 \<and> R g2 \<and> S g2 \<and> T g2" for P Q C D E R S T
    using that by blast
  from this [OF flooding_selection [OF assms]] show ?thesis .
qed

text \<open>
  C32: updating the flooding MPRs ends, without following a dangling pointer and without a failed assertion, in every database whose
  links and interfaces point to existing objects and whose tables fit into 32 bits: the check of the result, which repeats the
  conditions of RFC 7181, never fires. Only two flags change: the one of a link that its neighbor is a flooding MPR, and the working flag of
  the selection of a neighbor. Every other field of the links, the neighbors and the database is as before.
\<close>

theorem flooding_update_returns:
  assumes "flooding_db_ok db"
  shows "\<exists>db'. cb_update_flooding_mpr d db = Some (Inr db') \<and> same_but_flags db db'"
proof -
  note s = clear_flooding_same [of db]
  have e: "db_interfaces (clear_nhdp_flooding db) = db_interfaces db" using s by (simp add: same_but_flags_def)
  from flooding_interfaces_ok [OF flooding_db_ok_same [OF same_but_flags_links [OF s] assms]] have
    "\<exists>db'. update_flooding_interfaces d (Mapping.ordered_keys (db_interfaces db)) (clear_nhdp_flooding db) = Some (Inr db') \<and>
      same_but_flags (clear_nhdp_flooding db) db'" unfolding e by blast
  with same_but_flags_trans [OF s] show ?thesis unfolding cb_update_flooding_mpr_def by blast
qed

text \<open>
  C33: updating the routing MPRs of a domain ends without a fault and without a failed assertion, in every database whose links and
  neighbors point to existing objects and whose tables fit into 32 bits, when no neighbor is always willing
  and the first link of a neighbor that knows a two-hop address decides about it as the others do.
\<close>

theorem routing_update_returns:
  assumes "neighs_ok d db" "graph_small db (length (db_neigh_list db))" "links_ok db (db_link_list db)"
    and "\<forall>n\<in>set (db_neigh_list db). \<forall>nb. get_neigh db n = Inr nb \<longrightarrow>
      ndd_willingness (nhdp_domain_get_neighbordata d nb) \<noteq> RFC7181_WILLINGNESS_ALWAYS"
  shows "\<exists>db'. cb_update_routing_mpr True d db = Some (Inr db')"
proof -
  from routing_ok [OF assms(1,2,4)] obtain db1 g db2 g2 g3 where r: "mpr_calculate_neighbor_graph_routing d db = Inr (db1, g)"
    "mpr_calculate_mpr_rfc7181 routing_interface d db1 g = Some (Inr (db2, g2))" "same_graph db db2"
    "validate_mpr_set False routing_interface d db2 g2 = Inr g3" by (elim exE conjE) (rule that, assumption+)
  have "db_link_list db2 = db_link_list db" using same_graphD(3) [OF r(3)] .
  with update_routing_same [OF same_links_ok [OF same_graph_links [OF r(3)] assms(3)]] r(1,2,4)
  show ?thesis by (simp add: cb_update_routing_mpr_def)
qed

text \<open>
  C34: a node of N1 of a routing graph that is always willing makes the update follow a null pointer, because
  \<open>_process_will_always\<close> takes the neighbor from the link of the node, which only flooding graphs set.
\<close>

theorem routing_always_willing_faults:
  assumes "neighs_ok d db" "graph_small db (length (db_neigh_list db))"
    and "mpr_calculate_neighbor_graph_routing d db = Inr (db1, g)" "x \<in> set (set_n1 g)" "routing_w d db x = RFC7181_WILLINGNESS_ALWAYS"
  shows "cb_update_routing_mpr True d db = Some (Inl Null_Deref)"
proof -
  let ?g = "init_cache g"
  from routing_graph_built [OF assms(1,2)] assms(3) have g: "same_graph db db1" "routing_built d db1 (set_n1 ?g) (set_n2 ?g)"
    "set_n g = []" "set_mpr g = []" "\<forall>x\<in>set (set_n1 ?g). routing_node d db x" by auto
  have n1: "set_n1 ?g = number_n1 0 (set_n1 g)" by (simp add: init_cache_def Let_def)
  have inv: "routing_costs.inv d db1 db1 ?g"
  proof -
    have "numbered (set_n1 ?g) (set_n2 ?g)" using g(2) by (simp add: routing_built_def graph_nodes_def)
    from routing_graph.cache_ok_init [OF this] g(2-4) show ?thesis
      unfolding routing_costs.inv_def by (simp add: init_cache_def Let_def)
  qed
  have "wp (calculate_n routing_interface d db1 ?g) (\<lambda>_. False) (\<lambda>h. set_n1 h = set_n1 ?g)"
    unfolding calculate_n_def
    by (rule routing_costs.calculate_n_wp [OF inv subset_refl]) (simp add: routing_costs.same_sets_def)
  from wp_False_ex [OF this] obtain h where h: "calculate_n routing_interface d db1 ?g = Inr h" "set_n1 h = set_n1 ?g" by blast
  have "process_will_always routing_interface d db1 h = Inl Null_Deref"
    unfolding process_will_always_def h(2)
  proof (rule will_always_faults [where w = "routing_w d db"])
    show "\<forall>x\<in>set (set_n1 ?g). get_willingness_n1 routing_interface d db1 x = Inr (routing_w d db x) \<and> n1_link x = None"
      using g(5) routing_w_same [OF _ g(1)] by (simp add: routing_node_def routing_interface_def)
    show "\<exists>x\<in>set (set_n1 ?g). routing_w d db x = RFC7181_WILLINGNESS_ALWAYS"
      unfolding n1 by (subst ball_number_n1(2)) (use assms(4,5) in auto)
  qed
  then show ?thesis using assms(3) h(1) by (simp add: cb_update_routing_mpr_def mpr_calculate_mpr_rfc7181_def)
qed

subsection \<open>An example\<close>

definition demo_address :: "u8 \<Rightarrow> netaddr" where
  "demo_address n = \<lparr>na_addr = [10, 0, 0, n, 0, 0, 0, 0, 0, 0, 0, 0, 0, 0, 0, 0], na_type = 2, na_prefix_len = 32\<rparr>"

definition demo_metric :: "u32 \<Rightarrow> nhdp_metric" where "demo_metric c = \<lparr>mt_in = c, mt_out = c\<rparr>"

text \<open>A link of the interface 0 to a neighbor with one two-hop neighbor.\<close>

definition demo_link :: "nat \<Rightarrow> u32 \<Rightarrow> nhdp_link" where
  "demo_link n c = \<lparr>lk_vtime_value = 0, lk_itime_value = 0, lk_sym_time = None, lk_heard_time = None, lk_vtime = None,
     lk_last_status = NHDP_LINK_SYMMETRIC, lk_status = NHDP_LINK_SYMMETRIC, lk_local_if = 0, lk_dualstack_partner = None, lk_neigh = n,
     lk_if_addr = demo_address 0, lk_remote_mac = demo_address 0, lk_last_status_change = 0, lk_local_is_flooding_mpr = False,
     lk_neigh_is_flooding_mpr = False, lk_flooding_willingness = 7, lk_neigh_was_flooding_mpr = False, lk_process_count = 0,
     lk_addresses = Mapping.empty,
     lk_2hop = Mapping.update (demo_address 9) \<lparr>l2_same_interface = True, l2_vtime = None,
       l2_domaindata = [\<lparr>l2d_metric = demo_metric c, l2d_last_used_outgoing_metric = 0\<rparr>]\<rparr> Mapping.empty,
     lk_domaindata = [\<lparr>ldd_metric = demo_metric 10, ldd_last_metric_change = 0\<rparr>]\<rparr>"

definition demo_neighbor_of :: "u8 \<Rightarrow> nat \<Rightarrow> u8 \<Rightarrow> nhdp_neighbor" where
  "demo_neighbor_of a l will = \<lparr>nb_originator = demo_address a, nb_symmetric = 1, nb_dualstack_partner = None, nb_process_count = 0,
     nb_selection_is_mpr = False, nb_old_originator = demo_address a, nb_links = [l],
     nb_domaindata = [\<lparr>ndd_metric = demo_metric 10, ndd_best_out_link = Some l, ndd_best_out_link_metric = 10, ndd_best_link_ifindex = 0,
       ndd_local_is_mpr = False, ndd_neigh_is_mpr = False, ndd_neigh_was_mpr = False, ndd_willingness = will\<rparr>]\<rparr>"

definition demo_domain :: nhdp_domain where
  "demo_domain = \<lparr>dom_metric = \<lparr>dm_incoming_link_start = 0, dm_outgoing_link_start = 0, dm_incoming_2hop_start = 0,
     dm_outgoing_2hop_start = 0, dm_no_default_handling = False\<rparr>, dom_mpr = ''*'', dom_local_willingness = 7, dom_ext = 0, dom_index = 0,
     dom_mpr_outdated = False, dom_tmp_willingness = 0\<rparr>"

definition demo_interface :: nhdp_interface where
  "demo_interface = \<lparr>nif_h_hold_time = 0, nif_l_hold_time = 0, nif_n_hold_time = 0, nif_i_hold_time = 0, nif_use_ipv4_for_flooding = True,
     nif_use_ipv6_for_flooding = False, nif_dualstack_af_type = 0, nif_addresses = Mapping.empty, nif_links = [1, 2],
     nif_mac = demo_address 0, nif_index = 1\<rparr>"

definition demo_db :: "u8 \<Rightarrow> nhdp_db" where
  "demo_db will = \<lparr>db_neighs = Mapping.update 1 (demo_neighbor_of 1 1 will) (Mapping.update 2 (demo_neighbor_of 2 2 7) Mapping.empty),
     db_links = Mapping.update 1 (demo_link 1 5) (Mapping.update 2 (demo_link 2 8) Mapping.empty), db_naddrs = Mapping.empty,
     db_interfaces = Mapping.update 0 demo_interface Mapping.empty, db_neigh_list = [1, 2], db_link_list = [1, 2],
     db_domains = [demo_domain], db_flooding_domain = demo_domain, db_neighbor_set_id = 0, db_originator_v4 = demo_address 0,
     db_originator_v6 = demo_address 0, db_now = 0, db_next = 3, db_events = []\<rparr>"

lemma demo_lookups:
  "get_link (demo_db w) 1 = Inr (demo_link 1 5)" "get_link (demo_db w) 2 = Inr (demo_link 2 8)"
  "get_link (demo_db w) (Suc 0) = Inr (demo_link 1 5)"
  "get_neigh (demo_db w) 1 = Inr (demo_neighbor_of 1 1 w)" "get_neigh (demo_db w) 2 = Inr (demo_neighbor_of 2 2 7)"
  "get_neigh (demo_db w) (Suc 0) = Inr (demo_neighbor_of 1 1 w)"
  "db_link_list (demo_db w) = [1, 2]" "db_neigh_list (demo_db w) = [1, 2]"
  by (simp_all add: get_link_def get_neigh_def demo_db_def lookup_update')

lemma demo_two_hops: "Mapping.ordered_keys (lk_2hop (demo_link n c)) = [demo_address 9]"
  "Mapping.lookup (lk_2hop (demo_link n c)) (demo_address 9) = Some \<lparr>l2_same_interface = True, l2_vtime = None,
       l2_domaindata = [\<lparr>l2d_metric = demo_metric c, l2d_last_used_outgoing_metric = 0\<rparr>]\<rparr>"
  by (simp_all add: demo_link_def)

lemma demo_links: "links_ok (demo_db w) [1, 2]" "graph_small (demo_db w) 2"
proof -
  have "lk_neigh (demo_link n c) = n" for n c by (simp add: demo_link_def)
  then show "links_ok (demo_db w) [1, 2]" by (simp add: links_ok_def demo_lookups) (simp add: demo_db_def lookup_update')
  show "graph_small (demo_db w) 2" by (simp add: graph_small_def two_hop_addrs_def demo_lookups demo_two_hops)
qed

lemma demo_flooding_ok: "flooding_db_ok (demo_db w)"
proof -
  have "db_interfaces (demo_db w) = Mapping.update 0 demo_interface Mapping.empty" by (simp add: demo_db_def)
  moreover have "nif_links demo_interface = [1, 2]" by (simp add: demo_interface_def)
  ultimately show ?thesis using demo_links by (simp add: flooding_db_ok_def demo_lookups numeral_2_eq_2)
qed

lemma demo_neighs: "neighs_ok 0 (demo_db w)"
proof -
  have l: "nb_links (demo_neighbor_of a l will) = [l]" for a l will by (simp add: demo_neighbor_of_def)
  have "l2hop_metric 0 \<lparr>l2_same_interface = True, l2_vtime = None,
       l2_domaindata = [\<lparr>l2d_metric = demo_metric c, l2d_last_used_outgoing_metric = 0\<rparr>]\<rparr> = demo_metric c" for c
    by (simp add: l2hop_metric_def nhdp_domain_get_l2hopdata_def)
  then show ?thesis
    by (simp add: neighs_ok_def demo_lookups l neigh_links_ok_def first_link_decides_def demo_two_hops addr_only_def
        demo_metric_def RFC7181_METRIC_MAX_def)
qed

lemma flooding_mprs_cover_witness:
  "\<exists>db1 g db2 g2. mpr_calculate_neighbor_graph_flooding 0 0 (demo_db 7) = Inr (db1, g) \<and>
    mpr_calculate_mpr_rfc7181 flooding_interface 0 db1 g = Some (Inr (db2, g2)) \<and>
    n1_addr ` set (set_n1 g2) = {demo_address 1, demo_address 2}"
proof -
  have l: "links_ok (demo_db 7) (db_link_list (demo_db 7))" "graph_small (demo_db 7) (length (db_link_list (demo_db 7)))"
    using demo_links by (simp_all add: demo_lookups numeral_2_eq_2)
  have a: "flooding_is_allowed_link_tuple 0 0 (demo_link n c)" "lk_neigh (demo_link n c) = n" for n c
    by (simp_all add: flooding_is_allowed_link_tuple_def flooding_is_reachable_link_tuple_def demo_link_def link_metric_def
        nhdp_domain_get_linkdata_def demo_metric_def RFC7181_METRIC_MAX_def RFC7181_WILLINGNESS_NEVER_def)
  have "nb_originator (demo_neighbor_of a l will) = demo_address a" for a l will by (simp add: demo_neighbor_of_def)
  then have "flooding_neighbors 0 0 (demo_db 7) (db_link_list (demo_db 7)) = {demo_address 1, demo_address 2}"
    by (auto simp: flooding_neighbors_def demo_lookups a)
  with flooding_mprs_cover [OF l, of 0 0] show ?thesis by metis
qed

lemma flooding_update_returns_witness: "\<exists>db'. cb_update_flooding_mpr 0 (demo_db 7) = Some (Inr db')"
  using flooding_update_returns [OF demo_flooding_ok] by blast

lemma routing_update_returns_witness: "\<exists>db'. cb_update_routing_mpr True 0 (demo_db 7) = Some (Inr db')"
proof (rule routing_update_returns [OF demo_neighs])
  show "graph_small (demo_db 7) (length (db_neigh_list (demo_db 7)))" "links_ok (demo_db 7) (db_link_list (demo_db 7))"
    using demo_links by (simp_all add: demo_lookups numeral_2_eq_2)
  show "\<forall>n\<in>set (db_neigh_list (demo_db 7)). \<forall>nb. get_neigh (demo_db 7) n = Inr nb \<longrightarrow>
      ndd_willingness (nhdp_domain_get_neighbordata 0 nb) \<noteq> RFC7181_WILLINGNESS_ALWAYS"
    by (simp add: demo_lookups demo_neighbor_of_def nhdp_domain_get_neighbordata_def RFC7181_WILLINGNESS_ALWAYS_def)
qed

lemma routing_n2_keeps: "routing_n2_loop d db g xs = Inr g' \<Longrightarrow> set_n1 g' = set_n1 g"
proof (induction xs arbitrary: g)
  case (Cons x xs)
  from Cons.prems obtain s where "routing_n2_loop d db (g\<lparr>set_n2 := s\<rparr>) xs = Inr g'" by (auto simp: bind_f_eq_Inr)
  from Cons.IH [OF this] show ?case by simp
qed simp

lemma routing_always_willing_faults_witness: "cb_update_routing_mpr True 0 (demo_db 15) = Some (Inl Null_Deref)"
proof -
  let ?x = "\<lparr>n1_addr = demo_address 1, n1_link = None, n1_neigh = 1, n1_table_offset = 0\<rparr>"
  have a: "routing_is_allowed_neighbor_tuple 0 (demo_neighbor_of a l 15)" "routing_is_allowed_neighbor_tuple 0 (demo_neighbor_of a l 7)"
    "nb_originator (demo_neighbor_of a l will) = demo_address a" for a l will
    by (simp_all add: demo_neighbor_of_def routing_is_allowed_neighbor_tuple_def routing_is_reachable_neighbor_tuple_def neighbor_metric_def
        nhdp_domain_get_neighbordata_def demo_metric_def RFC7181_METRIC_MAX_def RFC7181_WILLINGNESS_NEVER_def)
  have "demo_address 2 \<noteq> demo_address 1" by (simp add: demo_address_def)
  then have "\<exists>db' g'. routing_calculate_n1 0 (demo_db 15) mpr_init_neighbor_graph = Inr (db', g') \<and> ?x \<in> set (set_n1 g')"
    by (simp add: routing_calculate_n1_def demo_lookups Let_def a unselect_mpr_def get_neigh_upd_neigh mpr_add_n1_node_to_set_def
        mpr_init_neighbor_graph_def set_insort_key)
  then obtain db' g' where n1: "routing_calculate_n1 0 (demo_db 15) mpr_init_neighbor_graph = Inr (db', g')" "?x \<in> set (set_n1 g')" by blast
  have l: "graph_small (demo_db 15) (length (db_neigh_list (demo_db 15)))"
    using demo_links by (simp add: demo_lookups numeral_2_eq_2)
  from routing_graph_built [OF demo_neighs l] obtain db1 g where g: "mpr_calculate_neighbor_graph_routing 0 (demo_db 15) = Inr (db1, g)" by blast
  then have "set_n1 g = set_n1 g'"
    using routing_n2_keeps by (auto simp: mpr_calculate_neighbor_graph_routing_def n1(1) routing_calculate_n2_def bind_f_eq_Inr)
  with n1(2) have x: "?x \<in> set (set_n1 g)" by simp
  have "routing_w 0 (demo_db 15) ?x = RFC7181_WILLINGNESS_ALWAYS"
    by (simp add: routing_w_def routing_get_willingness_n1_def demo_lookups demo_neighbor_of_def nhdp_domain_get_neighbordata_def
        RFC7181_WILLINGNESS_ALWAYS_def)
  from routing_always_willing_faults [OF demo_neighs l g x this] show ?thesis .
qed

end
