(* ===== verification/Avl_Tree.thy ===== *)
theory Avl_Tree
  imports Avl_Spec
begin

section \<open>AVL trees (libcommon/avl)\<close>

text \<open>
  \<^verbatim>\<open>src/src/libcommon/avl.c\<close> and the types of \<^verbatim>\<open>avl.h\<close>: the tree with its balances, rotations and rebalancing, and
  the list of all elements in key order that goes with it. The child pointers of a node are its subtrees; a node together with its
  parent pointers is a subtree and the path of parents above it, from the parent up to the root. The elements are
  distinct names of the nodes, their keys given by a function. The list holds the elements with their flag \<open>follower\<close>. Elements with
  equal keys behind the first one are in the list only.
\<close>

datatype 'e avl = AvlNull | AvlNode "'e avl" int 'e "'e avl"

text \<open>A parent, seen from its left or its right child.\<close>

datatype 'e avl_parent = Left_Of int 'e "'e avl" | Right_Of "'e avl" int 'e

fun avl_root :: "'e avl_parent list \<Rightarrow> 'e avl \<Rightarrow> 'e avl" where
  "avl_root [] node = node"
| "avl_root (Left_Of b e r # parents) node = avl_root parents (AvlNode node b e r)"
| "avl_root (Right_Of l b e # parents) node = avl_root parents (AvlNode l b e node)"

record 'e avl_tree =
  list_head :: "('e \<times> bool) list"
  root :: "'e avl"
  tree_count :: u32
  allow_dups :: bool

definition avl_init :: "bool \<Rightarrow> 'e avl_tree" where
  "avl_init dups = \<lparr>list_head = [], root = AvlNull, tree_count = 0, allow_dups = dups\<rparr>"

subsection \<open>Rotations\<close>

fun avl_rotate_right :: "'e avl \<Rightarrow> fault + 'e avl" where
  "avl_rotate_right (AvlNode (AvlNode ll lb le lr) b e r) =
     (let b = b + 1; b = (if lb < 0 then b - lb else b); lb = lb + 1; lb = (if b > 0 then lb + b else lb)
      in Inr (AvlNode ll lb le (AvlNode lr b e r)))"
| "avl_rotate_right _ = Inl Null_Deref"

fun avl_rotate_left :: "'e avl \<Rightarrow> fault + 'e avl" where
  "avl_rotate_left (AvlNode l b e (AvlNode rl rb re rr)) =
     (let b = b - 1; b = (if rb > 0 then b - rb else b); rb = rb - 1; rb = (if b < 0 then rb + b else rb)
      in Inr (AvlNode (AvlNode l b e rl) rb re rr))"
| "avl_rotate_left _ = Inl Null_Deref"

subsection \<open>Rebalancing\<close>

text \<open>\<open>_post_insert\<close>: the subtree \<open>node\<close> has grown.\<close>

fun avl_post_insert :: "'e avl_parent list \<Rightarrow> 'e avl \<Rightarrow> fault + 'e avl" where
  "avl_post_insert [] node = Inr node"
| "avl_post_insert (Left_Of b e r # parents) node =
     (let b = b - 1
      in if b = 0 then Inr (avl_root parents (AvlNode node b e r))
         else if b = -1 then avl_post_insert parents (AvlNode node b e r)
         else case node of
                AvlNull \<Rightarrow> Inl Null_Deref
              | AvlNode _ nb _ _ \<Rightarrow>
                  if nb = -1 then bind_f (avl_rotate_right (AvlNode node b e r)) (\<lambda>t. Inr (avl_root parents t))
                  else bind_f (avl_rotate_left node) (\<lambda>node.
                       bind_f (avl_rotate_right (AvlNode node b e r)) (\<lambda>t. Inr (avl_root parents t))))"
| "avl_post_insert (Right_Of l b e # parents) node =
     (let b = b + 1
      in if b = 0 then Inr (avl_root parents (AvlNode l b e node))
         else if b = 1 then avl_post_insert parents (AvlNode l b e node)
         else case node of
                AvlNull \<Rightarrow> Inl Null_Deref
              | AvlNode _ nb _ _ \<Rightarrow>
                  if nb = 1 then bind_f (avl_rotate_left (AvlNode l b e node)) (\<lambda>t. Inr (avl_root parents t))
                  else bind_f (avl_rotate_right node) (\<lambda>node.
                       bind_f (avl_rotate_left (AvlNode l b e node)) (\<lambda>t. Inr (avl_root parents t))))"

text \<open>\<open>_avl_post_remove\<close>: the subtree \<open>node\<close> has shrunk.\<close>

fun avl_post_remove :: "'e avl_parent list \<Rightarrow> 'e avl \<Rightarrow> fault + 'e avl" where
  "avl_post_remove [] node = Inr node"
| "avl_post_remove (Left_Of b e r # parents) node =
     (let b = b + 1
      in if b = 0 then avl_post_remove parents (AvlNode node b e r)
         else if b = 1 then Inr (avl_root parents (AvlNode node b e r))
         else case r of
                AvlNull \<Rightarrow> Inl Null_Deref
              | AvlNode _ rb _ _ \<Rightarrow>
                  if rb = 0 then bind_f (avl_rotate_left (AvlNode node b e r)) (\<lambda>t. Inr (avl_root parents t))
                  else if rb = 1 then bind_f (avl_rotate_left (AvlNode node b e r)) (\<lambda>t. avl_post_remove parents t)
                  else bind_f (avl_rotate_right r) (\<lambda>r.
                       bind_f (avl_rotate_left (AvlNode node b e r)) (\<lambda>t. avl_post_remove parents t)))"
| "avl_post_remove (Right_Of l b e # parents) node =
     (let b = b - 1
      in if b = 0 then avl_post_remove parents (AvlNode l b e node)
         else if b = -1 then Inr (avl_root parents (AvlNode l b e node))
         else case l of
                AvlNull \<Rightarrow> Inl Null_Deref
              | AvlNode _ lb _ _ \<Rightarrow>
                  if lb = 0 then bind_f (avl_rotate_right (AvlNode l b e node)) (\<lambda>t. Inr (avl_root parents t))
                  else if lb = -1 then bind_f (avl_rotate_right (AvlNode l b e node)) (\<lambda>t. avl_post_remove parents t)
                  else bind_f (avl_rotate_left l) (\<lambda>l.
                       bind_f (avl_rotate_right (AvlNode l b e node)) (\<lambda>t. avl_post_remove parents t)))"

subsection \<open>The list of elements (libcommon/list.h)\<close>

text \<open>The positions are elements of the list.\<close>

fun list_add_before :: "'e \<Rightarrow> 'e \<times> bool \<Rightarrow> ('e \<times> bool) list \<Rightarrow> ('e \<times> bool) list" where
  "list_add_before pos n [] = []"
| "list_add_before pos n (x # xs) = (if fst x = pos then n # x # xs else x # list_add_before pos n xs)"

fun list_add_after :: "'e \<Rightarrow> 'e \<times> bool \<Rightarrow> ('e \<times> bool) list \<Rightarrow> ('e \<times> bool) list" where
  "list_add_after pos n [] = []"
| "list_add_after pos n (x # xs) = (if fst x = pos then x # n # xs else x # list_add_after pos n xs)"

fun list_remove :: "'e \<Rightarrow> ('e \<times> bool) list \<Rightarrow> ('e \<times> bool) list" where
  "list_remove e [] = []"
| "list_remove e (x # xs) = (if fst x = e then xs else x # list_remove e xs)"

text \<open>What follows an element.\<close>

definition list_behind :: "'e \<Rightarrow> ('e \<times> bool) list \<Rightarrow> ('e \<times> bool) list" where
  "list_behind e xs = tl (dropWhile (\<lambda>x. fst x \<noteq> e) xs)"

fun last_follower :: "'e \<Rightarrow> ('e \<times> bool) list \<Rightarrow> 'e" where
  "last_follower l [] = l"
| "last_follower l ((x, follower) # xs) = (if \<not> follower then l else last_follower x xs)"

definition avl_find_last :: "('e \<times> bool) list \<Rightarrow> 'e \<Rightarrow> 'e" where
  "avl_find_last xs l = last_follower l (list_behind l xs)"

subsection \<open>Lookup\<close>

text \<open>The node found, with its parents, and the comparison with its key.\<close>

fun avl_find_rec :: "('k \<Rightarrow> 'k \<Rightarrow> int) \<Rightarrow> ('e \<Rightarrow> 'k) \<Rightarrow> 'k \<Rightarrow> 'e avl_parent list \<Rightarrow> 'e avl \<Rightarrow>
    fault + 'e avl_parent list \<times> 'e avl \<times> int" where
  "avl_find_rec cmp key k parents AvlNull = Inl Null_Deref"
| "avl_find_rec cmp key k parents (AvlNode l b e r) =
     (let diff = cmp k (key e)
      in if diff < 0 then (if l \<noteq> AvlNull then avl_find_rec cmp key k (Left_Of b e r # parents) l
                           else Inr (parents, AvlNode l b e r, diff))
         else if diff > 0 then (if r \<noteq> AvlNull then avl_find_rec cmp key k (Right_Of l b e # parents) r
                                else Inr (parents, AvlNode l b e r, diff))
         else Inr (parents, AvlNode l b e r, diff))"

definition avl_find :: "('k \<Rightarrow> 'k \<Rightarrow> int) \<Rightarrow> ('e \<Rightarrow> 'k) \<Rightarrow> 'e avl_tree \<Rightarrow> 'k \<Rightarrow> fault + 'e option" where
  "avl_find cmp key tree k =
     (if root tree = AvlNull then Inr None
      else bind_f (avl_find_rec cmp key k [] (root tree)) (\<lambda>(_, node, diff).
        case node of AvlNull \<Rightarrow> Inl Null_Deref | AvlNode _ _ e _ \<Rightarrow> Inr (if diff = 0 then Some e else None)))"

text \<open>The walks along the list; the node is its position in the list of all elements.\<close>

function lessequal_left :: "('k \<Rightarrow> 'k \<Rightarrow> int) \<Rightarrow> ('e \<Rightarrow> 'k) \<Rightarrow> 'k \<Rightarrow> 'e list \<Rightarrow> nat \<Rightarrow> int \<Rightarrow> nat option" where
  "lessequal_left cmp key k xs i diff =
     (if diff < 0 then if i = 0 then None else lessequal_left cmp key k xs (i - 1) (cmp k (key (xs ! (i - 1)))) else Some i)"
  by pat_completeness auto
termination by (relation "measure (\<lambda>(cmp, key, k, xs, i, diff). i)") auto

function lessequal_right :: "('k \<Rightarrow> 'k \<Rightarrow> int) \<Rightarrow> ('e \<Rightarrow> 'k) \<Rightarrow> 'k \<Rightarrow> 'e list \<Rightarrow> nat \<Rightarrow> nat" where
  "lessequal_right cmp key k xs i =
     (if Suc i < length xs then if cmp k (key (xs ! Suc i)) \<ge> 0 then lessequal_right cmp key k xs (Suc i) else i else i)"
  by pat_completeness auto
termination by (relation "measure (\<lambda>(cmp, key, k, xs, i). length xs - i)") auto

function greaterequal_right :: "('k \<Rightarrow> 'k \<Rightarrow> int) \<Rightarrow> ('e \<Rightarrow> 'k) \<Rightarrow> 'k \<Rightarrow> 'e list \<Rightarrow> nat \<Rightarrow> int \<Rightarrow> nat option" where
  "greaterequal_right cmp key k xs i diff =
     (if diff > 0 then if Suc i < length xs then greaterequal_right cmp key k xs (Suc i) (cmp k (key (xs ! Suc i))) else None else Some i)"
  by pat_completeness auto
termination by (relation "measure (\<lambda>(cmp, key, k, xs, i, diff). length xs - i)") auto

function greaterequal_left :: "('k \<Rightarrow> 'k \<Rightarrow> int) \<Rightarrow> ('e \<Rightarrow> 'k) \<Rightarrow> 'k \<Rightarrow> 'e list \<Rightarrow> nat \<Rightarrow> nat" where
  "greaterequal_left cmp key k xs i =
     (if i = 0 then i else if cmp k (key (xs ! (i - 1))) \<le> 0 then greaterequal_left cmp key k xs (i - 1) else i)"
  by pat_completeness auto
termination by (relation "measure (\<lambda>(cmp, key, k, xs, i). i)") auto

declare lessequal_left.simps [simp del] lessequal_right.simps [simp del] greaterequal_right.simps [simp del]
  greaterequal_left.simps [simp del]

definition avl_elements :: "'e avl_tree \<Rightarrow> 'e list" where
  "avl_elements tree = map fst (list_head tree)"

definition list_position :: "'e \<Rightarrow> 'e list \<Rightarrow> nat" where
  "list_position e xs = length (takeWhile (\<lambda>x. x \<noteq> e) xs)"

definition avl_find_lessequal :: "('k \<Rightarrow> 'k \<Rightarrow> int) \<Rightarrow> ('e \<Rightarrow> 'k) \<Rightarrow> 'e avl_tree \<Rightarrow> 'k \<Rightarrow> fault + 'e option" where
  "avl_find_lessequal cmp key tree k =
     (if root tree = AvlNull then Inr None
      else bind_f (avl_find_rec cmp key k [] (root tree)) (\<lambda>(_, node, diff).
        case node of AvlNull \<Rightarrow> Inl Null_Deref
        | AvlNode _ _ e _ \<Rightarrow> let xs = avl_elements tree in
            case lessequal_left cmp key k xs (list_position e xs) diff of
              None \<Rightarrow> Inr None
            | Some i \<Rightarrow> Inr (Some (xs ! lessequal_right cmp key k xs i))))"

definition avl_find_greaterequal :: "('k \<Rightarrow> 'k \<Rightarrow> int) \<Rightarrow> ('e \<Rightarrow> 'k) \<Rightarrow> 'e avl_tree \<Rightarrow> 'k \<Rightarrow> fault + 'e option" where
  "avl_find_greaterequal cmp key tree k =
     (if root tree = AvlNull then Inr None
      else bind_f (avl_find_rec cmp key k [] (root tree)) (\<lambda>(_, node, diff).
        case node of AvlNull \<Rightarrow> Inl Null_Deref
        | AvlNode _ _ e _ \<Rightarrow> let xs = avl_elements tree in
            case greaterequal_right cmp key k xs (list_position e xs) diff of
              None \<Rightarrow> Inr None
            | Some i \<Rightarrow> Inr (Some (xs ! greaterequal_left cmp key k xs i))))"

subsection \<open>Insertion\<close>

definition avl_leaf :: "'e \<Rightarrow> 'e avl" where
  "avl_leaf e = AvlNode AvlNull 0 e AvlNull"

definition avl_insert_before :: "'e \<Rightarrow> 'e \<Rightarrow> bool \<Rightarrow> 'e avl_tree \<Rightarrow> 'e avl_tree" where
  "avl_insert_before pos_node node follower tree =
     tree\<lparr>list_head := list_add_before pos_node (node, follower) (list_head tree), tree_count := tree_count tree + 1\<rparr>"

definition avl_insert_after :: "'e \<Rightarrow> 'e \<Rightarrow> bool \<Rightarrow> 'e avl_tree \<Rightarrow> 'e avl_tree" where
  "avl_insert_after pos_node node follower tree =
     tree\<lparr>list_head := list_add_after pos_node (node, follower) (list_head tree), tree_count := tree_count tree + 1\<rparr>"

definition avl_insert :: "('k \<Rightarrow> 'k \<Rightarrow> int) \<Rightarrow> ('e \<Rightarrow> 'k) \<Rightarrow> 'e avl_tree \<Rightarrow> 'e \<Rightarrow> fault + int \<times> 'e avl_tree" where
  "avl_insert cmp key tree new =
     (if root tree = AvlNull
      then Inr (0, tree\<lparr>list_head := (new, False) # list_head tree, root := avl_leaf new, tree_count := 1\<rparr>)
      else bind_f (avl_find_rec cmp key (key new) [] (root tree)) (\<lambda>(parents, node, _).
        case node of AvlNull \<Rightarrow> Inl Null_Deref
        | AvlNode l b e r \<Rightarrow>
            let diff = cmp (key new) (key e); behind = avl_find_last (list_head tree) e
            in if diff = 0
               then if \<not> allow_dups tree then Inr (-1, tree) else Inr (0, avl_insert_after e new True tree)
               else if b = 1
               then Inr (0, (avl_insert_before e new False tree)\<lparr>root := avl_root parents (AvlNode (avl_leaf new) 0 e r)\<rparr>)
               else if b = -1
               then Inr (0, (avl_insert_after behind new False tree)\<lparr>root := avl_root parents (AvlNode l 0 e (avl_leaf new))\<rparr>)
               else if diff < 0
               then bind_f (avl_post_insert parents (AvlNode (avl_leaf new) (-1) e r)) (\<lambda>t.
                      Inr (0, (avl_insert_before e new False tree)\<lparr>root := t\<rparr>))
               else bind_f (avl_post_insert parents (AvlNode l 1 e (avl_leaf new))) (\<lambda>t.
                      Inr (0, (avl_insert_after behind new False tree)\<lparr>root := t\<rparr>))))"

subsection \<open>Removal\<close>

text \<open>Where a node is: its parents and the subtree it is the root of.\<close>

fun avl_locate :: "'e \<Rightarrow> 'e avl_parent list \<Rightarrow> 'e avl \<Rightarrow> ('e avl_parent list \<times> 'e avl) option" where
  "avl_locate e parents AvlNull = None"
| "avl_locate e parents (AvlNode l b x r) =
     (if x = e then Some (parents, AvlNode l b x r)
      else case avl_locate e (Left_Of b x r # parents) l of
             Some found \<Rightarrow> Some found
           | None \<Rightarrow> avl_locate e (Right_Of l b x # parents) r)"

fun avl_local_min :: "'e avl_parent list \<Rightarrow> 'e avl \<Rightarrow> 'e avl_parent list \<times> 'e avl" where
  "avl_local_min parents (AvlNode l b e r) =
     (if l \<noteq> AvlNull then avl_local_min (Left_Of b e r # parents) l else (parents, AvlNode l b e r))"
| "avl_local_min parents AvlNull = (parents, AvlNull)"

text \<open>\<open>_avl_remove_worker\<close> for a node without children, and for one with at most one child.\<close>

fun avl_remove_leaf :: "'e avl_parent list \<Rightarrow> fault + 'e avl" where
  "avl_remove_leaf [] = Inr AvlNull"
| "avl_remove_leaf (Left_Of b e r # parents) =
     (let b = b + 1
      in if b = 1 then Inr (avl_root parents (AvlNode AvlNull b e r))
         else if b = 0 then avl_post_remove parents (AvlNode AvlNull b e r)
         else case r of
                AvlNull \<Rightarrow> Inl Null_Deref
              | AvlNode _ rb _ _ \<Rightarrow>
                  if rb = 0 then bind_f (avl_rotate_left (AvlNode AvlNull b e r)) (\<lambda>t. Inr (avl_root parents t))
                  else if rb = 1 then bind_f (avl_rotate_left (AvlNode AvlNull b e r)) (\<lambda>t. avl_post_remove parents t)
                  else bind_f (avl_rotate_right r) (\<lambda>r.
                       bind_f (avl_rotate_left (AvlNode AvlNull b e r)) (\<lambda>t. avl_post_remove parents t)))"
| "avl_remove_leaf (Right_Of l b e # parents) =
     (let b = b - 1
      in if b = -1 then Inr (avl_root parents (AvlNode l b e AvlNull))
         else if b = 0 then avl_post_remove parents (AvlNode l b e AvlNull)
         else case l of
                AvlNull \<Rightarrow> Inl Null_Deref
              | AvlNode _ lb _ _ \<Rightarrow>
                  if lb = 0 then bind_f (avl_rotate_right (AvlNode l b e AvlNull)) (\<lambda>t. Inr (avl_root parents t))
                  else if lb = -1 then bind_f (avl_rotate_right (AvlNode l b e AvlNull)) (\<lambda>t. avl_post_remove parents t)
                  else bind_f (avl_rotate_left l) (\<lambda>l.
                       bind_f (avl_rotate_right (AvlNode l b e AvlNull)) (\<lambda>t. avl_post_remove parents t)))"

fun avl_remove_simple :: "'e avl_parent list \<Rightarrow> 'e avl \<Rightarrow> fault + 'e avl" where
  "avl_remove_simple parents AvlNull = Inl Null_Deref"
| "avl_remove_simple parents (AvlNode l b e r) =
     (if l = AvlNull \<and> r = AvlNull then avl_remove_leaf parents
      else if l = AvlNull then avl_post_remove parents r
      else avl_post_remove parents l)"

text \<open>A node takes the place of another one: its children, its balance and its parent.\<close>

definition avl_take_place :: "'e \<Rightarrow> 'e \<Rightarrow> 'e avl \<Rightarrow> 'e avl" where
  "avl_take_place node by = map_avl (\<lambda>x. if x = node then by else x)"

fun avl_remove_worker :: "'e avl_parent list \<Rightarrow> 'e avl \<Rightarrow> fault + 'e avl" where
  "avl_remove_worker parents AvlNull = Inl Null_Deref"
| "avl_remove_worker parents (AvlNode l b e r) =
     (if l = AvlNull \<or> r = AvlNull then avl_remove_simple parents (AvlNode l b e r)
      else case avl_local_min (Right_Of l b e # parents) r of
             (_, AvlNull) \<Rightarrow> Inl Null_Deref
           | (min_parents, AvlNode ml mb m mr) \<Rightarrow>
               bind_f (avl_remove_simple min_parents (AvlNode ml mb m mr)) (\<lambda>t. Inr (avl_take_place e m t)))"

text \<open>The next node, when it has the same key.\<close>

definition next_follower :: "'e \<Rightarrow> ('e \<times> bool) list \<Rightarrow> 'e option" where
  "next_follower node xs = (case list_behind node xs of (n, True) # _ \<Rightarrow> Some n | _ \<Rightarrow> None)"

definition avl_remove :: "'e avl_tree \<Rightarrow> 'e \<Rightarrow> fault + 'e avl_tree" where
  "avl_remove tree node =
     (case map_of (list_head tree) node of
        None \<Rightarrow> Inl Null_Deref
      | Some follower \<Rightarrow>
          bind_f (if follower then Inr tree
                  else case (if allow_dups tree then next_follower node (list_head tree) else None) of
                         Some n \<Rightarrow> Inr (tree\<lparr>list_head := map (\<lambda>x. if fst x = n then (n, False) else x) (list_head tree),
                                              root := avl_take_place node n (root tree)\<rparr>)
                       | None \<Rightarrow> (case avl_locate node [] (root tree) of
                                   None \<Rightarrow> Inl Null_Deref
                                 | Some (parents, t) \<Rightarrow> bind_f (avl_remove_worker parents t) (\<lambda>t. Inr (tree\<lparr>root := t\<rparr>))))
            (\<lambda>tree. Inr (tree\<lparr>list_head := list_remove node (list_head tree), tree_count := tree_count tree - 1\<rparr>)))"

subsection \<open>Heights\<close>

fun avl_height :: "'e avl \<Rightarrow> int" where
  "avl_height AvlNull = 0"
| "avl_height (AvlNode l b e r) = 1 + max (avl_height l) (avl_height r)"

fun avl_inorder :: "'e avl \<Rightarrow> 'e list" where
  "avl_inorder AvlNull = []"
| "avl_inorder (AvlNode l b e r) = avl_inorder l @ [e] @ avl_inorder r"

fun avl_balanced :: "'e avl \<Rightarrow> bool" where
  "avl_balanced AvlNull \<longleftrightarrow> True"
| "avl_balanced (AvlNode l b e r) \<longleftrightarrow>
     b = avl_height r - avl_height l \<and> \<bar>b\<bar> \<le> 1 \<and> avl_balanced l \<and> avl_balanced r"

text \<open>The parents are balanced around a subtree of height \<open>h\<close>.\<close>

fun parents_balanced :: "'e avl_parent list \<Rightarrow> int \<Rightarrow> bool" where
  "parents_balanced [] h \<longleftrightarrow> True"
| "parents_balanced (Left_Of b e r # parents) h \<longleftrightarrow>
     b = avl_height r - h \<and> \<bar>b\<bar> \<le> 1 \<and> avl_balanced r \<and> parents_balanced parents (1 + max h (avl_height r))"
| "parents_balanced (Right_Of l b e # parents) h \<longleftrightarrow>
     b = h - avl_height l \<and> \<bar>b\<bar> \<le> 1 \<and> avl_balanced l \<and> parents_balanced parents (1 + max (avl_height l) h)"

fun before_path :: "'e avl_parent list \<Rightarrow> 'e list" where
  "before_path [] = []"
| "before_path (Left_Of b e r # parents) = before_path parents"
| "before_path (Right_Of l b e # parents) = before_path parents @ avl_inorder l @ [e]"

fun after_path :: "'e avl_parent list \<Rightarrow> 'e list" where
  "after_path [] = []"
| "after_path (Left_Of b e r # parents) = [e] @ avl_inorder r @ after_path parents"
| "after_path (Right_Of l b e # parents) = after_path parents"

lemma height_nonneg [simp]: "0 \<le> avl_height t"
  by (induction t) auto

lemma inorder_root [simp]: "avl_inorder (avl_root p t) = before_path p @ avl_inorder t @ after_path p"
  by (induction p t rule: avl_root.induct) simp_all

lemma balanced_root: "avl_balanced (avl_root p t) \<longleftrightarrow> parents_balanced p (avl_height t) \<and> avl_balanced t"
  by (induction p t rule: avl_root.induct) auto

text \<open>What a computed tree has to be.\<close>

definition balanced_with :: "'e list \<Rightarrow> 'e avl \<Rightarrow> bool" where
  "balanced_with xs t \<longleftrightarrow> avl_balanced t \<and> avl_inorder t = xs"

lemma rotate_right_single:
  assumes "avl_balanced l" "l = AvlNode ll lb le lr" "avl_balanced r" "avl_height l = avl_height r + 2" "lb \<le> 0"
  shows "\<exists>t. avl_rotate_right (AvlNode l (-2) e r) = Inr t \<and> avl_balanced t \<and>
    avl_inorder t = avl_inorder l @ [e] @ avl_inorder r \<and> avl_height t = (if lb = 0 then avl_height l + 1 else avl_height l)"
proof -
  consider "lb = 0" | "lb = -1" using assms(1,2,5) by fastforce
  then show ?thesis
  proof cases
    case 1
    then have "avl_height ll = avl_height r + 1" "avl_height lr = avl_height r + 1" "avl_balanced ll" "avl_balanced lr"
      using assms(1,2,4) by auto
    with 1 assms(2,3) show ?thesis by (simp add: Let_def)
  next
    case 2
    then have "avl_height ll = avl_height r + 1" "avl_height lr = avl_height r" "avl_balanced ll" "avl_balanced lr"
      using assms(1,2,4) by auto
    with 2 assms(2,3) show ?thesis by (simp add: Let_def)
  qed
qed

lemma rotate_left_single:
  assumes "avl_balanced r" "r = AvlNode rl rb re rr" "avl_balanced l" "avl_height r = avl_height l + 2" "0 \<le> rb"
  shows "\<exists>t. avl_rotate_left (AvlNode l 2 e r) = Inr t \<and> avl_balanced t \<and>
    avl_inorder t = avl_inorder l @ [e] @ avl_inorder r \<and> avl_height t = (if rb = 0 then avl_height r + 1 else avl_height r)"
proof -
  consider "rb = 0" | "rb = 1" using assms(1,2,5) by fastforce
  then show ?thesis
  proof cases
    case 1
    then have "avl_height rr = avl_height l + 1" "avl_height rl = avl_height l + 1" "avl_balanced rl" "avl_balanced rr"
      using assms(1,2,4) by auto
    with 1 assms(2,3) show ?thesis by (simp add: Let_def)
  next
    case 2
    then have "avl_height rr = avl_height l + 1" "avl_height rl = avl_height l" "avl_balanced rl" "avl_balanced rr"
      using assms(1,2,4) by auto
    with 2 assms(2,3) show ?thesis by (simp add: Let_def)
  qed
qed

lemma rotate_right_double:
  assumes "avl_balanced l" "l = AvlNode ll 1 le lr" "avl_balanced r" "avl_height l = avl_height r + 2"
  shows "\<exists>l' t. avl_rotate_left l = Inr l' \<and> avl_rotate_right (AvlNode l' (-2) e r) = Inr t \<and> avl_balanced t \<and>
    avl_inorder t = avl_inorder l @ [e] @ avl_inorder r \<and> avl_height t = avl_height l"
proof -
  have h: "avl_height lr = avl_height r + 1" "avl_height ll = avl_height r" "avl_balanced ll" "avl_balanced lr"
    using assms(1,2,4) by auto
  then obtain ml mb me mr where m: "lr = AvlNode ml mb me mr" by (cases lr) (use height_nonneg [of r] in auto)
  consider "mb = 0" | "mb = 1" | "mb = -1" using h(4) m by fastforce
  then show ?thesis
  proof cases
    case 1
    then have "avl_height ml = avl_height r" "avl_height mr = avl_height r" "avl_balanced ml" "avl_balanced mr" using h m by auto
    with 1 assms(2,3) h m show ?thesis by (simp add: Let_def)
  next
    case 2
    then have "avl_height ml = avl_height r - 1" "avl_height mr = avl_height r" "avl_balanced ml" "avl_balanced mr" using h m by auto
    with 2 assms(2,3) h m show ?thesis by (simp add: Let_def)
  next
    case 3
    then have "avl_height ml = avl_height r" "avl_height mr = avl_height r - 1" "avl_balanced ml" "avl_balanced mr" using h m by auto
    with 3 assms(2,3) h m show ?thesis by (simp add: Let_def)
  qed
qed

lemma rotate_left_double:
  assumes "avl_balanced r" "r = AvlNode rl (-1) re rr" "avl_balanced l" "avl_height r = avl_height l + 2"
  shows "\<exists>r' t. avl_rotate_right r = Inr r' \<and> avl_rotate_left (AvlNode l 2 e r') = Inr t \<and> avl_balanced t \<and>
    avl_inorder t = avl_inorder l @ [e] @ avl_inorder r \<and> avl_height t = avl_height r"
proof -
  have h: "avl_height rl = avl_height l + 1" "avl_height rr = avl_height l" "avl_balanced rl" "avl_balanced rr"
    using assms(1,2,4) by auto
  then obtain ml mb me mr where m: "rl = AvlNode ml mb me mr" by (cases rl) (use height_nonneg [of l] in auto)
  consider "mb = 0" | "mb = 1" | "mb = -1" using h(3) m by fastforce
  then show ?thesis
  proof cases
    case 1
    then have "avl_height ml = avl_height l" "avl_height mr = avl_height l" "avl_balanced ml" "avl_balanced mr" using h m by auto
    with 1 assms(2,3) h m show ?thesis by (simp add: Let_def)
  next
    case 2
    then have "avl_height ml = avl_height l - 1" "avl_height mr = avl_height l" "avl_balanced ml" "avl_balanced mr" using h m by auto
    with 2 assms(2,3) h m show ?thesis by (simp add: Let_def)
  next
    case 3
    then have "avl_height ml = avl_height l" "avl_height mr = avl_height l - 1" "avl_balanced ml" "avl_balanced mr" using h m by auto
    with 3 assms(2,3) h m show ?thesis by (simp add: Let_def)
  qed
qed

text \<open>Replacing a subtree by one of the same height and elements.\<close>

lemma wp_root:
  assumes "parents_balanced p (avl_height t)" "avl_balanced t" "before_path p @ avl_inorder t @ after_path p = xs"
  shows "wp (Inr (avl_root p t)) (\<lambda>_. False) (balanced_with xs)"
  using assms by (simp add: balanced_with_def balanced_root)

lemma post_insert_ok:
  assumes "parents_balanced p (avl_height node - 1)" "avl_balanced node" "\<exists>nl nb ne nr. node = AvlNode nl nb ne nr \<and> nb \<noteq> 0"
  shows "wp (avl_post_insert p node) (\<lambda>_. False) (balanced_with (before_path p @ avl_inorder node @ after_path p))"
  using assms
proof (induction p node rule: avl_post_insert.induct)
  case (1 node)
  then show ?case by (simp add: balanced_with_def)
next
  case (2 b e r parents node)
  let ?xs = "before_path parents @ avl_inorder node @ [e] @ avl_inorder r @ after_path parents"
  obtain nl nb ne nr where n: "node = AvlNode nl nb ne nr" "nb \<noteq> 0" using 2(4) by blast
  have p: "b = avl_height r - (avl_height node - 1)" "\<bar>b\<bar> \<le> 1" "avl_balanced r"
    "parents_balanced parents (1 + max (avl_height node - 1) (avl_height r))" using 2(2) unfolding parents_balanced.simps by blast+
  consider "b = 1" | "b = 0" | "b = -1" using p(2) by linarith
  then show ?case
  proof cases
    case 1
    then have "avl_height r = avl_height node" using p(1) by simp
    with 1 p 2(3) show ?thesis by (simp add: balanced_with_def balanced_root)
  next
    case b: 2
    then have h: "avl_height r = avl_height node - 1" using p(1) by simp
    have "wp (avl_post_insert parents (AvlNode node (-1) e r)) (\<lambda>_. False)
        (balanced_with (before_path parents @ avl_inorder (AvlNode node (-1) e r) @ after_path parents))"
      using 2(1) [of "-1"] b p 2(3) h by simp
    with b show ?thesis by simp
  next
    case b: 3
    then have h: "avl_height node = avl_height r + 2" using p(1) by simp
    have pb: "parents_balanced parents (avl_height node)" using p(4) h by (simp add: add.commute)
    show ?thesis
    proof (cases "nb = -1")
      case True
      from rotate_right_single [OF 2(3) n(1) p(3) h, of e] True obtain t where
        "avl_rotate_right (AvlNode node (-2) e r) = Inr t" "avl_balanced t" "avl_inorder t = avl_inorder node @ [e] @ avl_inorder r"
        "avl_height t = avl_height node" by auto
      with True b n(1) pb show ?thesis by (simp add: wp_root del: wp_Inr)
    next
      case False
      then have "nb = 1" using 2(3) n by auto
      with rotate_right_double [OF 2(3) _ p(3) h, of nl ne nr e] n(1) obtain l' t where
        "avl_rotate_left node = Inr l'" "avl_rotate_right (AvlNode l' (-2) e r) = Inr t" "avl_balanced t"
        "avl_inorder t = avl_inorder node @ [e] @ avl_inorder r" "avl_height t = avl_height node" by auto
      with False b n(1) pb show ?thesis by (simp add: wp_root del: wp_Inr)
    qed
  qed
next
  case (3 l b e parents node)
  obtain nl nb ne nr where n: "node = AvlNode nl nb ne nr" "nb \<noteq> 0" using 3(4) by blast
  have p: "b = avl_height node - 1 - avl_height l" "\<bar>b\<bar> \<le> 1" "avl_balanced l"
    "parents_balanced parents (1 + max (avl_height l) (avl_height node - 1))" using 3(2) unfolding parents_balanced.simps by blast+
  consider "b = -1" | "b = 0" | "b = 1" using p(2) by linarith
  then show ?case
  proof cases
    case 1
    then have "avl_height l = avl_height node" using p(1) by simp
    with 1 p 3(3) show ?thesis by (simp add: balanced_with_def balanced_root)
  next
    case b: 2
    then have h: "avl_height l = avl_height node - 1" using p(1) by simp
    have "wp (avl_post_insert parents (AvlNode l 1 e node)) (\<lambda>_. False)
        (balanced_with (before_path parents @ avl_inorder (AvlNode l 1 e node) @ after_path parents))"
      using 3(1) [of 1] b p 3(3) h by simp
    with b show ?thesis by simp
  next
    case b: 3
    then have h: "avl_height node = avl_height l + 2" using p(1) by simp
    have pb: "parents_balanced parents (avl_height node)" using p(4) h by (simp add: add.commute)
    show ?thesis
    proof (cases "nb = 1")
      case True
      from rotate_left_single [OF 3(3) n(1) p(3) h, of e] True obtain t where
        "avl_rotate_left (AvlNode l 2 e node) = Inr t" "avl_balanced t" "avl_inorder t = avl_inorder l @ [e] @ avl_inorder node"
        "avl_height t = avl_height node" by auto
      with True b n(1) pb show ?thesis by (simp add: wp_root del: wp_Inr)
    next
      case False
      then have "nb = -1" using 3(3) n by auto
      with rotate_left_double [OF 3(3) _ p(3) h, of nl ne nr e] n(1) obtain r' t where
        "avl_rotate_right node = Inr r'" "avl_rotate_left (AvlNode l 2 e r') = Inr t" "avl_balanced t"
        "avl_inorder t = avl_inorder l @ [e] @ avl_inorder node" "avl_height t = avl_height node" by auto
      with False b n(1) pb show ?thesis by (simp add: wp_root del: wp_Inr)
    qed
  qed
qed

lemma post_remove_ok:
  assumes "parents_balanced p (avl_height node + 1)" "avl_balanced node"
  shows "wp (avl_post_remove p node) (\<lambda>_. False) (balanced_with (before_path p @ avl_inorder node @ after_path p))"
  using assms
proof (induction p node rule: avl_post_remove.induct)
  case (1 node)
  then show ?case by (simp add: balanced_with_def)
next
  case (2 b e r parents node)
  have p: "b = avl_height r - (avl_height node + 1)" "\<bar>b\<bar> \<le> 1" "avl_balanced r"
    "parents_balanced parents (1 + max (avl_height node + 1) (avl_height r))" using 2(4) unfolding parents_balanced.simps by blast+
  consider "b = -1" | "b = 0" | "b = 1" using p(2) by linarith
  then show ?case
  proof cases
    case b: 1
    then have h: "avl_height r = avl_height node" using p(1) by simp
    have "wp (avl_post_remove parents (AvlNode node 0 e r)) (\<lambda>_. False)
        (balanced_with (before_path parents @ avl_inorder (AvlNode node 0 e r) @ after_path parents))"
      using 2(1) [of 0] b p 2(5) h by (simp add: add.commute)
    with b show ?thesis by simp
  next
    case b: 2
    then have "avl_height r = avl_height node + 1" using p(1) by simp
    with b p 2(5) show ?thesis by (simp add: balanced_with_def balanced_root)
  next
    case b: 3
    then have h: "avl_height r = avl_height node + 2" using p(1) by simp
    have pb: "parents_balanced parents (avl_height r + 1)" using p(4) h by (simp add: add.commute)
    obtain rl rb re rr where r: "r = AvlNode rl rb re rr" using h height_nonneg [of node] by (cases r) auto
    consider "rb = 0" | "rb = 1" | "rb = -1" using p(3) r by fastforce
    then show ?thesis
    proof cases
      case c: 1
      from rotate_left_single [OF p(3) r 2(5) h, of e] c obtain t where
        "avl_rotate_left (AvlNode node 2 e r) = Inr t" "avl_balanced t" "avl_inorder t = avl_inorder node @ [e] @ avl_inorder r"
        "avl_height t = avl_height r + 1" by auto
      with c b r pb show ?thesis by (simp add: wp_root del: wp_Inr)
    next
      case c: 2
      from rotate_left_single [OF p(3) r 2(5) h, of e] c obtain t where t:
        "avl_rotate_left (AvlNode node 2 e r) = Inr t" "avl_balanced t" "avl_inorder t = avl_inorder node @ [e] @ avl_inorder r"
        "avl_height t = avl_height r" by auto
      have "wp (avl_post_remove parents t) (\<lambda>_. False) (balanced_with (before_path parents @ avl_inorder t @ after_path parents))"
        by (rule 2(2) [OF refl _ _ r]) (use b c t(2,4) pb in simp_all)
      with c b r t(1,3) show ?thesis by simp
    next
      case c: 3
      with rotate_left_double [OF p(3) _ 2(5) h, of rl re rr e] r obtain r' t where t:
        "avl_rotate_right r = Inr r'" "avl_rotate_left (AvlNode node 2 e r') = Inr t" "avl_balanced t"
        "avl_inorder t = avl_inorder node @ [e] @ avl_inorder r" "avl_height t = avl_height r" by auto
      have "wp (avl_post_remove parents t) (\<lambda>_. False) (balanced_with (before_path parents @ avl_inorder t @ after_path parents))"
        by (rule 2(3) [OF refl _ _ r]) (use b c t(3,5) pb in simp_all)
      with c b r t(1,2,4) show ?thesis by simp
    qed
  qed
next
  case (3 l b e parents node)
  have p: "b = avl_height node + 1 - avl_height l" "\<bar>b\<bar> \<le> 1" "avl_balanced l"
    "parents_balanced parents (1 + max (avl_height l) (avl_height node + 1))" using 3(4) unfolding parents_balanced.simps by blast+
  consider "b = 1" | "b = 0" | "b = -1" using p(2) by linarith
  then show ?case
  proof cases
    case b: 1
    then have h: "avl_height l = avl_height node" using p(1) by simp
    have "wp (avl_post_remove parents (AvlNode l 0 e node)) (\<lambda>_. False)
        (balanced_with (before_path parents @ avl_inorder (AvlNode l 0 e node) @ after_path parents))"
      using 3(1) [of 0] b p 3(5) h by (simp add: add.commute)
    with b show ?thesis by simp
  next
    case b: 2
    then have "avl_height l = avl_height node + 1" using p(1) by simp
    with b p 3(5) show ?thesis by (simp add: balanced_with_def balanced_root)
  next
    case b: 3
    then have h: "avl_height l = avl_height node + 2" using p(1) by simp
    have pb: "parents_balanced parents (avl_height l + 1)" using p(4) h by (simp add: add.commute)
    obtain ll lb le lr where l: "l = AvlNode ll lb le lr" using h height_nonneg [of node] by (cases l) auto
    consider "lb = 0" | "lb = -1" | "lb = 1" using p(3) l by fastforce
    then show ?thesis
    proof cases
      case c: 1
      from rotate_right_single [OF p(3) l 3(5) h, of e] c obtain t where
        "avl_rotate_right (AvlNode l (-2) e node) = Inr t" "avl_balanced t" "avl_inorder t = avl_inorder l @ [e] @ avl_inorder node"
        "avl_height t = avl_height l + 1" by auto
      with c b l pb show ?thesis by (simp add: wp_root del: wp_Inr)
    next
      case c: 2
      from rotate_right_single [OF p(3) l 3(5) h, of e] c obtain t where t:
        "avl_rotate_right (AvlNode l (-2) e node) = Inr t" "avl_balanced t" "avl_inorder t = avl_inorder l @ [e] @ avl_inorder node"
        "avl_height t = avl_height l" by auto
      have "wp (avl_post_remove parents t) (\<lambda>_. False) (balanced_with (before_path parents @ avl_inorder t @ after_path parents))"
        by (rule 3(2) [OF refl _ _ l]) (use b c t(2,4) pb in simp_all)
      with c b l t(1,3) show ?thesis by simp
    next
      case c: 3
      with rotate_right_double [OF p(3) _ 3(5) h, of ll le lr e] l obtain l' t where t:
        "avl_rotate_left l = Inr l'" "avl_rotate_right (AvlNode l' (-2) e node) = Inr t" "avl_balanced t"
        "avl_inorder t = avl_inorder l @ [e] @ avl_inorder node" "avl_height t = avl_height l" by auto
      have "wp (avl_post_remove parents t) (\<lambda>_. False) (balanced_with (before_path parents @ avl_inorder t @ after_path parents))"
        by (rule 3(3) [OF refl _ _ l]) (use b c t(3,5) pb in simp_all)
      with c b l t(1,2,4) show ?thesis by simp
    qed
  qed
qed


subsection \<open>The list and the tree\<close>

text \<open>The list is the list of the nodes of the tree, each with its followers.\<close>

definition avl_flat :: "('e \<times> 'e list) list \<Rightarrow> ('e \<times> bool) list" where
  "avl_flat blocks = concat (map (\<lambda>(e, fs). (e, False) # map (\<lambda>f. (f, True)) fs) blocks)"

definition blocks_ok :: "('e \<Rightarrow> 'e \<Rightarrow> int) \<Rightarrow> bool \<Rightarrow> ('e \<times> 'e list) list \<Rightarrow> bool" where
  "blocks_ok cmp dups blocks \<longleftrightarrow> sorted_wrt (\<lambda>a b. cmp a b < 0) (map fst blocks) \<and>
     (\<forall>(e, fs)\<in>set blocks. (\<forall>f\<in>set fs. cmp e f = 0) \<and> (\<not> dups \<longrightarrow> fs = []))"

text \<open>The invariant of a tree, for an order of the elements.\<close>

definition avl_tree_ok :: "('e \<Rightarrow> 'e \<Rightarrow> int) \<Rightarrow> 'e avl_tree \<Rightarrow> bool" where
  "avl_tree_ok cmp tree \<longleftrightarrow> avl_balanced (root tree) \<and> distinct (avl_elements tree) \<and>
     tree_count tree = of_nat (length (avl_elements tree)) \<and>
     (\<exists>blocks. list_head tree = avl_flat blocks \<and> avl_inorder (root tree) = map fst blocks \<and> blocks_ok cmp (allow_dups tree) blocks)"

lemma flat_simps [simp]:
  "avl_flat [] = []" "avl_flat ((e, fs) # blocks) = (e, False) # map (\<lambda>f. (f, True)) fs @ avl_flat blocks"
  "avl_flat (xs @ ys) = avl_flat xs @ avl_flat ys"
  by (simp_all add: avl_flat_def)

lemma add_before_append: "e \<notin> fst ` set xs \<Longrightarrow> list_add_before e n (xs @ (e, f) # ys) = xs @ n # (e, f) # ys"
  by (induction xs) auto

lemma add_after_append: "e \<notin> fst ` set xs \<Longrightarrow> list_add_after e n (xs @ (e, f) # ys) = xs @ (e, f) # n # ys"
  by (induction xs) auto

lemma remove_append: "e \<notin> fst ` set xs \<Longrightarrow> list_remove e (xs @ (e, f) # ys) = xs @ ys"
  by (induction xs) auto

lemma behind_append: "e \<notin> fst ` set xs \<Longrightarrow> list_behind e (xs @ (e, f) # ys) = ys"
proof -
  assume "e \<notin> fst ` set xs"
  then have "dropWhile (\<lambda>x. fst x \<noteq> e) (xs @ (e, f) # ys) = (e, f) # ys" by (induction xs) auto
  then show ?thesis by (simp add: list_behind_def)
qed

lemma last_follower_block: "last_follower e (map (\<lambda>f. (f, True)) fs @ avl_flat blocks) = last (e # fs)"
proof (induction fs arbitrary: e)
  case Nil
  then show ?case by (cases blocks) auto
qed simp

text \<open>Adding behind the last follower of a block.\<close>

lemma add_behind_block:
  assumes "distinct (map fst (xs @ (e, False) # map (\<lambda>f. (f, True)) fs @ avl_flat blocks))"
  shows "list_add_after (avl_find_last (xs @ (e, False) # map (\<lambda>f. (f, True)) fs @ avl_flat blocks) e) n
      (xs @ (e, False) # map (\<lambda>f. (f, True)) fs @ avl_flat blocks) =
    xs @ (e, False) # map (\<lambda>f. (f, True)) fs @ n # avl_flat blocks"
proof -
  have "e \<notin> fst ` set xs" using assms by auto
  then have l: "avl_find_last (xs @ (e, False) # map (\<lambda>f. (f, True)) fs @ avl_flat blocks) e = last (e # fs)"
    by (simp add: avl_find_last_def behind_append last_follower_block)
  show ?thesis
  proof (cases fs rule: rev_cases)
    case Nil
    then show ?thesis using l add_after_append \<open>e \<notin> fst ` set xs\<close> by simp
  next
    case (snoc gs g)
    have "g \<notin> fst ` set (xs @ (e, False) # map (\<lambda>f. (f, True)) gs)" using assms snoc by (auto simp: image_iff)
    from add_after_append [OF this, of n True "avl_flat blocks"] show ?thesis using l snoc by simp
  qed
qed

lemma insert_dup_append:
  "\<forall>y\<in>set xs. cmp x y > 0 \<Longrightarrow> tree_insert_dup cmp (xs @ ys) x = xs @ tree_insert_dup cmp ys x"
  by (induction xs) auto

lemma insert_dup_first: "(ys = [] \<or> cmp x (hd ys) < 0) \<Longrightarrow> tree_insert_dup cmp ys x = x # ys"
  by (cases ys) auto

context avl_comparator
begin

lemma comp_le_less_trans:
  assumes "valid a" "valid b" "valid c" "cmp a b \<le> 0" "cmp b c < 0"
  shows "cmp a c < 0"
proof (rule ccontr)
  assume "\<not> cmp a c < 0"
  then have "cmp c a \<le> 0" using comp_swap [OF assms(3,1)] comp_zero_swap [OF assms(1,3)] by linarith
  from comp_trans [OF assms(3,1,2) this assms(4)] comp_swap [OF assms(3,2)] assms(5) show False by linarith
qed

text \<open>The search ends at a node that splits the tree at the key.\<close>

lemma find_rec_ok:
  assumes "t \<noteq> AvlNull" "sorted_wrt (\<lambda>a b. cmp (key a) (key b) < 0) (avl_inorder (avl_root parents t))"
    and "\<forall>x\<in>set (avl_inorder (avl_root parents t)). valid (key x)" "valid k"
    and "\<forall>x\<in>set (before_path parents). cmp k (key x) > 0" "\<forall>x\<in>set (after_path parents). cmp k (key x) < 0"
  shows "\<exists>p l b e r. avl_find_rec cmp key k parents t = Inr (p, AvlNode l b e r, cmp k (key e)) \<and>
    avl_root p (AvlNode l b e r) = avl_root parents t \<and>
    (\<forall>x\<in>set (before_path p @ avl_inorder l). cmp k (key x) > 0) \<and> (\<forall>x\<in>set (avl_inorder r @ after_path p). cmp k (key x) < 0) \<and>
    (cmp k (key e) < 0 \<longrightarrow> l = AvlNull) \<and> (cmp k (key e) > 0 \<longrightarrow> r = AvlNull)"
  using assms
proof (induction t arbitrary: parents)
  case (AvlNode l b e r)
  let ?xs = "before_path parents @ avl_inorder l @ [e] @ avl_inorder r @ after_path parents"
  have sorted: "sorted_wrt (\<lambda>a b. cmp (key a) (key b) < 0) ?xs" and v: "\<forall>x\<in>set ?xs. valid (key x)" "valid (key e)"
    using AvlNode.prems(2,3) by simp_all
  have less_e: "\<forall>x\<in>set (avl_inorder l). cmp (key x) (key e) < 0" "\<forall>x\<in>set (avl_inorder r). cmp (key e) (key x) < 0"
    using sorted by (auto simp: sorted_wrt_append)
  have r: "\<forall>x\<in>set (avl_inorder r). cmp k (key x) < 0" if "cmp k (key e) \<le> 0"
  proof
    fix x assume x: "x \<in> set (avl_inorder r)"
    then have "valid (key x)" using v(1) by simp
    moreover have "cmp (key e) (key x) < 0" using less_e(2) x by blast
    ultimately show "cmp k (key x) < 0" using comp_le_less_trans [OF AvlNode.prems(4) v(2)] that by blast
  qed
  have l: "\<forall>x\<in>set (avl_inorder l). cmp k (key x) > 0" if "cmp k (key e) \<ge> 0"
  proof
    fix x assume x: "x \<in> set (avl_inorder l)"
    then have x': "valid (key x)" using v(1) by simp
    have "cmp (key x) (key e) < 0" using less_e(1) x by blast
    moreover have "cmp (key e) k \<le> 0" using that comp_swap [OF v(2) AvlNode.prems(4)] comp_zero_swap [OF v(2) AvlNode.prems(4)] by linarith
    ultimately have "cmp (key x) k < 0" using comp_less_le_trans [OF x' v(2) AvlNode.prems(4)] by blast
    then show "cmp k (key x) > 0" using comp_swap [OF AvlNode.prems(4) x'] by blast
  qed
  have stop: ?case if "l = AvlNull \<or> cmp k (key e) \<ge> 0" "r = AvlNull \<or> cmp k (key e) \<le> 0"
  proof -
    have f: "avl_find_rec cmp key k parents (AvlNode l b e r) = Inr (parents, AvlNode l b e r, cmp k (key e))"
      using that by (auto simp: Let_def)
    show ?thesis
      by (rule exI [of _ parents], rule exI [of _ l], rule exI [of _ b], rule exI [of _ e], rule exI [of _ r])
        (use f that AvlNode.prems(5,6) l r in auto)
  qed
  show ?case
  proof (cases "cmp k (key e) < 0 \<and> l \<noteq> AvlNull")
    case True
    have "\<exists>p l' b' e' r'. avl_find_rec cmp key k (Left_Of b e r # parents) l = Inr (p, AvlNode l' b' e' r', cmp k (key e')) \<and>
      avl_root p (AvlNode l' b' e' r') = avl_root (Left_Of b e r # parents) l \<and>
      (\<forall>x\<in>set (before_path p @ avl_inorder l'). cmp k (key x) > 0) \<and> (\<forall>x\<in>set (avl_inorder r' @ after_path p). cmp k (key x) < 0) \<and>
      (cmp k (key e') < 0 \<longrightarrow> l' = AvlNull) \<and> (cmp k (key e') > 0 \<longrightarrow> r' = AvlNull)"
      by (rule AvlNode.IH(1)) (use True sorted v AvlNode.prems(4-6) r in auto)
    with True show ?thesis by (simp add: Let_def)
  next
    case nl: False
    show ?thesis
    proof (cases "cmp k (key e) > 0 \<and> r \<noteq> AvlNull")
      case True
      have "\<exists>p l' b' e' r'. avl_find_rec cmp key k (Right_Of l b e # parents) r = Inr (p, AvlNode l' b' e' r', cmp k (key e')) \<and>
        avl_root p (AvlNode l' b' e' r') = avl_root (Right_Of l b e # parents) r \<and>
        (\<forall>x\<in>set (before_path p @ avl_inorder l'). cmp k (key x) > 0) \<and> (\<forall>x\<in>set (avl_inorder r' @ after_path p). cmp k (key x) < 0) \<and>
        (cmp k (key e') < 0 \<longrightarrow> l' = AvlNull) \<and> (cmp k (key e') > 0 \<longrightarrow> r' = AvlNull)"
        by (rule AvlNode.IH(2)) (use True sorted v AvlNode.prems(4-6) l in auto)
      with True show ?thesis by (simp add: Let_def)
    next
      case False with nl show ?thesis by (intro stop) auto
    qed
  qed
qed simp

end

lemma map_fst_split: "map fst bs = xs @ e # ys \<Longrightarrow> \<exists>b1 fs b2. bs = b1 @ (e, fs) # b2 \<and> map fst b1 = xs \<and> map fst b2 = ys"
  by (auto simp: map_eq_append_conv map_eq_Cons_conv) blast

lemma flat_member: "x \<in> set (map fst (avl_flat bs)) \<Longrightarrow> \<exists>y gs. (y, gs) \<in> set bs \<and> (x = y \<or> x \<in> set gs)"
proof (induction bs)
  case (Cons b bs)
  obtain y gs where b: "b = (y, gs)" by (cases b)
  then consider "x = y \<or> x \<in> set gs" | "x \<in> set (map fst (avl_flat bs))" using Cons.prems by (auto simp: image_iff)
  then show ?case
  proof cases
    case 1 with b show ?thesis by (intro exI [of _ y] exI [of _ gs]) simp
  next
    case 2
    from Cons.IH [OF this] obtain z hs where "(z, hs) \<in> set bs" "x = z \<or> x \<in> set hs" by blast
    then show ?thesis by (intro exI [of _ z] exI [of _ hs]) simp
  qed
qed simp

context avl_comparator
begin

text \<open>Insertion: the list gets the new element where the reference puts it.\<close>

abbreviation elem_cmp :: "('e \<Rightarrow> 'k) \<Rightarrow> 'e \<Rightarrow> 'e \<Rightarrow> int" where
  "elem_cmp key a b \<equiv> cmp (key a) (key b)"

lemma find_in_tree:
  assumes ok: "avl_tree_ok (elem_cmp key) tree" and v: "\<forall>x\<in>set (avl_elements tree). valid (key x)" "valid k" and ne: "root tree \<noteq> AvlNull"
  obtains p l b e r bl1 fs bl2 where "avl_find_rec cmp key k [] (root tree) = Inr (p, AvlNode l b e r, cmp k (key e))"
    "root tree = avl_root p (AvlNode l b e r)" "list_head tree = avl_flat bl1 @ (e, False) # map (\<lambda>f. (f, True)) fs @ avl_flat bl2"
    "map fst bl1 = before_path p @ avl_inorder l" "map fst bl2 = avl_inorder r @ after_path p"
    "blocks_ok (elem_cmp key) (allow_dups tree) (bl1 @ (e, fs) # bl2)"
    "\<forall>x\<in>set (map fst (avl_flat bl1)). cmp k (key x) > 0" "\<forall>x\<in>set (map fst (avl_flat bl2)). cmp k (key x) < 0"
    "cmp k (key e) < 0 \<longrightarrow> l = AvlNull" "cmp k (key e) > 0 \<longrightarrow> r = AvlNull"
proof -
  obtain blocks where bl: "list_head tree = avl_flat blocks" "avl_inorder (root tree) = map fst blocks"
    "blocks_ok (elem_cmp key) (allow_dups tree) blocks" using ok by (auto simp: avl_tree_ok_def)
  have sub: "set (map fst blocks) \<subseteq> set (avl_elements tree)"
    by (auto simp: avl_elements_def bl(1) avl_flat_def split: prod.splits) force
  have so: "sorted_wrt (\<lambda>a b. cmp (key a) (key b) < 0) (avl_inorder (avl_root [] (root tree)))"
    using bl(2,3) by (simp add: blocks_ok_def)
  have va: "\<forall>x\<in>set (avl_inorder (avl_root [] (root tree))). valid (key x)" using sub v(1) bl(2) by auto
  have "\<forall>x\<in>set (before_path ([] :: 'a avl_parent list)). cmp k (key x) > 0" "\<forall>x\<in>set (after_path ([] :: 'a avl_parent list)). cmp k (key x) < 0"
    by simp_all
  from find_rec_ok [OF ne so va v(2) this] obtain p l b e r where f:
    "avl_find_rec cmp key k [] (root tree) = Inr (p, AvlNode l b e r, cmp k (key e))" "avl_root p (AvlNode l b e r) = root tree"
    "\<forall>x\<in>set (before_path p @ avl_inorder l). cmp k (key x) > 0" "\<forall>x\<in>set (avl_inorder r @ after_path p). cmp k (key x) < 0"
    "cmp k (key e) < 0 \<longrightarrow> l = AvlNull" "cmp k (key e) > 0 \<longrightarrow> r = AvlNull"
    unfolding avl_root.simps by blast
  have "map fst blocks = (before_path p @ avl_inorder l) @ e # (avl_inorder r @ after_path p)"
    using bl(2) by (simp flip: f(2))
  from map_fst_split [OF this] obtain bl1 fs bl2 where s: "blocks = bl1 @ (e, fs) # bl2" "map fst bl1 = before_path p @ avl_inorder l"
    "map fst bl2 = avl_inorder r @ after_path p"
    by blast
  have el: "set (map fst (avl_flat bl1)) \<subseteq> set (avl_elements tree)" "set (map fst (avl_flat bl2)) \<subseteq> set (avl_elements tree)"
    by (auto simp: avl_elements_def bl(1) s(1))
  have foll: "cmp (key y) (key g) = 0" if "(y, gs) \<in> set blocks" "g \<in> set gs" for y g gs
    using bl(3) that by (auto simp: blocks_ok_def)
  have mem: "\<exists>y gs. (y, gs) \<in> set bs \<and> (x = y \<or> x \<in> set gs)" if "x \<in> set (map fst (avl_flat bs))" for x bs
    using flat_member [OF that] .
  have b1: "cmp k (key x) > 0" if x: "x \<in> set (map fst (avl_flat bl1))" for x
  proof -
    from mem [OF x] obtain y gs where y: "(y, gs) \<in> set bl1" "x = y \<or> x \<in> set gs" by blast
    then have "y \<in> set (map fst bl1)" by force
    then have ky: "cmp k (key y) > 0" using f(3) s(2) by simp
    have vx: "valid (key x)" using el(1) x v(1) by blast
    have "y \<in> set (map fst blocks)" using y(1) s(1) by force
    then have vy: "valid (key y)" using sub v(1) by blast
    show ?thesis
    proof (cases "x = y")
      case False
      then have "cmp (key y) (key x) = 0" using foll y s(1) by auto
      then have "cmp (key x) (key y) \<le> 0" using comp_zero_swap [OF vx vy] by simp
      moreover have "cmp (key y) k < 0" using ky comp_swap [OF v(2) vy] by simp
      ultimately show ?thesis using comp_le_less_trans [OF vx vy v(2)] comp_swap [OF v(2) vx] by simp
    qed (use ky in simp)
  qed
  have b2: "cmp k (key x) < 0" if x: "x \<in> set (map fst (avl_flat bl2))" for x
  proof -
    from mem [OF x] obtain y gs where y: "(y, gs) \<in> set bl2" "x = y \<or> x \<in> set gs" by blast
    then have "y \<in> set (map fst bl2)" by force
    then have ky: "cmp k (key y) < 0" using f(4) s(3) by simp
    have vx: "valid (key x)" using el(2) x v(1) by blast
    have "y \<in> set (map fst blocks)" using y(1) s(1) by force
    then have vy: "valid (key y)" using sub v(1) by blast
    show ?thesis
    proof (cases "x = y")
      case False
      then have "cmp (key y) (key x) = 0" using foll y s(1) by auto
      then show ?thesis using comp_less_le_trans [OF v(2) vy vx ky] by simp
    qed (use ky in simp)
  qed
  show thesis
    by (rule that [OF f(1) f(2) [symmetric] _ s(2,3) _ _ _ f(5,6)]) (use bl s(1) b1 b2 in auto)
qed

lemma root_null:
  assumes "avl_tree_ok c tree" "root tree = AvlNull"
  shows "list_head tree = []"
  using assms by (auto simp: avl_tree_ok_def)

lemma insert_new:
  assumes "blocks_ok (elem_cmp key) (allow_dups tree) (b1 @ b2)" "avl_balanced t" "avl_inorder t = map fst (b1 @ (new, []) # b2)"
    and "distinct (map fst (avl_flat (b1 @ b2)))" "new \<notin> set (map fst (avl_flat (b1 @ b2)))"
    and "\<forall>x\<in>set (map fst (avl_flat b1)). cmp (key new) (key x) > 0" "\<forall>x\<in>set (map fst (avl_flat b2)). cmp (key new) (key x) < 0"
    and "\<forall>x\<in>set (map fst b1). cmp (key x) (key new) < 0"
    and "tree_count tree = of_nat (length (avl_flat (b1 @ b2)))"
  shows "avl_tree_ok (elem_cmp key) (tree\<lparr>list_head := avl_flat b1 @ (new, False) # avl_flat b2, tree_count := tree_count tree + 1, root := t\<rparr>)"
    "map fst (avl_flat b1 @ (new, False) # avl_flat b2) = tree_insert_dup (elem_cmp key) (map fst (avl_flat (b1 @ b2))) new"
proof -
  have sub: "set (map fst b2) \<subseteq> set (map fst (avl_flat b2))" by (auto simp: avl_flat_def image_iff split: prod.splits) force
  have lt: "cmp (key new) (key (fst x)) < 0" if "x \<in> set b2" for x
  proof -
    have "fst x \<in> set (map fst b2)" using that by simp
    with sub assms(7) show ?thesis by blast
  qed
  have "blocks_ok (elem_cmp key) (allow_dups tree) (b1 @ (new, []) # b2)"
    using assms(1,8) lt by (auto simp: blocks_ok_def sorted_wrt_append)
  moreover have "avl_flat (b1 @ (new, []) # b2) = avl_flat b1 @ (new, False) # avl_flat b2" by simp
  ultimately show "avl_tree_ok (elem_cmp key)
      (tree\<lparr>list_head := avl_flat b1 @ (new, False) # avl_flat b2, tree_count := tree_count tree + 1, root := t\<rparr>)"
    using assms(2-5,9) unfolding avl_tree_ok_def avl_elements_def
    by (intro conjI exI [of _ "b1 @ (new, []) # b2"]) (simp_all add: image_Un)
  have "tree_insert_dup (elem_cmp key) (map fst (avl_flat b1) @ map fst (avl_flat b2)) new =
      map fst (avl_flat b1) @ tree_insert_dup (elem_cmp key) (map fst (avl_flat b2)) new"
    by (rule insert_dup_append) (use assms(6) in simp)
  also have "tree_insert_dup (elem_cmp key) (map fst (avl_flat b2)) new = new # map fst (avl_flat b2)"
    by (rule insert_dup_first) (use assms(7) in \<open>cases "avl_flat b2"; simp\<close>)
  finally show "map fst (avl_flat b1 @ (new, False) # avl_flat b2) = tree_insert_dup (elem_cmp key) (map fst (avl_flat (b1 @ b2))) new" by simp
qed

lemma insert_ok:
  assumes ok: "avl_tree_ok (elem_cmp key) tree" and v: "\<forall>x\<in>set (avl_elements tree). valid (key x)" "valid (key new)"
    and new: "new \<notin> set (avl_elements tree)"
  shows "wp (avl_insert cmp key tree new) (\<lambda>_. False) (\<lambda>(result, tree').
    if \<not> allow_dups tree \<and> (\<exists>x\<in>set (avl_elements tree). cmp (key new) (key x) = 0) then result = -1 \<and> tree' = tree
    else result = 0 \<and> avl_tree_ok (elem_cmp key) tree' \<and> allow_dups tree' = allow_dups tree \<and>
      avl_elements tree' = tree_insert_dup (elem_cmp key) (avl_elements tree) new)"
proof (cases "root tree = AvlNull")
  case True
  have l: "list_head tree = []" by (rule root_null [OF ok True])
  have b: "blocks_ok c d [(new, [])]" for c d by (simp add: blocks_ok_def)
  have "avl_tree_ok (elem_cmp key) (tree\<lparr>list_head := [(new, False)], root := avl_leaf new, tree_count := 1\<rparr>)"
    unfolding avl_tree_ok_def by (intro conjI exI [of _ "[(new, [])]"]) (simp_all add: avl_leaf_def avl_elements_def b)
  then show ?thesis by (simp add: avl_insert_def True l avl_elements_def)
next
  case False
  from ok v False obtain p l b e r bl1 fs bl2 where f: "avl_find_rec cmp key (key new) [] (root tree) = Inr (p, AvlNode l b e r, cmp (key new) (key e))"
    and t: "root tree = avl_root p (AvlNode l b e r)"
    and h: "list_head tree = avl_flat bl1 @ (e, False) # map (\<lambda>f. (f, True)) fs @ avl_flat bl2"
    and m: "map fst bl1 = before_path p @ avl_inorder l" "map fst bl2 = avl_inorder r @ after_path p"
    and bo: "blocks_ok (elem_cmp key) (allow_dups tree) (bl1 @ (e, fs) # bl2)"
    and c: "\<forall>x\<in>set (map fst (avl_flat bl1)). cmp (key new) (key x) > 0" "\<forall>x\<in>set (map fst (avl_flat bl2)). cmp (key new) (key x) < 0"
    and n: "cmp (key new) (key e) < 0 \<longrightarrow> l = AvlNull" "cmp (key new) (key e) > 0 \<longrightarrow> r = AvlNull"
    by (rule find_in_tree [where k = "key new"])
  let ?d = "cmp (key new) (key e)"
  have el: "avl_elements tree = map fst (avl_flat bl1) @ e # fs @ map fst (avl_flat bl2)" by (simp add: avl_elements_def h comp_def)
  have hb: "list_head tree = avl_flat (bl1 @ (e, fs) # bl2)" by (simp add: h)
  have bal: "parents_balanced p (avl_height (AvlNode l b e r))" "avl_balanced (AvlNode l b e r)"
    using ok unfolding avl_tree_ok_def t balanced_root by blast+
  have balD: "b = avl_height r - avl_height l" "\<bar>b\<bar> \<le> 1" "avl_balanced l" "avl_balanced r"
    using bal(2) unfolding avl_balanced.simps by blast+
  have dist: "distinct (map fst (list_head tree))" and cnt: "tree_count tree = of_nat (length (list_head tree))"
    using ok by (simp_all add: avl_tree_ok_def avl_elements_def)
  have dist': "distinct (map fst (avl_flat (bl1 @ (e, fs) # bl2)))" and cnt': "tree_count tree = of_nat (length (avl_flat (bl1 @ (e, fs) # bl2)))"
    using dist cnt unfolding hb .
  have new': "new \<notin> set (map fst (avl_flat (bl1 @ (e, fs) # bl2)))" using new unfolding avl_elements_def hb .
  have ve: "valid (key e)" using v(1) el by simp
  have swap: "cmp (key x) (key new) < 0" if "x \<in> set (avl_elements tree)" "cmp (key new) (key x) > 0" for x
    using comp_swap [OF v(2), of "key x"] v(1) that by blast
  have lead: "cmp (key x) (key new) < 0" if "x \<in> set (map fst bl1)" for x
  proof -
    have "x \<in> set (map fst (avl_flat bl1))" using that by (auto simp: avl_flat_def image_iff split: prod.splits) force
    then show ?thesis using swap [of x] c(1) el by simp
  qed
  have foll: "cmp (key new) (key g) > 0" if "g \<in> set fs" "?d > 0" for g
  proof -
    have vg: "valid (key g)" using v(1) el that(1) by simp
    have "cmp (key e) (key g) = 0" using bo that(1) by (auto simp: blocks_ok_def)
    then have "cmp (key g) (key e) \<le> 0" using comp_zero_swap [OF ve vg] by simp
    moreover have "cmp (key e) (key new) < 0" using swap [of e] that(2) el by simp
    ultimately have "cmp (key g) (key new) < 0" using comp_le_less_trans [OF vg ve v(2)] by blast
    then show ?thesis using comp_swap [OF v(2) vg] by simp
  qed
  have e1: "e \<notin> fst ` set (avl_flat bl1)" using dist h by auto
  have add_before: "list_add_before e (new, False) (list_head tree) = avl_flat bl1 @ (new, False) # avl_flat ((e, fs) # bl2)"
    using add_before_append [OF e1] by (simp add: h)
  have add_behind: "list_add_after (avl_find_last (list_head tree) e) (new, False) (list_head tree) =
      avl_flat (bl1 @ [(e, fs)]) @ (new, False) # avl_flat bl2"
    using add_behind_block [of "avl_flat bl1" e fs bl2 "(new, False)"] dist unfolding h by simp
  show ?thesis
  proof (cases "?d = 0")
    case d: True
    show ?thesis
    proof (cases "allow_dups tree")
      case True
      let ?t = "tree\<lparr>list_head := avl_flat (bl1 @ (e, new # fs) # bl2), tree_count := tree_count tree + 1\<rparr>"
      have "avl_insert cmp key tree new = Inr (0, ?t)"
        using True d f add_after_append [OF e1] \<open>root tree \<noteq> AvlNull\<close> by (simp add: avl_insert_def Let_def avl_insert_after_def h)
      moreover have "blocks_ok (elem_cmp key) True (bl1 @ (e, new # fs) # bl2)"
        using bo d comp_zero_swap [OF ve v(2)] True by (auto simp: blocks_ok_def)
      then have "avl_tree_ok (elem_cmp key) ?t"
        using ok True t m dist' cnt' new' unfolding avl_tree_ok_def avl_elements_def
        by (intro conjI exI [of _ "bl1 @ (e, new # fs) # bl2"]) (auto simp: comp_def)
      moreover have "avl_elements ?t = tree_insert_dup (elem_cmp key) (avl_elements tree) new"
        unfolding el using insert_dup_append [of "map fst (avl_flat bl1)" "elem_cmp key" new] c(1) d by (simp add: avl_elements_def comp_def)
      ultimately show ?thesis using True by simp
    next
      case False
      then have "avl_insert cmp key tree new = Inr (-1, tree)"
        using d f \<open>root tree \<noteq> AvlNull\<close> by (simp add: avl_insert_def Let_def)
      moreover have "\<exists>x\<in>set (avl_elements tree). cmp (key new) (key x) = 0" using d el by auto
      ultimately show ?thesis using False by simp
    qed
  next
    case d: False
    have less: "cmp (key new) (key g) < 0" if "g \<in> set fs" "?d < 0" for g
    proof -
      have "cmp (key e) (key g) = 0" using bo that(1) by (auto simp: blocks_ok_def)
      then show ?thesis using comp_less_le_trans [OF v(2) ve, of "key g"] v(1) el that by simp
    qed
    have neq: "\<not> (\<exists>x\<in>set (avl_elements tree). cmp (key new) (key x) = 0)"
    proof
      assume "\<exists>x\<in>set (avl_elements tree). cmp (key new) (key x) = 0"
      then obtain x where x: "x \<in> set (avl_elements tree)" "cmp (key new) (key x) = 0" by blast
      then consider "x \<in> set (map fst (avl_flat bl1))" | "x = e" | "x \<in> set fs" | "x \<in> set (map fst (avl_flat bl2))" unfolding el by auto
      then show False
      proof cases
        case 3 then show False using x(2) foll [of x] less [of x] d by linarith
      qed (use x(2) c d in auto)
    qed
    have goal: ?thesis if "avl_insert cmp key tree new = Inr (0, tree\<lparr>list_head := avl_flat b1 @ (new, False) # avl_flat b2,
        tree_count := tree_count tree + 1, root := t'\<rparr>)" "b1 @ b2 = bl1 @ (e, fs) # bl2" "avl_balanced t'"
      "avl_inorder t' = map fst (b1 @ (new, []) # b2)" "\<forall>x\<in>set (map fst (avl_flat b1)). cmp (key new) (key x) > 0"
      "\<forall>x\<in>set (map fst (avl_flat b2)). cmp (key new) (key x) < 0" "\<forall>x\<in>set (map fst b1). cmp (key x) (key new) < 0" for b1 b2 t'
    proof -
      have "blocks_ok (elem_cmp key) (allow_dups tree) (b1 @ b2)" "distinct (map fst (avl_flat (b1 @ b2)))"
        "new \<notin> set (map fst (avl_flat (b1 @ b2)))" "tree_count tree = of_nat (length (avl_flat (b1 @ b2)))"
        using bo dist' new' cnt' unfolding that(2) .
      note i = insert_new [OF this(1) that(3,4) this(2,3) that(5-7) this(4)]
      have "map fst (avl_flat (b1 @ b2)) = avl_elements tree" unfolding that(2) avl_elements_def hb ..
      with i neq show ?thesis unfolding that(1) by (simp add: avl_elements_def)
    qed
    show ?thesis
    proof (cases "?d < 0")
      case True
      then have l: "l = AvlNull" using n by blast
      have b: "b = avl_height r" using balD(1) l by simp
      with balD(2) height_nonneg [of r] have b01: "b = 0 \<or> b = 1" by linarith
      have "\<exists>t'. avl_insert cmp key tree new = Inr (0, tree\<lparr>list_head := avl_flat bl1 @ (new, False) # avl_flat ((e, fs) # bl2),
          tree_count := tree_count tree + 1, root := t'\<rparr>) \<and> avl_balanced t' \<and>
          avl_inorder t' = before_path p @ [new] @ [e] @ avl_inorder r @ after_path p"
      proof (cases "b = 1")
        case b1: True
        have "avl_balanced (avl_root p (AvlNode (avl_leaf new) 0 e r))"
          using bal b b1 l unfolding balanced_root by (simp add: avl_leaf_def)
        then show ?thesis
          using True d f b1 \<open>root tree \<noteq> AvlNull\<close>
          by (intro exI [of _ "avl_root p (AvlNode (avl_leaf new) 0 e r)"]) (simp add: avl_insert_def Let_def avl_insert_before_def add_before avl_leaf_def)
      next
        case False
        then have b0: "b = 0" "avl_height r = 0" using b b01 by auto
        have "wp (avl_post_insert p (AvlNode (avl_leaf new) (-1) e r)) (\<lambda>_. False)
            (balanced_with (before_path p @ avl_inorder (AvlNode (avl_leaf new) (-1) e r) @ after_path p))"
          by (rule post_insert_ok) (use bal b0 l in \<open>simp_all add: avl_leaf_def\<close>)
        from wp_False_ex [OF this] obtain t' where "avl_post_insert p (AvlNode (avl_leaf new) (-1) e r) = Inr t'"
          "balanced_with (before_path p @ avl_inorder (AvlNode (avl_leaf new) (-1) e r) @ after_path p) t'" by blast
        then show ?thesis
          using True d f b0 \<open>root tree \<noteq> AvlNull\<close>
          by (intro exI [of _ t']) (simp add: avl_insert_def Let_def avl_insert_before_def add_before avl_leaf_def balanced_with_def)
      qed
      then obtain t' where t': "avl_insert cmp key tree new = Inr (0, tree\<lparr>list_head := avl_flat bl1 @ (new, False) # avl_flat ((e, fs) # bl2),
          tree_count := tree_count tree + 1, root := t'\<rparr>)" "avl_balanced t'"
          "avl_inorder t' = before_path p @ [new] @ [e] @ avl_inorder r @ after_path p" by blast
      show ?thesis
        by (rule goal [OF t'(1) refl t'(2)]) (use t'(3) m l c True less lead in \<open>auto simp: comp_def\<close>)
    next
      case False
      then have d: "?d > 0" using d by linarith
      then have r: "r = AvlNull" using n by blast
      have b: "b = - avl_height l" using balD(1) r by simp
      with balD(2) height_nonneg [of l] have b01: "b = 0 \<or> b = -1" by linarith
      have "\<exists>t'. avl_insert cmp key tree new = Inr (0, tree\<lparr>list_head := avl_flat (bl1 @ [(e, fs)]) @ (new, False) # avl_flat bl2,
          tree_count := tree_count tree + 1, root := t'\<rparr>) \<and> avl_balanced t' \<and>
          avl_inorder t' = before_path p @ avl_inorder l @ [e] @ [new] @ after_path p"
      proof (cases "b = -1")
        case b1: True
        have "avl_balanced (avl_root p (AvlNode l 0 e (avl_leaf new)))"
          using bal b b1 r unfolding balanced_root by (simp add: avl_leaf_def)
        then show ?thesis
          using d f b1 \<open>root tree \<noteq> AvlNull\<close>
          by (intro exI [of _ "avl_root p (AvlNode l 0 e (avl_leaf new))"]) (simp add: avl_insert_def Let_def avl_insert_after_def add_behind avl_leaf_def)
      next
        case False
        then have b0: "b = 0" "avl_height l = 0" using b b01 by auto
        have "wp (avl_post_insert p (AvlNode l 1 e (avl_leaf new))) (\<lambda>_. False)
            (balanced_with (before_path p @ avl_inorder (AvlNode l 1 e (avl_leaf new)) @ after_path p))"
          by (rule post_insert_ok) (use bal b0 r in \<open>simp_all add: avl_leaf_def\<close>)
        from wp_False_ex [OF this] obtain t' where "avl_post_insert p (AvlNode l 1 e (avl_leaf new)) = Inr t'"
          "balanced_with (before_path p @ avl_inorder (AvlNode l 1 e (avl_leaf new)) @ after_path p) t'" by blast
        then show ?thesis
          using d f b0 \<open>root tree \<noteq> AvlNull\<close>
          by (intro exI [of _ t']) (simp add: avl_insert_def Let_def avl_insert_after_def add_behind avl_leaf_def balanced_with_def)
      qed
      then obtain t' where t': "avl_insert cmp key tree new = Inr (0, tree\<lparr>list_head := avl_flat (bl1 @ [(e, fs)]) @ (new, False) # avl_flat bl2,
          tree_count := tree_count tree + 1, root := t'\<rparr>)" "avl_balanced t'"
          "avl_inorder t' = before_path p @ avl_inorder l @ [e] @ [new] @ after_path p" by blast
      have "cmp (key e) (key new) < 0" using swap [of e] d el by simp
      then show ?thesis
        by (intro goal [OF t'(1) _ t'(2)]) (use t'(3) m r c d foll lead in \<open>auto simp: comp_def\<close>)
    qed
  qed
qed

end

lemma find_append: "List.find P (xs @ ys) = (case List.find P xs of None \<Rightarrow> List.find P ys | Some x \<Rightarrow> Some x)"
  by (induction xs) auto

lemma find_none: "\<forall>x\<in>set xs. \<not> P x \<Longrightarrow> List.find P xs = None"
  by (simp add: find_None_iff)

lemma list_position_append: "e \<notin> set xs \<Longrightarrow> list_position e (xs @ e # ys) = length xs"
  by (induction xs) (auto simp: list_position_def)

text \<open>The walks, for a comparison that only ever decreases along the list.\<close>

lemma lessequal_left_ok:
  assumes "i < length xs" "\<And>i j. i \<le> j \<Longrightarrow> j < length xs \<Longrightarrow> cmp k (key (xs ! j)) \<ge> 0 \<Longrightarrow> cmp k (key (xs ! i)) \<ge> 0"
  shows "case lessequal_left cmp key k xs i (cmp k (key (xs ! i))) of
      None \<Rightarrow> \<forall>j<length xs. cmp k (key (xs ! j)) < 0
    | Some i' \<Rightarrow> i' < length xs \<and> cmp k (key (xs ! i')) \<ge> 0"
  using assms(1)
proof (induction i)
  case 0
  show ?case
  proof (cases "cmp k (key (xs ! 0)) < 0")
    case True
    then have "\<forall>j<length xs. cmp k (key (xs ! j)) < 0" using assms(2) [of 0] by (meson not_le zero_le)
    with True show ?thesis by (subst lessequal_left.simps) simp
  next
    case False with 0 show ?thesis by (subst lessequal_left.simps) simp
  qed
next
  case (Suc i)
  then show ?case by (subst lessequal_left.simps) (auto split: option.splits)
qed

lemma lessequal_right_ok:
  assumes "i < length xs" "cmp k (key (xs ! i)) \<ge> 0"
  shows "lessequal_right cmp key k xs i < length xs \<and> cmp k (key (xs ! lessequal_right cmp key k xs i)) \<ge> 0 \<and>
    (Suc (lessequal_right cmp key k xs i) < length xs \<longrightarrow> cmp k (key (xs ! Suc (lessequal_right cmp key k xs i))) < 0)"
  using assms
proof (induction "length xs - i" arbitrary: i rule: less_induct)
  case less
  show ?case
  proof (cases "Suc i < length xs \<and> cmp k (key (xs ! Suc i)) \<ge> 0")
    case True
    then have e: "lessequal_right cmp key k xs i = lessequal_right cmp key k xs (Suc i)" by (subst lessequal_right.simps) simp
    show ?thesis unfolding e by (rule less.hyps) (use True less.prems in auto)
  next
    case False
    then have "lessequal_right cmp key k xs i = i" by (subst lessequal_right.simps) auto
    with False less.prems show ?thesis by auto
  qed
qed

lemma greaterequal_right_ok:
  assumes "i < length xs" "\<And>i j. i \<le> j \<Longrightarrow> j < length xs \<Longrightarrow> cmp k (key (xs ! i)) \<le> 0 \<Longrightarrow> cmp k (key (xs ! j)) \<le> 0"
  shows "case greaterequal_right cmp key k xs i (cmp k (key (xs ! i))) of
      None \<Rightarrow> \<forall>j<length xs. cmp k (key (xs ! j)) > 0
    | Some i' \<Rightarrow> i' < length xs \<and> cmp k (key (xs ! i')) \<le> 0"
  using assms(1)
proof (induction "length xs - i" arbitrary: i rule: less_induct)
  case less
  show ?case
  proof (cases "cmp k (key (xs ! i)) > 0")
    case d: True
    show ?thesis
    proof (cases "Suc i < length xs")
      case True
      then have "greaterequal_right cmp key k xs i (cmp k (key (xs ! i))) = greaterequal_right cmp key k xs (Suc i) (cmp k (key (xs ! Suc i)))"
        using d by (subst greaterequal_right.simps) simp
      moreover have "case greaterequal_right cmp key k xs (Suc i) (cmp k (key (xs ! Suc i))) of
          None \<Rightarrow> \<forall>j<length xs. cmp k (key (xs ! j)) > 0 | Some i' \<Rightarrow> i' < length xs \<and> cmp k (key (xs ! i')) \<le> 0"
        by (rule less.hyps) (use True in auto)
      ultimately show ?thesis by simp
    next
      case False
      have "cmp k (key (xs ! j)) > 0" if "j < length xs" for j
      proof (rule ccontr)
        assume "\<not> cmp k (key (xs ! j)) > 0"
        with assms(2) [of j i] less.prems that False d show False by simp
      qed
      with False d show ?thesis by (subst greaterequal_right.simps) simp
    qed
  next
    case False with less.prems show ?thesis by (subst greaterequal_right.simps) simp
  qed
qed

lemma greaterequal_left_ok:
  assumes "i < length xs" "cmp k (key (xs ! i)) \<le> 0"
  shows "greaterequal_left cmp key k xs i < length xs \<and> cmp k (key (xs ! greaterequal_left cmp key k xs i)) \<le> 0 \<and>
    (\<forall>j. greaterequal_left cmp key k xs i = Suc j \<longrightarrow> cmp k (key (xs ! j)) > 0)"
  using assms
proof (induction i)
  case 0
  then show ?case by (subst (1 2 3) greaterequal_left.simps) simp
next
  case (Suc i)
  show ?case
  proof (cases "cmp k (key (xs ! i)) \<le> 0")
    case True
    then have e: "greaterequal_left cmp key k xs (Suc i) = greaterequal_left cmp key k xs i" by (subst greaterequal_left.simps) simp
    show ?thesis unfolding e by (rule Suc.IH) (use True Suc.prems in auto)
  next
    case False
    then have "greaterequal_left cmp key k xs (Suc i) = Suc i" by (subst greaterequal_left.simps) simp
    with False Suc.prems show ?thesis by auto
  qed
qed

context avl_comparator
begin

lemma flat_sorted:
  assumes "blocks_ok (elem_cmp key) d blocks" "\<forall>x\<in>set (map fst (avl_flat blocks)). valid (key x)"
  shows "sorted_wrt (\<lambda>a b. cmp (key a) (key b) \<le> 0) (map fst (avl_flat blocks))"
  using assms
proof (induction blocks)
  case (Cons b blocks)
  obtain e fs where b: "b = (e, fs)" by (cases b)
  have bo: "blocks_ok (elem_cmp key) d blocks" "\<forall>f\<in>set fs. cmp (key e) (key f) = 0" "\<forall>x\<in>set (map fst blocks). cmp (key e) (key x) < 0"
    using Cons.prems(1) b by (auto simp: blocks_ok_def)
  have v: "valid (key e)" "\<forall>f\<in>set fs. valid (key f)" "\<forall>x\<in>set (map fst (avl_flat blocks)). valid (key x)" using Cons.prems(2) b by auto
  have foll: "cmp (key y) (key g) = 0" if "(y, gs) \<in> set blocks" "g \<in> set gs" for y g gs
    using bo(1) that by (auto simp: blocks_ok_def)
  have e_le: "cmp (key e) (key x) \<le> 0" if x: "x \<in> set (map fst (avl_flat blocks))" for x
  proof -
    from flat_member [OF x] obtain y gs where y: "(y, gs) \<in> set blocks" "x = y \<or> x \<in> set gs" by blast
    have yl: "y \<in> set (map fst (avl_flat blocks))" using y(1) by (force simp: avl_flat_def)
    have "y \<in> set (map fst blocks)" using y(1) by force
    then have ey: "cmp (key e) (key y) \<le> 0" using bo(3) by fastforce
    show ?thesis
    proof (cases "x = y")
      case False
      then have "cmp (key y) (key x) \<le> 0" using foll y by fastforce
      then show ?thesis using comp_trans [OF v(1) _ _ ey] v(3) yl x by blast
    qed (use ey in simp)
  qed
  have f_le: "cmp (key f) (key x) \<le> 0" if f: "f \<in> set fs" and x: "x \<in> set fs \<union> set (map fst (avl_flat blocks))" for f x
  proof -
    have "cmp (key f) (key e) \<le> 0" using bo(2) f comp_zero_swap [OF v(1), of "key f"] v(2) by fastforce
    moreover have "cmp (key e) (key x) \<le> 0" using bo(2) e_le x by fastforce
    moreover have "valid (key x)" using v x by blast
    ultimately show ?thesis using comp_trans [of "key f" "key e" "key x"] v(1,2) f by blast
  qed
  have "sorted_wrt (\<lambda>a b. cmp (key a) (key b) \<le> 0) fs" if "set gs \<subseteq> set fs" "fs = gs" for gs
    using f_le by (auto simp: sorted_wrt_iff_nth_less)
  then have "sorted_wrt (\<lambda>a b. cmp (key a) (key b) \<le> 0) fs" by blast
  with Cons.IH [OF bo(1) v(3)] e_le f_le bo(2) show ?case by (auto simp: b sorted_wrt_append comp_def)
qed simp

lemma elements_sorted:
  assumes "avl_tree_ok (elem_cmp key) tree" "\<forall>x\<in>set (avl_elements tree). valid (key x)"
  shows "sorted_wrt (\<lambda>a b. cmp (key a) (key b) \<le> 0) (avl_elements tree)"
proof -
  obtain blocks where "list_head tree = avl_flat blocks" "blocks_ok (elem_cmp key) (allow_dups tree) blocks"
    using assms(1) by (auto simp: avl_tree_ok_def)
  with flat_sorted [of key _ blocks] assms(2) show ?thesis by (simp add: avl_elements_def)
qed

lemma elements_decrease:
  assumes "avl_tree_ok (elem_cmp key) tree" "\<forall>x\<in>set (avl_elements tree). valid (key x)" "valid k" "i \<le> j" "j < length (avl_elements tree)"
  shows "cmp k (key (avl_elements tree ! j)) \<ge> 0 \<Longrightarrow> cmp k (key (avl_elements tree ! i)) \<ge> 0"
    "cmp k (key (avl_elements tree ! i)) \<le> 0 \<Longrightarrow> cmp k (key (avl_elements tree ! j)) \<le> 0"
proof -
  let ?a = "key (avl_elements tree ! i)" and ?b = "key (avl_elements tree ! j)"
  have v: "valid ?a" "valid ?b" using assms(2,4,5) by simp_all
  have le: "cmp ?a ?b \<le> 0"
    using sorted_wrt_nth_less [OF elements_sorted [OF assms(1,2)], of i j] assms(4,5) comp_refl [OF v(1)] by (cases "i = j") auto
  have s: "cmp x k \<le> 0 \<longleftrightarrow> cmp k x \<ge> 0" if "valid x" for x
    using comp_swap [OF that assms(3)] by (simp add: linorder_not_less [symmetric])
  show "cmp k ?b \<ge> 0 \<Longrightarrow> cmp k ?a \<ge> 0" using comp_trans [OF v assms(3) le] s v by blast
  show "cmp k ?a \<le> 0 \<Longrightarrow> cmp k ?b \<le> 0" using comp_trans [OF assms(3) v _ le] by blast
qed

end

context avl_comparator
begin

text \<open>The search in the list of elements.\<close>

lemma find_splits:
  assumes "avl_tree_ok (elem_cmp key) tree" "\<forall>x\<in>set (avl_elements tree). valid (key x)" "valid k" "root tree \<noteq> AvlNull"
  obtains p l b e r xs ys where "avl_find_rec cmp key k [] (root tree) = Inr (p, AvlNode l b e r, cmp k (key e))"
    "avl_elements tree = xs @ e # ys" "e \<notin> set xs" "\<forall>x\<in>set xs. cmp k (key x) > 0" "cmp k (key e) \<noteq> 0 \<Longrightarrow> \<forall>x\<in>set ys. cmp k (key x) \<noteq> 0"
proof -
  from assms obtain p l b e r bl1 fs bl2 where f: "avl_find_rec cmp key k [] (root tree) = Inr (p, AvlNode l b e r, cmp k (key e))"
    and h: "list_head tree = avl_flat bl1 @ (e, False) # map (\<lambda>f. (f, True)) fs @ avl_flat bl2"
    and bo: "blocks_ok (elem_cmp key) (allow_dups tree) (bl1 @ (e, fs) # bl2)"
    and c: "\<forall>x\<in>set (map fst (avl_flat bl1)). cmp k (key x) > 0" "\<forall>x\<in>set (map fst (avl_flat bl2)). cmp k (key x) < 0"
    by (rule find_in_tree [where k = k])
  have el: "avl_elements tree = map fst (avl_flat bl1) @ e # fs @ map fst (avl_flat bl2)" by (simp add: avl_elements_def h comp_def)
  have ve: "valid (key e)" using assms(2) el by simp
  have fz: "cmp k (key g) = 0 \<longleftrightarrow> cmp k (key e) = 0" if "g \<in> set fs" for g
  proof -
    have vg: "valid (key g)" using assms(2) el that by simp
    have eg: "cmp (key e) (key g) = 0" "cmp (key g) (key e) = 0"
      using bo that comp_zero_swap [OF ve vg] by (auto simp: blocks_ok_def)
    have z: "cmp k x = 0 \<longleftrightarrow> cmp k x \<le> 0 \<and> cmp x k \<le> 0" if "valid x" for x
      using comp_swap [OF assms(3) that] comp_swap [OF that assms(3)] by linarith
    have "cmp k (key g) \<le> 0 \<longleftrightarrow> cmp k (key e) \<le> 0"
      using comp_trans [OF assms(3) ve vg] comp_trans [OF assms(3) vg ve] eg by auto
    moreover have "cmp (key g) k \<le> 0 \<longleftrightarrow> cmp (key e) k \<le> 0"
      using comp_trans [OF ve vg assms(3)] comp_trans [OF vg ve assms(3)] eg by auto
    ultimately show ?thesis using z [OF vg] z [OF ve] by blast
  qed
  have "distinct (avl_elements tree)" using assms(1) by (simp add: avl_tree_ok_def)
  then have "e \<notin> set (map fst (avl_flat bl1))" using el by auto
  moreover have "\<forall>x\<in>set (fs @ map fst (avl_flat bl2)). cmp k (key x) \<noteq> 0" if "cmp k (key e) \<noteq> 0"
    using that fz c(2) by fastforce
  ultimately show thesis using that [OF f el _ c(1)] by blast
qed

lemma find_ok:
  assumes "avl_tree_ok (elem_cmp key) tree" "\<forall>x\<in>set (avl_elements tree). valid (key x)" "valid k"
  shows "avl_find cmp key tree k = Inr (List.find (\<lambda>x. cmp k (key x) = 0) (avl_elements tree))"
proof (cases "root tree = AvlNull")
  case True
  with root_null [OF assms(1)] show ?thesis by (simp add: avl_find_def avl_elements_def)
next
  case False
  from assms False obtain p l b e r xs ys where f: "avl_find_rec cmp key k [] (root tree) = Inr (p, AvlNode l b e r, cmp k (key e))"
    and el: "avl_elements tree = xs @ e # ys" and c: "\<forall>x\<in>set xs. cmp k (key x) > 0" "cmp k (key e) \<noteq> 0 \<Longrightarrow> \<forall>x\<in>set ys. cmp k (key x) \<noteq> 0"
    by (rule find_splits) blast
  have "List.find (\<lambda>x. cmp k (key x) = 0) xs = None" by (rule find_none) (use c(1) in auto)
  moreover have "List.find (\<lambda>x. cmp k (key x) = 0) ys = None" if "cmp k (key e) \<noteq> 0"
    by (rule find_none) (use c(2) that in auto)
  ultimately show ?thesis using False f by (simp add: avl_find_def el find_append)
qed

lemma lessequal_ok:
  assumes "avl_tree_ok (elem_cmp key) tree" "\<forall>x\<in>set (avl_elements tree). valid (key x)" "valid k"
  shows "\<exists>r. avl_find_lessequal cmp key tree k = Inr r \<and>
    (case r of None \<Rightarrow> \<forall>x\<in>set (avl_elements tree). cmp k (key x) < 0
     | Some x \<Rightarrow> \<exists>i<length (avl_elements tree). avl_elements tree ! i = x \<and>
         (\<forall>j<length (avl_elements tree). cmp k (key (avl_elements tree ! j)) \<ge> 0 \<longleftrightarrow> j \<le> i))"
proof (cases "root tree = AvlNull")
  case True
  with root_null [OF assms(1)] show ?thesis by (simp add: avl_find_lessequal_def avl_elements_def)
next
  case False
  let ?xs = "avl_elements tree"
  from assms False obtain p l b e r as bs where f: "avl_find_rec cmp key k [] (root tree) = Inr (p, AvlNode l b e r, cmp k (key e))"
    and el: "?xs = as @ e # bs" and e: "e \<notin> set as" by (rule find_splits) blast
  have pos: "list_position e ?xs = length as" using list_position_append [OF e] el by simp
  have i: "length as < length ?xs" "?xs ! length as = e" using el by simp_all
  note dec = elements_decrease [OF assms]
  have left: "case lessequal_left cmp key k ?xs (length as) (cmp k (key e)) of None \<Rightarrow> \<forall>j<length ?xs. cmp k (key (?xs ! j)) < 0
    | Some i' \<Rightarrow> i' < length ?xs \<and> cmp k (key (?xs ! i')) \<ge> 0"
    using lessequal_left_ok [where xs = ?xs and cmp = cmp and key = key and k = k, OF i(1)] dec(1) i(2) by simp
  show ?thesis
  proof (cases "lessequal_left cmp key k ?xs (length as) (cmp k (key e))")
    case None
    then have "\<forall>x\<in>set ?xs. cmp k (key x) < 0" using left by (auto simp: in_set_conv_nth)
    with None False f show ?thesis by (simp add: avl_find_lessequal_def Let_def pos)
  next
    case (Some i')
    then have i': "i' < length ?xs" "cmp k (key (?xs ! i')) \<ge> 0" using left by simp_all
    let ?r = "lessequal_right cmp key k ?xs i'"
    have r: "?r < length ?xs" "cmp k (key (?xs ! ?r)) \<ge> 0" "Suc ?r < length ?xs \<longrightarrow> cmp k (key (?xs ! Suc ?r)) < 0"
      using lessequal_right_ok [where xs = ?xs and cmp = cmp and key = key and k = k, OF i'] by simp_all
    have "cmp k (key (?xs ! j)) \<ge> 0 \<longleftrightarrow> j \<le> ?r" if j: "j < length ?xs" for j
    proof
      assume c: "cmp k (key (?xs ! j)) \<ge> 0"
      show "j \<le> ?r"
      proof (rule ccontr)
        assume "\<not> j \<le> ?r"
        then have "Suc ?r \<le> j" by simp
        with dec(1) [OF this j c] r(3) j show False by simp
      qed
    qed (use dec(1) [OF _ r(1,2)] in simp)
    with r(1) have "\<exists>i<length ?xs. ?xs ! i = ?xs ! ?r \<and> (\<forall>j<length ?xs. cmp k (key (?xs ! j)) \<ge> 0 \<longleftrightarrow> j \<le> i)" by blast
    moreover have "avl_find_lessequal cmp key tree k = Inr (Some (?xs ! ?r))"
      using Some False f by (simp add: avl_find_lessequal_def Let_def pos)
    ultimately show ?thesis by simp
  qed
qed

lemma greaterequal_ok:
  assumes "avl_tree_ok (elem_cmp key) tree" "\<forall>x\<in>set (avl_elements tree). valid (key x)" "valid k"
  shows "\<exists>r. avl_find_greaterequal cmp key tree k = Inr r \<and>
    (case r of None \<Rightarrow> \<forall>x\<in>set (avl_elements tree). cmp k (key x) > 0
     | Some x \<Rightarrow> \<exists>i<length (avl_elements tree). avl_elements tree ! i = x \<and>
         (\<forall>j<length (avl_elements tree). cmp k (key (avl_elements tree ! j)) \<le> 0 \<longleftrightarrow> i \<le> j))"
proof (cases "root tree = AvlNull")
  case True
  with root_null [OF assms(1)] show ?thesis by (simp add: avl_find_greaterequal_def avl_elements_def)
next
  case False
  let ?xs = "avl_elements tree"
  from assms False obtain p l b e r as bs where f: "avl_find_rec cmp key k [] (root tree) = Inr (p, AvlNode l b e r, cmp k (key e))"
    and el: "?xs = as @ e # bs" and e: "e \<notin> set as" by (rule find_splits) blast
  have pos: "list_position e ?xs = length as" using list_position_append [OF e] el by simp
  have i: "length as < length ?xs" "?xs ! length as = e" using el by simp_all
  note dec = elements_decrease [OF assms]
  have right: "case greaterequal_right cmp key k ?xs (length as) (cmp k (key e)) of None \<Rightarrow> \<forall>j<length ?xs. cmp k (key (?xs ! j)) > 0
    | Some i' \<Rightarrow> i' < length ?xs \<and> cmp k (key (?xs ! i')) \<le> 0"
    using greaterequal_right_ok [where xs = ?xs and cmp = cmp and key = key and k = k, OF i(1)] dec(2) i(2) by simp
  show ?thesis
  proof (cases "greaterequal_right cmp key k ?xs (length as) (cmp k (key e))")
    case None
    then have "\<forall>x\<in>set ?xs. cmp k (key x) > 0" using right by (auto simp: in_set_conv_nth)
    with None False f show ?thesis by (simp add: avl_find_greaterequal_def Let_def pos)
  next
    case (Some i')
    then have i': "i' < length ?xs" "cmp k (key (?xs ! i')) \<le> 0" using right by simp_all
    let ?r = "greaterequal_left cmp key k ?xs i'"
    have r: "?r < length ?xs" "cmp k (key (?xs ! ?r)) \<le> 0" "\<forall>j. ?r = Suc j \<longrightarrow> cmp k (key (?xs ! j)) > 0"
      using greaterequal_left_ok [where xs = ?xs and cmp = cmp and key = key and k = k, OF i'] by simp_all
    have "cmp k (key (?xs ! j)) \<le> 0 \<longleftrightarrow> ?r \<le> j" if j: "j < length ?xs" for j
    proof
      assume c: "cmp k (key (?xs ! j)) \<le> 0"
      show "?r \<le> j"
      proof (rule ccontr)
        assume n: "\<not> ?r \<le> j"
        then obtain m where m: "?r = Suc m" by (cases ?r) auto
        then have "j \<le> m" "m < length ?xs" using n r(1) by simp_all
        with dec(2) [OF this c] r(3) m show False by simp
      qed
    qed (use dec(2) [OF _ j r(2)] in simp)
    with r(1) have "\<exists>i<length ?xs. ?xs ! i = ?xs ! ?r \<and> (\<forall>j<length ?xs. cmp k (key (?xs ! j)) \<le> 0 \<longleftrightarrow> i \<le> j)" by blast
    moreover have "avl_find_greaterequal cmp key tree k = Inr (Some (?xs ! ?r))"
      using Some False f by (simp add: avl_find_greaterequal_def Let_def pos)
    ultimately show ?thesis by simp
  qed
qed

end

lemma locate_none: "e \<notin> set (avl_inorder t) \<Longrightarrow> avl_locate e parents t = None"
  by (induction t arbitrary: parents) auto

lemma locate_ok:
  "e \<in> set (avl_inorder t) \<Longrightarrow> \<exists>p l b r. avl_locate e parents t = Some (p, AvlNode l b e r) \<and>
    avl_root p (AvlNode l b e r) = avl_root parents t"
proof (induction t arbitrary: parents)
  case (AvlNode l b x r)
  show ?case
  proof (cases "x = e")
    case False
    show ?thesis
    proof (cases "e \<in> set (avl_inorder l)")
      case True
      from AvlNode.IH(1) [OF this, of "Left_Of b x r # parents"] False show ?thesis by auto
    next
      case nl: False
      then have "e \<in> set (avl_inorder r)" using AvlNode.prems False by auto
      from AvlNode.IH(2) [OF this, of "Right_Of l b x # parents"] False locate_none [OF nl] show ?thesis by auto
    qed
  qed simp
qed simp

lemma local_min_ok:
  "t \<noteq> AvlNull \<Longrightarrow> \<exists>q mb m mr. avl_local_min p t = (q, AvlNode AvlNull mb m mr) \<and>
    avl_root q (AvlNode AvlNull mb m mr) = avl_root p t \<and> before_path q = before_path p"
proof (induction t arbitrary: p)
  case (AvlNode l b x r)
  show ?case
  proof (cases "l = AvlNull")
    case False
    from AvlNode.IH(1) [OF this, of "Left_Of b x r # p"] False show ?thesis by auto
  qed simp
qed simp

lemma remove_leaf_post: "avl_remove_leaf parents = avl_post_remove parents AvlNull"
  by (cases parents rule: avl_remove_leaf.cases) (simp_all add: Let_def)

lemma remove_simple_ok:
  assumes "parents_balanced p (avl_height (AvlNode l b e r))" "avl_balanced (AvlNode l b e r)" "l = AvlNull \<or> r = AvlNull"
  shows "wp (avl_remove_simple p (AvlNode l b e r)) (\<lambda>_. False) (balanced_with (before_path p @ avl_inorder l @ avl_inorder r @ after_path p))"
proof -
  have b: "avl_balanced l" "avl_balanced r" using assms(2) by simp_all
  have "wp (avl_post_remove p (if l = AvlNull then r else l)) (\<lambda>_. False)
      (balanced_with (before_path p @ avl_inorder (if l = AvlNull then r else l) @ after_path p))"
    by (rule post_remove_ok) (use assms(1,3) b in \<open>auto simp: add.commute max_absorb1 max_absorb2\<close>)
  then show ?thesis using assms(3) remove_leaf_post [of p] by (cases "l = AvlNull"; cases "r = AvlNull") simp_all
qed

lemma take_place_simps:
  "avl_height (avl_take_place e m t) = avl_height t" "avl_balanced (avl_take_place e m t) = avl_balanced t"
  "avl_inorder (avl_take_place e m t) = map (\<lambda>x. if x = e then m else x) (avl_inorder t)"
proof -
  have h: "avl_height (avl_take_place e m t) = avl_height t" for t by (induction t) (simp_all add: avl_take_place_def)
  then show "avl_height (avl_take_place e m t) = avl_height t" .
  show "avl_balanced (avl_take_place e m t) = avl_balanced t" by (induction t) (use h in \<open>simp_all add: avl_take_place_def\<close>)
  show "avl_inorder (avl_take_place e m t) = map (\<lambda>x. if x = e then m else x) (avl_inorder t)"
    by (induction t) (simp_all add: avl_take_place_def)
qed

lemma take_place_id: "e \<notin> set xs \<Longrightarrow> map (\<lambda>x. if x = e then m else x) xs = xs"
  by (induction xs) auto

lemma remove_worker_ok:
  assumes "avl_balanced (avl_root p (AvlNode l b e r))" "distinct (avl_inorder (avl_root p (AvlNode l b e r)))"
  shows "wp (avl_remove_worker p (AvlNode l b e r)) (\<lambda>_. False)
    (balanced_with (before_path p @ avl_inorder l @ avl_inorder r @ after_path p))"
proof (cases "l = AvlNull \<or> r = AvlNull")
  case True
  have pb: "parents_balanced p (avl_height (AvlNode l b e r))" "avl_balanced (AvlNode l b e r)"
    using assms(1) unfolding balanced_root by blast+
  from remove_simple_ok [OF this True] True show ?thesis by simp
next
  case False
  then have "r \<noteq> AvlNull" by blast
  from local_min_ok [OF this, of "Right_Of l b e # p"] obtain q mb m mr where m:
    "avl_local_min (Right_Of l b e # p) r = (q, AvlNode AvlNull mb m mr)"
    "avl_root q (AvlNode AvlNull mb m mr) = avl_root p (AvlNode l b e r)"
    "before_path q = before_path p @ avl_inorder l @ [e]" by auto
  have "avl_inorder (avl_root q (AvlNode AvlNull mb m mr)) = avl_inorder (avl_root p (AvlNode l b e r))" unfolding m(2) ..
  then have i: "[m] @ avl_inorder mr @ after_path q = avl_inorder r @ after_path p" by (simp add: m(3))
  have "parents_balanced q (avl_height (AvlNode AvlNull mb m mr))" "avl_balanced (AvlNode AvlNull mb m mr)"
    using assms(1) unfolding m(2) [symmetric] balanced_root by blast+
  from wp_False_ex [OF remove_simple_ok [OF this]] obtain t where
    t: "avl_remove_simple q (AvlNode AvlNull mb m mr) = Inr t" "avl_balanced t" "avl_inorder t = before_path q @ avl_inorder mr @ after_path q"
    by (auto simp: balanced_with_def)
  have e: "e \<notin> set (before_path p @ avl_inorder l)" "e \<notin> set (avl_inorder mr @ after_path q)"
  proof -
    have "e \<notin> set (avl_inorder r @ after_path p)" using assms(2) by simp
    then show "e \<notin> set (avl_inorder mr @ after_path q)" unfolding i [symmetric] by simp
  qed (use assms(2) in simp)
  have "avl_inorder (avl_take_place e m t) = before_path p @ avl_inorder l @ [m] @ avl_inorder mr @ after_path q"
    unfolding take_place_simps t(3) m(3) using e by (simp add: take_place_id)
  also have "\<dots> = before_path p @ avl_inorder l @ avl_inorder r @ after_path p" unfolding i ..
  finally have "balanced_with (before_path p @ avl_inorder l @ avl_inorder r @ after_path p) (avl_take_place e m t)"
    using t(2) by (simp add: balanced_with_def take_place_simps)
  with False t(1) show ?thesis by (simp add: m(1))
qed

lemma map_of_flat: "distinct (map fst xs) \<Longrightarrow> (e, f) \<in> set xs \<Longrightarrow> map_of xs e = Some f"
  by simp

lemma split_unique: "distinct (xs @ e # ys) \<Longrightarrow> xs @ e # ys = xs' @ e # ys' \<Longrightarrow> xs = xs' \<and> ys = ys'"
  by (subst (asm) append_Cons_eq_iff) auto

lemma remove1_split: "e \<notin> set xs \<Longrightarrow> remove1 e (xs @ e # ys) = xs @ ys"
  by (simp add: remove1_append)

lemma flat_leaders_subset: "set (map fst blocks) \<subseteq> set (map fst (avl_flat blocks))"
  by (force simp: avl_flat_def)

lemma flat_leaders: "distinct (map fst (avl_flat blocks)) \<Longrightarrow> distinct (map fst blocks)"
proof (induction blocks)
  case (Cons b blocks)
  then show ?case using flat_leaders_subset [of blocks] by (cases b) auto
qed simp

context avl_comparator
begin

lemma blocks_ok_drop: "blocks_ok c d (b1 @ b # b2) \<Longrightarrow> blocks_ok c d (b1 @ b2)"
  by (auto simp: blocks_ok_def sorted_wrt_append)

lemma blocks_ok_replace:
  assumes "blocks_ok c d (b1 @ (y, gs) # b2)" "hs \<noteq> [] \<longrightarrow> d" "\<forall>f\<in>set hs. c y f = 0"
  shows "blocks_ok c d (b1 @ (y, hs) # b2)"
  using assms unfolding blocks_ok_def by (simp add: sorted_wrt_append) blast

lemma remove_ok:
  assumes ok: "avl_tree_ok (elem_cmp key) tree" and v: "\<forall>x\<in>set (avl_elements tree). valid (key x)" and e: "e \<in> set (avl_elements tree)"
  shows "wp (avl_remove tree e) (\<lambda>_. False) (\<lambda>tree'. avl_tree_ok (elem_cmp key) tree' \<and> allow_dups tree' = allow_dups tree \<and>
    avl_elements tree' = remove1 e (avl_elements tree))"
proof -
  obtain blocks where bl: "list_head tree = avl_flat blocks" "avl_inorder (root tree) = map fst blocks"
    "blocks_ok (elem_cmp key) (allow_dups tree) blocks" using ok by (auto simp: avl_tree_ok_def)
  have dist: "distinct (map fst (avl_flat blocks))" and bal: "avl_balanced (root tree)"
    and cnt: "tree_count tree = of_nat (length (avl_flat blocks))"
    using ok bl(1) by (simp_all add: avl_tree_ok_def avl_elements_def)
  have "e \<in> set (map fst (avl_flat blocks))" using e bl(1) by (simp add: avl_elements_def)
  from flat_member [OF this] obtain y gs where y: "(y, gs) \<in> set blocks" "e = y \<or> e \<in> set gs" by blast
  from split_list [OF y(1)] obtain b1 b2 where s: "blocks = b1 @ (y, gs) # b2" by blast
  have fl: "avl_flat blocks = avl_flat b1 @ (y, False) # map (\<lambda>f. (f, True)) gs @ avl_flat b2" by (simp add: s)
  have fin: "wp (Inr (tree\<lparr>root := t, list_head := avl_flat bl', tree_count := tree_count tree - 1\<rparr>)) (\<lambda>_. False)
      (\<lambda>tree'. avl_tree_ok (elem_cmp key) tree' \<and> allow_dups tree' = allow_dups tree \<and> avl_elements tree' = remove1 e (avl_elements tree))"
    if "avl_balanced t" "avl_inorder t = map fst bl'" "blocks_ok (elem_cmp key) (allow_dups tree) bl'"
      "map fst (avl_flat bl') = remove1 e (map fst (avl_flat blocks))" for t bl'
  proof -
    have d: "distinct (map fst (avl_flat bl'))" unfolding that(4) using dist by (rule distinct_remove1)
    have "length (map fst (avl_flat bl')) = length (avl_flat blocks) - 1"
      unfolding that(4) using \<open>e \<in> set (map fst (avl_flat blocks))\<close> by (simp add: length_remove1)
    moreover obtain n where "length (avl_flat blocks) = Suc n" using \<open>e \<in> set (map fst (avl_flat blocks))\<close> by (cases "avl_flat blocks") auto
    ultimately have "tree_count tree - 1 = of_nat (length (avl_flat bl'))" using cnt by simp
    with that(1-3) d have "avl_tree_ok (elem_cmp key) (tree\<lparr>root := t, list_head := avl_flat bl', tree_count := tree_count tree - 1\<rparr>)"
      unfolding avl_tree_ok_def avl_elements_def by (intro conjI exI [of _ bl']) simp_all
    with that(4) show ?thesis by (simp add: avl_elements_def bl(1))
  qed
  have y1: "y \<notin> fst ` set (avl_flat b1)" using dist fl by auto
  show ?thesis
  proof (cases "e = y")
    case False
    then have "e \<in> set gs" using y(2) by blast
    then obtain g1 g2 where g: "gs = g1 @ e # g2" by (auto simp: in_set_conv_decomp)
    have m: "map_of (list_head tree) e = Some True" unfolding bl(1) by (rule map_of_flat [OF dist]) (simp add: fl g)
    have e1: "e \<notin> fst ` set (avl_flat b1 @ (y, False) # map (\<lambda>f. (f, True)) g1)"
      using dist unfolding fl g by (auto simp: image_iff)
    have l: "list_remove e (list_head tree) = avl_flat (b1 @ (y, g1 @ g2) # b2)"
      using remove_append [OF e1, of True "map (\<lambda>f. (f, True)) g2 @ avl_flat b2"] by (simp add: bl(1) fl g)
    have "avl_remove tree e = Inr (tree\<lparr>root := root tree, list_head := avl_flat (b1 @ (y, g1 @ g2) # b2), tree_count := tree_count tree - 1\<rparr>)"
      using m l by (simp add: avl_remove_def)
    moreover have "blocks_ok (elem_cmp key) (allow_dups tree) (b1 @ (y, g1 @ g2) # b2)"
    proof (rule blocks_ok_replace)
      show "blocks_ok (elem_cmp key) (allow_dups tree) (b1 @ (y, gs) # b2)" using bl(3) unfolding s .
      have "allow_dups tree" "\<forall>f\<in>set gs. elem_cmp key y f = 0" using bl(3) unfolding s g by (simp_all add: blocks_ok_def)
      then show "g1 @ g2 \<noteq> [] \<longrightarrow> allow_dups tree" "\<forall>f\<in>set (g1 @ g2). elem_cmp key y f = 0" unfolding g by auto
    qed
    moreover have "map fst (avl_flat (b1 @ (y, g1 @ g2) # b2)) = remove1 e (map fst (avl_flat blocks))"
    proof -
      have "e \<notin> set (map fst (avl_flat b1 @ (y, False) # map (\<lambda>f. (f, True)) g1))" using e1 unfolding set_map .
      from remove1_split [OF this, of "map fst (map (\<lambda>f. (f, True)) g2 @ avl_flat b2)"]
      show ?thesis unfolding fl g by (simp add: comp_def)
    qed
    ultimately show ?thesis
      using fin [OF bal, of "b1 @ (y, g1 @ g2) # b2"] bl(2) s by simp
  next
    case ey: True
    have m: "map_of (list_head tree) e = Some False" unfolding bl(1) by (rule map_of_flat [OF dist]) (simp add: fl ey)
    have beh: "list_behind e (list_head tree) = map (\<lambda>f. (f, True)) gs @ avl_flat b2"
      unfolding bl(1) fl ey by (rule behind_append [OF y1])
    show ?thesis
    proof (cases gs)
      case Nil
      have nf: "next_follower e (list_head tree) = None"
        unfolding next_follower_def beh Nil by (cases b2) auto
      have "e \<in> set (avl_inorder (root tree))" using bl(2) s ey by simp
      from locate_ok [OF this, of "[]"] obtain p l b r where loc: "avl_locate e [] (root tree) = Some (p, AvlNode l b e r)"
        "avl_root p (AvlNode l b e r) = root tree" by auto
      have di: "distinct (avl_inorder (avl_root p (AvlNode l b e r)))"
        unfolding loc(2) bl(2) by (rule flat_leaders [OF dist])
      have bp: "avl_balanced (avl_root p (AvlNode l b e r))" unfolding loc(2) by (rule bal)
      from wp_False_ex [OF remove_worker_ok [OF bp di]] obtain t where
        t: "avl_remove_worker p (AvlNode l b e r) = Inr t" "avl_balanced t"
          "avl_inorder t = before_path p @ avl_inorder l @ avl_inorder r @ after_path p" by (auto simp: balanced_with_def)
      have "map fst blocks = (before_path p @ avl_inorder l) @ e # (avl_inorder r @ after_path p)"
        using bl(2) by (simp flip: loc(2))
      then have "map fst b1 @ e # map fst b2 = (before_path p @ avl_inorder l) @ e # (avl_inorder r @ after_path p)"
        using s ey by simp
      moreover have "distinct (map fst b1 @ e # map fst b2)" using flat_leaders [OF dist] unfolding s ey by simp
      ultimately have "map fst b1 = before_path p @ avl_inorder l \<and> map fst b2 = avl_inorder r @ after_path p"
        by (intro split_unique)
      then have ti: "avl_inorder t = map fst (b1 @ b2)" using t(3) by simp
      have l: "list_remove e (list_head tree) = avl_flat (b1 @ b2)"
        using remove_append [OF y1, of False "avl_flat b2"] by (simp add: bl(1) fl Nil ey)
      have "avl_remove tree e = Inr (tree\<lparr>root := t, list_head := avl_flat (b1 @ b2), tree_count := tree_count tree - 1\<rparr>)"
        using m nf loc(1) t(1) l by (simp add: avl_remove_def)
      moreover have "map fst (avl_flat (b1 @ b2)) = remove1 e (map fst (avl_flat blocks))"
        using y1 unfolding fl Nil ey by (simp add: remove1_append)
      moreover have "blocks_ok (elem_cmp key) (allow_dups tree) (b1 @ b2)"
        using bl(3) unfolding s by (rule blocks_ok_drop)
      ultimately show ?thesis using fin [OF t(2) ti] by simp
    next
      case (Cons n hs)
      have ad: "allow_dups tree" using bl(3) Cons unfolding s by (auto simp: blocks_ok_def)
      have nf: "next_follower e (list_head tree) = Some n" unfolding next_follower_def beh Cons by simp
      have n: "n \<notin> fst ` set (avl_flat b1)" "n \<noteq> y" "n \<notin> set hs" "n \<notin> fst ` set (avl_flat b2)"
        using dist unfolding fl Cons by auto
      let ?f = "\<lambda>x. if fst x = n then (n, False) else x"
      have idf: "map ?f xs = xs" if "n \<notin> fst ` set xs" for xs :: "('a \<times> bool) list"
        using that by (induction xs) auto
      have "map ?f (list_head tree) = avl_flat b1 @ (y, False) # (n, False) # map (\<lambda>f. (f, True)) hs @ avl_flat b2"
        unfolding bl(1) fl Cons using n idf by (simp add: image_image) blast
      then have l: "list_remove e (map ?f (list_head tree)) = avl_flat (b1 @ (n, hs) # b2)"
        using remove_append [OF y1, of False] by (simp add: ey)
      have "avl_remove tree e = Inr (tree\<lparr>root := avl_take_place e n (root tree), list_head := avl_flat (b1 @ (n, hs) # b2),
          tree_count := tree_count tree - 1\<rparr>)"
        using m nf ad l by (simp add: avl_remove_def)
      moreover have "avl_balanced (avl_take_place e n (root tree))" using bal by (simp add: take_place_simps)
      moreover have "avl_inorder (avl_take_place e n (root tree)) = map fst (b1 @ (n, hs) # b2)"
      proof -
        have "y \<notin> set (map fst b1)" "y \<notin> set (map fst b2)" using flat_leaders [OF dist] unfolding s by auto
        then show ?thesis unfolding take_place_simps bl(2) s ey by (simp add: take_place_id del: map_map)
      qed
      moreover have "blocks_ok (elem_cmp key) (allow_dups tree) (b1 @ (n, hs) # b2)"
      proof -
        have vl: "valid (key x)" if "x \<in> set (map fst (avl_flat blocks))" for x using v that unfolding avl_elements_def bl(1) by blast
        have vy: "valid (key y)" "valid (key n)" "\<forall>h\<in>set hs. valid (key h)" using vl unfolding fl Cons by auto
        have vb: "valid (key x)" if "x \<in> set (map fst b1) \<union> set (map fst b2)" for x
          using vl [of x] flat_leaders_subset [of b1] flat_leaders_subset [of b2] that unfolding fl map_append set_append list.map list.set by blast
        have yn: "cmp (key y) (key n) = 0" "\<forall>h\<in>set hs. cmp (key y) (key h) = 0"
          using bl(3) Cons unfolding s by (auto simp: blocks_ok_def)
        then have ny: "cmp (key n) (key y) = 0" using comp_zero_swap [OF vy(1,2)] by simp
        have o: "\<forall>x\<in>set (map fst b1). cmp (key x) (key y) < 0" "\<forall>x\<in>set (map fst b2). cmp (key y) (key x) < 0"
          using bl(3) unfolding s by (auto simp: blocks_ok_def sorted_wrt_append)
        have "cmp (key x) (key n) < 0" if "x \<in> set (map fst b1)" for x
          using comp_less_le_trans [of "key x" "key y" "key n"] vb vy that o(1) yn(1) by (metis UnI1 order_refl)
        moreover have "cmp (key n) (key x) < 0" if "x \<in> set (map fst b2)" for x
          using comp_le_less_trans [of "key n" "key y" "key x"] vb vy that o(2) ny by (metis UnI2 order_refl)
        moreover have "cmp (key n) (key h) = 0" if "h \<in> set hs" for h
        proof -
          have vh: "valid (key h)" using vy(3) that by blast
          have "cmp (key n) (key h) \<le> 0" using comp_trans [OF vy(2,1) vh] ny yn(2) that by simp
          moreover have "cmp (key h) (key y) = 0" using yn(2) that comp_zero_swap [OF vy(1) vh] by simp
          then have "cmp (key h) (key n) \<le> 0" using comp_trans [OF vh vy(1,2)] yn(1) by simp
          ultimately show ?thesis using comp_swap [OF vh vy(2)] by linarith
        qed
        ultimately show ?thesis using bl(3) ad unfolding s blocks_ok_def by (simp add: sorted_wrt_append)
      qed
      moreover have "map fst (avl_flat (b1 @ (n, hs) # b2)) = remove1 e (map fst (avl_flat blocks))"
        using y1 unfolding fl Cons ey by (simp add: remove1_append comp_def)
      ultimately show ?thesis by (simp only: fin)
    qed
  qed
qed

end

subsection \<open>Height and reachable trees\<close>

lemma balanced_height:
  assumes "avl_balanced t"
  shows "2 ^ (nat (avl_height t) div 2) \<le> length (avl_inorder t) + 1 \<and>
    2 ^ (nat (avl_height t) div 2) + 2 ^ ((nat (avl_height t) + 1) div 2) \<le> 2 * length (avl_inorder t) + 2"
  using assms
proof (induction t)
  case (AvlNode l b e r)
  define hl hr where h: "hl = nat (avl_height l)" "hr = nat (avl_height r)"
  define nl nr where n: "nl = length (avl_inorder l)" "nr = length (avl_inorder r)"
  have H: "nat (avl_height (AvlNode l b e r)) = Suc (max hl hr)" by (simp add: h nat_add_distrib max_def)
  have "hl = hr \<or> hl = Suc hr \<or> hr = Suc hl" using AvlNode.prems by (auto simp: h)
  moreover have IH: "2 ^ (hl div 2) \<le> nl + 1" "2 ^ (hl div 2) + 2 ^ ((hl + 1) div 2) \<le> 2 * nl + 2"
    "2 ^ (hr div 2) \<le> nr + 1" "2 ^ (hr div 2) + 2 ^ ((hr + 1) div 2) \<le> 2 * nr + 2"
    using AvlNode by (simp_all add: h n)
  ultimately show ?case unfolding H by (elim disjE) (simp_all flip: n)
qed simp

text \<open>The trees that insertions of new elements and removals of contained ones make of an empty tree.\<close>

inductive avl_reachable :: "('k \<Rightarrow> 'k \<Rightarrow> int) \<Rightarrow> ('e \<Rightarrow> 'k) \<Rightarrow> ('k \<Rightarrow> bool) \<Rightarrow> bool \<Rightarrow> 'e avl_tree \<Rightarrow> bool"
  for cmp key valid dups where
  reach_init: "avl_reachable cmp key valid dups (avl_init dups)"
| reach_insert: "avl_reachable cmp key valid dups tree \<Longrightarrow> new \<notin> set (avl_elements tree) \<Longrightarrow> valid (key new) \<Longrightarrow>
    avl_insert cmp key tree new = Inr (result, tree') \<Longrightarrow> avl_reachable cmp key valid dups tree'"
| reach_remove: "avl_reachable cmp key valid dups tree \<Longrightarrow> e \<in> set (avl_elements tree) \<Longrightarrow>
    avl_remove tree e = Inr tree' \<Longrightarrow> avl_reachable cmp key valid dups tree'"

context avl_comparator
begin

lemma reachable_ok:
  assumes "avl_reachable cmp key valid dups tree"
  shows "avl_tree_ok (elem_cmp key) tree \<and> (\<forall>x\<in>set (avl_elements tree). valid (key x)) \<and> allow_dups tree = dups"
  using assms
proof induction
  case reach_init
  show ?case by (simp add: avl_tree_ok_def avl_init_def avl_elements_def blocks_ok_def exI [of _ "[]"])
next
  case (reach_insert tree new result tree')
  then have "wp (avl_insert cmp key tree new) (\<lambda>_. False) (\<lambda>(result, tree').
    if \<not> allow_dups tree \<and> (\<exists>x\<in>set (avl_elements tree). cmp (key new) (key x) = 0) then result = -1 \<and> tree' = tree
    else result = 0 \<and> avl_tree_ok (elem_cmp key) tree' \<and> allow_dups tree' = allow_dups tree \<and>
      avl_elements tree' = tree_insert_dup (elem_cmp key) (avl_elements tree) new)" by (intro insert_ok) blast+
  with reach_insert show ?case by (auto split: if_splits)
next
  case (reach_remove tree e tree')
  then have "wp (avl_remove tree e) (\<lambda>_. False) (\<lambda>tree'. avl_tree_ok (elem_cmp key) tree' \<and> allow_dups tree' = allow_dups tree \<and>
    avl_elements tree' = remove1 e (avl_elements tree))" by (intro remove_ok) blast+
  with reach_remove show ?case by (auto dest: notin_set_remove1)
qed

end

lemma leaders_fewer: "length blocks \<le> length (avl_flat blocks)"
  by (induction blocks) auto

subsection \<open>Properties\<close>

text \<open>C35: Inserting a new element into a well-formed tree never touches a missing node. If the tree takes no duplicates and
  has an element of the same key, the result is -1 and the tree is as before. Otherwise the result is 0, the tree is well
  formed again (balances stored correctly, subtrees differing by at most one, list and tree in step, element count) and its
  elements are those before with the new one at its place in the ordered list.\<close>

theorem avl_insert_refines_ordered_list:
  assumes "avl_comparator valid cmp" "avl_tree_ok (\<lambda>a b. cmp (key a) (key b)) tree" "\<forall>x\<in>set (avl_elements tree). valid (key x)"
    "valid (key new)" "new \<notin> set (avl_elements tree)"
  shows "\<exists>result tree'. avl_insert cmp key tree new = Inr (result, tree') \<and>
    (if \<not> allow_dups tree \<and> (\<exists>x\<in>set (avl_elements tree). cmp (key new) (key x) = 0) then result = -1 \<and> tree' = tree
     else result = 0 \<and> avl_tree_ok (\<lambda>a b. cmp (key a) (key b)) tree' \<and> allow_dups tree' = allow_dups tree \<and>
       avl_elements tree' = tree_insert_dup (\<lambda>a b. cmp (key a) (key b)) (avl_elements tree) new)"
  using wp_False_ex [OF avl_comparator.insert_ok [OF assms]] by auto

definition demo_keys :: "nat \<Rightarrow> u32" where
  "demo_keys n = of_nat (n div 2)"

definition demo_build :: "bool \<Rightarrow> nat list \<Rightarrow> nat avl_tree" where
  "demo_build dups ns = fold (\<lambda>n tree. case avl_insert avl_comp_uint32 demo_keys tree n of Inr (_, tree') \<Rightarrow> tree' | Inl _ \<Rightarrow> tree) ns (avl_init dups)"

lemma demo_build_reachable:
  assumes "distinct ns"
  shows "avl_reachable avl_comp_uint32 demo_keys (\<lambda>_. True) dups (demo_build dups ns) \<and> set (avl_elements (demo_build dups ns)) \<subseteq> set ns"
  using assms
proof (induction ns rule: rev_induct)
  case Nil
  show ?case by (simp add: demo_build_def reach_init) (simp add: avl_elements_def avl_init_def)
next
  case (snoc n ns)
  let ?t = "demo_build dups ns"
  have r: "avl_reachable avl_comp_uint32 demo_keys (\<lambda>_. True) dups ?t" and s: "set (avl_elements ?t) \<subseteq> set ns"
    using snoc by simp_all
  have n: "n \<notin> set (avl_elements ?t)" using s snoc.prems by auto
  note ok = conjunct1 [OF cmp_u32.reachable_ok [OF r]]
  obtain result tree' where i: "avl_insert avl_comp_uint32 demo_keys ?t n = Inr (result, tree')"
    "set (avl_elements tree') \<subseteq> insert n (set (avl_elements ?t))"
    using wp_False_ex [OF cmp_u32.insert_ok [OF ok _ _ n]] by (fastforce split: if_splits)
  have "demo_build dups (ns @ [n]) = tree'" using i(1) by (simp add: demo_build_def)
  moreover have "avl_reachable avl_comp_uint32 demo_keys (\<lambda>_. True) dups tree'" using reach_insert [OF r n _ i(1)] by simp
  ultimately show ?case using i(2) s by auto
qed

lemmas demo_tree_ok = conjunct1 [OF cmp_u32.reachable_ok [OF conjunct1 [OF demo_build_reachable]]]

lemma avl_insert_refines_ordered_list_witness:
  "\<exists>tree'. avl_insert avl_comp_uint32 demo_keys (demo_build True [2, 6, 4]) 3 = Inr (0, tree') \<and> avl_elements tree' = [2, 3, 4, 6]"
proof -
  have "avl_elements (demo_build True [2, 6, 4]) = [2, 4, 6]" "allow_dups (demo_build True [2, 6, 4])"
    "tree_insert_dup (\<lambda>a b. avl_comp_uint32 (demo_keys a) (demo_keys b)) [2, 4, 6] 3 = [2, 3, 4, 6]" by code_simp+
  then show ?thesis
    using avl_insert_refines_ordered_list [OF cmp_u32.avl_comparator_axioms demo_tree_ok [of "[2, 6, 4]" True], of 3] by auto
qed

text \<open>C36: Removing an element of a well-formed tree, whether it is in the tree, is the first of several with its key or
  stands behind one, never touches a missing node and never meets a follower in a tree without duplicates. The tree is
  well formed again and its elements are those before without the removed one, in the same order.\<close>

theorem avl_remove_refines_ordered_list:
  assumes "avl_comparator valid cmp" "avl_tree_ok (\<lambda>a b. cmp (key a) (key b)) tree" "\<forall>x\<in>set (avl_elements tree). valid (key x)"
    "e \<in> set (avl_elements tree)"
  shows "\<exists>tree'. avl_remove tree e = Inr tree' \<and> avl_tree_ok (\<lambda>a b. cmp (key a) (key b)) tree' \<and>
    allow_dups tree' = allow_dups tree \<and> avl_elements tree' = remove1 e (avl_elements tree)"
  using wp_False_ex [OF avl_comparator.remove_ok [OF assms]] by auto

lemma avl_remove_refines_ordered_list_witness:
  "\<exists>tree'. avl_remove (demo_build True [2, 6, 4, 3]) 2 = Inr tree' \<and> avl_elements tree' = [3, 4, 6]"
proof -
  have "avl_elements (demo_build True [2, 6, 4, 3]) = [2, 3, 4, 6]" by code_simp
  then show ?thesis
    using avl_remove_refines_ordered_list [OF cmp_u32.avl_comparator_axioms demo_tree_ok [of "[2, 6, 4, 3]" True], of 2] by auto
qed

text \<open>C37: The lookups of a well-formed tree: \<open>avl_find\<close> gives the first element of the ordered list with the key,
  \<open>avl_find_lessequal\<close> the last one that is not greater, and \<open>avl_find_greaterequal\<close> the first one that is not less;
  each gives none just when there is no such element, and none touches a missing node.\<close>

theorem avl_lookups_correct:
  assumes "avl_comparator valid cmp" "avl_tree_ok (\<lambda>a b. cmp (key a) (key b)) tree" "\<forall>x\<in>set (avl_elements tree). valid (key x)" "valid k"
  shows "avl_find cmp key tree k = Inr (List.find (\<lambda>x. cmp k (key x) = 0) (avl_elements tree)) \<and>
    (\<exists>r. avl_find_lessequal cmp key tree k = Inr r \<and>
      (case r of None \<Rightarrow> \<forall>x\<in>set (avl_elements tree). cmp k (key x) < 0
       | Some x \<Rightarrow> \<exists>i<length (avl_elements tree). avl_elements tree ! i = x \<and>
           (\<forall>j<length (avl_elements tree). cmp k (key (avl_elements tree ! j)) \<ge> 0 \<longleftrightarrow> j \<le> i))) \<and>
    (\<exists>r. avl_find_greaterequal cmp key tree k = Inr r \<and>
      (case r of None \<Rightarrow> \<forall>x\<in>set (avl_elements tree). cmp k (key x) > 0
       | Some x \<Rightarrow> \<exists>i<length (avl_elements tree). avl_elements tree ! i = x \<and>
           (\<forall>j<length (avl_elements tree). cmp k (key (avl_elements tree ! j)) \<le> 0 \<longleftrightarrow> i \<le> j)))"
  using avl_comparator.find_ok [OF assms] avl_comparator.lessequal_ok [OF assms] avl_comparator.greaterequal_ok [OF assms] by blast

lemma avl_lookups_correct_witness:
  "avl_find avl_comp_uint32 demo_keys (demo_build True [2, 6, 4, 3]) 2 = Inr (Some 4)"
proof -
  have "avl_elements (demo_build True [2, 6, 4, 3]) = [2, 3, 4, 6]"
    "List.find (\<lambda>x. avl_comp_uint32 2 (demo_keys x) = 0) [2, 3, 4, 6] = Some 4" by code_simp+
  then show ?thesis
    using avl_lookups_correct [OF cmp_u32.avl_comparator_axioms demo_tree_ok [of "[2, 6, 4, 3]" True], of 2] by simp
qed

text \<open>C38: Every tree made of an empty one by insertions of new elements and removals of contained ones is well formed: its
  stored balances are -1, 0 or 1 and right, list and tree are in step, the keys ascend; and the tree is low: a tree of height h
  has at least 2 to the power of h div 2, less one, elements.\<close>

theorem avl_reachable_balanced:
  assumes "avl_comparator valid cmp" "avl_reachable cmp key valid dups tree"
  shows "avl_tree_ok (\<lambda>a b. cmp (key a) (key b)) tree \<and> (\<forall>x\<in>set (avl_elements tree). valid (key x)) \<and> allow_dups tree = dups \<and>
    2 ^ (nat (avl_height (root tree)) div 2) \<le> length (avl_elements tree) + 1"
proof -
  note ok = avl_comparator.reachable_ok [OF assms]
  then have "length (avl_inorder (root tree)) \<le> length (avl_elements tree)" "avl_balanced (root tree)"
    by (auto simp: avl_tree_ok_def avl_elements_def leaders_fewer)
  with ok balanced_height [of "root tree"] show ?thesis by auto
qed

lemma avl_reachable_balanced_witness:
  "avl_tree_ok (\<lambda>a b. avl_comp_uint32 (demo_keys a) (demo_keys b)) (demo_build True [2, 6, 4, 3])"
proof -
  have "distinct [2, 6, 4, 3::nat]" by simp
  note r = conjunct1 [OF demo_build_reachable [OF this, of True]]
  show ?thesis using avl_reachable_balanced [OF cmp_u32.avl_comparator_axioms r] by blast
qed

end
