(* ===== verification/Spec2Isabelle.thy ===== *)
theory Spec2Isabelle
  imports Rfc5444_Conv Duplicate_Set Rfc5444_Reader_Memory Rfc5444_Pkt_Generator Olsrv2_Dijkstra Mpr_Graphs Avl_Tree
begin

text \<open>
  \<^bold>\<open>OONF: a verification library for the OLSR.org network framework.\<close>

  OONF is a framework for mesh routing daemons in C. The router \<^verbatim>\<open>olsrd2\<close> built on it exchanges RFC 5444 packets:
  NHDP (RFC 6130) learns links and neighbors from Hello messages, each router selects multipoint relays (MPRs) among its neighbors,
  OLSRv2 (RFC 7181) floods TC messages into a topology database, and Dijkstra's algorithm over that database fills the routing table.
  The library models the parts on that way that compute: reading and writing of packets, the values in them, the suppression of
  duplicates, MPR selection, the topology database, the shortest paths, and the trees and addresses they all use.

  \<^bold>\<open>Theories and sources\<close> (paths under \<^verbatim>\<open>src/\<close>; a function keeps its name, less a leading underscore; a loop or a part of a long function
  that is a definition of its own is named after what it does)

  \<^item> \<open>Oonf_Prelude\<close>: word types at their width, memory faults (\<open>fault\<close>, a null pointer, a bad access, a division by zero) as the
    left of a sum with its bind and its weakest precondition \<open>wp\<close>, lemmas on lists, bits and wrap-around.
  \<^item> \<open>Netaddr\<close>: \<^verbatim>\<open>src/libcommon/netaddr.c\<close> and \<^verbatim>\<open>netaddr.h\<close>, the binary half: addresses of 16 bytes with type and prefix length.
  \<^item> \<open>Avl_Spec\<close>: \<^verbatim>\<open>src/libcommon/avl_comp.c\<close>; the interface of a comparator (locales \<open>avl_comparator\<close>, \<open>avl_key\<close>) and a tree as the
    ordered list of its elements, with what insertion and lookup do to that list.
  \<^item> \<open>Avl_Tree\<close>: \<^verbatim>\<open>src/libcommon/avl.c\<close>: the trees themselves, balances, rotations and the list threaded through the nodes.
  \<^item> \<open>Bitmap256\<close>: \<^verbatim>\<open>bitmap256.h\<close>, \<^verbatim>\<open>src/libcommon/bitmap256.c\<close>.
  \<^item> \<open>Rfc5444_Conv\<close>: \<^verbatim>\<open>src/librfc5444/rfc5444.c\<close>: time and metric values, sequence numbers.
  \<^item> \<open>Rfc5444_Parse\<close>, \<open>Rfc5444_Reader\<close>, \<open>Rfc5444_Reader_Safety\<close>, \<open>Rfc5444_Reader_Memory\<close>: \<^verbatim>\<open>src/librfc5444/rfc5444_reader.c\<close>: the bytes
    (TLVs, TLV blocks, address blocks, headers), the consumers with their sort orders and callbacks, and the theorems on both: bounds and
    faults, and what is allocated and freed.
  \<^item> \<open>Rfc5444_Tlv_Writer\<close>, \<open>Rfc5444_Pkt_Generator\<close>: \<^verbatim>\<open>rfc5444_tlv_writer.c\<close>, \<^verbatim>\<open>rfc5444_pkt_generator.c\<close>.
  \<^item> \<open>Duplicate_Set\<close>: \<^verbatim>\<open>src/base/oonf_duplicate_set.c\<close>, over \<open>Avl_Spec\<close>.
  \<^item> \<open>Os_Routing\<close>: route keys (\<^verbatim>\<open>src/base/os_generic/os_routing_generic_*\<close>); addresses and keys as instances of \<open>linorder\<close>.
  \<^item> \<open>Nhdp_Data\<close>: the records of \<^verbatim>\<open>nhdp_db.h\<close>, \<^verbatim>\<open>nhdp_domain.h\<close>, \<^verbatim>\<open>nhdp_interfaces.h\<close> as one state with numbered objects.
  \<^item> \<open>Mpr\<close>, \<open>Mpr_Selection\<close>, \<open>Mpr_Graphs\<close>: \<^verbatim>\<open>src/nhdp/mpr/\<close>: the selection over an abstract graph (\<^verbatim>\<open>selection-rfc7181.c\<close>,
    \<^verbatim>\<open>neighbor-graph.c\<close>), and the flooding and the routing graph that implement it with the callbacks of \<^verbatim>\<open>mpr.c\<close>.
  \<^item> \<open>Olsrv2_Tc\<close>, \<open>Olsrv2_Tc_Safety\<close>: \<^verbatim>\<open>src/olsrv2/olsrv2/olsrv2_tc.c\<close>, a graph of nodes, edges with inverses, attachments, endpoints.
  \<^item> \<open>Olsrv2_Local\<close>: \<^verbatim>\<open>olsrv2_originator.c\<close>, \<^verbatim>\<open>olsrv2_lan.c\<close>.
  \<^item> \<open>Olsrv2_Dijkstra\<close>: the shortest path part of \<^verbatim>\<open>olsrv2_routing.c\<close>, over the topology database, the NHDP neighbors and \<open>Olsrv2_Local\<close>.

  \<^bold>\<open>How the code appears in the model.\<close> Integers have their width and wrap around; pointers into a buffer, its length and the sizes in
  the reader and the packet generator (at most 65535 and a few header bytes) are natural numbers, and the \<open>size_t\<close> values of the TLV writer, which a caller
  chooses, are reduced modulo \<open>2 ^ 64\<close>. So reading or writing outside a buffer is a value (\<open>Inl\<close> a fault), as are null and dangling pointers and divisions by zero.
  State is passed explicitly; error codes are the source's. An object reached by pointers that may dangle has a number in a map, and a
  freed one is not in the map. A tree of the code is the list or the map in key order that \<open>Avl_Tree\<close> shows it to be. A timer is the
  time it was last set to, or whether it runs. Callbacks of consumers, the hardware and the operating system are parameters.

  \<^bold>\<open>Interfaces.\<close> \<open>avl_comparator\<close> and \<open>avl_key\<close> state what a tree needs of its comparator; they are interpreted on the comparators for
  integers, addresses, duplicate keys, route keys, TLV orders and the Dijkstra queue. \<open>mpr_costs\<close> and \<open>mpr_graph\<close> state what the selection needs of a
  graph; they are interpreted on the flooding and the routing graph. \<open>edge_remover\<close> states what removing the edges of a node relies
  on; it is interpreted on the removal by a validity timeout and by the cleanup.

  \<^bold>\<open>What is shown\<close>

  \<^item> Packets: the reader takes a packet apart that the generator put together into the same header and TLVs. For any input of bytes, parsing a TLV block or an
    address block reads only inside the buffer and consumes input, except on the listed inputs, where the model shows the read
    past the end, the overflow or the division by zero; scheduling the consumers of a block terminates and touches no missing TLV; a malformed message reaches no
    message callback; every entry allocated for a packet is freed; all outcomes of handling a packet are listed. A TLV write session stays in its
    buffer as long as the lengths do not wrap around.
  \<^item> Values: encoding a time or a metric gives the least code that is not smaller; the order of sequence numbers;
    the duplicate test against a history of received numbers.
  \<^item> Trees: insertion, removal and the three lookups of \<open>avl.c\<close> do what the ordered list does, never fault, keep the tree
    balanced, and the height is logarithmic.
  \<^item> MPRs: for a well-formed NHDP state the selection returns and the selected neighbors cover every two-hop neighbor at the least cost; a routing graph
    with a neighbor of willingness ALWAYS faults.
  \<^item> Topology: every sequence of operations keeps the invariant of the database (inverse edges, endpoints, no dangling pointers) and does not
    fault, apart from the named cases; what a timeout keeps.
  \<^item> Routes: a run ends, and after it a target is done exactly if it is reachable, with the cost of a shortest path and the first hop of such a
    path. Whether its routing entry is written depends on the kind of run: a source-specific prefix of several nodes is left out. The model
    records a null best link or originator in \<open>dj_fault\<close> and goes on, where the code would crash; NHDP sets the best link together with the
    outgoing metric that makes a neighbor usable.

  \<^bold>\<open>Bounds.\<close> Loops end by a measure, the rest of the buffer or of the list, the number of undone targets for Dijkstra's loop, or the uncovered addresses for
  the selection. Only the walk to the end of a chain of TLVs has fuel, the number of TLVs of the block
  plus one, which no chain without a cycle needs. Costs of paths are 32 bit words; the shortest path theorem assumes at most 255 targets so that
  their sums do not wrap around. The MPR theorems assume that the offsets into the cost cache fit 32 bits, and that allocations of the selection succeed.
  Balances of tree nodes are unbounded integers; the invariant bounds them by one. The number of elements of a tree is a 32 bit word.

  \<^bold>\<open>Deviations.\<close> The tree of packet TLVs compares 32 bits at a 16 bit key in the code and is modelled in the order of the key. The originator
  pointer of an endpoint is read as the address it points to and the model records when it dangles.

  \<^bold>\<open>Not modelled.\<close> The event loop, sockets, timers and memory classes (\<^verbatim>\<open>src/base\<close>), system calls and netlink (\<^verbatim>\<open>os_linux\<close>), the layer-2 database,
  configuration and logging (\<^verbatim>\<open>libconfig\<close>, \<^verbatim>\<open>libcore\<close>): input, output and strings. The message generator and the registration half of the
  writer, the maintenance of the NHDP database and its metrics, the TC reader and writer, and the operating-system half of
  \<^verbatim>\<open>olsrv2_routing.c\<close>: protocol logic on top of the modelled parts, for later. DLEP, link metrics, authentication and the information plugins: separate protocols
  and user interfaces. Tests, applications and packaging.
\<close>

end
